(* ===== verification/Prelude.thy ===== *)
theory Prelude
  imports Main "HOL-Library.Word" "HOL-Library.Multiset" "HOL-Library.Signed_Division"
begin

unbundle bit_operations_syntax

section \<open>Shared vocabulary: results, machine integers, vectors\<close>

text \<open>
  What every component theory uses: the error values a C++ call can end in, the fallible
  result type with its bind, the machine integers of the source (\<open>int\<close> and \<open>long\<close> as
  two's complement values held in HOL \<open>int\<close>, the reduction to the width written out),
  and bounds-checked access to arrays and \<open>std::vector\<close>s. The collection
  \<open>result_simps\<close> inverts successful runs, \<open>machine_int\<close> removes reductions that
  cannot change a value that is in range.
\<close>

named_theorems result_simps \<open>inversion of successful fallible computations\<close>
named_theorems machine_int \<open>reductions to a machine width that are the identity in range\<close>

subsection \<open>Fallible computations\<close>

text \<open>
  A failed \<open>assert\<close>, a thrown \<open>std::exception\<close>, an access outside an array or vector and
  the use of a null pointer end a computation; each is a value of \<open>cpp_error\<close>. \<open>Diverges\<close> is
  the value of a loop that exceeds the bound its model gives it, and \<open>ProcessExit\<close> that of a call
  of \<open>exit\<close> or \<open>abort\<close>.
\<close>

datatype cpp_error = AssertionFailed | StdException | OutOfBounds | NullPointer | Diverges | ProcessExit

type_synonym 'a result = "cpp_error + 'a"

primrec bindE :: "'a result \<Rightarrow> ('a \<Rightarrow> 'b result) \<Rightarrow> 'b result" where
  "bindE (Inl e) f = Inl e"
| "bindE (Inr x) f = f x"

definition assertE :: "bool \<Rightarrow> unit result" where
  "assertE b = (if b then Inr () else Inl AssertionFailed)"

definition getE :: "'a list \<Rightarrow> int \<Rightarrow> 'a result" where
  "getE xs i = (if 0 \<le> i \<and> i < int (length xs) then Inr (xs ! nat i) else Inl OutOfBounds)"

definition setE :: "'a list \<Rightarrow> int \<Rightarrow> 'a \<Rightarrow> 'a list result" where
  "setE xs i v = (if 0 \<le> i \<and> i < int (length xs) then Inr (xs[nat i := v]) else Inl OutOfBounds)"

lemma bindE_cong [fundef_cong]:
  "m = m' \<Longrightarrow> (\<And>x. m' = Inr x \<Longrightarrow> f x = g x) \<Longrightarrow> bindE m f = bindE m' g"
  by (cases m') auto

lemma bindE_eq_Inr [result_simps]: "bindE m f = Inr y \<longleftrightarrow> (\<exists>x. m = Inr x \<and> f x = Inr y)"
  by (cases m) auto

lemma bindE_eq_Inl [result_simps]:
  "bindE m f = Inl e \<longleftrightarrow> m = Inl e \<or> (\<exists>x. m = Inr x \<and> f x = Inl e)"
  by (cases m) auto

lemma assertE_eq_Inr [result_simps]: "assertE b = Inr u \<longleftrightarrow> b"
  by (simp add: assertE_def)

lemma assertE_True [simp]: "assertE True = Inr ()"
  by (simp add: assertE_def)

lemma assertE_False [simp]: "assertE False = Inl AssertionFailed"
  by (simp add: assertE_def)

lemma getE_eq_Inr [result_simps]:
  "getE xs i = Inr v \<longleftrightarrow> 0 \<le> i \<and> i < int (length xs) \<and> v = xs ! nat i"
  by (auto simp: getE_def)

lemma setE_eq_Inr [result_simps]:
  "setE xs i v = Inr ys \<longleftrightarrow> 0 \<le> i \<and> i < int (length xs) \<and> ys = xs[nat i := v]"
  by (auto simp: setE_def)

lemma getE_nat [simp]: "n < length xs \<Longrightarrow> getE xs (int n) = Inr (xs ! n)"
  by (simp add: getE_def)

lemma setE_nat [simp]: "n < length xs \<Longrightarrow> setE xs (int n) v = Inr (xs[n := v])"
  by (simp add: setE_def)

text \<open>The same accesses where the source keeps the index non-negative.\<close>

definition getN :: "'a list \<Rightarrow> nat \<Rightarrow> 'a result" where
  "getN xs i = (if i < length xs then Inr (xs ! i) else Inl OutOfBounds)"

definition setN :: "'a list \<Rightarrow> nat \<Rightarrow> 'a \<Rightarrow> 'a list result" where
  "setN xs i v = (if i < length xs then Inr (xs[i := v]) else Inl OutOfBounds)"

lemma getN_eq_Inr [result_simps]: "getN xs i = Inr v \<longleftrightarrow> i < length xs \<and> v = xs ! i"
  by (auto simp: getN_def)

lemma setN_eq_Inr [result_simps]: "setN xs i v = Inr ys \<longleftrightarrow> i < length xs \<and> ys = xs[i := v]"
  by (auto simp: setN_def)

lemma getN_in [simp]: "i < length xs \<Longrightarrow> getN xs i = Inr (xs ! i)"
  by (simp add: getN_def)

lemma setN_in [simp]: "i < length xs \<Longrightarrow> setN xs i v = Inr (xs[i := v])"
  by (simp add: setN_def)

subsection \<open>Machine integers\<close>

text \<open>
  \<open>int\<close> is 32 bits and \<open>long\<close> 64 bits wide on the target. \<open>i32\<close> and \<open>i64\<close> reduce
  to the signed width, \<open>u32\<close> to the unsigned one. On \<open>int\<close>, \<open>drop_bit\<close> is the arithmetic
  right shift of the compiler and \<open>AND\<close>, \<open>OR\<close>, \<open>NOT\<close> are two's complement, so only left
  shifts, sums and products need a reduction.
\<close>

definition i32 :: "int \<Rightarrow> int" where
  "i32 x = signed_take_bit 31 x"

definition i64 :: "int \<Rightarrow> int" where
  "i64 x = signed_take_bit 63 x"

definition u32 :: "int \<Rightarrow> int" where
  "u32 x = take_bit 32 x"

definition u16 :: "int \<Rightarrow> int" where
  "u16 x = take_bit 16 x"

text \<open>\<open>a << n\<close> and \<open>a >> n\<close> on \<open>int\<close> operands; the shift counts of the source are never
  negative.\<close>

definition shl :: "int \<Rightarrow> int \<Rightarrow> int" where
  "shl a n = i32 (push_bit (nat n) a)"

definition shr :: "int \<Rightarrow> int \<Rightarrow> int" where
  "shr a n = drop_bit (nat n) a"

abbreviation INT_MAX :: int where "INT_MAX \<equiv> 2147483647"
abbreviation INT_MIN :: int where "INT_MIN \<equiv> - 2147483648"

lemma i32_id [machine_int]: "INT_MIN \<le> x \<Longrightarrow> x \<le> INT_MAX \<Longrightarrow> i32 x = x"
  by (simp add: i32_def signed_take_bit_int_eq_self)

lemma i64_id [machine_int]: "- (2 ^ 63) \<le> x \<Longrightarrow> x < 2 ^ 63 \<Longrightarrow> i64 x = x"
  by (simp add: i64_def signed_take_bit_int_eq_self)

lemma i64_int: "INT_MIN \<le> x \<Longrightarrow> x \<le> INT_MAX \<Longrightarrow> i64 x = x"
  by (simp add: i64_id)

lemma u32_id [machine_int]: "0 \<le> x \<Longrightarrow> x < 2 ^ 32 \<Longrightarrow> u32 x = x"
  by (simp add: u32_def take_bit_int_eq_self)

lemma u16_id [machine_int]: "0 \<le> x \<Longrightarrow> x < 2 ^ 16 \<Longrightarrow> u16 x = x"
  by (simp add: u16_def take_bit_int_eq_self)

lemma shl_eq [machine_int]: "0 \<le> a \<Longrightarrow> a * 2 ^ nat n \<le> INT_MAX \<Longrightarrow> shl a n = a * 2 ^ nat n"
  by (simp add: shl_def push_bit_eq_mult i32_id order_trans [of _ 0])

lemma shr_eq: "shr a n = a div 2 ^ nat n"
  by (simp add: shr_def drop_bit_eq_div)

lemma u32_bounds: "0 \<le> u32 x" "u32 x < 2 ^ 32"
  using take_bit_int_less_exp [of 32 x] by (simp_all add: u32_def)

lemma i32_bounds: "INT_MIN \<le> i32 x" "i32 x \<le> INT_MAX"
  using signed_take_bit_int_greater_eq_minus_exp [of 31 x] signed_take_bit_int_less_exp [of 31 x]
  by (simp_all add: i32_def)

lemma shift_right_eq_0_iff:
  "0 \<le> x \<Longrightarrow> drop_bit n x = 0 \<longleftrightarrow> x < 2 ^ n" for x :: int
  by (auto simp: drop_bit_eq_div zdiv_eq_0_iff)

lemma div_window:
  fixes x :: int
  assumes "0 < d"
  shows "x div d * d \<le> x" "x < (x div d + 1) * d"
proof -
  from assms have "0 \<le> x mod d" "x mod d < d" by simp_all
  moreover have "x div d * d + x mod d = x" by simp
  ultimately show "x div d * d \<le> x" "x < (x div d + 1) * d"
    by (simp_all only: distrib_right)
qed

subsection \<open>Objects behind pointers\<close>

text \<open>
  Objects that alias are kept in a store, a map from addresses; a pointer field is an
  optional address, \<open>None\<close> for \<open>nullptr\<close>.
\<close>

type_synonym 'a store = "nat \<Rightarrow> 'a option"

definition load :: "'a store \<Rightarrow> nat \<Rightarrow> 'a result" where
  "load h p = (case h p of None \<Rightarrow> Inl NullPointer | Some x \<Rightarrow> Inr x)"

definition deref :: "nat option \<Rightarrow> nat result" where
  "deref p = (case p of None \<Rightarrow> Inl NullPointer | Some a \<Rightarrow> Inr a)"

lemma load_eq_Inr [result_simps]: "load h p = Inr x \<longleftrightarrow> h p = Some x"
  by (simp add: load_def split: option.splits)

lemma deref_eq_Inr [result_simps]: "deref p = Inr a \<longleftrightarrow> p = Some a"
  by (simp add: deref_def split: option.splits)

lemma load_Some [simp]: "h p = Some x \<Longrightarrow> load h p = Inr x"
  by (simp add: load_def)

lemma deref_Some [simp]: "deref (Some a) = Inr a"
  by (simp add: deref_def)

end
