(* ===== verification/MathUtil.thy ===== *)
theory MathUtil
  imports Prelude
begin

section \<open>MathUtil: leading zeros, binary logarithm, next power of two\<close>

text \<open>
  The bit tricks of \<open>buffer/MathUtil.h\<close> that the size classes and the thread caches are
  computed with, and their arithmetic meaning.
\<close>

definition lz_step :: "nat \<Rightarrow> nat \<Rightarrow> int \<times> int \<Rightarrow> int \<times> int" where
  "lz_step s k nv =
     (let (n, val) = nv
      in if drop_bit s val = 0 then (n + int k, u32 (push_bit k val)) else (n, val))"

definition numberOfLeadingZeros :: "int \<Rightarrow> int" where
  "numberOfLeadingZeros signedVal =
     (let val = u32 signedVal
      in if val = 0 then 32
         else let (n, val) = lz_step 30 2 (lz_step 28 4 (lz_step 24 8 (lz_step 16 16 (1, val))))
              in n - drop_bit 31 val)"

definition log2 :: "int \<Rightarrow> int" where
  "log2 val = 31 - numberOfLeadingZeros val"

definition nextPowerofTwo :: "int \<Rightarrow> int" where
  "nextPowerofTwo val =
     (let val = i32 (val - 1);
          val = val OR drop_bit 1 val;
          val = val OR drop_bit 2 val;
          val = val OR drop_bit 4 val;
          val = val OR drop_bit 8 val;
          val = val OR drop_bit 16 val
      in i32 (val + 1))"

lemma lz_step_inv:
  assumes step: "lz_step s k (1 + int m, u * 2 ^ m) = (n', v')"
    and u: "0 < u" and hi: "u * 2 ^ m < 2 ^ 32" and lo: "2 ^ (s - k) \<le> u * 2 ^ m"
    and sk: "s + k = 32" "k \<le> s"
  obtains m' where "n' = 1 + int m'" "v' = u * 2 ^ m'" "2 ^ s \<le> v'" "v' < 2 ^ 32"
proof (cases "u * 2 ^ m < 2 ^ s")
  case True
  have "u * 2 ^ m * 2 ^ k < 2 ^ s * 2 ^ k"
    using True by simp
  then have "u * 2 ^ m * 2 ^ k < 2 ^ 32"
    using sk(1) by (simp flip: power_add)
  moreover have "2 ^ (s - k) * 2 ^ k \<le> u * 2 ^ m * 2 ^ k"
    using lo by simp
  then have "2 ^ s \<le> u * 2 ^ m * 2 ^ k"
    using sk(2) by (simp flip: power_add)
  moreover have "n' = 1 + int (m + k)" "v' = u * 2 ^ (m + k)"
    using step u True \<open>u * 2 ^ m * 2 ^ k < 2 ^ 32\<close>
    by (simp_all add: lz_step_def shift_right_eq_0_iff push_bit_eq_mult u32_id power_add mult.assoc)
  ultimately show ?thesis
    using that [of "m + k"] by (simp add: power_add mult.assoc)
next
  case False
  with step u hi show ?thesis
    by (intro that [of m]) (simp_all add: lz_step_def shift_right_eq_0_iff)
qed

lemma power_window:
  assumes "2 ^ e \<le> u * 2 ^ m" "u * 2 ^ m < 2 ^ Suc e" "0 < (u::int)"
  shows "m \<le> e" "2 ^ (e - m) \<le> u" "u < 2 * 2 ^ (e - m)"
proof -
  have "(2::int) ^ m \<le> u * 2 ^ m"
    using assms(3) by simp
  then have "(2::int) ^ m < 2 ^ Suc e"
    using assms(2) by linarith
  then show "m \<le> e"
    by (simp add: power_strict_increasing_iff del: power_Suc)
  then have e: "(2::int) ^ (e - m) * 2 ^ m = 2 ^ e"
    by (simp flip: power_add)
  have "2 ^ (e - m) * 2 ^ m \<le> u * 2 ^ m"
    unfolding e by (rule assms(1))
  then show "2 ^ (e - m) \<le> u" by simp
  have "u * 2 ^ m < 2 * (2 ^ (e - m) * 2 ^ m)"
    unfolding e using assms(2) by simp
  then have "u * 2 ^ m < (2 * 2 ^ (e - m)) * 2 ^ m"
    by (simp only: mult.assoc)
  then show "u < 2 * 2 ^ (e - m)" by simp
qed

lemma log2_window:
  assumes "u32 x = u" "0 < u"
  obtains e where "log2 x = int e" "2 ^ e \<le> u" "u < 2 * 2 ^ e" "e < 32"
proof -
  have u: "u < 2 ^ 32"
    using assms(1) u32_bounds by blast
  obtain n1 v1 where s1: "lz_step 16 16 (1, u) = (n1, v1)" by fastforce
  then obtain m1 where 1: "n1 = 1 + int m1" "v1 = u * 2 ^ m1" "2 ^ 16 \<le> v1" "v1 < 2 ^ 32"
    using lz_step_inv [of 16 16 0 u n1 v1] u assms(2) by auto
  obtain n2 v2 where s2: "lz_step 24 8 (n1, v1) = (n2, v2)" by fastforce
  then obtain m2 where 2: "n2 = 1 + int m2" "v2 = u * 2 ^ m2" "2 ^ 24 \<le> v2" "v2 < 2 ^ 32"
    using lz_step_inv [of 24 8 m1 u n2 v2] 1 assms(2) by auto
  obtain n3 v3 where s3: "lz_step 28 4 (n2, v2) = (n3, v3)" by fastforce
  then obtain m3 where 3: "n3 = 1 + int m3" "v3 = u * 2 ^ m3" "2 ^ 28 \<le> v3" "v3 < 2 ^ 32"
    using lz_step_inv [of 28 4 m2 u n3 v3] 2 assms(2) by auto
  obtain n4 v4 where s4: "lz_step 30 2 (n3, v3) = (n4, v4)" by fastforce
  then obtain m4 where 4: "n4 = 1 + int m4" "v4 = u * 2 ^ m4" "2 ^ 30 \<le> v4" "v4 < 2 ^ 32"
    using lz_step_inv [of 30 2 m3 u n4 v4] 3 assms(2) by auto
  have log: "log2 x = 30 - int m4 + drop_bit 31 v4"
    using assms s1 s2 s3 s4 4(1) by (simp add: log2_def numberOfLeadingZeros_def)
  show ?thesis
  proof (cases "v4 < 2 ^ 31")
    case True
    then have "drop_bit 31 v4 = 0"
      using 4(3) by (subst shift_right_eq_0_iff) auto
    with True 4 log power_window [of 30 u m4] assms(2) show ?thesis
      by (intro that [of "30 - m4"]) auto
  next
    case False
    then have "v4 div 2 ^ 31 = 1"
      using 4(4) by (intro int_div_pos_eq [where r = "v4 - 2 ^ 31"]) auto
    with False 4 log power_window [of 31 u m4] assms(2) show ?thesis
      by (intro that [of "31 - m4"]) (auto simp: drop_bit_eq_div)
  qed
qed

lemma power_window_unique:
  assumes "2 ^ d \<le> u" "u < 2 * 2 ^ d" "2 ^ e \<le> u" "u < 2 * (2 ^ e :: int)"
  shows "d = e"
proof -
  have "(2::int) ^ d < 2 ^ Suc e" "(2::int) ^ e < 2 ^ Suc d"
    using assms by simp_all
  then have "d < Suc e" "e < Suc d"
    by (simp_all add: power_strict_increasing_iff del: power_Suc)
  then show ?thesis by simp
qed

lemma log2_eqI:
  assumes "2 ^ e \<le> u32 x" "u32 x < 2 * 2 ^ e"
  shows "log2 x = int e"
proof -
  have "(0::int) < 2 ^ e" by simp
  with assms(1) have "0 < u32 x" by linarith
  then obtain d where "log2 x = int d" "2 ^ d \<le> u32 x" "u32 x < 2 * 2 ^ d"
    using log2_window by blast
  with assms power_window_unique show ?thesis by blast
qed

lemma smear_step:
  fixes x z :: int
  assumes "\<And>i. bit x i \<longleftrightarrow> (\<exists>j<n. bit z (i + j))"
  shows "bit (x OR drop_bit n x) i \<longleftrightarrow> (\<exists>j<2 * n. bit z (i + j))"
proof -
  have "bit (x OR drop_bit n x) i \<longleftrightarrow> (\<exists>j<n. bit z (i + j)) \<or> (\<exists>j<n. bit z (i + (n + j)))"
    using assms [of i] assms [of "n + i"] by (simp add: bit_or_iff bit_drop_bit_eq ac_simps)
  also have "\<dots> \<longleftrightarrow> (\<exists>j<2 * n. bit z (i + j))"
  proof (intro iffI)
    assume "\<exists>j<2 * n. bit z (i + j)"
    then obtain j where j: "j < 2 * n" "bit z (i + j)" by blast
    show "(\<exists>j<n. bit z (i + j)) \<or> (\<exists>j<n. bit z (i + (n + j)))"
    proof (cases "j < n")
      case True
      with j show ?thesis by blast
    next
      case False
      with j have "j - n < n" "bit z (i + (n + (j - n)))" by simp_all
      then show ?thesis by blast
    qed
  qed force
  finally show ?thesis .
qed

lemma bit_imp_less_of_less_power:
  fixes x :: int
  assumes "0 \<le> x" "x < 2 ^ n" "bit x i"
  shows "i < n"
proof (rule ccontr)
  assume "\<not> i < n"
  moreover have "take_bit n x = x"
    using assms by (simp add: take_bit_int_eq_self)
  ultimately show False
    using assms(3) by (metis bit_take_bit_iff)
qed

lemma bit_top_of_window:
  fixes x :: int
  assumes "2 ^ e \<le> x" "x < 2 * 2 ^ e"
  shows "bit x e"
proof -
  have "x div 2 ^ e = 1"
    using assms by (intro int_div_pos_eq [where r = "x - 2 ^ e"]) auto
  then show ?thesis by (simp add: bit_iff_odd)
qed

lemma nextPowerofTwo_eq:
  assumes "2 ^ e \<le> v - 1" "v - 1 < 2 * 2 ^ e" "e < 30"
  shows "nextPowerofTwo v = 2 * 2 ^ e"
proof -
  define x where "x = v - 1"
  define x1 where "x1 = x OR drop_bit 1 x"
  define x2 where "x2 = x1 OR drop_bit 2 x1"
  define x3 where "x3 = x2 OR drop_bit 4 x2"
  define x4 where "x4 = x3 OR drop_bit 8 x3"
  define y where "y = x4 OR drop_bit 16 x4"
  have x: "2 ^ e \<le> x" "x < 2 * 2 ^ e" using assms by (simp_all add: x_def)
  have pow: "(2::int) * 2 ^ e \<le> 2 ^ 30"
    using assms(3) power_increasing [of "Suc e" 30 "2::int"] by simp
  have "bit x i \<longleftrightarrow> (\<exists>j<1. bit x (i + j))" for i by simp
  then have "bit x1 i \<longleftrightarrow> (\<exists>j<2. bit x (i + j))" for i
    using smear_step [of x 1 x] by (simp add: x1_def)
  then have "bit x2 i \<longleftrightarrow> (\<exists>j<4. bit x (i + j))" for i
    using smear_step [of x1 2 x] by (simp add: x2_def)
  then have "bit x3 i \<longleftrightarrow> (\<exists>j<8. bit x (i + j))" for i
    using smear_step [of x2 4 x] by (simp add: x3_def)
  then have "bit x4 i \<longleftrightarrow> (\<exists>j<16. bit x (i + j))" for i
    using smear_step [of x3 8 x] by (simp add: x4_def)
  then have bits: "bit y i \<longleftrightarrow> (\<exists>j<32. bit x (i + j))" for i
    using smear_step [of x4 16 x] by (simp add: y_def)
  have "bit y i \<longleftrightarrow> i < Suc e" for i
  proof
    assume "bit y i"
    then obtain j where "bit x (i + j)" using bits by blast
    then have "i + j < Suc e"
      using x bit_imp_less_of_less_power [of x "Suc e" "i + j"] zero_le_power [of "2::int" e] by simp
    then show "i < Suc e" by simp
  next
    assume "i < Suc e"
    then show "bit y i"
      using bits [of i] bit_top_of_window [OF x] assms(3) by (auto intro!: exI [of _ "e - i"])
  qed
  then have "y = mask (Suc e)"
    by (simp add: bit_eq_iff bit_mask_iff)
  then have y: "y = 2 * 2 ^ e - 1"
    by (simp add: mask_eq_exp_minus_1)
  have "i32 (v - 1) = x"
    using x pow zero_le_power [of "2::int" e] by (simp add: x_def i32_id)
  then have "nextPowerofTwo v = i32 (y + 1)"
    by (simp add: nextPowerofTwo_def Let_def x1_def x2_def x3_def x4_def y_def)
  moreover have "i32 (2 * 2 ^ e) = 2 * 2 ^ e"
  proof (rule i32_id)
    show "2 * 2 ^ e \<le> INT_MAX" using pow by simp
    show "INT_MIN \<le> 2 * 2 ^ e" using zero_le_power [of "2::int" e] by linarith
  qed
  ultimately show ?thesis using y by simp
qed

text \<open>\<open>nextPowerofTwo\<close> rounds any capacity from 1 to \<open>2^30\<close> up to the least power of
  two that is not below it, so a thread cache queue bound is never smaller than configured
  and less than twice as large.\<close>

theorem nextPowerofTwo_least:
  assumes "1 \<le> v" "v \<le> 2 ^ 30"
  shows "\<exists>k. nextPowerofTwo v = 2 ^ k \<and> v \<le> nextPowerofTwo v \<and> nextPowerofTwo v < 2 * v"
proof (cases "v = 1")
  case True
  then have "nextPowerofTwo v = 1" by (simp add: nextPowerofTwo_def i32_def)
  with True show ?thesis by (intro exI [of _ 0]) simp
next
  case False
  then have "u32 (v - 1) = v - 1" "0 < v - 1" using assms by (simp_all add: u32_id)
  then obtain e where e: "2 ^ e \<le> v - 1" "v - 1 < 2 * 2 ^ e"
    using log2_window by metis
  then have "(2::int) ^ e < 2 ^ 30" using assms by linarith
  then have "e < 30" by (rule power_less_imp_less_exp [rotated]) simp
  with e nextPowerofTwo_eq show ?thesis by (intro exI [of _ "Suc e"]) auto
qed

text \<open>The size configured for small caches, and one that has to be rounded.\<close>

theorem nextPowerofTwo_least_witness:
  "(\<exists>k. nextPowerofTwo 256 = 2 ^ k \<and> 256 \<le> nextPowerofTwo 256 \<and> nextPowerofTwo 256 < 2 * 256)
   \<and> (\<exists>k. nextPowerofTwo 65 = 2 ^ k \<and> 65 \<le> nextPowerofTwo 65 \<and> nextPowerofTwo 65 < 2 * 65)"
  using nextPowerofTwo_least [of 256] nextPowerofTwo_least [of 65] by simp

end
