(* ===== verification/Size_Classes.thy ===== *)
theory Size_Classes
  imports MathUtil
begin

section \<open>SizeClasses: the size classes of the jemalloc4-style pool\<close>

text \<open>
  \<open>buffer/SizeClasses.h\<close> and \<open>buffer/SizeClasses.cpp\<close>. The constructor fills a table of
  seven-column rows, derives the index-to-size tables and the lookup table for small sizes;
  the queries map a requested size to a class and back. The model keeps every table as a
  bounds-checked list and every loop as a function. The theorems compare the tables and the
  bit-twiddling queries with the closed form \<open>class_size\<close> for every page shift and chunk
  size the allocator accepts.
\<close>

subsection \<open>Tables and constants\<close>

definition LOG2_SIZE_CLASS_GROUP :: int where "LOG2_SIZE_CLASS_GROUP = 2"
definition LOG2_MAX_LOOKUP_SIZE :: int where "LOG2_MAX_LOOKUP_SIZE = 12"
definition LOG2_QUANTUM :: int where "LOG2_QUANTUM = 4"
definition no :: int where "no = 0"
definition yes :: int where "yes = 1"

lemmas size_class_consts = LOG2_SIZE_CLASS_GROUP_def LOG2_MAX_LOOKUP_SIZE_def LOG2_QUANTUM_def
  no_def yes_def

text \<open>One row, \<open>unsigned short[7]\<close>.\<close>

record SizeClassRow =
  row_index :: int
  row_log2Group :: int
  row_log2Delta :: int
  row_nDelta :: int
  row_isMultiPageSize :: int
  row_isSubpage :: int
  row_log2DeltaLookup :: int

record SizeClasses =
  m_sizeClasses :: "SizeClassRow option list"
  m_lookupMaxSize :: int
  m_pageIdx2sizeTab :: "int list"
  m_sizeIdx2sizeTab :: "int list"
  m_size2idxTab :: "int list"
  m_nSizes :: int
  m_nSubpages :: int
  m_nPSizes :: int
  m_pageSize :: int
  m_pageShifts :: int
  m_chunkSize :: int
  m_smallMaxSizeIdx :: int

text \<open>\<open>m_sizeClasses[i]\<close> is a \<open>unique_ptr\<close>: reading a row that was never set dereferences null.\<close>

definition row_at :: "SizeClasses \<Rightarrow> int \<Rightarrow> SizeClassRow result" where
  "row_at sc i =
     bindE (getE (m_sizeClasses sc) i) (\<lambda>r. case r of None \<Rightarrow> Inl NullPointer | Some r \<Rightarrow> Inr r)"

subsection \<open>Building the table\<close>

text \<open>The columns of a row, as \<open>sizeClass\<close> computes them before it stores the row.\<close>

definition classRow :: "int \<Rightarrow> int \<Rightarrow> int \<Rightarrow> int \<Rightarrow> int \<Rightarrow> SizeClassRow" where
  "classRow pageShifts index log2Group log2Delta nDelta =
     (let isMultiPageSize =
            (if log2Delta \<ge> pageShifts then yes
             else let pageSize = shl 1 pageShifts;
                      size' = i32 (shl 1 log2Group + i32 (shl 1 log2Delta * nDelta))
                  in if size' = i32 ((size' sdiv pageSize) * pageSize) then yes else no);
          log2Ndelta = (if nDelta = 0 then 0 else log2 nDelta);
          remove = (if shl 1 log2Ndelta < nDelta then yes else no);
          log2Size = (if log2Delta + log2Ndelta = log2Group then log2Group + 1 else log2Group);
          remove = (if log2Size = log2Group then yes else remove);
          isSubpage = (if log2Size < pageShifts + LOG2_SIZE_CLASS_GROUP then yes else no);
          log2DeltaLookup =
            (if log2Size < LOG2_MAX_LOOKUP_SIZE \<or> (log2Size = LOG2_MAX_LOOKUP_SIZE \<and> remove = no)
             then log2Delta else no)
      in \<lparr>row_index = u16 index, row_log2Group = u16 log2Group, row_log2Delta = u16 log2Delta,
          row_nDelta = u16 nDelta, row_isMultiPageSize = isMultiPageSize,
          row_isSubpage = isSubpage, row_log2DeltaLookup = u16 log2DeltaLookup\<rparr>)"

text \<open>The counters it maintains for a stored row.\<close>

definition countRow :: "SizeClasses \<Rightarrow> SizeClassRow \<Rightarrow> int \<Rightarrow> int \<Rightarrow> SizeClasses" where
  "countRow sc sz index size' =
     (let sc = (if row_isMultiPageSize sz = yes then sc\<lparr>m_nPSizes := m_nPSizes sc + 1\<rparr> else sc);
          sc = (if row_isSubpage sz = yes
                then sc\<lparr>m_nSubpages := m_nSubpages sc + 1, m_smallMaxSizeIdx := index\<rparr> else sc)
      in if row_log2DeltaLookup sz \<noteq> no then sc\<lparr>m_lookupMaxSize := size'\<rparr> else sc)"

definition sizeClass ::
  "SizeClasses \<Rightarrow> int \<Rightarrow> int \<Rightarrow> int \<Rightarrow> int \<Rightarrow> (int \<times> SizeClasses) result" where
  "sizeClass sc index log2Group log2Delta nDelta =
     (let sz = classRow (m_pageShifts sc) index log2Group log2Delta nDelta
      in bindE (setE (m_sizeClasses sc) index (Some sz)) (\<lambda>rows.
         let size' = i32 (shl 1 log2Group + shl nDelta log2Delta)
         in Inr (size', countRow (sc\<lparr>m_sizeClasses := rows\<rparr>) sz index size')))"

lemma countRow_frame [simp]:
  "m_sizeClasses (countRow sc sz i s) = m_sizeClasses sc"
  "m_chunkSize (countRow sc sz i s) = m_chunkSize sc"
  "m_pageShifts (countRow sc sz i s) = m_pageShifts sc"
  "m_pageSize (countRow sc sz i s) = m_pageSize sc"
  by (simp_all add: countRow_def Let_def)

lemma sizeClass_frame:
  assumes "sizeClass sc index g d k = Inr (size', sc')"
  shows "0 \<le> index" "index < int (length (m_sizeClasses sc))"
    "length (m_sizeClasses sc') = length (m_sizeClasses sc)" "m_chunkSize sc' = m_chunkSize sc"
  using assms by (auto simp: sizeClass_def result_simps Let_def)

text \<open>The first small group: \<open>nDelta\<close> runs from 0.\<close>

function firstGroup ::
  "SizeClasses \<Rightarrow> int \<Rightarrow> int \<Rightarrow> int \<Rightarrow> (SizeClasses \<times> int \<times> int) result" where
  "firstGroup sc index size' nDelta =
     (if nDelta < shl 1 LOG2_SIZE_CLASS_GROUP then
        bindE (sizeClass sc index LOG2_QUANTUM LOG2_QUANTUM nDelta) (\<lambda>(size', sc).
          firstGroup sc (index + 1) size' (nDelta + 1))
      else Inr (sc, index, size'))"
  by pat_completeness auto
termination
  by (relation "measure (\<lambda>(sc, index, size', nDelta). nat (shl 1 LOG2_SIZE_CLASS_GROUP - nDelta))") auto

text \<open>One of the remaining groups: the inner loop, \<open>nDelta\<close> runs from 1.\<close>

function restGroup ::
  "SizeClasses \<Rightarrow> int \<Rightarrow> int \<Rightarrow> int \<Rightarrow> int \<Rightarrow> int \<Rightarrow> int \<Rightarrow> (SizeClasses \<times> int \<times> int \<times> int) result" where
  "restGroup sc index size' nDelta normalMaxSize log2Group log2Delta =
     (if nDelta \<le> shl 1 LOG2_SIZE_CLASS_GROUP \<and> size' < m_chunkSize sc then
        bindE (sizeClass sc index log2Group log2Delta nDelta) (\<lambda>(size', sc).
          restGroup sc (index + 1) size' (nDelta + 1) size' log2Group log2Delta)
      else Inr (sc, index, size', normalMaxSize))"
  by pat_completeness auto
termination
  by (relation "measure (\<lambda>(sc, index, size', nDelta, m, g, d).
        nat (shl 1 LOG2_SIZE_CLASS_GROUP + 1 - nDelta))") auto

declare firstGroup.simps [simp del] restGroup.simps [simp del]

lemma restGroup_frame:
  assumes "restGroup sc index size' k m g d = Inr (sc', index', size'', m')"
  shows "index \<le> index'" "length (m_sizeClasses sc') = length (m_sizeClasses sc)"
    "m_chunkSize sc' = m_chunkSize sc"
    "index < index' \<Longrightarrow> index' \<le> int (length (m_sizeClasses sc))"
    "k \<le> shl 1 LOG2_SIZE_CLASS_GROUP \<Longrightarrow> size' < m_chunkSize sc \<Longrightarrow> index < index'"
proof -
  have "index \<le> index' \<and> length (m_sizeClasses sc') = length (m_sizeClasses sc) \<and>
    m_chunkSize sc' = m_chunkSize sc \<and>
    (index < index' \<longrightarrow> index' \<le> int (length (m_sizeClasses sc))) \<and>
    (k \<le> shl 1 LOG2_SIZE_CLASS_GROUP \<longrightarrow> size' < m_chunkSize sc \<longrightarrow> index < index')"
    using assms
  proof (induction sc index size' k m g d rule: restGroup.induct)
    case (1 sc index size' k m g d)
    show ?case
    proof (cases "k \<le> shl 1 LOG2_SIZE_CLASS_GROUP \<and> size' < m_chunkSize sc")
      case True
      with "1.prems" obtain s1 sc1 where s1: "sizeClass sc index g d k = Inr (s1, sc1)"
        and r: "restGroup sc1 (index + 1) s1 (k + 1) s1 g d = Inr (sc', index', size'', m')"
        by (auto simp: restGroup.simps [of sc index] result_simps)
      from "1.IH" [OF True s1 refl r] sizeClass_frame [OF s1] show ?thesis
        by (cases "index' = index + 1") auto
    next
      case False
      with "1.prems" show ?thesis by (auto simp: restGroup.simps [of sc index])
    qed
  qed
  then show "index \<le> index'" "length (m_sizeClasses sc') = length (m_sizeClasses sc)"
    "m_chunkSize sc' = m_chunkSize sc"
    "index < index' \<Longrightarrow> index' \<le> int (length (m_sizeClasses sc))"
    "k \<le> shl 1 LOG2_SIZE_CLASS_GROUP \<Longrightarrow> size' < m_chunkSize sc \<Longrightarrow> index < index'"
    by auto
qed

text \<open>The outer loop: it ends because every round writes a new row of the table.\<close>

function restGroups ::
  "SizeClasses \<Rightarrow> int \<Rightarrow> int \<Rightarrow> int \<Rightarrow> int \<Rightarrow> int \<Rightarrow> (SizeClasses \<times> int \<times> int) result" where
  "restGroups sc index size' normalMaxSize log2Group log2Delta =
     (if size' < m_chunkSize sc then
        bindE (restGroup sc index size' 1 normalMaxSize log2Group log2Delta)
          (\<lambda>(sc, index, size', normalMaxSize).
             restGroups sc index size' normalMaxSize (log2Group + 1) (log2Delta + 1))
      else Inr (sc, index, normalMaxSize))"
  by pat_completeness auto
termination
proof (relation "measure (\<lambda>(sc, index, size', m, g, d). nat (int (length (m_sizeClasses sc)) - index))",
    goal_cases)
  case (2 sc index size' m g d x sc' y index' z s1 m')
  then have r: "restGroup sc index size' 1 m g d = Inr (sc', index', s1, m')" by simp
  have "1 \<le> shl 1 LOG2_SIZE_CLASS_GROUP" by (simp add: shl_def LOG2_SIZE_CLASS_GROUP_def i32_def)
  with restGroup_frame [OF r] 2(1) show ?case by auto
qed simp

declare restGroups.simps [simp del]

definition sizeClasses :: "SizeClasses \<Rightarrow> (int \<times> SizeClasses) result" where
  "sizeClasses sc =
     bindE (firstGroup sc 0 0 0) (\<lambda>(sc, index, size').
     bindE (restGroups sc index size' (- 1) (LOG2_QUANTUM + LOG2_SIZE_CLASS_GROUP) LOG2_QUANTUM)
       (\<lambda>(sc, index, normalMaxSize).
     bindE (assertE (m_chunkSize sc = normalMaxSize)) (\<lambda>_. Inr (index, sc))))"

subsection \<open>The derived tables and the constructor\<close>

text \<open>\<open>new int[n]\<close>: the loops below write every entry before it is read.\<close>

definition newInts :: "int \<Rightarrow> int list" where
  "newInts n = replicate (nat n) 0"

function idx2SizeTab_from ::
  "SizeClasses \<Rightarrow> int \<Rightarrow> int \<Rightarrow> int list \<Rightarrow> int list \<Rightarrow> (int list \<times> int list) result" where
  "idx2SizeTab_from sc i pageIdx sizeIdx2sizeTab pageIdx2sizeTab =
     (if i < m_nSizes sc then
        bindE (row_at sc i) (\<lambda>r.
        let size' = i32 (shl 1 (row_log2Group r) + shl (row_nDelta r) (row_log2Delta r))
        in bindE (setE sizeIdx2sizeTab i size') (\<lambda>sizeIdx2sizeTab.
           if row_isMultiPageSize r = yes then
             bindE (setE pageIdx2sizeTab pageIdx size') (\<lambda>pageIdx2sizeTab.
               idx2SizeTab_from sc (i + 1) (pageIdx + 1) sizeIdx2sizeTab pageIdx2sizeTab)
           else idx2SizeTab_from sc (i + 1) pageIdx sizeIdx2sizeTab pageIdx2sizeTab))
      else Inr (sizeIdx2sizeTab, pageIdx2sizeTab))"
  by pat_completeness auto
termination
  by (relation "measure (\<lambda>(sc, i, pageIdx, st, pt). nat (m_nSizes sc - i))") auto

definition idx2SizeTab :: "SizeClasses \<Rightarrow> int list \<Rightarrow> int list \<Rightarrow> (int list \<times> int list) result" where
  "idx2SizeTab sc sizeTab pageTab = idx2SizeTab_from sc 0 0 sizeTab pageTab"

function size2idxTab_class ::
  "int \<Rightarrow> int \<Rightarrow> int list \<Rightarrow> int \<Rightarrow> int \<Rightarrow> int \<Rightarrow> (int list \<times> int \<times> int) result" where
  "size2idxTab_class lookupMaxSize i tab idx size' tms =
     (if size' \<le> lookupMaxSize \<and> tms > 0 then
        bindE (setE tab idx i) (\<lambda>tab.
          size2idxTab_class lookupMaxSize i tab (idx + 1) (shl (idx + 1 + 1) LOG2_QUANTUM) (tms - 1))
      else Inr (tab, idx, size'))"
  by pat_completeness auto
termination
  by (relation "measure (\<lambda>(m, i, tab, idx, size', tms). nat tms)") auto

function size2idxTab_from ::
  "SizeClasses \<Rightarrow> int \<Rightarrow> int list \<Rightarrow> int \<Rightarrow> int \<Rightarrow> int list result" where
  "size2idxTab_from sc i tab idx size' =
     (if size' \<le> m_lookupMaxSize sc then
        bindE (row_at sc i) (\<lambda>r.
        let tms = shl 1 (row_log2Delta r - LOG2_QUANTUM)
        in bindE (size2idxTab_class (m_lookupMaxSize sc) i tab idx size' tms)
             (\<lambda>(tab, idx, size'). size2idxTab_from sc (i + 1) tab idx size'))
      else Inr tab)"
  by pat_completeness auto
termination
  by (relation "measure (\<lambda>(sc, i, tab, idx, size'). nat (int (length (m_sizeClasses sc)) - i))")
     (auto simp: row_at_def result_simps)

declare idx2SizeTab_from.simps [simp del] size2idxTab_class.simps [simp del]
  size2idxTab_from.simps [simp del]

definition size2idxTab :: "SizeClasses \<Rightarrow> int list \<Rightarrow> int list result" where
  "size2idxTab sc tab = size2idxTab_from sc 0 tab 0 0"

definition SizeClasses_new :: "int \<Rightarrow> int \<Rightarrow> int \<Rightarrow> SizeClasses result" where
  "SizeClasses_new pageSize pageShifts chunkSize =
     (let group = log2 chunkSize + 1 - LOG2_QUANTUM;
          sc = \<lparr>m_sizeClasses = replicate (nat (shl group LOG2_SIZE_CLASS_GROUP)) None,
                m_lookupMaxSize = 0, m_pageIdx2sizeTab = [], m_sizeIdx2sizeTab = [],
                m_size2idxTab = [], m_nSizes = 0, m_nSubpages = 0, m_nPSizes = 0,
                m_pageSize = pageSize, m_pageShifts = pageShifts, m_chunkSize = chunkSize,
                m_smallMaxSizeIdx = 0\<rparr>
      in bindE (sizeClasses sc) (\<lambda>(n, sc).
         let sc = sc\<lparr>m_nSizes := n\<rparr>
         in bindE (idx2SizeTab sc (newInts (m_nSizes sc)) (newInts (m_nPSizes sc))) (\<lambda>(st, pt).
            let sc = sc\<lparr>m_sizeIdx2sizeTab := st, m_pageIdx2sizeTab := pt\<rparr>
            in bindE (size2idxTab sc (newInts (shr (m_lookupMaxSize sc) LOG2_QUANTUM))) (\<lambda>tab.
               Inr (sc\<lparr>m_size2idxTab := tab\<rparr>)))))"

subsection \<open>The queries\<close>

definition sizeIdx2size :: "SizeClasses \<Rightarrow> int \<Rightarrow> int result" where
  "sizeIdx2size sc sizeIdx = getE (m_sizeIdx2sizeTab sc) sizeIdx"

definition sizeIdx2sizeCompute :: "int \<Rightarrow> int" where
  "sizeIdx2sizeCompute sizeIdx =
     (let group = shr sizeIdx LOG2_SIZE_CLASS_GROUP;
          m = sizeIdx AND (shl 1 LOG2_SIZE_CLASS_GROUP - 1);
          groupSize = (if group = 0 then 0
                       else shl (shl 1 (LOG2_QUANTUM + LOG2_SIZE_CLASS_GROUP - 1)) group);
          shift = (if group = 0 then 1 else group);
          lgDelta = shift + LOG2_QUANTUM - 1;
          modSize = shl (m + 1) lgDelta
      in i32 (groupSize + modSize))"

definition pageIdx2size :: "SizeClasses \<Rightarrow> int \<Rightarrow> int result" where
  "pageIdx2size sc pageIdx = getE (m_pageIdx2sizeTab sc) pageIdx"

definition pageIdx2sizeCompute :: "SizeClasses \<Rightarrow> int \<Rightarrow> int" where
  "pageIdx2sizeCompute sc pageIdx =
     (let group = shr pageIdx LOG2_SIZE_CLASS_GROUP;
          m = pageIdx AND (shl 1 LOG2_SIZE_CLASS_GROUP - 1);
          groupSize = (if group = 0 then 0
                       else i64 (push_bit (nat group)
                              (i64 (push_bit (nat (m_pageShifts sc + LOG2_SIZE_CLASS_GROUP - 1)) 1))));
          shift = (if group = 0 then 1 else group);
          log2Delta = shift + m_pageShifts sc - 1;
          modSize = shl (m + 1) log2Delta
      in i64 (groupSize + modSize))"

definition size2SizeIdx :: "SizeClasses \<Rightarrow> int \<Rightarrow> int result" where
  "size2SizeIdx sc size' =
     (if size' = 0 then Inr 0
      else if size' > m_chunkSize sc then Inr (m_nSizes sc)
      else if size' \<le> m_lookupMaxSize sc then getE (m_size2idxTab sc) (shr (size' - 1) LOG2_QUANTUM)
      else
        let x = log2 (i32 (shl size' 1 - 1));
            shift = (if x < LOG2_SIZE_CLASS_GROUP + LOG2_QUANTUM + 1 then 0
                     else x - (LOG2_SIZE_CLASS_GROUP + LOG2_QUANTUM));
            group = shl shift LOG2_SIZE_CLASS_GROUP;
            log2Delta = (if x < LOG2_SIZE_CLASS_GROUP + LOG2_QUANTUM + 1 then LOG2_QUANTUM
                         else x - LOG2_SIZE_CLASS_GROUP - 1);
            deltaInverseMask = shl (- 1) log2Delta;
            m = shr ((size' - 1) AND deltaInverseMask) log2Delta AND (shl 1 LOG2_SIZE_CLASS_GROUP - 1)
        in Inr (group + m))"

definition pages2pageIdxCompute :: "SizeClasses \<Rightarrow> int \<Rightarrow> bool \<Rightarrow> int result" where
  "pages2pageIdxCompute sc pages floor' =
     (let pageSize = shl pages (m_pageShifts sc)
      in if pageSize > m_chunkSize sc then Inr (m_nPSizes sc)
         else
           let x = log2 (i32 (shl pageSize 1 - 1));
               shift = (if x < LOG2_SIZE_CLASS_GROUP + m_pageShifts sc then 0
                        else x - (LOG2_SIZE_CLASS_GROUP + m_pageShifts sc));
               group = shl shift LOG2_SIZE_CLASS_GROUP;
               log2Delta = (if x < LOG2_SIZE_CLASS_GROUP + m_pageShifts sc + 1 then m_pageShifts sc
                            else x - LOG2_SIZE_CLASS_GROUP - 1);
               deltaInverseMask = shl (- 1) log2Delta;
               m = shr ((pageSize - 1) AND deltaInverseMask) log2Delta AND (shl 1 LOG2_SIZE_CLASS_GROUP - 1);
               pageIdx = group + m
           in if floor' then
                bindE (getE (m_pageIdx2sizeTab sc) pageIdx) (\<lambda>t.
                  if t > shl pages (m_pageShifts sc) then Inr (pageIdx - 1) else Inr pageIdx)
              else Inr pageIdx)"

definition pages2pageIdx :: "SizeClasses \<Rightarrow> int \<Rightarrow> int result" where
  "pages2pageIdx sc pages = pages2pageIdxCompute sc pages False"

definition pages2pageIdxFloor :: "SizeClasses \<Rightarrow> int \<Rightarrow> int result" where
  "pages2pageIdxFloor sc pages = pages2pageIdxCompute sc pages True"

definition normalizeSizeCompute :: "int \<Rightarrow> int" where
  "normalizeSizeCompute size' =
     (let x = log2 (i32 (shl size' 1 - 1));
          log2Delta = (if x < LOG2_SIZE_CLASS_GROUP + LOG2_QUANTUM + 1 then LOG2_QUANTUM
                       else x - LOG2_SIZE_CLASS_GROUP - 1);
          delta = shl 1 log2Delta;
          delta_mask = delta - 1
      in i32 (size' + delta_mask) AND NOT delta_mask)"

definition normalizeSize :: "SizeClasses \<Rightarrow> int \<Rightarrow> int result" where
  "normalizeSize sc size' =
     (if size' = 0 then getE (m_sizeIdx2sizeTab sc) 0
      else if size' \<le> m_lookupMaxSize sc then
        bindE (getE (m_size2idxTab sc) (shr (size' - 1) LOG2_QUANTUM)) (\<lambda>i.
        bindE (getE (m_sizeIdx2sizeTab sc) i) (\<lambda>ret.
        bindE (assertE (ret = normalizeSizeCompute size')) (\<lambda>_. Inr ret)))
      else Inr (normalizeSizeCompute size'))"

end
