(* ===== verification/Size_Class_Laws.thy ===== *)
theory Size_Class_Laws
  imports Size_Classes
begin

section \<open>SizeClasses: correctness of the tables and of the size queries\<close>

text \<open>
  The closed form \<open>class_size b i\<close> of the i-th class of a family whose smallest class is
  \<open>2 ^ b\<close>: \<open>b = 4\<close> gives the size classes, \<open>b = pageShifts\<close> the page classes. The first part
  shows that the queries, which work on the bits of the request, compute the least class that
  is large enough; the second part runs the constructor and shows that its tables hold the
  closed form.
\<close>

subsection \<open>The closed form\<close>

definition class_size :: "nat \<Rightarrow> nat \<Rightarrow> int" where
  "class_size b i = (if i < 4 then (int i + 1) * 2 ^ b else (int (i mod 4) + 5) * 2 ^ (b + i div 4 - 1))"

lemma class_size_small [simp]: "i < 4 \<Longrightarrow> class_size b i = (int i + 1) * 2 ^ b"
  by (simp add: class_size_def)

lemma class_size_group:
  assumes "r < 4"
  shows "class_size b (4 * Suc g + r) = (int r + 5) * 2 ^ (b + g)"
proof -
  have "(4 * Suc g + r) mod 4 = r" "(4 * Suc g + r) div 4 = Suc g"
    using assms by presburger+
  then show ?thesis by (simp only: class_size_def) simp
qed

lemma class_size_group_norm [simp]:
  "r < 4 \<Longrightarrow> class_size b (4 + 4 * g + r) = (int r + 5) * 2 ^ (b + g)"
  using class_size_group [of r b g] by simp

lemma index_cases:
  obtains (small) "i < 4" | (group) g r where "r < 4" "i = 4 * Suc g + r"
proof (cases "i < 4")
  case False
  then have "i = 4 * Suc (i div 4 - 1) + i mod 4" by simp
  with group [of "i mod 4" "i div 4 - 1"] show ?thesis by simp
qed (use small in simp)

lemma class_size_Suc: "class_size b i < class_size b (Suc i)"
proof (cases i rule: index_cases)
  case small
  show ?thesis
  proof (cases "i = 3")
    case True
    then show ?thesis using class_size_group [of 0 b 0] by simp
  qed (use small in simp)
next
  case (group g r)
  show ?thesis
  proof (cases "r = 3")
    case True
    then show ?thesis
      using group class_size_group [of 0 b "Suc g"] class_size_group [of 3 b g]
      by (simp add: eval_nat_numeral)
  next
    case False
    then show ?thesis
      using group class_size_group [of "Suc r" b g] class_size_group [of r b g] by simp
  qed
qed

lemma class_size_strict: "i < j \<Longrightarrow> class_size b i < class_size b j"
  by (rule lift_Suc_mono_less [of "class_size b"]) (rule class_size_Suc)

lemma class_size_less_iff [simp]: "class_size b i < class_size b j \<longleftrightarrow> i < j"
  by (metis class_size_strict linorder_neqE_nat order_less_asym)

lemma class_size_le_iff [simp]: "class_size b i \<le> class_size b j \<longleftrightarrow> i \<le> j"
  by (metis class_size_less_iff linorder_not_le)

lemma class_size_pos [simp]: "0 < class_size b i"
  by (simp add: class_size_def)

lemma class_size_top: "class_size b (4 * q + 3) = 2 ^ (b + q + 2)"
  by (cases q) (simp_all add: class_size_def)

text \<open>\<open>best_class b i s\<close>: class \<open>i\<close> is the least class of the family that holds \<open>s\<close> bytes.\<close>

definition best_class :: "nat \<Rightarrow> nat \<Rightarrow> int \<Rightarrow> bool" where
  "best_class b i s \<longleftrightarrow> s \<le> class_size b i \<and> (\<forall>j<i. class_size b j < s)"

lemma best_class_prevI:
  "s \<le> class_size b i \<Longrightarrow> (i = 0 \<or> class_size b (i - 1) < s) \<Longrightarrow> best_class b i s"
  unfolding best_class_def
  by (metis Suc_diff_1 class_size_le_iff bot_nat_0.not_eq_extremum less_Suc_eq_le less_nat_zero_code
      order_le_less_trans)

lemma best_class_unique: "best_class b i s \<Longrightarrow> best_class b j s \<Longrightarrow> i = j"
  unfolding best_class_def by (metis linorder_neqE_nat linorder_not_less)

lemma best_class_bound:
  assumes "best_class b i s" "s \<le> class_size b k"
  shows "i \<le> k"
  using assms unfolding best_class_def by (metis linorder_not_less order.strict_trans1 order_less_irrefl)

text \<open>
  The two branches of the queries. With \<open>2 ^ x\<close> the next power of two above \<open>s\<close>, the last two
  bits of \<open>(s - 1) >> log2Delta\<close> select the class within its group.
\<close>

lemma best_class_first_group:
  assumes "0 < s" "s \<le> 2 ^ (b + 2)"
  shows "best_class b (nat ((s - 1) div 2 ^ b)) s" "(s - 1) div 2 ^ b mod 4 = (s - 1) div 2 ^ b"
    "0 \<le> (s - 1) div 2 ^ b" "(s - 1) div 2 ^ b < 4"
proof -
  define q where "q = (s - 1) div 2 ^ b"
  have q: "q * 2 ^ b \<le> s - 1" "s - 1 < (q + 1) * 2 ^ b"
    using div_window [of "2 ^ b" "s - 1"] by (simp_all add: q_def)
  have "0 \<le> q" using assms by (simp add: q_def pos_imp_zdiv_nonneg_iff)
  have "(2::int) ^ (b + 2) = 4 * 2 ^ b" by (simp add: power_add)
  with q(1) assms have "q * 2 ^ b < 4 * 2 ^ b" by linarith
  then have "q < 4" by simp
  show "0 \<le> (s - 1) div 2 ^ b" "(s - 1) div 2 ^ b < 4" "(s - 1) div 2 ^ b mod 4 = (s - 1) div 2 ^ b"
    using \<open>0 \<le> q\<close> \<open>q < 4\<close> by (simp_all add: q_def)
  have "best_class b (nat q) s"
  proof (rule best_class_prevI)
    show "s \<le> class_size b (nat q)" using q \<open>0 \<le> q\<close> \<open>q < 4\<close> by simp
    show "nat q = 0 \<or> class_size b (nat q - 1) < s"
    proof (cases "q = 0")
      case False
      then have "int (nat q - 1) + 1 = q" using \<open>0 \<le> q\<close> by simp
      moreover have "class_size b (nat q - 1) = (int (nat q - 1) + 1) * 2 ^ b"
        using \<open>q < 4\<close> by simp
      ultimately have "class_size b (nat q - 1) = q * 2 ^ b" by simp
      then show ?thesis using q(1) by simp
    qed simp
  qed
  then show "best_class b (nat ((s - 1) div 2 ^ b)) s" by (simp add: q_def)
qed

lemma best_class_other_group:
  assumes "2 ^ (b + g + 2) < s" "s \<le> 2 ^ (b + g + 3)"
  defines "q \<equiv> (s - 1) div 2 ^ (b + g)"
  shows "best_class b (nat (4 * (int g + 1) + q mod 4)) s"
    "class_size b (nat (4 * (int g + 1) + q mod 4)) = (q + 1) * 2 ^ (b + g)"
proof -
  have q: "q * 2 ^ (b + g) \<le> s - 1" "s - 1 < (q + 1) * 2 ^ (b + g)"
    using div_window [of "2 ^ (b + g)" "s - 1"] by (simp_all add: q_def)
  have pw: "(2::int) ^ (b + g + 3) = 8 * 2 ^ (b + g)" "(2::int) ^ (b + g + 2) = 4 * 2 ^ (b + g)"
    by (simp_all add: power_add)
  have "q * 2 ^ (b + g) < 8 * 2 ^ (b + g)" using q(1) assms(2) pw by linarith
  then have "q < 8" by (simp only: mult_less_cancel_right_pos zero_less_power zero_less_numeral)
  have "4 * 2 ^ (b + g) < (q + 1) * 2 ^ (b + g)" using q(2) assms(1) pw by linarith
  then have "4 < q + 1" by (simp only: mult_less_cancel_right_pos zero_less_power zero_less_numeral)
  define r where "r = nat (q - 4)"
  have r: "q = int r + 4" "r < 4" using \<open>q < 8\<close> \<open>4 < q + 1\<close> by (auto simp: r_def)
  have idx: "nat (4 * (int g + 1) + q mod 4) = 4 * Suc g + r" using r by simp
  show size: "class_size b (nat (4 * (int g + 1) + q mod 4)) = (q + 1) * 2 ^ (b + g)"
    unfolding idx class_size_group [OF r(2)] using r(1) by simp
  show "best_class b (nat (4 * (int g + 1) + q mod 4)) s"
  proof (rule best_class_prevI)
    show "s \<le> class_size b (nat (4 * (int g + 1) + q mod 4))" using q(2) by (simp only: size)
    have "class_size b (4 * Suc g + r - 1) = q * 2 ^ (b + g)"
    proof (cases r)
      case 0
      then show ?thesis using class_size_top [of b g] r by (simp add: power_add add.commute)
    next
      case (Suc r')
      then show ?thesis using class_size_group [of r' b g] r by (simp add: add_ac)
    qed
    then show "nat (4 * (int g + 1) + q mod 4) = 0
        \<or> class_size b (nat (4 * (int g + 1) + q mod 4) - 1) < s"
      unfolding idx using q(1) by simp
  qed
qed

subsection \<open>The queries on correct tables\<close>

definition sc_ok :: "nat \<Rightarrow> nat \<Rightarrow> SizeClasses \<Rightarrow> bool" where
  "sc_ok ps n sc \<longleftrightarrow>
     12 \<le> ps \<and> ps + 2 \<le> n \<and> 13 \<le> n \<and> n \<le> 29 \<and>
     m_pageShifts sc = int ps \<and> m_pageSize sc = 2 ^ ps \<and> m_chunkSize sc = 2 ^ n \<and>
     m_nSizes sc = 4 * (int n - 5) \<and> m_nPSizes sc = 4 * (int n - int ps - 1) \<and>
     m_lookupMaxSize sc = 4096 \<and>
     m_sizeIdx2sizeTab sc = map (class_size 4) [0..<4 * (n - 5)] \<and>
     m_pageIdx2sizeTab sc = map (class_size ps) [0..<4 * (n - ps - 1)] \<and>
     length (m_size2idxTab sc) = 256 \<and>
     (\<forall>j<256. \<exists>i<28. m_size2idxTab sc ! j = int i \<and> best_class 4 i (16 * (int j + 1)))"

lemma ceil_log2:
  assumes "0 < s" "s \<le> 2 ^ 29"
  obtains x where "log2 (i32 (shl s 1 - 1)) = int x" "s \<le> 2 ^ x" "2 ^ x < 2 * s" "x < 30"
proof -
  have b: "s \<le> 536870912" using assms by simp
  have "shl s 1 = 2 * s" using assms b by (simp add: machine_int)
  then have eq: "i32 (shl s 1 - 1) = 2 * s - 1" using assms b by (simp add: machine_int)
  have "u32 (2 * s - 1) = 2 * s - 1" using assms b by (simp add: machine_int)
  then obtain e where e: "log2 (2 * s - 1) = int e" "2 ^ e \<le> 2 * s - 1" "2 * s - 1 < 2 * 2 ^ e"
    by (rule log2_window) (use assms in simp)
  have "(2::int) ^ e < 2 ^ 30" using e(2) b by simp
  then have "e < 30" by (rule power_less_imp_less_exp [rotated]) simp
  with e eq that [of e] show ?thesis by simp
qed

lemma class_bits:
  assumes "d \<le> 31"
  shows "shr (x AND shl (- 1) (int d)) (int d) AND (shl 1 LOG2_SIZE_CLASS_GROUP - 1) = x div 2 ^ d mod 4"
proof -
  have "(2::int) ^ d \<le> 2 ^ 31" using assms by (rule power_increasing) simp
  then have "shl (- 1) (int d) = push_bit d (- 1)"
    by (simp add: shl_def push_bit_eq_mult i32_id order_trans [of _ 0])
  then have "shr (x AND shl (- 1) (int d)) (int d) = drop_bit d x"
    by (simp add: shr_def) (rule bit_eqI, auto simp: bit_simps)
  moreover have "shl 1 LOG2_SIZE_CLASS_GROUP - 1 = mask 2"
    by (simp add: LOG2_SIZE_CLASS_GROUP_def machine_int mask_eq_exp_minus_1)
  ultimately show ?thesis
    by (simp add: drop_bit_eq_div flip: take_bit_eq_mask) (simp add: take_bit_eq_mod)
qed

text \<open>A request window above the first group, written with the exponent the code computes.\<close>

lemma best_class_window:
  assumes "s \<le> 2 ^ x" "2 ^ x < 2 * s" "b + 3 \<le> x"
  defines "i \<equiv> 4 * (int x - int b - 2) + (s - 1) div 2 ^ (x - 3) mod 4"
  shows "best_class b (nat i) s" "0 \<le> i"
    "class_size b (nat i) = ((s - 1) div 2 ^ (x - 3) + 1) * 2 ^ (x - 3)"
proof -
  define g where "g = x - b - 3"
  have x: "x = b + g + 3" using assms(3) by (simp add: g_def)
  have "2 ^ (b + g + 2) < s" using assms(2) by (simp add: x power_add)
  moreover have "s \<le> 2 ^ (b + g + 3)" using assms(1) by (simp add: x)
  moreover have "i = 4 * (int g + 1) + (s - 1) div 2 ^ (b + g) mod 4" by (simp add: i_def x)
  ultimately show "best_class b (nat i) s" "0 \<le> i"
    "class_size b (nat i) = ((s - 1) div 2 ^ (x - 3) + 1) * 2 ^ (x - 3)"
    using best_class_other_group [of b g s] by (simp_all add: x)
qed

lemma sc_okD:
  assumes "sc_ok ps n sc"
  shows "12 \<le> ps" "ps + 2 \<le> n" "13 \<le> n" "n \<le> 29" "m_pageShifts sc = int ps" "m_chunkSize sc = 2 ^ n"
    "m_nSizes sc = 4 * (int n - 5)" "m_nPSizes sc = 4 * (int n - int ps - 1)"
    "m_lookupMaxSize sc = 4096" "m_sizeIdx2sizeTab sc = map (class_size 4) [0..<4 * (n - 5)]"
    "m_pageIdx2sizeTab sc = map (class_size ps) [0..<4 * (n - ps - 1)]"
    "length (m_size2idxTab sc) = 256" "m_pageSize sc = 2 ^ ps"
  using assms by (simp_all add: sc_ok_def)

lemma chunk_bound: "sc_ok ps n sc \<Longrightarrow> (2::int) ^ n \<le> 536870912"
  using power_increasing [of n 29 "2::int"] by (simp add: sc_ok_def)

lemma size_tab_last: "sc_ok ps n sc \<Longrightarrow> class_size 4 (4 * (n - 5) - 1) = 2 ^ n"
proof -
  assume "sc_ok ps n sc"
  from sc_okD(3) [OF this] have "4 * (n - 5) - 1 = 4 * (n - 6) + 3" "4 + (n - 6) + 2 = n" by arith+
  then show ?thesis using class_size_top [of 4 "n - 6"] by simp
qed

lemma page_tab_last: "sc_ok ps n sc \<Longrightarrow> class_size ps (4 * (n - ps - 1) - 1) = 2 ^ n"
proof -
  assume "sc_ok ps n sc"
  from sc_okD(2) [OF this] have "4 * (n - ps - 1) - 1 = 4 * (n - ps - 2) + 3" "ps + (n - ps - 2) + 2 = n"
    by arith+
  then show ?thesis using class_size_top [of ps "n - ps - 2"] by simp
qed

lemma best_class_16:
  assumes "best_class 4 i (16 * (int j + 1))" "16 * int j < s" "s \<le> 16 * (int j + 1)"
  shows "best_class 4 i s"
proof -
  have dvd: "16 dvd class_size 4 k" for k
    by (cases k rule: index_cases) (simp_all add: class_size_group power_add)
  have "class_size 4 k < s" if "k < i" for k
  proof -
    from assms(1) that have "class_size 4 k < 16 * (int j + 1)" by (simp add: best_class_def)
    with dvd [of k] have "class_size 4 k \<le> 16 * int j" by (auto elim!: dvdE)
    with assms(2) show ?thesis by simp
  qed
  with assms show ?thesis by (auto simp: best_class_def)
qed

lemma lookup_ok:
  assumes ok: "sc_ok ps n sc" and s: "0 < s" "s \<le> 4096"
  obtains i where "getE (m_size2idxTab sc) (shr (s - 1) LOG2_QUANTUM) = Inr (int i)"
    "best_class 4 i s" "i < 28"
proof -
  define j where "j = nat ((s - 1) div 16)"
  have j: "int j = (s - 1) div 16" "j < 256" using s by (auto simp: j_def)
  from ok j(2) obtain i where i: "m_size2idxTab sc ! j = int i" "best_class 4 i (16 * (int j + 1))" "i < 28"
    by (auto simp: sc_ok_def)
  have "16 * int j < s" "s \<le> 16 * (int j + 1)" using j(1) by simp_all
  with i(2) have "best_class 4 i s" by (rule best_class_16)
  moreover have "getE (m_size2idxTab sc) (shr (s - 1) LOG2_QUANTUM) = Inr (int i)"
    using i(1) j sc_okD(12) [OF ok] by (simp add: shr_eq LOG2_QUANTUM_def flip: j(1))
  ultimately show ?thesis using that i(3) by blast
qed

lemma size2SizeIdx_ok:
  assumes ok: "sc_ok ps n sc" and s: "0 < s" "s \<le> 2 ^ n"
  obtains i where "size2SizeIdx sc s = Inr (int i)" "best_class 4 i s" "i < 4 * (n - 5)"
proof -
  note D = sc_okD [OF ok]
  have "\<exists>i. size2SizeIdx sc s = Inr (int i) \<and> best_class 4 i s"
  proof (cases "s \<le> 4096")
    case True
    with lookup_ok [OF ok s(1)] obtain i
      where "getE (m_size2idxTab sc) (shr (s - 1) LOG2_QUANTUM) = Inr (int i)" "best_class 4 i s"
      by blast
    then show ?thesis using True s D by (auto simp: size2SizeIdx_def)
  next
    case False
    obtain x where x: "log2 (i32 (shl s 1 - 1)) = int x" "s \<le> 2 ^ x" "2 ^ x < 2 * s" "x < 30"
      by (rule ceil_log2 [of s]) (use s chunk_bound [OF ok] in auto)
    have "(2::int) ^ 12 < 2 ^ x" using False x(2) by simp
    then have "12 < x" by (rule power_less_imp_less_exp [rotated]) simp
    then obtain k where k: "x = 13 + k" by (metis Suc_leI le_Suc_ex eval_nat_numeral(3) numeral_plus_one semiring_norm(5))
    define i where "i = 4 * (7 + int k) + (s - 1) div 2 ^ (10 + k) mod 4"
    have "best_class 4 (nat i) s" "0 \<le> i"
      using best_class_window [of s x 4] x k by (simp_all add: i_def add.commute)
    moreover have "shl (7 + int k) 2 = 4 * (7 + int k)" using x(4) k by (simp add: machine_int)
    then have "size2SizeIdx sc s = Inr i"
      using False s D x k class_bits [of "10 + k" "s - 1"]
      by (simp add: size2SizeIdx_def i_def LOG2_SIZE_CLASS_GROUP_def LOG2_QUANTUM_def Let_def)
    ultimately show ?thesis by (intro exI [of _ "nat i"]) simp
  qed
  then obtain i where i: "size2SizeIdx sc s = Inr (int i)" "best_class 4 i s" by blast
  moreover have "i \<le> 4 * (n - 5) - 1" using best_class_bound i(2) s size_tab_last [OF ok] by metis
  ultimately show ?thesis using that D by fastforce
qed

lemma align_up:
  assumes "0 < s" "s + 2 ^ d \<le> INT_MAX"
  shows "i32 (s + (2 ^ d - 1)) AND NOT (2 ^ d - 1) = ((s - 1) div 2 ^ d + 1) * 2 ^ d"
proof -
  have and_not: "x AND NOT (2 ^ d - 1) = x div 2 ^ d * 2 ^ d" for x :: int
  proof -
    have "x AND NOT (mask d) = push_bit d (drop_bit d x)"
      by (rule bit_eqI) (auto simp: bit_simps)
    then show ?thesis by (simp add: mask_eq_exp_minus_1 push_bit_eq_mult drop_bit_eq_div)
  qed
  have "(0::int) < 2 ^ d" by simp
  then have "i32 (s + (2 ^ d - 1)) = (s - 1) + 2 ^ d" using assms by (simp add: i32_id)
  moreover have "(s - 1 + 2 ^ d) div 2 ^ d = (s - 1) div 2 ^ d + 1"
    by (rule div_add_self2) simp
  ultimately show ?thesis by (simp only: and_not)
qed

lemma normalizeSizeCompute_ok:
  assumes s: "0 < s" "s \<le> 2 ^ 29" and i: "best_class 4 i s"
  shows "normalizeSizeCompute s = class_size 4 i"
proof -
  from s have b: "s \<le> 536870912" by simp
  obtain x where x: "log2 (i32 (shl s 1 - 1)) = int x" "s \<le> 2 ^ x" "2 ^ x < 2 * s" "x < 30"
    by (rule ceil_log2 [OF s])
  show ?thesis
  proof (cases "x < 7")
    case True
    then have "(2::int) ^ x \<le> 2 ^ 6" by (intro power_increasing) simp_all
    with x(2) have "s \<le> 2 ^ (4 + 2)" by simp
    note f = best_class_first_group [OF s(1) this]
    have "normalizeSizeCompute s = ((s - 1) div 2 ^ 4 + 1) * 2 ^ 4"
      using True x(1) align_up [of s 4] s b
      by (simp add: normalizeSizeCompute_def LOG2_SIZE_CLASS_GROUP_def LOG2_QUANTUM_def machine_int)
    also have "\<dots> = class_size 4 (nat ((s - 1) div 2 ^ 4))" using f(3,4) by simp
    finally show ?thesis using best_class_unique [OF f(1) i] by simp
  next
    case False
    then obtain k where k: "x = 7 + k" by (metis le_Suc_ex not_less)
    have "(2::int) ^ (4 + k) \<le> 2 ^ 26" using x(4) k by (intro power_increasing) simp_all
    then have d: "shl 1 (4 + int k) = 2 ^ (4 + k)" "s + 2 ^ (4 + k) \<le> INT_MAX"
      using b by (simp_all add: machine_int nat_add_distrib)
    have "normalizeSizeCompute s = ((s - 1) div 2 ^ (4 + k) + 1) * 2 ^ (4 + k)"
      using x(1) k align_up [OF s(1) d(2)] d(1)
      by (simp add: normalizeSizeCompute_def LOG2_SIZE_CLASS_GROUP_def LOG2_QUANTUM_def)
    also have "\<dots> = class_size 4 i"
      using best_class_window [OF x(2,3), of 4] k best_class_unique [OF _ i] by (simp add: add.commute)
    finally show ?thesis .
  qed
qed

lemma pages2pageIdxCompute_ok:
  assumes ok: "sc_ok ps n sc" and p: "0 < p" "p * 2 ^ ps \<le> 2 ^ n"
  obtains i where "best_class ps i (p * 2 ^ ps)" "i < 4 * (n - ps - 1)"
    "pages2pageIdxCompute sc p False = Inr (int i)"
    "pages2pageIdxCompute sc p True =
       Inr (if class_size ps i > p * 2 ^ ps then int i - 1 else int i)"
proof -
  note D = sc_okD [OF ok]
  define s where "s = p * 2 ^ ps"
  have s: "0 < s" "s \<le> 2 ^ n" "s \<le> 2 ^ 29" using p chunk_bound [OF ok] by (simp_all add: s_def)
  have shl_s: "shl p (int ps) = s"
    using p s(3) by (simp add: machine_int s_def)
  obtain x where x: "log2 (i32 (shl s 1 - 1)) = int x" "s \<le> 2 ^ x" "2 ^ x < 2 * s" "x < 30"
    by (rule ceil_log2 [OF s(1,3)])
  have "\<exists>i. best_class ps i s \<and> pages2pageIdxCompute sc p False = Inr (int i) \<and>
    pages2pageIdxCompute sc p True =
      bindE (getE (m_pageIdx2sizeTab sc) (int i)) (\<lambda>t. if t > s then Inr (int i - 1) else Inr (int i))"
  proof (cases "x < 3 + ps")
    case True
    then have "(2::int) ^ x \<le> 2 ^ (ps + 2)" by (intro power_increasing) simp_all
    with x(2) have "s \<le> 2 ^ (ps + 2)" by simp
    note f = best_class_first_group [OF s(1) this]
    let ?sh = "if int x < LOG2_SIZE_CLASS_GROUP + int ps then 0
      else int x - (LOG2_SIZE_CLASS_GROUP + int ps)"
    let ?d = "if int x < LOG2_SIZE_CLASS_GROUP + int ps + 1 then int ps
      else int x - LOG2_SIZE_CLASS_GROUP - 1"
    have sh: "shl ?sh LOG2_SIZE_CLASS_GROUP = 0"
    proof -
      have "?sh = 0" using True by (simp add: LOG2_SIZE_CLASS_GROUP_def)
      then show ?thesis by (simp only: shl_def) (simp add: i32_def)
    qed
    have d: "?d = int ps" using True by (simp add: LOG2_SIZE_CLASS_GROUP_def)
    have "pages2pageIdxCompute sc p fl =
        (let i = (s - 1) div 2 ^ ps in if fl then bindE (getE (m_pageIdx2sizeTab sc) i)
           (\<lambda>t. if t > s then Inr (i - 1) else Inr i) else Inr i)" for fl
      unfolding pages2pageIdxCompute_def D(5) shl_s x(1) Let_def sh d
      using class_bits [of ps "s - 1"] f(2) s D(2,4) by (simp add: D(6) cong: if_cong)
    then show ?thesis
      using f by (intro exI [of _ "nat ((s - 1) div 2 ^ ps)"]) (simp add: Let_def cong: if_cong)
  next
    case False
    then obtain k where k: "x = 3 + ps + k" by (metis le_Suc_ex not_less)
    define i where "i = 4 * (1 + int k) + (s - 1) div 2 ^ (ps + k) mod 4"
    have "best_class ps (nat i) s" "0 \<le> i"
      using best_class_window [OF x(2,3), of ps] k by (simp_all add: i_def add.commute)
    moreover have "shl (1 + int k) 2 = 4 * (1 + int k)" using x(4) k by (simp add: machine_int)
    ultimately show ?thesis
      using s D x k class_bits [of "ps + k" "s - 1"]
      by (intro exI [of _ "nat i"])
        (simp add: pages2pageIdxCompute_def shl_s i_def LOG2_SIZE_CLASS_GROUP_def Let_def cong: if_cong)
  qed
  then obtain i where i: "best_class ps i s" "pages2pageIdxCompute sc p False = Inr (int i)"
    and fl: "pages2pageIdxCompute sc p True =
      bindE (getE (m_pageIdx2sizeTab sc) (int i)) (\<lambda>t. if t > s then Inr (int i - 1) else Inr (int i))"
    by blast
  have "i \<le> 4 * (n - ps - 1) - 1" using best_class_bound i(1) s(2) page_tab_last [OF ok] by metis
  then have "i < 4 * (n - ps - 1)" using D(2) by simp
  then show ?thesis using that [of i] i fl D by (simp add: s_def)
qed

subsection \<open>Running the constructor\<close>

text \<open>The i-th row, and the object after the first k calls of \<open>sizeClass\<close>.\<close>

definition row_of :: "int \<Rightarrow> nat \<Rightarrow> SizeClassRow" where
  "row_of ps i =
     (if i < 4 then classRow ps (int i) 4 4 (int i)
      else classRow ps (int i) (int (i div 4) + 5) (int (i div 4) + 3) (int (i mod 4) + 1))"

primrec rows_done :: "SizeClasses \<Rightarrow> nat \<Rightarrow> SizeClasses" where
  "rows_done sc 0 = sc"
| "rows_done sc (Suc k) =
     (let sc' = rows_done sc k; r = row_of (m_pageShifts sc) k
      in countRow (sc'\<lparr>m_sizeClasses := (m_sizeClasses sc')[k := Some r]\<rparr>) r (int k) (class_size 4 k))"

lemma rows_done_frame [simp]:
  "length (m_sizeClasses (rows_done sc k)) = length (m_sizeClasses sc)"
  "m_chunkSize (rows_done sc k) = m_chunkSize sc"
  "m_pageShifts (rows_done sc k) = m_pageShifts sc"
  "m_pageSize (rows_done sc k) = m_pageSize sc"
  by (induction k) (simp_all add: Let_def)

lemma rows_done_row:
  "j < k \<Longrightarrow> k \<le> length (m_sizeClasses sc) \<Longrightarrow>
   m_sizeClasses (rows_done sc k) ! j = Some (row_of (m_pageShifts sc) j)"
  by (induction k) (auto simp: Let_def less_Suc_eq nth_list_update)

lemma sizeClass_first:
  assumes "k < 4" "k < length (m_sizeClasses sc)"
  shows "sizeClass (rows_done sc k) (int k) 4 4 (int k) = Inr (class_size 4 k, rows_done sc (Suc k))"
proof -
  have "i32 (shl 1 4 + shl (int k) 4) = class_size 4 k" using assms by (simp add: machine_int)
  then show ?thesis
    using assms by (simp add: sizeClass_def row_of_def Let_def del: class_size_small)
qed

lemma class_size_bound:
  assumes "r < 4" "g \<le> 23"
  shows "(int r + 5) * 2 ^ (4 + g) \<le> INT_MAX" "(2::int) ^ (4 + g) \<le> 134217728"
proof -
  show p: "(2::int) ^ (4 + g) \<le> 134217728"
    using power_increasing [of "4 + g" 27 "2::int"] assms(2) by simp
  have "(int r + 5) * 2 ^ (4 + g) \<le> 8 * 2 ^ (4 + g)" using assms(1) by (intro mult_right_mono) simp_all
  with p show "(int r + 5) * 2 ^ (4 + g) \<le> INT_MAX" by linarith
qed

lemma shl_parts:
  assumes "r < 4" "g \<le> 23"
  shows "shl 1 (int g + 6) = 4 * 2 ^ (4 + g)" "shl 1 (int g + 4) = 2 ^ (4 + g)"
    "shl (int r + 1) (int g + 4) = (int r + 1) * 2 ^ (4 + g)"
    "i32 (2 ^ (4 + g) * (int r + 1)) = (int r + 1) * 2 ^ (4 + g)"
    "i32 (4 * 2 ^ (4 + g) + (int r + 1) * 2 ^ (4 + g)) = class_size 4 (4 * Suc g + r)"
proof -
  note b = class_size_bound [OF assms]
  have le: "(int r + 1) * 2 ^ (4 + g) \<le> INT_MAX"
    by (rule order_trans [OF _ b(1)]) (intro mult_right_mono, simp_all)
  have nat_eq: "nat (int g + 4) = 4 + g" "nat (int g + 6) = 4 + g + 2" by simp_all
  show "shl 1 (int g + 6) = 4 * 2 ^ (4 + g)" "shl 1 (int g + 4) = 2 ^ (4 + g)"
    using b(2) by (simp_all add: machine_int nat_eq power_add)
  show "shl (int r + 1) (int g + 4) = (int r + 1) * 2 ^ (4 + g)"
    using shl_eq [of "int r + 1" "int g + 4"] le nat_eq(1) by simp
  have "INT_MIN \<le> (int r + 1) * 2 ^ (4 + g)" by (rule order_trans [of _ 0]) simp_all
  then show "i32 (2 ^ (4 + g) * (int r + 1)) = (int r + 1) * 2 ^ (4 + g)"
    using le by (simp only: mult.commute i32_id)
  have "4 * 2 ^ (4 + g) + (int r + 1) * 2 ^ (4 + g) = (int r + 5) * 2 ^ (4 + g)"
    by (simp add: algebra_simps)
  moreover have "INT_MIN \<le> (int r + 5) * 2 ^ (4 + g)" by (rule order_trans [of _ 0]) simp_all
  ultimately show "i32 (4 * 2 ^ (4 + g) + (int r + 1) * 2 ^ (4 + g)) = class_size 4 (4 * Suc g + r)"
    using b(1) class_size_group [OF assms(1)] by (simp only: i32_id)
qed

lemma row_of_rest:
  assumes "r < 4"
  shows "row_of ps (4 * Suc g + r) = classRow ps (int (4 * Suc g + r)) (int g + 6) (int g + 4) (int r + 1)"
proof -
  have "(4 * Suc g + r) div 4 = Suc g" "(4 * Suc g + r) mod 4 = r" using assms(1) by presburger+
  then show ?thesis by (simp only: row_of_def) (simp add: add.commute)
qed

lemma sizeClass_rest:
  assumes "r < 4" "g \<le> 23" "4 * Suc g + r < length (m_sizeClasses sc)"
  shows "sizeClass (rows_done sc (4 * Suc g + r)) (int (4 * Suc g + r)) (int g + 6) (int g + 4) (int r + 1)
    = Inr (class_size 4 (4 * Suc g + r), rows_done sc (Suc (4 * Suc g + r)))"
  using assms(3)
  by (simp only: sizeClass_def Let_def rows_done.simps rows_done_frame setE_nat bindE.simps
      row_of_rest [OF assms(1)] shl_parts [OF assms(1,2)])

lemma firstGroup_run:
  assumes "4 \<le> length (m_sizeClasses sc)"
  shows "firstGroup sc 0 0 0 = Inr (rows_done sc 4, 4, 64)"
proof -
  have lim: "shl 1 LOG2_SIZE_CLASS_GROUP = 4" by (simp add: LOG2_SIZE_CLASS_GROUP_def machine_int)
  have "firstGroup (rows_done sc k) (int k) s (int k) =
      Inr (rows_done sc 4, 4, if k = 4 then s else class_size 4 3)" if "k \<le> 4" for k s
    using that
  proof (induction "4 - k" arbitrary: k s)
    case 0
    then show ?case by (subst firstGroup.simps) (simp add: lim)
  next
    case (Suc d)
    then have "k < 4" by simp
    with assms have "sizeClass (rows_done sc k) (int k) LOG2_QUANTUM LOG2_QUANTUM (int k) =
        Inr (class_size 4 k, rows_done sc (Suc k))"
      using sizeClass_first [of k sc] by (simp add: LOG2_QUANTUM_def)
    then have "firstGroup (rows_done sc k) (int k) s (int k) =
        firstGroup (rows_done sc (Suc k)) (int (Suc k)) (class_size 4 k) (int (Suc k))"
      using \<open>k < 4\<close> by (subst firstGroup.simps) (simp add: lim add.commute)
    also have "\<dots> = Inr (rows_done sc 4, 4, if Suc k = 4 then class_size 4 k else class_size 4 3)"
      using Suc.hyps(2) \<open>k < 4\<close> by (intro Suc.hyps(1)) simp_all
    finally show ?case using \<open>k < 4\<close> by auto
  qed
  from this [of 0 0] show ?thesis by simp
qed

text \<open>A group above the first: all four of its classes fit below the chunk size.\<close>

lemma restGroup_run:
  assumes "m_chunkSize sc = 2 ^ n" "g + 7 \<le> n" "n \<le> 29" "4 * Suc (Suc g) \<le> length (m_sizeClasses sc)"
    "s < 2 ^ n"
  shows "restGroup (rows_done sc (4 * Suc g)) (int (4 * Suc g)) s 1 m (int g + 6) (int g + 4) =
    Inr (rows_done sc (4 * Suc (Suc g)), int (4 * Suc (Suc g)), 2 ^ (g + 7), 2 ^ (g + 7))"
proof -
  have lim: "shl 1 LOG2_SIZE_CLASS_GROUP = 4" by (simp add: LOG2_SIZE_CLASS_GROUP_def machine_int)
  have top: "class_size 4 (4 * Suc g + 3) = 2 ^ (g + 7)" using class_size_top [of 4 "Suc g"] by (simp add: add.commute)
  have below: "class_size 4 (4 * Suc g + r) < 2 ^ n" if "r < 3" for r
  proof -
    have "class_size 4 (4 * Suc g + r) < class_size 4 (4 * Suc g + 3)"
      using that by (simp only: class_size_less_iff add_less_cancel_left)
    also have "\<dots> \<le> 2 ^ n" unfolding top using assms(2) by (rule power_increasing) simp
    finally show ?thesis .
  qed
  have "restGroup (rows_done sc (4 * Suc g + r)) (int (4 * Suc g + r)) s (int r + 1) m (int g + 6) (int g + 4) =
      Inr (rows_done sc (4 * Suc g + 4), int (4 * Suc g + 4), if r = 4 then s else 2 ^ (g + 7),
           if r = 4 then m else 2 ^ (g + 7))"
    if "r \<le> 4" "r = 4 \<or> s < 2 ^ n" for r s m
    using that
  proof (induction "4 - r" arbitrary: r s m)
    case 0
    then show ?case by (subst restGroup.simps) (simp add: lim)
  next
    case (Suc d)
    then have r: "r < 4" by simp
    have next': "Suc r = 4 \<or> class_size 4 (4 * Suc g + r) < 2 ^ n" using below [of r] r by fastforce
    have "restGroup (rows_done sc (4 * Suc g + r)) (int (4 * Suc g + r)) s (int r + 1) m (int g + 6) (int g + 4) =
        restGroup (rows_done sc (4 * Suc g + Suc r)) (int (4 * Suc g + Suc r)) (class_size 4 (4 * Suc g + r))
          (int (Suc r) + 1) (class_size 4 (4 * Suc g + r)) (int g + 6) (int g + 4)"
      using r assms Suc.prems sizeClass_rest [of r g sc]
      by (subst restGroup.simps) (simp add: lim add_ac del: rows_done.simps class_size_group_norm)
    also have "\<dots> = Inr (rows_done sc (4 * Suc g + 4), int (4 * Suc g + 4),
        if Suc r = 4 then class_size 4 (4 * Suc g + r) else 2 ^ (g + 7),
        if Suc r = 4 then class_size 4 (4 * Suc g + r) else 2 ^ (g + 7))"
      using Suc.hyps r next' by (intro Suc.hyps(1)) auto
    finally show ?case using r top by (cases "r = 3") auto
  qed
  from this [of 0 s m] assms(5) show ?thesis by (simp add: add_ac)
qed

lemma restGroups_run:
  assumes "m_chunkSize sc = 2 ^ n" "n \<le> 29" "4 * (n - 5) \<le> length (m_sizeClasses sc)"
    "g + 6 \<le> n"
  shows "restGroups (rows_done sc (4 * Suc g)) (int (4 * Suc g)) (2 ^ (g + 6)) m (int g + 6) (int g + 4) =
    Inr (rows_done sc (4 * (n - 5)), int (4 * (n - 5)), if g + 6 = n then m else 2 ^ n)"
  using assms(4)
proof (induction "n - (g + 6)" arbitrary: g m)
  case 0
  then have "g + 6 = n" by simp
  moreover from this have "n - 5 = Suc g" by simp
  ultimately show ?case using assms(1) by (subst restGroups.simps) simp
next
  case (Suc d)
  then have g: "g + 7 \<le> n" by simp
  then have "(2::int) ^ (g + 6) < 2 ^ n" by (intro power_strict_increasing) simp_all
  moreover have "4 * Suc (Suc g) \<le> length (m_sizeClasses sc)" using g assms(3) by simp
  ultimately have r: "restGroup (rows_done sc (4 * Suc g)) (int (4 * Suc g)) (2 ^ (g + 6)) 1 m (int g + 6) (int g + 4) =
    Inr (rows_done sc (4 * Suc (Suc g)), int (4 * Suc (Suc g)), 2 ^ (g + 7), 2 ^ (g + 7))"
    using restGroup_run assms g by blast
  have eqs: "int g + 6 + 1 = int (Suc g) + 6" "int g + 4 + 1 = int (Suc g) + 4" "g + 7 = Suc g + 6"
    by simp_all
  have "restGroups (rows_done sc (4 * Suc g)) (int (4 * Suc g)) (2 ^ (g + 6)) m (int g + 6) (int g + 4) =
      restGroups (rows_done sc (4 * Suc (Suc g))) (int (4 * Suc (Suc g))) (2 ^ (Suc g + 6)) (2 ^ (Suc g + 6))
        (int (Suc g) + 6) (int (Suc g) + 4)"
    using \<open>(2::int) ^ (g + 6) < 2 ^ n\<close> assms(1)
    by (subst restGroups.simps) (simp only: r eqs bindE.simps prod.case rows_done_frame if_True)
  also have "\<dots> = Inr (rows_done sc (4 * (n - 5)), int (4 * (n - 5)),
      if Suc g + 6 = n then 2 ^ (Suc g + 6) else 2 ^ n)"
    using Suc.hyps(2) g by (intro Suc.hyps(1)) simp_all
  finally show ?case using g by auto
qed

lemma sizeClasses_run:
  assumes "m_chunkSize sc = 2 ^ n" "13 \<le> n" "n \<le> 29" "4 * (n - 5) \<le> length (m_sizeClasses sc)"
  shows "sizeClasses sc = Inr (int (4 * (n - 5)), rows_done sc (4 * (n - 5)))"
proof -
  have "4 \<le> length (m_sizeClasses sc)" using assms by simp
  moreover have "restGroups (rows_done sc 4) 4 64 (- 1) 6 4 =
      Inr (rows_done sc (4 * (n - 5)), int (4 * (n - 5)), 2 ^ n)"
    using restGroups_run [of sc n 0 "- 1"] assms by (simp split: if_splits)
  ultimately show ?thesis
    using assms(1)
    by (simp add: sizeClasses_def firstGroup_run LOG2_QUANTUM_def LOG2_SIZE_CLASS_GROUP_def)
qed

text \<open>What each row records.\<close>

lemma log2_small: "log2 1 = 0" "log2 2 = 1" "log2 3 = 1" "log2 4 = 2"
  using log2_eqI [of 0 1] log2_eqI [of 1 2] log2_eqI [of 1 3] log2_eqI [of 2 4]
  by (simp_all add: machine_int)

lemma page_multiple:
  assumes "ps \<le> 27" "0 \<le> s" "s \<le> INT_MAX"
  shows "s = i32 (s sdiv shl 1 (int ps) * shl 1 (int ps)) \<longleftrightarrow> 2 ^ ps dvd s"
proof -
  have "(2::int) ^ ps \<le> 134217728" using power_increasing [of ps 27 "2::int"] assms by simp
  then have p: "shl 1 (int ps) = 2 ^ ps" by (simp add: machine_int)
  have sd: "s sdiv 2 ^ ps = s div 2 ^ ps"
    using assms by (simp add: signed_divide_int_def sgn_if)
  have "s div 2 ^ ps * 2 ^ ps \<le> s" using div_window [of "2 ^ ps" s] by simp
  moreover have "0 \<le> s div 2 ^ ps * 2 ^ ps" using assms by (simp add: pos_imp_zdiv_nonneg_iff)
  ultimately have "i32 (s div 2 ^ ps * 2 ^ ps) = s div 2 ^ ps * 2 ^ ps" using assms by (intro i32_id) simp_all
  then show ?thesis by (simp add: p sd) (metis dvd_div_mult_self dvd_triv_right)
qed

lemma row_of_rest_eq:
  assumes "r < 4" "g \<le> 23" "ps \<le> 27"
  shows "row_of (int ps) (4 * Suc g + r) =
    \<lparr>row_index = int (4 * Suc g + r), row_log2Group = int g + 6, row_log2Delta = int g + 4,
     row_nDelta = int r + 1, row_isMultiPageSize = of_bool (2 ^ ps dvd class_size 4 (4 * Suc g + r)),
     row_isSubpage = of_bool ((if r = 3 then g + 7 else g + 6) < ps + 2),
     row_log2DeltaLookup = (if g < 6 then int g + 4 else 0)\<rparr>"
proof -
  note sh = shl_parts [OF assms(1,2)]
  define s where "s = class_size 4 (4 * Suc g + r)"
  have s: "0 \<le> s" "s \<le> INT_MAX"
    using class_size_bound [OF assms(1,2)] class_size_pos [of 4 "4 * Suc g + r"]
    by (simp_all only: s_def class_size_group [OF assms(1)])
  have "(2::int) ^ ps dvd 2 ^ (4 + g)" if "ps \<le> g + 4" using that by (intro le_imp_power_dvd) simp
  then have dvd: "2 ^ ps dvd s" if "int ps \<le> int g + 4"
    using that by (simp only: s_def class_size_group [OF assms(1)] dvd_mult)
  have id16: "u16 (int g + 6) = int g + 6" "u16 (int g + 4) = int g + 4" "u16 (int r + 1) = int r + 1"
    "u16 (int (4 * Suc g + r)) = int (4 * Suc g + r)" "u16 0 = 0"
    using assms by (simp_all add: machine_int)
  consider "r = 0" | "r = 1" | "r = 2" | "r = 3" using assms(1) by linarith
  then have l: "log2 (int r + 1) = (if r = 0 then 0 else if r = 3 then 2 else 1)"
    by cases (simp_all add: log2_small)
  have pw: "shl 1 (if r = 0 then 0 else if r = 3 then 2 else 1) = (if r = 0 then 1 else if r = 3 then 4 else 2)"
    by (simp add: machine_int)
  have multi: "(if int ps \<le> int g + 4 then 1
      else if s = i32 (s sdiv shl 1 (int ps) * shl 1 (int ps)) then 1 else 0) = of_bool (2 ^ ps dvd s)"
    using dvd page_multiple [OF assms(3) s] by simp
  show ?thesis
    unfolding row_of_rest [OF assms(1)] classRow_def Let_def sh multi [unfolded s_def] yes_def no_def
    using id16 l pw multi assms
    by (auto simp: size_class_consts s_def sh)
qed

lemma row_of_first_eq:
  assumes "i < 4" "12 \<le> ps" "ps \<le> 27"
  shows "row_of (int ps) i =
    \<lparr>row_index = int i, row_log2Group = 4, row_log2Delta = 4, row_nDelta = int i,
     row_isMultiPageSize = of_bool (2 ^ ps dvd class_size 4 i), row_isSubpage = 1,
     row_log2DeltaLookup = 4\<rparr>"
proof -
  have sz: "i32 (shl 1 4 + i32 (shl 1 4 * int i)) = class_size 4 i" using assms(1) by (simp add: machine_int)
  have multi: "class_size 4 i = i32 (class_size 4 i sdiv shl 1 (int ps) * shl 1 (int ps)) \<longleftrightarrow>
      2 ^ ps dvd class_size 4 i"
    using assms by (intro page_multiple) (simp_all del: class_size_less_iff)
  consider "i = 0" | "i = 1" | "i = 2" | "i = 3" using assms(1) by linarith
  then have l: "(if int i = 0 then 0 else log2 (int i)) = (if i < 2 then 0 else 1)"
    by cases (simp_all add: log2_small)
  show ?thesis
    using assms sz multi l
    by (simp add: row_of_def classRow_def Let_def size_class_consts machine_int
        del: class_size_small split del: if_split cong: if_cong) (auto simp: machine_int)
qed

lemma power_less_iff: "(2::int) ^ a < 2 ^ b \<longleftrightarrow> a < b"
  by simp

lemma row_facts:
  assumes i: "i < 4 * (n - 5)" and n: "n \<le> 29" and ps: "12 \<le> ps" "ps \<le> 27"
  defines "r \<equiv> row_of (int ps) i"
  shows "row_isMultiPageSize r = of_bool (2 ^ ps dvd class_size 4 i)"
    "row_isSubpage r = of_bool (class_size 4 i < 2 ^ (ps + 2))"
    "row_log2DeltaLookup r = 0 \<longleftrightarrow> \<not> i < 28"
    "i32 (shl 1 (row_log2Group r) + shl (row_nDelta r) (row_log2Delta r)) = class_size 4 i"
    "row_log2Delta r = (if i < 4 then 4 else int (i div 4) + 3)"
proof -
  have "row_isMultiPageSize r = of_bool (2 ^ ps dvd class_size 4 i) \<and>
    row_isSubpage r = of_bool (class_size 4 i < 2 ^ (ps + 2)) \<and>
    (row_log2DeltaLookup r = 0 \<longleftrightarrow> \<not> i < 28) \<and>
    i32 (shl 1 (row_log2Group r) + shl (row_nDelta r) (row_log2Delta r)) = class_size 4 i \<and>
    row_log2Delta r = (if i < 4 then 4 else int (i div 4) + 3)"
  proof (cases i rule: index_cases)
    case small
    have "class_size 4 i \<le> 2 ^ 6" using small by simp
    also have "\<dots> < 2 ^ (ps + 2)" using ps by (simp only: power_less_iff)
    finally show ?thesis
      using small row_of_first_eq [OF small ps] by (simp add: r_def machine_int)
  next
    case (group g q)
    then have g: "g \<le> 23" using i n by simp
    have dm: "i div 4 = Suc g" using group by presburger
    have size: "class_size 4 i = (int q + 5) * 2 ^ (4 + g)" using group class_size_group by simp
    have sub: "(if q = 3 then g + 7 else g + 6) < ps + 2 \<longleftrightarrow> class_size 4 i < 2 ^ (ps + 2)"
    proof (cases "q = 3")
      case True
      have "class_size 4 i = 2 ^ (g + 7)" using True by (simp add: size power_add)
      then show ?thesis using True by (simp only: power_less_iff) simp
    next
      case False
      have lo: "(2::int) ^ (g + 6) < class_size 4 i" by (simp add: size power_add)
      have hi: "class_size 4 i < 2 ^ (g + 7)" using False group(1) by (simp add: size power_add)
      show ?thesis
      proof (cases "g + 6 < ps + 2")
        case True
        then have "(2::int) ^ (g + 7) \<le> 2 ^ (ps + 2)" by (intro power_increasing) simp_all
        with hi True False show ?thesis by simp
      next
        case gt: False
        then have "(2::int) ^ (ps + 2) \<le> 2 ^ (g + 6)" by (intro power_increasing) simp_all
        with lo gt False show ?thesis by simp
      qed
    qed
    show ?thesis
      unfolding r_def
      using row_of_rest_eq [OF group(1) g ps(2)] sub shl_parts [OF group(1) g] dm group
      by simp
  qed
  then show "row_isMultiPageSize r = of_bool (2 ^ ps dvd class_size 4 i)"
    "row_isSubpage r = of_bool (class_size 4 i < 2 ^ (ps + 2))"
    "row_log2DeltaLookup r = 0 \<longleftrightarrow> \<not> i < 28"
    "i32 (shl 1 (row_log2Group r) + shl (row_nDelta r) (row_log2Delta r)) = class_size 4 i"
    "row_log2Delta r = (if i < 4 then 4 else int (i div 4) + 3)"
    by auto
qed

text \<open>Small sizes are an initial segment of the classes.\<close>

lemma class_size_below_subpage:
  assumes "12 \<le> ps"
  shows "class_size 4 i < 2 ^ (ps + 2) \<longleftrightarrow> i < 4 * (ps - 3) - 1"
proof -
  have "class_size 4 (4 * (ps - 4) + 3) = 2 ^ (ps + 2)"
    using class_size_top [of 4 "ps - 4"] assms by simp
  moreover have "4 * (ps - 4) + 3 = 4 * (ps - 3) - 1" using assms by arith
  ultimately have "class_size 4 (4 * (ps - 3) - 1) = 2 ^ (ps + 2)" by simp
  then show ?thesis by (metis class_size_less_iff)
qed

lemma length_filter_less: "length (filter (\<lambda>i. i < m) [0..<k]) = min m k"
  by (induction k) auto

text \<open>The counters after k rows, from an object whose counters are zero.\<close>

lemma rows_done_counters:
  assumes n: "n \<le> 29" and ps: "12 \<le> ps" "ps \<le> 27" and k: "k \<le> 4 * (n - 5)"
    and sc: "m_pageShifts sc = int ps" "m_nPSizes sc = 0" "m_nSubpages sc = 0"
      "m_smallMaxSizeIdx sc = 0" "m_lookupMaxSize sc = 0"
  defines "small \<equiv> 4 * (ps - 3) - 1"
  shows "m_nPSizes (rows_done sc k) = int (length (filter (\<lambda>i. 2 ^ ps dvd class_size 4 i) [0..<k])) \<and>
    m_nSubpages (rows_done sc k) = int (min small k) \<and>
    m_smallMaxSizeIdx (rows_done sc k) = int (min small k - 1) \<and>
    m_lookupMaxSize (rows_done sc k) = (if k = 0 then 0 else class_size 4 (min k 28 - 1))"
  using k
proof (induction k)
  case (Suc k)
  then have k: "k < 4 * (n - 5)" by simp
  note f = row_facts [OF k n ps]
  let ?s = "rows_done sc k" and ?s' = "rows_done sc (Suc k)"
  have "m_nPSizes ?s' = m_nPSizes ?s + of_bool (2 ^ ps dvd class_size 4 k)"
    "m_nSubpages ?s' = m_nSubpages ?s + of_bool (k < small)"
    "m_smallMaxSizeIdx ?s' = (if k < small then int k else m_smallMaxSizeIdx ?s)"
    "m_lookupMaxSize ?s' = (if k < 28 then class_size 4 k else m_lookupMaxSize ?s)"
    using f class_size_below_subpage [OF ps(1), of k]
    by (simp_all add: countRow_def Let_def yes_def no_def sc small_def)
  with Suc k show ?case by (auto simp: min_def)
qed (simp_all add: sc)

text \<open>The classes of a family are the numbers \<open>m * 2 ^ e\<close> with \<open>1 \<le> m \<le> 8\<close> and \<open>b \<le> e\<close>.\<close>

lemma class_size_form: obtains m e where "class_size b i = m * 2 ^ e" "1 \<le> m" "m \<le> 8" "b \<le> e"
proof (cases i rule: index_cases)
  case small
  then show ?thesis using that [of "int i + 1" b] by simp
next
  case (group g r)
  then show ?thesis using that [of "int r + 5" "b + g"] class_size_group [of r b g] by simp
qed

lemma class_size_exists:
  "1 \<le> m \<Longrightarrow> m \<le> 8 \<Longrightarrow> \<exists>i. class_size b i = m * 2 ^ (b + d)"
proof (induction d arbitrary: m)
  case 0
  show ?case
  proof (cases "m \<le> 4")
    case True
    with 0 have "class_size b (nat (m - 1)) = m * 2 ^ b" by simp
    then show ?thesis by auto
  next
    case False
    with 0 have "class_size b (4 * Suc 0 + nat (m - 5)) = m * 2 ^ (b + 0)"
      using class_size_group [of "nat (m - 5)" b 0] by simp
    then show ?thesis by blast
  qed
next
  case (Suc d)
  show ?case
  proof (cases "m \<le> 4")
    case True
    with Suc.IH [of "2 * m"] Suc.prems obtain i where "class_size b i = 2 * m * 2 ^ (b + d)" by auto
    then show ?thesis by (intro exI [of _ i]) simp
  next
    case False
    with Suc.prems have "class_size b (4 * Suc (Suc d) + nat (m - 5)) = m * 2 ^ (b + Suc d)"
      using class_size_group [of "nat (m - 5)" b "Suc d"] by simp
    then show ?thesis by blast
  qed
qed

lemma page_classes_eq:
  assumes "b \<le> c"
  shows "(\<exists>i. s = class_size b i \<and> 2 ^ c dvd s) \<longleftrightarrow> (\<exists>j. s = class_size c j)"
proof safe
  fix i
  assume dvd: "2 ^ c dvd class_size b i"
  obtain m e where me: "class_size b i = m * 2 ^ e" "1 \<le> m" "m \<le> 8" by (rule class_size_form)
  show "\<exists>j. class_size b i = class_size c j"
  proof (cases "c \<le> e")
    case True
    then have "e = c + (e - c)" by simp
    with class_size_exists [OF me(2,3), of c "e - c"] me show ?thesis by metis
  next
    case False
    then have "(2::int) ^ c = 2 ^ (c - e) * 2 ^ e" by (simp flip: power_add)
    with dvd me have "2 ^ (c - e) dvd m" by simp
    then obtain q where q: "m = 2 ^ (c - e) * q" ..
    have "(0::int) < 2 ^ (c - e)" by simp
    with q me have "1 \<le> q" by (metis zero_less_mult_pos int_one_le_iff_zero_less)
    moreover have "q \<le> m"
      using q \<open>1 \<le> q\<close> by (simp add: mult_le_cancel_right1)
    ultimately have "\<exists>j. class_size c j = q * 2 ^ (c + 0)" using me by (intro class_size_exists) simp_all
    moreover have "class_size b i = q * 2 ^ c" using me q False by (simp flip: power_add add: mult_ac)
    ultimately show ?thesis by (metis add_0_right)
  qed
next
  fix j
  obtain m e where me: "class_size c j = m * 2 ^ e" "1 \<le> m" "m \<le> 8" "c \<le> e" by (rule class_size_form)
  have "e = b + (e - b)" using assms me by simp
  with class_size_exists [OF me(2,3), of b "e - b"] obtain i where "class_size b i = m * 2 ^ e" by auto
  moreover have "(2::int) ^ c dvd m * 2 ^ e" using me(4) by (simp add: le_imp_power_dvd dvd_mult)
  ultimately show "\<exists>i. class_size c j = class_size b i \<and> 2 ^ c dvd class_size c j"
    using me by metis
qed

lemma class_count: "b + 2 \<le> n \<Longrightarrow> i < 4 * (n - b - 1) \<longleftrightarrow> class_size b i \<le> 2 ^ n"
proof -
  assume "b + 2 \<le> n"
  then have "4 * (n - b - 1) = Suc (4 * (n - b - 2) + 3)" "b + (n - b - 2) + 2 = n" by arith+
  moreover from this have "class_size b (4 * (n - b - 2) + 3) = 2 ^ n" by (simp only: class_size_top)
  ultimately show ?thesis by (metis class_size_le_iff less_Suc_eq_le)
qed

lemma page_class_list:
  assumes "12 \<le> ps" "ps + 2 \<le> n"
  shows "map (class_size 4) (filter (\<lambda>i. 2 ^ ps dvd class_size 4 i) [0..<4 * (n - 5)]) =
    map (class_size ps) [0..<4 * (n - ps - 1)]" (is "?l = ?r")
proof (rule strict_sorted_equal)
  have mono: "sorted_wrt (<) (map (class_size b) xs)" if "sorted_wrt (<) xs" for b and xs :: "nat list"
    using that by (simp add: sorted_wrt_map)
  show "sorted_wrt (<) ?l" by (rule mono) (rule sorted_wrt_filter [OF sorted_wrt_upt])
  show "sorted_wrt (<) ?r" by (rule mono) (rule sorted_wrt_upt)
  have b: "n - 5 = n - 4 - 1" by simp
  have mem: "s \<in> class_size c ` {i. i < 4 * (n - c - 1) \<and> P i} \<longleftrightarrow>
      s \<le> 2 ^ n \<and> (\<exists>i. s = class_size c i \<and> P i)" if "c + 2 \<le> n" for s c P
    unfolding class_count [OF that] by blast
  have "set ?r = set ?l"
  proof (rule set_eqI)
    fix s
    have "s \<in> set ?r \<longleftrightarrow> s \<in> class_size ps ` {j. j < 4 * (n - ps - 1) \<and> True}"
      unfolding set_map set_upt simp_thms by (simp add: atLeast0LessThan lessThan_def)
    also have "\<dots> \<longleftrightarrow> s \<le> 2 ^ n \<and> (\<exists>j. s = class_size ps j)" using mem [OF assms(2), of s "\<lambda>_. True"] by (simp only: simp_thms)
    also have "\<dots> \<longleftrightarrow> s \<le> 2 ^ n \<and> (\<exists>i. s = class_size 4 i \<and> 2 ^ ps dvd class_size 4 i)"
    proof -
      have "4 \<le> ps" using assms(1) by simp
      from page_classes_eq [OF this, of s] show ?thesis by metis
    qed
    also have "\<dots> \<longleftrightarrow> s \<in> class_size 4 ` {i. i < 4 * (n - 4 - 1) \<and> 2 ^ ps dvd class_size 4 i}"
      by (rule mem [symmetric]) (use assms in simp)
    also have "{i. i < 4 * (n - 4 - 1) \<and> 2 ^ ps dvd class_size 4 i} =
        set (filter (\<lambda>i. 2 ^ ps dvd class_size 4 i) [0..<4 * (n - 5)])"
      unfolding set_filter set_upt b by (simp only: atLeast0LessThan lessThan_iff)
    finally show "s \<in> set ?r \<longleftrightarrow> s \<in> set ?l" by (simp only: set_map)
  qed
  then show "set ?l = set ?r" ..
qed

text \<open>The loops that derive the tables.\<close>

lemma list_update_append_length: "length xs = k \<Longrightarrow> (xs @ y # ys)[k := v] = xs @ v # ys"
  by (simp add: list_update_append)

lemma fill_next:
  "k < m \<Longrightarrow> (map f [0..<k] @ replicate (m - k) z)[k := f k] = map f [0..<Suc k] @ replicate (m - Suc k) z"
  by (cases "m - k") (simp_all add: list_update_append Suc_diff_Suc)

lemma idx2SizeTab_run:
  assumes rows: "\<And>i. i < N \<Longrightarrow> row_at sc (int i) = Inr (rw i)"
    and size: "\<And>i. i < N \<Longrightarrow>
      i32 (shl 1 (row_log2Group (rw i)) + shl (row_nDelta (rw i)) (row_log2Delta (rw i))) = f i"
    and multi: "\<And>i. i < N \<Longrightarrow> row_isMultiPageSize (rw i) = yes \<longleftrightarrow> P i"
    and N: "m_nSizes sc = int N"
  shows "idx2SizeTab sc (newInts (int N)) (newInts (int (length (filter P [0..<N])))) =
    Inr (map f [0..<N], map f (filter P [0..<N]))"
proof -
  let ?p = "\<lambda>k. map f (filter P [0..<k])"
  let ?M = "length (filter P [0..<N])"
  have "idx2SizeTab_from sc (int k) (int (length (?p k))) (map f [0..<k] @ replicate (N - k) 0)
      (?p k @ replicate (?M - length (?p k)) 0) = Inr (map f [0..<N], ?p N)" if "k \<le> N" for k
    using that
  proof (induction "N - k" arbitrary: k)
    case 0
    then show ?case by (subst idx2SizeTab_from.simps) (simp add: N)
  next
    case (Suc d)
    then have k: "k < N" by simp
    have IH: "idx2SizeTab_from sc (int (Suc k)) (int (length (?p (Suc k))))
        (map f [0..<Suc k] @ replicate (N - Suc k) 0)
        (?p (Suc k) @ replicate (?M - length (?p (Suc k))) 0) = Inr (map f [0..<N], ?p N)"
      using Suc.hyps(2) k by (intro Suc.hyps(1)) simp_all
    have split: "[0..<N] = [0..<k] @ k # [Suc k..<N]"
      using k by (metis le_add1 le_add_same_cancel1 less_imp_le_nat upt_add_eq_append upt_conv_Cons
          le_Suc_ex plus_nat.add_0)
    have room: "length (?p k) < ?M" if "P k" using that by (simp add: split)
    have sT: "setE (map f [0..<k] @ replicate (N - k) 0) (int k) (f k) =
        Inr (map f [0..<Suc k] @ replicate (N - Suc k) 0)"
      using k fill_next [OF k, of f 0] by (subst setE_nat) simp_all
    have pT: "setE (?p k @ replicate (?M - length (?p k)) 0) (int (length (?p k))) (f k) =
        Inr (?p (Suc k) @ replicate (?M - length (?p (Suc k))) 0)" if "P k"
    proof (cases "?M - length (?p k)")
      case 0
      then show ?thesis using room [OF that] by simp
    next
      case (Suc m)
      then show ?thesis using room [OF that] that
        by (subst setE_nat) (simp_all add: list_update_append Suc_diff_Suc)
    qed
    show ?case
    proof (cases "P k")
      case True
      then show ?thesis
        using k IH pT [OF True] multi [OF k] size [OF k] sT
        by (subst idx2SizeTab_from.simps) (simp add: N rows [OF k] Let_def add.commute)
    next
      case False
      then show ?thesis
        using k IH multi [OF k] size [OF k] sT
        by (subst idx2SizeTab_from.simps) (simp add: N rows [OF k] Let_def add.commute)
    qed
  qed
  from this [of 0] show ?thesis by (simp add: idx2SizeTab_def newInts_def)
qed

text \<open>
  The lookup table: class \<open>i\<close> fills \<open>quanta i\<close> entries, \<open>filled i\<close> entries come before it.
\<close>

definition quanta :: "nat \<Rightarrow> nat" where
  "quanta i = (if i < 4 then 1 else 2 ^ (i div 4 - 1))"

primrec filled :: "nat \<Rightarrow> nat" where
  "filled 0 = 0"
| "filled (Suc i) = filled i + quanta i"

definition lookup_entries :: "nat \<Rightarrow> int list" where
  "lookup_entries m = concat (map (\<lambda>i. replicate (quanta i) (int i)) [0..<m])"

lemma class_size_quanta: "class_size 4 (Suc i) = class_size 4 i + 16 * int (quanta (Suc i))"
proof (cases i rule: index_cases)
  case small
  show ?thesis
  proof (cases "i = 3")
    case True
    then show ?thesis using class_size_group [of 0 4 0] by (simp add: quanta_def)
  qed (use small in \<open>simp add: quanta_def\<close>)
next
  case (group g r)
  show ?thesis
  proof (cases "r = 3")
    case True
    have "Suc i = 4 * Suc (Suc g) + 0" "Suc i div 4 = Suc (Suc g)" using group True by presburger+
    then show ?thesis
      using group True class_size_group [of 0 4 "Suc g"] class_size_group [of 3 4 g]
      by (simp add: quanta_def power_add del: class_size_group_norm)
  next
    case False
    have "Suc i = 4 * Suc g + Suc r" "Suc i div 4 = Suc g" using group False by presburger+
    then show ?thesis
      using group False class_size_group [of "Suc r" 4 g] class_size_group [of r 4 g]
      by (simp add: quanta_def power_add algebra_simps del: class_size_group_norm)
  qed
qed

lemma filled_class: "16 * int (filled (Suc i)) = class_size 4 i"
proof (induction i)
  case (Suc i)
  then show ?case using class_size_quanta [of i] by simp
qed (simp add: quanta_def)

lemma length_lookup_entries [simp]: "length (lookup_entries m) = filled m"
  by (induction m) (simp_all add: lookup_entries_def)

lemma lookup_entries_Suc: "lookup_entries (Suc m) = lookup_entries m @ replicate (quanta m) (int m)"
  by (simp add: lookup_entries_def)

lemma lookup_entries_nth:
  "j < filled m \<Longrightarrow> \<exists>i<m. lookup_entries m ! j = int i \<and> best_class 4 i (16 * (int j + 1))"
proof (induction m)
  case (Suc m)
  show ?case
  proof (cases "j < filled m")
    case True
    with Suc show ?thesis by (auto simp: lookup_entries_Suc nth_append intro: less_SucI)
  next
    case False
    have "best_class 4 m (16 * (int j + 1))"
    proof (rule best_class_prevI)
      show "16 * (int j + 1) \<le> class_size 4 m" using Suc.prems filled_class [of m] by simp
      show "m = 0 \<or> class_size 4 (m - 1) < 16 * (int j + 1)"
        using False filled_class [of "m - 1"] by (cases m) auto
    qed
    moreover have "lookup_entries (Suc m) ! j = int m"
      using False Suc.prems by (simp add: lookup_entries_Suc nth_append)
    ultimately show ?thesis by blast
  qed
qed simp

lemma filled_28: "filled 28 = 256"
  using filled_class [of 27] class_size_top [of 4 6] by simp

lemma size2idxTab_class_run:
  assumes "length pre + t \<le> 256" "size' \<le> 16 * (int (length pre) + 1)"
  shows "size2idxTab_class 4096 i (pre @ replicate (256 - length pre) 0) (int (length pre)) size' (int t) =
    Inr (pre @ replicate t i @ replicate (256 - length pre - t) 0, int (length pre + t),
         if t = 0 then size' else 16 * (int (length pre + t) + 1))"
  using assms
proof (induction t arbitrary: pre size')
  case 0
  then show ?case by (subst size2idxTab_class.simps) simp
next
  case (Suc t)
  let ?pre = "pre @ [i]"
  have "replicate (256 - length pre) 0 = (0::int) # replicate (256 - length ?pre) 0"
    using Suc.prems by (cases "256 - length pre") (simp_all add: Suc_diff_Suc)
  then have upd: "setE (pre @ replicate (256 - length pre) 0) (int (length pre)) i =
      Inr (?pre @ replicate (256 - length ?pre) 0)"
    using Suc.prems by (subst setE_nat) simp_all
  have "shl (int (length pre) + 1 + 1) LOG2_QUANTUM = 16 * (int (length ?pre) + 1)"
    using Suc.prems by (simp add: LOG2_QUANTUM_def machine_int)
  then have "size2idxTab_class 4096 i (pre @ replicate (256 - length pre) 0) (int (length pre)) size' (int (Suc t)) =
      size2idxTab_class 4096 i (?pre @ replicate (256 - length ?pre) 0) (int (length ?pre))
        (16 * (int (length ?pre) + 1)) (int t)"
    using Suc.prems upd by (subst size2idxTab_class.simps) (simp add: add.commute)
  also have "\<dots> = Inr (?pre @ replicate t i @ replicate (256 - length ?pre - t) 0, int (length ?pre + t),
      if t = 0 then 16 * (int (length ?pre) + 1) else 16 * (int (length ?pre + t) + 1))"
    using Suc.prems by (intro Suc.IH) simp_all
  finally show ?case by (simp add: replicate_app_Cons_same)
qed

lemma quanta_pos [simp]: "0 < quanta i"
  by (simp add: quanta_def)

lemma filled_mono: "i \<le> j \<Longrightarrow> filled i \<le> filled j"
  by (rule lift_Suc_mono_le [of filled]) simp

lemma size2idxTab_run:
  assumes rows: "\<And>i. i < 28 \<Longrightarrow> row_at sc (int i) = Inr (rw i)"
    and times': "\<And>i. i < 28 \<Longrightarrow> shl 1 (row_log2Delta (rw i) - LOG2_QUANTUM) = int (quanta i)"
    and L: "m_lookupMaxSize sc = 4096"
  shows "size2idxTab sc (newInts 256) = Inr (lookup_entries 28)"
proof -
  let ?s = "\<lambda>i. if i = 0 then 0 else 16 * (int (filled i) + 1)"
  have "size2idxTab_from sc (int i) (lookup_entries i @ replicate (256 - filled i) 0) (int (filled i)) (?s i) =
      Inr (lookup_entries 28)" if "i \<le> 28" for i
    using that
  proof (induction "28 - i" arbitrary: i)
    case 0
    then have "i = 28" by simp
    then show ?case by (subst size2idxTab_from.simps) (simp add: L filled_28)
  next
    case (Suc d)
    then have i: "i < 28" by simp
    have fits: "filled i + quanta i \<le> 256" using filled_mono [of "Suc i" 28] i filled_28 by simp
    then have lt: "filled i < 256" using quanta_pos [of i] by linarith
    have IH: "size2idxTab_from sc (int (Suc i)) (lookup_entries (Suc i) @ replicate (256 - filled (Suc i)) 0)
        (int (filled (Suc i))) (?s (Suc i)) = Inr (lookup_entries 28)"
      using Suc.hyps(2) i by (intro Suc.hyps(1)) simp_all
    have "size2idxTab_class 4096 (int i) (lookup_entries i @ replicate (256 - filled i) 0) (int (filled i))
        (?s i) (int (quanta i)) =
        Inr (lookup_entries (Suc i) @ replicate (256 - filled (Suc i)) 0, int (filled (Suc i)), ?s (Suc i))"
      using size2idxTab_class_run [of "lookup_entries i" "quanta i" "?s i" "int i"] fits
      by (simp add: lookup_entries_Suc)
    then show ?case
      using IH i lt
      by (subst size2idxTab_from.simps) (simp add: L rows times' add.commute)
  qed
  from this [of 0] show ?thesis by (simp add: size2idxTab_def newInts_def lookup_entries_def)
qed

lemma log2_power: "n \<le> 29 \<Longrightarrow> log2 (2 ^ n) = int n"
proof -
  assume "n \<le> 29"
  then have "(2::int) ^ n \<le> 2 ^ 29" by (rule power_increasing) simp
  then have "u32 (2 ^ n) = 2 ^ n" by (intro u32_id) simp_all
  then show ?thesis by (intro log2_eqI) simp_all
qed

lemma SizeClasses_new_ok:
  assumes ps: "12 \<le> ps" "ps + 2 \<le> n" and n: "n \<le> 29"
  obtains sc where "SizeClasses_new (2 ^ ps) (int ps) (2 ^ n) = Inr sc" "sc_ok ps n sc"
    "m_nSubpages sc = 4 * (int ps - 3) - 1" "m_smallMaxSizeIdx sc = 4 * (int ps - 3) - 2"
proof -
  define N where "N = 4 * (n - 5)"
  let ?P = "\<lambda>i. 2 ^ ps dvd class_size 4 i"
  define sc0 where "sc0 = \<lparr>m_sizeClasses = replicate (4 * (n - 3)) None,
                m_lookupMaxSize = 0, m_pageIdx2sizeTab = [], m_sizeIdx2sizeTab = [],
                m_size2idxTab = [], m_nSizes = 0, m_nSubpages = 0, m_nPSizes = 0,
                m_pageSize = 2 ^ ps, m_pageShifts = int ps, m_chunkSize = 2 ^ n,
                m_smallMaxSizeIdx = 0\<rparr>"
  define sc1 where "sc1 = (rows_done sc0 N)\<lparr>m_nSizes := int N\<rparr>"
  have N: "N \<le> length (m_sizeClasses sc0)" "28 < N" "4 * (ps - 3) - 1 \<le> N"
    using ps by (simp_all add: N_def sc0_def)
  have run: "sizeClasses sc0 = Inr (int N, rows_done sc0 N)"
    unfolding N_def by (rule sizeClasses_run) (use ps n in \<open>simp_all add: sc0_def\<close>)
  have cnt: "m_nPSizes sc1 = int (length (filter ?P [0..<N]))" "m_nSubpages sc1 = 4 * (int ps - 3) - 1"
    "m_smallMaxSizeIdx sc1 = 4 * (int ps - 3) - 2" "m_lookupMaxSize sc1 = 4096"
    "m_nSizes sc1 = int N"
    using rows_done_counters [of n ps N sc0] ps n N class_size_top [of 4 6]
    by (simp_all add: sc1_def sc0_def N_def of_nat_diff min_def)
  have rows: "row_at sc1 (int i) = Inr (row_of (int ps) i)" if "i < N" for i
    using that N rows_done_row [of i N sc0] by (simp add: row_at_def sc1_def) (simp add: sc0_def)
  have "i < N \<Longrightarrow> i < 4 * (n - 5)" for i by (simp add: N_def)
  note f = row_facts [OF this n ps(1)]
  have tab: "idx2SizeTab sc1 (newInts (m_nSizes sc1)) (newInts (m_nPSizes sc1)) =
      Inr (map (class_size 4) [0..<N], map (class_size ps) [0..<4 * (n - ps - 1)])"
    unfolding cnt page_class_list [OF ps, symmetric] N_def [symmetric]
    by (rule idx2SizeTab_run [where rw = "row_of (int ps)"]) (use rows f ps n cnt in \<open>simp_all add: yes_def\<close>)
  define sc2 where "sc2 = sc1\<lparr>m_sizeIdx2sizeTab := map (class_size 4) [0..<N],
      m_pageIdx2sizeTab := map (class_size ps) [0..<4 * (n - ps - 1)]\<rparr>"
  have "size2idxTab sc2 (newInts 256) = Inr (lookup_entries 28)"
  proof (rule size2idxTab_run [where rw = "row_of (int ps)"])
    fix i :: nat
    assume i: "i < 28"
    then show "row_at sc2 (int i) = Inr (row_of (int ps) i)"
      using rows [of i] N by (simp add: row_at_def sc2_def)
    have "row_log2Delta (row_of (int ps) i) = (if i < 4 then 4 else int (i div 4) + 3)"
      using f(5) [of i] i N ps n by simp
    moreover have "(2::int) ^ (i div 4 - 1) \<le> 2 ^ 6" using i by (intro power_increasing) simp_all
    ultimately show "shl 1 (row_log2Delta (row_of (int ps) i) - LOG2_QUANTUM) = int (quanta i)"
      by (auto simp: quanta_def LOG2_QUANTUM_def machine_int nat_diff_distrib)
  qed (simp add: sc2_def cnt)
  moreover have "shr (m_lookupMaxSize sc2) LOG2_QUANTUM = 256"
    by (simp add: sc2_def cnt shr_eq LOG2_QUANTUM_def)
  ultimately have tab2: "size2idxTab sc2 (newInts (shr (m_lookupMaxSize sc2) LOG2_QUANTUM)) = Inr (lookup_entries 28)"
    by simp
  have "shl (log2 (2 ^ n) + 1 - LOG2_QUANTUM) LOG2_SIZE_CLASS_GROUP = 4 * (int n - 3)"
    using ps n by (simp add: log2_power size_class_consts machine_int)
  moreover have "nat (4 * (int n - 3)) = 4 * (n - 3)" using ps by simp
  ultimately have "SizeClasses_new (2 ^ ps) (int ps) (2 ^ n) = Inr (sc2\<lparr>m_size2idxTab := lookup_entries 28\<rparr>)"
    by (simp only: SizeClasses_new_def Let_def sc0_def [symmetric] run bindE.simps prod.case
        sc1_def [symmetric] tab sc2_def [symmetric] tab2)
  moreover have "int (length (filter ?P [0..<N])) = 4 * (int n - int ps - 1)"
    using arg_cong [OF page_class_list [OF ps], of length] ps by (simp add: N_def of_nat_diff)
  then have "sc_ok ps n (sc2\<lparr>m_size2idxTab := lookup_entries 28\<rparr>)"
    using ps n cnt lookup_entries_nth [of _ 28] filled_28
    by (simp add: sc_ok_def sc2_def N_def of_nat_diff) (simp add: sc1_def sc0_def)
  ultimately show ?thesis using that cnt by (simp add: sc2_def)
qed

subsection \<open>The queries against the tables\<close>

lemma sizeIdx2size_ok:
  "sc_ok ps n sc \<Longrightarrow> i < 4 * (n - 5) \<Longrightarrow> sizeIdx2size sc (int i) = Inr (class_size 4 i)"
  by (simp add: sizeIdx2size_def sc_okD(10))

lemma pageIdx2size_ok:
  "sc_ok ps n sc \<Longrightarrow> i < 4 * (n - ps - 1) \<Longrightarrow> pageIdx2size sc (int i) = Inr (class_size ps i)"
  by (simp add: pageIdx2size_def sc_okD(11))

lemma sizeIdx2size_inv:
  "sc_ok ps n sc \<Longrightarrow> sizeIdx2size sc i = Inr c \<Longrightarrow> 0 \<le> i \<and> i < m_nSizes sc \<and> c = class_size 4 (nat i)"
  by (auto simp: sizeIdx2size_def sc_okD(10) sc_okD(7) result_simps)

lemma pageIdx2size_inv:
  "sc_ok ps n sc \<Longrightarrow> pageIdx2size sc i = Inr c \<Longrightarrow> 0 \<le> i \<and> i < m_nPSizes sc \<and> c = class_size ps (nat i)"
  by (auto simp: pageIdx2size_def sc_okD(11) sc_okD(8) result_simps)

lemma SizeClasses_new_sc_ok:
  assumes "12 \<le> ps" "ps + 2 \<le> n" "n \<le> 29" "SizeClasses_new (2 ^ ps) (int ps) (2 ^ n) = Inr sc"
  shows "sc_ok ps n sc"
  using SizeClasses_new_ok [OF assms(1-3)] assms(4) by (metis Inr_inject)

lemma normalizeSize_ok:
  assumes ok: "sc_ok ps n sc" and s: "0 < s" "s \<le> 2 ^ n" and i: "best_class 4 i s"
  shows "normalizeSize sc s = Inr (class_size 4 i)"
proof -
  have s29: "s \<le> 2 ^ 29" using s chunk_bound [OF ok] by simp
  note c = normalizeSizeCompute_ok [OF s(1) s29 i]
  show ?thesis
  proof (cases "s \<le> 4096")
    case True
    obtain k where k: "getE (m_size2idxTab sc) (shr (s - 1) LOG2_QUANTUM) = Inr (int k)"
      "best_class 4 k s" "k < 28"
      using lookup_ok [OF ok s(1) True] .
    have "k = i" using best_class_unique [OF k(2) i] .
    then show ?thesis
      using True s k c sizeIdx2size_ok [OF ok, of i] sc_okD [OF ok]
      by (simp add: normalizeSize_def sizeIdx2size_def)
  next
    case False
    then show ?thesis using c s sc_okD(9) [OF ok] by (simp add: normalizeSize_def)
  qed
qed

lemma and_3_mod_4: "x AND 3 = x mod 4" for x :: int
  using take_bit_eq_mask [of 2 x] by (simp add: take_bit_eq_mod mask_eq_exp_minus_1)

lemma sizeIdx2sizeCompute_eq:
  assumes "i < 4 * (n - 5)" "n \<le> 29"
  shows "sizeIdx2sizeCompute (int i) = class_size 4 i"
proof (cases i rule: index_cases)
  case small
  then show ?thesis
    by (simp add: sizeIdx2sizeCompute_def Let_def LOG2_SIZE_CLASS_GROUP_def LOG2_QUANTUM_def shr_eq
        and_3_mod_4 machine_int)
next
  case (group g r)
  then have g: "g \<le> 23" using assms by simp
  have dm: "int i div 4 = int g + 1" "int i mod 4 = int r" using group by presburger+
  have "shl (shl 1 5) (1 + int g) = 4 * 2 ^ (4 + g)"
    using class_size_bound(2) [OF group(1) g] by (simp add: machine_int nat_add_distrib power_add)
  moreover have "shl (1 + int r) (4 + int g) = (int r + 1) * 2 ^ (4 + g)"
    using shl_parts(3) [OF group(1) g] by (simp add: add.commute)
  ultimately show ?thesis
    using dm shl_parts(5) [OF group(1) g] group
    by (simp add: sizeIdx2sizeCompute_def Let_def LOG2_SIZE_CLASS_GROUP_def LOG2_QUANTUM_def shr_eq
        and_3_mod_4 machine_int add.commute)
qed

lemma pageIdx2sizeCompute_eq:
  assumes ok: "sc_ok ps n sc" and i: "i < 4 * (n - ps - 1)"
  shows "pageIdx2sizeCompute sc (int i) = class_size ps i"
proof -
  note D = sc_okD [OF ok]
  have le: "class_size ps i \<le> 536870912"
    using class_count [OF D(2), of i] i chunk_bound [OF ok] by simp
  show ?thesis
  proof (cases i rule: index_cases)
    case small
    moreover from this have "int i div 4 = 0" by simp
    moreover have "shl (int i + 1) (int ps) = (int i + 1) * 2 ^ ps"
      using le small by (simp add: machine_int)
    moreover have "i64 (class_size ps i) = class_size ps i"
      using le class_size_pos [of ps i] by (intro i64_int) linarith+
    ultimately show ?thesis
      by (simp add: pageIdx2sizeCompute_def Let_def LOG2_SIZE_CLASS_GROUP_def D(5) shr_eq
          and_3_mod_4 machine_int)
  next
    case (group g r)
    have dm: "int i div 4 = int g + 1" "int i mod 4 = int r" using group by presburger+
    have size: "class_size ps i = 4 * 2 ^ (ps + g) + (int r + 1) * 2 ^ (ps + g)"
      using group class_size_group [OF group(1)] by (simp add: algebra_simps)
    have p: "0 \<le> (int r + 1) * 2 ^ (ps + g)" "(0::int) \<le> 4 * 2 ^ (ps + g)" by simp_all
    have c: "(int r + 1) * 2 ^ (ps + g) \<le> INT_MAX" "4 * 2 ^ (ps + g) \<le> INT_MAX"
      using p le size by linarith+
    have "shl (int r + 1) (int ps + int g) = (int r + 1) * 2 ^ (ps + g)"
      using c shl_eq [of "int r + 1" "int ps + int g"] by (simp add: nat_add_distrib)
    moreover have "i64 (push_bit (nat (1 + int g)) (i64 (push_bit (nat (int ps + 1)) 1))) = 4 * 2 ^ (ps + g)"
    proof -
      have "(2::int) ^ (ps + 1) \<le> 2 ^ 30" using D(2,4) by (intro power_increasing) simp_all
      then have "i64 (push_bit (nat (int ps + 1)) 1) = 2 ^ (ps + 1)"
        by (simp add: push_bit_eq_mult nat_add_distrib i64_id order_trans [of _ 0])
      moreover have "2 ^ nat (1 + int g) * 2 ^ (ps + 1) = (4::int) * 2 ^ (ps + g)"
        by (simp add: nat_add_distrib power_add)
      ultimately show ?thesis
        using i64_int [of "4 * 2 ^ (ps + g)"] c p by (simp add: push_bit_eq_mult mult.commute mult.assoc)
    qed
    moreover have "i64 (class_size ps i) = class_size ps i"
      using le class_size_pos [of ps i] by (intro i64_int) linarith+
    ultimately show ?thesis
      using dm size
      by (simp add: pageIdx2sizeCompute_def Let_def LOG2_SIZE_CLASS_GROUP_def D(5) shr_eq and_3_mod_4
          add_ac machine_int)
  qed
qed

subsection \<open>Properties\<close>

text \<open>
  C21: For every page size \<open>2 ^ ps\<close> and chunk size \<open>2 ^ n\<close> the pool supports, constructing a
  \<open>SizeClasses\<close> succeeds (no table is written or read out of bounds and the assertion that
  the last class is the chunk size holds), and every request of 1 to chunkSize bytes gets
  the least class of the table that holds it; \<open>normalizeSize\<close> returns that class's size, and
  its own assertion holds.
\<close>

theorem size_request_gets_least_class:
  assumes "12 \<le> ps" "ps + 2 \<le> n" "n \<le> 29" "0 < s" "s \<le> 2 ^ n"
  shows "\<exists>sc i c. SizeClasses_new (2 ^ ps) (int ps) (2 ^ n) = Inr sc \<and>
    size2SizeIdx sc s = Inr i \<and> sizeIdx2size sc i = Inr c \<and> normalizeSize sc s = Inr c \<and> s \<le> c \<and>
    (\<forall>j d. j < i \<and> sizeIdx2size sc j = Inr d \<longrightarrow> d < s)"
proof -
  obtain sc where sc: "SizeClasses_new (2 ^ ps) (int ps) (2 ^ n) = Inr sc" "sc_ok ps n sc"
    using SizeClasses_new_ok [OF assms(1-3)] by metis
  obtain i where i: "size2SizeIdx sc s = Inr (int i)" "best_class 4 i s" "i < 4 * (n - 5)"
    by (rule size2SizeIdx_ok [OF sc(2) assms(4,5)])
  have "d < s" if "j < int i" "sizeIdx2size sc j = Inr d" for j d
    using sizeIdx2size_inv [OF sc(2) that(2)] that(1) i(2) by (auto simp: best_class_def)
  moreover have "s \<le> class_size 4 i" using i(2) by (simp add: best_class_def)
  ultimately show ?thesis
    using sc(1) i(1) sizeIdx2size_ok [OF sc(2) i(3)] normalizeSize_ok [OF sc(2) assms(4,5) i(2)] by blast
qed

text \<open>C21 at the default configuration: 8 KiB pages, 16 MiB chunks, a request of 5000 bytes.\<close>

theorem size_request_gets_least_class_witness:
  "\<exists>sc i c. SizeClasses_new (2 ^ 13) (int 13) (2 ^ 24) = Inr sc \<and>
    size2SizeIdx sc 5000 = Inr i \<and> sizeIdx2size sc i = Inr c \<and> normalizeSize sc 5000 = Inr c \<and> 5000 \<le> c \<and>
    (\<forall>j d. j < i \<and> sizeIdx2size sc j = Inr d \<longrightarrow> d < 5000)"
  by (rule size_request_gets_least_class) simp_all

text \<open>
  C22: A run of \<open>p\<close> pages: \<open>pages2pageIdx\<close> returns the least page class that holds the run,
  \<open>pages2pageIdxFloor\<close> the greatest page class that fits into it.
\<close>

theorem page_request_ceiling_and_floor:
  assumes "12 \<le> ps" "ps + 2 \<le> n" "n \<le> 29" "SizeClasses_new (2 ^ ps) (int ps) (2 ^ n) = Inr sc"
    and "0 < p" "p * 2 ^ ps \<le> 2 ^ n"
  shows "(\<exists>i c. pages2pageIdx sc p = Inr i \<and> pageIdx2size sc i = Inr c \<and> p * 2 ^ ps \<le> c \<and>
      (\<forall>j d. j < i \<and> pageIdx2size sc j = Inr d \<longrightarrow> d < p * 2 ^ ps)) \<and>
    (\<exists>i c. pages2pageIdxFloor sc p = Inr i \<and> pageIdx2size sc i = Inr c \<and> c \<le> p * 2 ^ ps \<and>
      (\<forall>j d. i < j \<and> pageIdx2size sc j = Inr d \<longrightarrow> p * 2 ^ ps < d))"
proof -
  have ok: "sc_ok ps n sc" using SizeClasses_new_sc_ok assms by blast
  let ?s = "p * 2 ^ ps"
  obtain i where i: "best_class ps i ?s" "i < 4 * (n - ps - 1)" "pages2pageIdx sc p = Inr (int i)"
    "pages2pageIdxFloor sc p = Inr (if class_size ps i > ?s then int i - 1 else int i)"
    using pages2pageIdxCompute_ok [OF ok assms(5,6)] unfolding pages2pageIdx_def pages2pageIdxFloor_def .
  have below: "class_size ps j < ?s" if "j < i" for j using i(1) that by (simp add: best_class_def)
  have at: "?s \<le> class_size ps i" using i(1) by (simp add: best_class_def)
  have "\<exists>i c. pages2pageIdx sc p = Inr i \<and> pageIdx2size sc i = Inr c \<and> ?s \<le> c \<and>
      (\<forall>j d. j < i \<and> pageIdx2size sc j = Inr d \<longrightarrow> d < ?s)"
  proof -
    have "d < ?s" if "j < int i" "pageIdx2size sc j = Inr d" for j d
      using pageIdx2size_inv [OF ok that(2)] that(1) below [of "nat j"] by auto
    then show ?thesis using i(3) at pageIdx2size_ok [OF ok i(2)] by blast
  qed
  moreover have "\<exists>i c. pages2pageIdxFloor sc p = Inr i \<and> pageIdx2size sc i = Inr c \<and> c \<le> ?s \<and>
      (\<forall>j d. i < j \<and> pageIdx2size sc j = Inr d \<longrightarrow> ?s < d)"
  proof (cases "class_size ps i > ?s")
    case True
    have "class_size ps 0 \<le> ?s" using assms(5) by simp
    with True have "0 < i" by (metis less_irrefl not_less gr0I)
    then have j: "int i - 1 = int (i - 1)" "i - 1 < 4 * (n - ps - 1)" using i(2) by simp_all
    have "class_size ps (i - 1) \<le> ?s" using below \<open>0 < i\<close> by (simp add: less_imp_le)
    moreover have "?s < d" if "int (i - 1) < j" "pageIdx2size sc j = Inr d" for j d
    proof -
      from pageIdx2size_inv [OF ok that(2)] that(1) \<open>0 < i\<close>
      have "d = class_size ps (nat j)" "i \<le> nat j" by linarith+
      then have "class_size ps i \<le> d" by simp
      with True show ?thesis by simp
    qed
    ultimately show ?thesis using i(4) True pageIdx2size_ok [OF ok j(2)] j(1) by metis
  next
    case False
    have "?s < d" if "int i < j" "pageIdx2size sc j = Inr d" for j d
    proof -
      from pageIdx2size_inv [OF ok that(2)] that(1)
      have "d = class_size ps (nat j)" "i < nat j" by linarith+
      then have "class_size ps i < d" by simp
      with at show ?thesis by simp
    qed
    then show ?thesis using i(4) False pageIdx2size_ok [OF ok i(2)] by (metis not_less)
  qed
  ultimately show ?thesis ..
qed

text \<open>C22 at the default configuration: nine pages lie between the classes of 8 and 10 pages.\<close>

theorem page_request_ceiling_and_floor_witness:
  "\<exists>sc. SizeClasses_new (2 ^ 13) (int 13) (2 ^ 24) = Inr sc \<and>
    (\<exists>i c. pages2pageIdx sc 9 = Inr i \<and> pageIdx2size sc i = Inr c \<and> 9 * 2 ^ 13 \<le> c \<and>
      (\<forall>j d. j < i \<and> pageIdx2size sc j = Inr d \<longrightarrow> d < 9 * 2 ^ 13)) \<and>
    (\<exists>i c. pages2pageIdxFloor sc 9 = Inr i \<and> pageIdx2size sc i = Inr c \<and> c \<le> 9 * 2 ^ 13 \<and>
      (\<forall>j d. i < j \<and> pageIdx2size sc j = Inr d \<longrightarrow> 9 * 2 ^ 13 < d))"
proof -
  obtain sc where "SizeClasses_new (2 ^ 13) (int 13) (2 ^ 24) = Inr sc"
    using SizeClasses_new_ok [of 13 24] by auto
  with page_request_ceiling_and_floor [of 13 24 sc 9] show ?thesis by simp
qed

text \<open>
  C23: The tables agree with the arithmetic: every entry of the size table is
  \<open>sizeIdx2sizeCompute\<close> of its index, every entry of the page table \<open>pageIdx2sizeCompute\<close>,
  both tables increase strictly, and both end with the chunk size.
\<close>

theorem tables_match_computation:
  assumes "12 \<le> ps" "ps + 2 \<le> n" "n \<le> 29" "SizeClasses_new (2 ^ ps) (int ps) (2 ^ n) = Inr sc"
  shows "(\<forall>i. 0 \<le> i \<and> i < m_nSizes sc \<longrightarrow> sizeIdx2size sc i = Inr (sizeIdx2sizeCompute i)) \<and>
    (\<forall>i. 0 \<le> i \<and> i < m_nPSizes sc \<longrightarrow> pageIdx2size sc i = Inr (pageIdx2sizeCompute sc i)) \<and>
    sorted_wrt (<) (m_sizeIdx2sizeTab sc) \<and> sorted_wrt (<) (m_pageIdx2sizeTab sc) \<and>
    sizeIdx2size sc (m_nSizes sc - 1) = Inr (m_chunkSize sc) \<and>
    pageIdx2size sc (m_nPSizes sc - 1) = Inr (m_chunkSize sc)"
proof -
  have ok: "sc_ok ps n sc" using SizeClasses_new_sc_ok assms by blast
  note D = sc_okD [OF ok]
  have sz: "m_nSizes sc = int (4 * (n - 5))" and pg: "m_nPSizes sc = int (4 * (n - ps - 1))"
    using D(2,3,7,8) by (simp_all add: of_nat_diff)
  have "sizeIdx2size sc i = Inr (sizeIdx2sizeCompute i)" if "0 \<le> i" "i < m_nSizes sc" for i
    using that sizeIdx2size_ok [OF ok, of "nat i"] sizeIdx2sizeCompute_eq [OF _ D(4), of "nat i"]
    by (simp add: sz nat_less_iff)
  moreover have "pageIdx2size sc i = Inr (pageIdx2sizeCompute sc i)" if "0 \<le> i" "i < m_nPSizes sc" for i
    using that pageIdx2size_ok [OF ok, of "nat i"] pageIdx2sizeCompute_eq [OF ok, of "nat i"]
    by (simp add: pg nat_less_iff)
  moreover have "sorted_wrt (<) (m_sizeIdx2sizeTab sc)" "sorted_wrt (<) (m_pageIdx2sizeTab sc)"
    using D(10,11) by (simp_all add: sorted_wrt_map)
  moreover have "m_nSizes sc - 1 = int (4 * (n - 5) - 1)" "m_nPSizes sc - 1 = int (4 * (n - ps - 1) - 1)"
    "4 * (n - 5) - 1 < 4 * (n - 5)" "4 * (n - ps - 1) - 1 < 4 * (n - ps - 1)"
    using D(2,3) sz pg by simp_all
  then have "sizeIdx2size sc (m_nSizes sc - 1) = Inr (m_chunkSize sc)"
    "pageIdx2size sc (m_nPSizes sc - 1) = Inr (m_chunkSize sc)"
    using sizeIdx2size_ok [OF ok] pageIdx2size_ok [OF ok] size_tab_last [OF ok] page_tab_last [OF ok] D(6)
    by metis+
  ultimately show ?thesis by blast
qed

text \<open>C23 at the default configuration.\<close>

theorem tables_match_computation_witness:
  "\<exists>sc. SizeClasses_new (2 ^ 13) (int 13) (2 ^ 24) = Inr sc \<and>
    (\<forall>i. 0 \<le> i \<and> i < m_nSizes sc \<longrightarrow> sizeIdx2size sc i = Inr (sizeIdx2sizeCompute i)) \<and>
    (\<forall>i. 0 \<le> i \<and> i < m_nPSizes sc \<longrightarrow> pageIdx2size sc i = Inr (pageIdx2sizeCompute sc i)) \<and>
    sorted_wrt (<) (m_sizeIdx2sizeTab sc) \<and> sorted_wrt (<) (m_pageIdx2sizeTab sc) \<and>
    sizeIdx2size sc (m_nSizes sc - 1) = Inr (m_chunkSize sc) \<and>
    pageIdx2size sc (m_nPSizes sc - 1) = Inr (m_chunkSize sc)"
proof -
  obtain sc where "SizeClasses_new (2 ^ 13) (int 13) (2 ^ 24) = Inr sc"
    using SizeClasses_new_ok [of 13 24] by auto
  with tables_match_computation [of 13 24 sc] show ?thesis by auto
qed

text \<open>
  The rounding wraps for the largest requests: the aligned size of \<open>INT_MAX\<close> bytes is negative.
\<close>

lemma normalizeSizeCompute_wraps: "normalizeSizeCompute INT_MAX = INT_MIN"
  by code_simp

end
