(* ===== verification/Pool_Handle.thy ===== *)
theory Pool_Handle
  imports Prelude
begin

section \<open>Handles: the 64-bit names of allocated memory\<close>

text \<open>
  The static members of \<open>PoolChunk\<close> that pack a page offset, a page count, the used and the
  subpage flag and a bitmap index into one \<open>long\<close>, and unpack them again. The lemmas give the
  numeric value of a packed handle and that every field is read back.
\<close>

subsection \<open>Packing and unpacking\<close>

definition BITMAP_IDX_BIT_LENGTH :: nat where "BITMAP_IDX_BIT_LENGTH = 32"
definition SUBPAGE_BIT_LENGTH :: nat where "SUBPAGE_BIT_LENGTH = 1"
definition INUSED_BIT_LENGTH :: nat where "INUSED_BIT_LENGTH = 1"
definition SIZE_BIT_LENGTH :: nat where "SIZE_BIT_LENGTH = 15"
definition IS_SUBPAGE_SHIFT :: nat where "IS_SUBPAGE_SHIFT = BITMAP_IDX_BIT_LENGTH"
definition IS_USED_SHIFT :: nat where "IS_USED_SHIFT = SUBPAGE_BIT_LENGTH + IS_SUBPAGE_SHIFT"
definition SIZE_SHIFT :: nat where "SIZE_SHIFT = INUSED_BIT_LENGTH + IS_USED_SHIFT"
definition RUN_OFFSET_SHIFT :: nat where "RUN_OFFSET_SHIFT = SIZE_BIT_LENGTH + SIZE_SHIFT"

lemmas handle_consts = RUN_OFFSET_SHIFT_def SIZE_SHIFT_def IS_USED_SHIFT_def IS_SUBPAGE_SHIFT_def
  SIZE_BIT_LENGTH_def INUSED_BIT_LENGTH_def SUBPAGE_BIT_LENGTH_def BITMAP_IDX_BIT_LENGTH_def

text \<open>\<open>x << n\<close> on a \<open>long\<close>.\<close>

definition shl64 :: "int \<Rightarrow> nat \<Rightarrow> int" where
  "shl64 x n = i64 (push_bit n x)"

definition toRunHandle :: "int \<Rightarrow> int \<Rightarrow> int \<Rightarrow> int" where
  "toRunHandle runOffset runPages inUsed =
     shl64 runOffset RUN_OFFSET_SHIFT OR shl64 runPages SIZE_SHIFT OR shl64 inUsed IS_USED_SHIFT"

definition calculateRunOffset :: "int \<Rightarrow> int" where
  "calculateRunOffset handle = i32 (drop_bit RUN_OFFSET_SHIFT handle)"

definition calculateRunPages :: "int \<Rightarrow> int" where
  "calculateRunPages handle = i32 (drop_bit SIZE_SHIFT handle AND 0x7fff)"

definition calculateRunSize :: "int \<Rightarrow> int \<Rightarrow> int" where
  "calculateRunSize pageShifts handle = shl (calculateRunPages handle) pageShifts"

definition isUsed :: "int \<Rightarrow> bool" where
  "isUsed handle \<longleftrightarrow> drop_bit IS_USED_SHIFT handle AND 1 = 1"

definition isSubpage :: "int \<Rightarrow> bool" where
  "isSubpage handle \<longleftrightarrow> drop_bit IS_SUBPAGE_SHIFT handle AND 1 = 1"

definition isRun :: "int \<Rightarrow> bool" where
  "isRun handle \<longleftrightarrow> \<not> isSubpage handle"

definition calculateBitmapIdx :: "int \<Rightarrow> int" where
  "calculateBitmapIdx handle = i32 handle"

definition lastPage :: "int \<Rightarrow> int \<Rightarrow> int" where
  "lastPage runOffset pages = i32 (runOffset + pages - 1)"

subsection \<open>The value of a handle\<close>

definition handle_of :: "int \<Rightarrow> int \<Rightarrow> int \<Rightarrow> int \<Rightarrow> int \<Rightarrow> int" where
  "handle_of off pages used sub idx = off * 2 ^ 49 + (pages * 2 ^ 34 + (used * 2 ^ 33 + (sub * 2 ^ 32 + idx)))"

definition handle_fields :: "int \<Rightarrow> int \<Rightarrow> int \<Rightarrow> int \<Rightarrow> int \<Rightarrow> bool" where
  "handle_fields off pages used sub idx \<longleftrightarrow>
     0 \<le> off \<and> off < 2 ^ 14 \<and> 0 \<le> pages \<and> pages < 2 ^ 15 \<and> 0 \<le> used \<and> used \<le> 1 \<and> 0 \<le> sub \<and> sub \<le> 1 \<and>
     0 \<le> idx \<and> idx < 2 ^ 31"

lemma or_low:
  fixes a b :: int
  assumes "0 \<le> b" "b < 2 ^ n"
  shows "a * 2 ^ n OR b = a * 2 ^ n + b"
proof -
  have "push_bit n a OR b = push_bit n a + b"
  proof (rule disjunctive_add [symmetric])
    fix i
    have "take_bit n b = b" using assms by (simp add: take_bit_int_eq_self)
    then have "bit b i \<Longrightarrow> i < n" by (metis bit_take_bit_iff)
    then show "\<not> bit (push_bit n a) i \<or> \<not> bit b i" by (auto simp: bit_push_bit_iff)
  qed
  then show ?thesis by (simp add: push_bit_eq_mult)
qed

lemma shl64_eq: "0 \<le> x \<Longrightarrow> x * 2 ^ n < 2 ^ 63 \<Longrightarrow> shl64 x n = x * 2 ^ n"
  by (simp add: shl64_def push_bit_eq_mult i64_id order_trans [of _ 0])

lemma handle_bounds:
  assumes "handle_fields off pages used sub idx"
  shows "0 \<le> sub * 2 ^ 32 + idx" "sub * 2 ^ 32 + idx < 2 ^ 33"
    "0 \<le> used * 2 ^ 33 + (sub * 2 ^ 32 + idx)" "used * 2 ^ 33 + (sub * 2 ^ 32 + idx) < 2 ^ 34"
    "0 \<le> pages * 2 ^ 34 + (used * 2 ^ 33 + (sub * 2 ^ 32 + idx))"
    "pages * 2 ^ 34 + (used * 2 ^ 33 + (sub * 2 ^ 32 + idx)) < 2 ^ 49"
    "0 \<le> handle_of off pages used sub idx" "handle_of off pages used sub idx < 2 ^ 63"
  using assms by (simp_all add: handle_fields_def handle_of_def)

lemma pack_handle:
  assumes "handle_fields off pages used sub idx"
  shows "shl64 off RUN_OFFSET_SHIFT OR shl64 pages SIZE_SHIFT OR shl64 used IS_USED_SHIFT OR
      shl64 sub IS_SUBPAGE_SHIFT OR idx = handle_of off pages used sub idx"
proof -
  note B = handle_bounds [OF assms]
  have s: "shl64 off RUN_OFFSET_SHIFT = off * 2 ^ 49" "shl64 pages SIZE_SHIFT = pages * 2 ^ 34"
    "shl64 used IS_USED_SHIFT = used * 2 ^ 33" "shl64 sub IS_SUBPAGE_SHIFT = sub * 2 ^ 32"
    using assms by (simp_all add: handle_consts shl64_eq handle_fields_def)
  have "sub * 2 ^ 32 OR idx = sub * 2 ^ 32 + idx"
    using assms by (intro or_low) (simp_all add: handle_fields_def)
  then show ?thesis
    unfolding s handle_of_def using or_low [OF B(1,2)] or_low [OF B(3,4)] or_low [OF B(5,6)] by simp
qed

lemma toRunHandle_eq:
  assumes "handle_fields off pages used 0 0"
  shows "toRunHandle off pages used = handle_of off pages used 0 0"
proof -
  have "shl64 0 IS_SUBPAGE_SHIFT OR 0 = 0" by (simp add: shl64_def i64_def)
  with pack_handle [OF assms] show ?thesis by (simp add: toRunHandle_def)
qed

lemma and_mask_15: "x AND 0x7fff = x mod 2 ^ 15" for x :: int
  using take_bit_eq_mask [of 15 x] by (simp add: take_bit_eq_mod mask_eq_exp_minus_1)

lemma and_1_mod: "x AND 1 = x mod 2" for x :: int
  by (simp add: and_one_eq)

lemma div_low: "0 \<le> b \<Longrightarrow> b < c \<Longrightarrow> (a * c + b) div c = a" for a b c :: int
  by simp

lemma unpack_handle:
  assumes "handle_fields off pages used sub idx"
  shows "calculateRunOffset (handle_of off pages used sub idx) = off"
    "calculateRunPages (handle_of off pages used sub idx) = pages"
    "isUsed (handle_of off pages used sub idx) \<longleftrightarrow> used = 1"
    "isSubpage (handle_of off pages used sub idx) \<longleftrightarrow> sub = 1"
    "calculateBitmapIdx (handle_of off pages used sub idx) = idx"
proof -
  note B = handle_bounds [OF assms]
  let ?h = "handle_of off pages used sub idx"
  have f: "0 \<le> off" "off < 16384" "0 \<le> pages" "pages < 32768" "0 \<le> used" "used \<le> 1" "0 \<le> sub" "sub \<le> 1"
    "0 \<le> idx" "idx < 2147483648"
    using assms by (simp_all add: handle_fields_def)
  have d49: "?h div 2 ^ 49 = off" unfolding handle_of_def by (rule div_low [OF B(5,6)])
  then show "calculateRunOffset ?h = off"
    using f by (simp add: calculateRunOffset_def handle_consts drop_bit_eq_div i32_id)
  have "?h = (off * 2 ^ 15 + pages) * 2 ^ 34 + (used * 2 ^ 33 + (sub * 2 ^ 32 + idx))"
    by (simp add: handle_of_def algebra_simps)
  then have d34: "?h div 2 ^ 34 = off * 2 ^ 15 + pages" using div_low [OF B(3,4)] by simp
  then show "calculateRunPages ?h = pages"
    using f by (simp add: calculateRunPages_def handle_consts drop_bit_eq_div and_mask_15 i32_id)
  have "?h = ((off * 2 ^ 15 + pages) * 2 + used) * 2 ^ 33 + (sub * 2 ^ 32 + idx)"
    by (simp add: handle_of_def algebra_simps)
  then have d33: "?h div 2 ^ 33 = (off * 2 ^ 15 + pages) * 2 + used" using div_low [OF B(1,2)] by simp
  moreover have "((off * 2 ^ 15 + pages) * 2 + used) mod 2 = used" using f by (subst mod_mult_self3) simp
  ultimately show "isUsed ?h \<longleftrightarrow> used = 1"
    by (simp only: isUsed_def drop_bit_eq_div and_1_mod) (simp add: handle_consts)
  have e: "?h = (((off * 2 ^ 15 + pages) * 2 + used) * 2 + sub) * 2 ^ 32 + idx"
    by (simp add: handle_of_def algebra_simps)
  then have d32: "?h div 2 ^ 32 = ((off * 2 ^ 15 + pages) * 2 + used) * 2 + sub"
    using div_low [of idx "2 ^ 32"] f by simp
  moreover have "(((off * 2 ^ 15 + pages) * 2 + used) * 2 + sub) mod 2 = sub" using f by (subst mod_mult_self3) simp
  ultimately show "isSubpage ?h \<longleftrightarrow> sub = 1"
    by (simp only: isSubpage_def drop_bit_eq_div and_1_mod) (simp add: handle_consts)
  have "take_bit 32 ?h = idx"
    unfolding e take_bit_eq_mod using f by (subst mod_mult_self3) simp
  then have "signed_take_bit 31 ?h = signed_take_bit 31 idx"
    using signed_take_bit_take_bit [of 31 32 ?h] by simp
  then show "calculateBitmapIdx ?h = idx"
    using f by (simp add: calculateBitmapIdx_def i32_def signed_take_bit_int_eq_self)
qed

end
