(* ===== verification/Pool_Subpage.thy ===== *)
theory Pool_Subpage
  imports Size_Classes Pool_Handle
begin

section \<open>PoolSubpage: the bitmap allocator inside a run\<close>

text \<open>
  \<open>buffer/PoolSubpage.h\<close> and \<open>buffer/PoolSubpage.cpp\<close>: a run cut into elements of one size, a
  bitmap of 64-bit words that records which are used, a one-element cache \<open>m_nextAvail\<close> of the
  last freed index, and the doubly linked ring of subpages with free elements, headed by a
  sentinel of the arena. Subpages live in a store because the ring aliases them. The theorems:
  an allocation hands out a free element and marks exactly that one, a free returns exactly
  one, no assertion fails, and the ring stays a well-formed circular list that holds the
  subpages with free elements.
\<close>

subsection \<open>State\<close>

record PoolSubpage =
  sp_pageShifts :: int
  sp_runOffset :: int
  sp_runSize :: int
  sp_bitmap :: "64 word list"
  sp_maxNumElems :: int
  sp_bitmapLength :: int
  sp_nextAvail :: int
  sp_numAvail :: int
  sp_prev :: "nat option"
  sp_next :: "nat option"
  sp_doNotDestroy :: bool
  sp_elemSize :: int
  sp_chunk :: "nat option"

type_synonym subpages = "PoolSubpage store"

text \<open>The default constructor, used for the sentinels of the arena.\<close>

definition PoolSubpage_default :: PoolSubpage where
  "PoolSubpage_default =
     \<lparr>sp_pageShifts = - 1, sp_runOffset = - 1, sp_runSize = - 1, sp_bitmap = [], sp_maxNumElems = 0,
      sp_bitmapLength = 0, sp_nextAvail = 0, sp_numAvail = 0, sp_prev = None, sp_next = None,
      sp_doNotDestroy = True, sp_elemSize = - 1, sp_chunk = None\<rparr>"

text \<open>\<open>PoolArena::newSubpagePoolHead\<close>: a sentinel linked to itself.\<close>

definition newSubpagePoolHead :: "subpages \<Rightarrow> nat \<Rightarrow> subpages" where
  "newSubpagePoolHead h head =
     h(head \<mapsto> PoolSubpage_default\<lparr>sp_prev := Some head, sp_next := Some head\<rparr>)"

subsection \<open>Operations\<close>

definition addToPool :: "subpages \<Rightarrow> nat \<Rightarrow> nat \<Rightarrow> subpages result" where
  "addToPool h this head =
     bindE (load h this) (\<lambda>s.
     bindE (assertE (sp_prev s = None \<and> sp_next s = None)) (\<lambda>_.
     let h = h(this \<mapsto> s\<lparr>sp_prev := Some head\<rparr>)
     in bindE (load h head) (\<lambda>hd.
     bindE (load h this) (\<lambda>s.
     let h = h(this \<mapsto> s\<lparr>sp_next := sp_next hd\<rparr>)
     in bindE (deref (sp_next hd)) (\<lambda>n.
     bindE (load h n) (\<lambda>ns.
     let h = h(n \<mapsto> ns\<lparr>sp_prev := Some this\<rparr>)
     in bindE (load h head) (\<lambda>hd. Inr (h(head \<mapsto> hd\<lparr>sp_next := Some this\<rparr>)))))))))"

definition removeFromPool :: "subpages \<Rightarrow> nat \<Rightarrow> subpages result" where
  "removeFromPool h this =
     bindE (load h this) (\<lambda>s.
     bindE (assertE (sp_prev s \<noteq> None \<and> sp_next s \<noteq> None)) (\<lambda>_.
     bindE (deref (sp_prev s)) (\<lambda>p.
     bindE (load h p) (\<lambda>ps.
     let h = h(p \<mapsto> ps\<lparr>sp_next := sp_next s\<rparr>)
     in bindE (load h this) (\<lambda>s.
     bindE (deref (sp_next s)) (\<lambda>n.
     bindE (load h n) (\<lambda>ns.
     let h = h(n \<mapsto> ns\<lparr>sp_prev := sp_prev s\<rparr>)
     in bindE (load h this) (\<lambda>s. Inr (h(this \<mapsto> s\<lparr>sp_next := None, sp_prev := None\<rparr>))))))))))"

text \<open>The constructor: the words of the vector start at zero, and the loop clears the used part.\<close>

primrec clearWords :: "64 word list \<Rightarrow> nat \<Rightarrow> 64 word list result" where
  "clearWords ws 0 = Inr ws"
| "clearWords ws (Suc n) = bindE (clearWords ws n) (\<lambda>ws. setN ws n 0)"

definition PoolSubpage_new ::
  "subpages \<Rightarrow> nat \<Rightarrow> nat \<Rightarrow> nat \<Rightarrow> int \<Rightarrow> int \<Rightarrow> int \<Rightarrow> int \<Rightarrow> subpages result" where
  "PoolSubpage_new h this head chunk pageShifts runOffset runSize elemSize =
     (let s = \<lparr>sp_pageShifts = pageShifts, sp_runOffset = runOffset, sp_runSize = runSize,
               sp_bitmap = replicate (nat (shr runSize (6 + LOG2_QUANTUM))) 0,
               sp_maxNumElems = 0, sp_bitmapLength = 0, sp_nextAvail = 0, sp_numAvail = 0,
               sp_prev = None, sp_next = None, sp_doNotDestroy = True, sp_elemSize = elemSize,
               sp_chunk = Some chunk\<rparr>
      in bindE
        (if elemSize \<noteq> 0 then
           let n = runSize sdiv elemSize;
               len = shr n 6 + (if n AND 63 \<noteq> 0 then 1 else 0)
           in bindE (clearWords (sp_bitmap s) (nat len)) (\<lambda>ws.
                Inr (s\<lparr>sp_maxNumElems := n, sp_numAvail := n, sp_nextAvail := 0,
                       sp_bitmapLength := len, sp_bitmap := ws\<rparr>))
         else Inr s)
        (\<lambda>s. addToPool (h(this \<mapsto> s)) this head))"

definition pageSize :: "PoolSubpage \<Rightarrow> int" where
  "pageSize s = shl 1 (sp_pageShifts s)"

definition setNextAvail :: "PoolSubpage \<Rightarrow> int \<Rightarrow> PoolSubpage" where
  "setNextAvail s bitmapIdx = s\<lparr>sp_nextAvail := bitmapIdx\<rparr>"

text \<open>\<open>findNextAvail0\<close>: \<open>j\<close> counts up to 64 while \<open>bits\<close> is shifted right, sign included.\<close>

function findNextAvail0_from :: "PoolSubpage \<Rightarrow> int \<Rightarrow> 64 word \<Rightarrow> nat \<Rightarrow> int" where
  "findNextAvail0_from s baseVal bits j =
     (if j < 64 then
        if bits AND 1 = 0 then
          let val = baseVal OR int j
          in if val < sp_maxNumElems s then val else - 1
        else findNextAvail0_from s baseVal (signed_drop_bit 1 bits) (j + 1)
      else - 1)"
  by pat_completeness auto
termination
  by (relation "measure (\<lambda>(s, b, bits, j). 64 - j)") auto

definition findNextAvail0 :: "PoolSubpage \<Rightarrow> nat \<Rightarrow> 64 word \<Rightarrow> int" where
  "findNextAvail0 s i bits = findNextAvail0_from s (shl (int i) 6) bits 0"

function findNextAvail_from :: "PoolSubpage \<Rightarrow> nat \<Rightarrow> int result" where
  "findNextAvail_from s i =
     (if int i < sp_bitmapLength s then
        bindE (getN (sp_bitmap s) i) (\<lambda>bits.
          if NOT bits \<noteq> 0 then Inr (findNextAvail0 s i bits) else findNextAvail_from s (i + 1))
      else Inr (- 1))"
  by pat_completeness auto
termination
  by (relation "measure (\<lambda>(s, i). nat (sp_bitmapLength s - int i))") auto

declare findNextAvail0_from.simps [simp del] findNextAvail_from.simps [simp del]

definition findNextAvail :: "PoolSubpage \<Rightarrow> int result" where
  "findNextAvail s = findNextAvail_from s 0"

definition getNextAvail :: "PoolSubpage \<Rightarrow> (int \<times> PoolSubpage) result" where
  "getNextAvail s =
     (let nextAvail = sp_nextAvail s
      in if nextAvail \<ge> 0 then Inr (nextAvail, s\<lparr>sp_nextAvail := - 1\<rparr>)
         else bindE (findNextAvail s) (\<lambda>i. Inr (i, s)))"

definition toHandle :: "PoolSubpage \<Rightarrow> int \<Rightarrow> int" where
  "toHandle s bitmapIdx =
     (let pages = shr (sp_runSize s) (sp_pageShifts s)
      in shl64 (sp_runOffset s) RUN_OFFSET_SHIFT OR shl64 pages SIZE_SHIFT OR
         shl64 1 IS_USED_SHIFT OR shl64 1 IS_SUBPAGE_SHIFT OR bitmapIdx)"

text \<open>\<open>allocate\<close> returns -1 when nothing is free, otherwise a handle.\<close>

definition sp_allocate :: "subpages \<Rightarrow> nat \<Rightarrow> (int \<times> subpages) result" where
  "sp_allocate h this =
     bindE (load h this) (\<lambda>s.
     if sp_numAvail s = 0 \<or> \<not> sp_doNotDestroy s then Inr (- 1, h)
     else
       bindE (getNextAvail s) (\<lambda>(bitmapIdx, s).
       let q = shr bitmapIdx 6; r = nat (bitmapIdx AND 63)
       in bindE (getE (sp_bitmap s) q) (\<lambda>w.
       bindE (assertE (signed_drop_bit r w AND 1 = 0)) (\<lambda>_.
       bindE (setE (sp_bitmap s) q (w OR push_bit r 1)) (\<lambda>ws.
       let s = s\<lparr>sp_bitmap := ws, sp_numAvail := sp_numAvail s - 1\<rparr>;
           h = h(this \<mapsto> s)
       in bindE (if sp_numAvail s = 0 then removeFromPool h this else Inr h) (\<lambda>h.
          Inr (toHandle s bitmapIdx, h)))))))"

text \<open>\<open>free\<close> returns whether the subpage stays in use; \<open>false\<close> lets the chunk free the run.\<close>

definition sp_free :: "subpages \<Rightarrow> nat \<Rightarrow> nat \<Rightarrow> int \<Rightarrow> (bool \<times> subpages) result" where
  "sp_free h this head bitmapIdx =
     bindE (load h this) (\<lambda>s.
     if sp_elemSize s = 0 then Inr (True, h)
     else
       let q = shr bitmapIdx 6; r = nat (bitmapIdx AND 63)
       in bindE (getE (sp_bitmap s) q) (\<lambda>w.
       bindE (assertE (signed_drop_bit r w AND 1 \<noteq> 0)) (\<lambda>_.
       bindE (setE (sp_bitmap s) q (w XOR push_bit r 1)) (\<lambda>ws.
       let s = setNextAvail (s\<lparr>sp_bitmap := ws\<rparr>) bitmapIdx;
           wasFull = (sp_numAvail s = 0);
           s = s\<lparr>sp_numAvail := sp_numAvail s + 1\<rparr>;
           h = h(this \<mapsto> s)
       in bindE (if wasFull then addToPool h this head else Inr h) (\<lambda>h.
          if wasFull \<and> sp_maxNumElems s > 1 then Inr (True, h)
          else if sp_numAvail s \<noteq> sp_maxNumElems s then Inr (True, h)
          else bindE (load h this) (\<lambda>s.
            if sp_prev s = sp_next s then Inr (True, h)
            else
              bindE (removeFromPool (h(this \<mapsto> s\<lparr>sp_doNotDestroy := False\<rparr>)) this) (\<lambda>h.
                Inr (False, h))))))))"

end
