(* ===== verification/Pool_Subpage_Laws.thy ===== *)
theory Pool_Subpage_Laws
  imports Pool_Subpage
begin

section \<open>PoolSubpage: correctness of the ring and of the bitmap\<close>

text \<open>
  The ring of subpages as a circular doubly linked list, with the two pointer operations as
  list operations; the bitmap as a set of used elements, with \<open>allocate\<close> and \<open>free\<close> as
  insertion and deletion.
\<close>

subsection \<open>The ring of subpages with free elements\<close>

definition edge :: "subpages \<Rightarrow> nat \<Rightarrow> nat \<Rightarrow> bool" where
  "edge h a b \<longleftrightarrow> (\<exists>s. h a = Some s \<and> sp_next s = Some b) \<and> (\<exists>t. h b = Some t \<and> sp_prev t = Some a)"

primrec links :: "subpages \<Rightarrow> nat \<Rightarrow> nat list \<Rightarrow> nat \<Rightarrow> bool" where
  "links h a [] b \<longleftrightarrow> edge h a b"
| "links h a (x # xs) b \<longleftrightarrow> edge h a x \<and> links h x xs b"

definition ring :: "subpages \<Rightarrow> nat \<Rightarrow> nat list \<Rightarrow> bool" where
  "ring h head xs \<longleftrightarrow> links h head xs head \<and> distinct (head # xs)"

lemma links_append [simp]: "links h a (xs @ y # ys) b \<longleftrightarrow> links h a xs y \<and> links h y ys b"
  by (induction xs arbitrary: a) auto

text \<open>A link only depends on the forward pointers of its sources and the backward pointers of
  its targets.\<close>

lemma links_cong:
  assumes "links h a xs b"
    and "\<And>x s. x \<in> set (a # xs) \<Longrightarrow> h x = Some s \<Longrightarrow> \<exists>s'. h' x = Some s' \<and> sp_next s' = sp_next s"
    and "\<And>x s. x \<in> set (xs @ [b]) \<Longrightarrow> h x = Some s \<Longrightarrow> \<exists>s'. h' x = Some s' \<and> sp_prev s' = sp_prev s"
  shows "links h' a xs b"
  using assms
proof (induction xs arbitrary: a)
  case Nil
  then show ?case by (fastforce simp: edge_def)
next
  case (Cons x xs)
  from Cons.prems have "edge h' a x" by (fastforce simp: edge_def)
  moreover have "links h' x xs b" using Cons.prems by (intro Cons.IH) auto
  ultimately show ?case by simp
qed

definition off_ring :: "PoolSubpage \<Rightarrow> bool" where
  "off_ring s \<longleftrightarrow> sp_prev s = None \<and> sp_next s = None"

text \<open>What both operations leave alone: everything but the two pointers.\<close>

definition same_data :: "PoolSubpage \<Rightarrow> PoolSubpage \<Rightarrow> bool" where
  "same_data s t \<longleftrightarrow> s\<lparr>sp_prev := None, sp_next := None\<rparr> = t\<lparr>sp_prev := None, sp_next := None\<rparr>"

lemma same_data_refl [simp]: "same_data s s"
  by (simp add: same_data_def)

lemma same_data_ptr [simp]:
  "same_data s (t\<lparr>sp_prev := p\<rparr>) = same_data s t" "same_data s (t\<lparr>sp_next := p\<rparr>) = same_data s t"
  by (simp_all add: same_data_def)

definition data_kept :: "subpages \<Rightarrow> subpages \<Rightarrow> bool" where
  "data_kept h h' \<longleftrightarrow> (\<forall>x t. h x = Some t \<longrightarrow> (\<exists>t'. h' x = Some t' \<and> same_data t t'))"

lemma data_keptD: "data_kept h h' \<Longrightarrow> h x = Some t \<Longrightarrow> \<exists>t'. h' x = Some t' \<and> same_data t t'"
  by (simp add: data_kept_def)

lemma addToPool_ring:
  assumes ring: "ring h head xs" and nw: "h this = Some s" "off_ring s" "this \<notin> set (head # xs)"
  obtains h' where "addToPool h this head = Inr h'" "ring h' head (this # xs)"
    "data_kept h h'" "\<forall>x. x \<notin> set (this # head # xs) \<longrightarrow> h' x = h x"
    "\<exists>s'. h' this = Some s' \<and> same_data s s' \<and> sp_prev s' = Some head"
proof -
  define n where "n = hd (xs @ [head])"
  have e: "edge h head n" using ring by (cases xs) (auto simp: ring_def n_def)
  obtain hd' where hd: "h head = Some hd'" "sp_next hd' = Some n" using e by (auto simp: edge_def)
  obtain ns where ns: "h n = Some ns" "sp_prev ns = Some head" using e by (auto simp: edge_def)
  have neq: "this \<noteq> head" "this \<noteq> n" using nw(3) by (cases xs; auto simp: n_def)+
  let ?h1 = "h(this \<mapsto> s\<lparr>sp_prev := Some head, sp_next := Some n\<rparr>, n \<mapsto> ns\<lparr>sp_prev := Some this\<rparr>)"
  define h' where "h' = ?h1(head \<mapsto> (the (?h1 head))\<lparr>sp_next := Some this\<rparr>)"
  have "addToPool h this head = Inr h'"
    using nw hd ns neq by (auto simp: addToPool_def off_ring_def Let_def load_def h'_def)
  moreover have "ring h' head (this # xs)"
  proof (cases xs)
    case Nil
    then show ?thesis
      using hd ns neq nw(3) by (auto simp: ring_def edge_def h'_def n_def)
  next
    case (Cons y ys)
    then have y: "n = y" "y \<noteq> head" "y \<notin> set ys" "head \<notin> set ys" "this \<notin> set ys"
      using ring nw(3) by (auto simp: n_def ring_def)
    have "links h y ys head" using ring Cons by (simp add: ring_def)
    then have "links h' y ys head"
      by (rule links_cong) (use y hd ns neq nw(3) in \<open>auto simp: h'_def\<close>)
    moreover have "edge h' head this" "edge h' this y"
      using y hd ns neq by (auto simp: edge_def h'_def)
    ultimately show ?thesis using ring Cons nw(3) by (simp add: ring_def)
  qed
  moreover have "data_kept h h'"
    using hd ns neq nw by (auto simp: h'_def data_kept_def)
  moreover have "\<forall>x. x \<notin> set (this # head # xs) \<longrightarrow> h' x = h x"
    by (cases xs) (auto simp: h'_def n_def)
  moreover have "\<exists>s'. h' this = Some s' \<and> same_data s s' \<and> sp_prev s' = Some head"
    using neq by (auto simp: h'_def)
  ultimately show ?thesis using that by blast
qed

lemma last_edge: "links h a xs b \<Longrightarrow> edge h (last (a # xs)) b"
  by (induction xs arbitrary: a) auto

lemma first_edge: "links h a xs b \<Longrightarrow> edge h a (hd (xs @ [b]))"
  by (cases xs) auto

lemma removeFromPool_ring:
  assumes ring: "ring h head xs" and x: "x \<in> set xs"
  obtains h' where "removeFromPool h x = Inr h'" "ring h' head (remove1 x xs)"
    "data_kept h h'" "\<forall>y. y \<notin> set (head # xs) \<longrightarrow> h' y = h y"
    "\<exists>s'. h' x = Some s' \<and> off_ring s'"
proof -
  obtain as bs where split: "xs = as @ x # bs" using x by (meson split_list)
  have dist: "distinct (head # as @ x # bs)" using ring by (simp add: ring_def split)
  define p where "p = last (head # as)"
  define n where "n = hd (bs @ [head])"
  have l: "links h head as x" "links h x bs head" using ring by (simp_all add: ring_def split)
  have e: "edge h p x" "edge h x n" using last_edge [OF l(1)] first_edge [OF l(2)] by (simp_all add: p_def n_def)
  have neq: "p \<noteq> x" "n \<noteq> x" "p \<in> set (head # as)" "n \<in> set (bs @ [head])"
    using dist by (cases as rule: rev_cases; cases bs; auto simp: p_def n_def)+
  obtain s where s: "h x = Some s" "sp_next s = Some n" "sp_prev s = Some p" using e by (auto simp: edge_def)
  obtain ps where ps: "h p = Some ps" using e by (auto simp: edge_def)
  obtain ns where ns: "h n = Some ns" using e by (auto simp: edge_def)
  let ?h1 = "h(p \<mapsto> ps\<lparr>sp_next := Some n\<rparr>)"
  let ?h2 = "?h1(n \<mapsto> (the (?h1 n))\<lparr>sp_prev := Some p\<rparr>)"
  define h' where "h' = ?h2(x \<mapsto> s\<lparr>sp_next := None, sp_prev := None\<rparr>)"
  have "removeFromPool h x = Inr h'"
    using s ps ns neq by (auto simp: removeFromPool_def Let_def load_def h'_def)
  moreover have "ring h' head (remove1 x xs)"
  proof -
    have pn: "edge h' p n" using ps ns neq by (auto simp: edge_def h'_def)
    have nx: "\<exists>s'. h' y = Some s' \<and> sp_next s' = sp_next t"
      if "h y = Some t" "y \<noteq> p" "y \<noteq> x" for y t
      using that ps ns by (auto simp: h'_def)
    have pv: "\<exists>s'. h' y = Some s' \<and> sp_prev s' = sp_prev t"
      if "h y = Some t" "y \<noteq> n" "y \<noteq> x" for y t
      using that ps ns by (auto simp: h'_def)
    have A: "links h' head as' p" if "as = as' @ [p]" for as'
    proof -
      have "links h head as' p" using l(1) that by simp
      then show ?thesis
        by (rule links_cong; (intro nx pv)) (use dist neq that in \<open>auto simp: n_def\<close>)
    qed
    have B: "links h' n bs' head" if "bs = n # bs'" for bs'
    proof -
      have "links h n bs' head" using l(2) that by simp
      then show ?thesis
        by (rule links_cong; (intro nx pv)) (use dist neq that in auto)
    qed
    have "links h' head (as @ bs) head"
    proof (cases as rule: rev_cases)
      case Nil
      then have "p = head" by (simp add: p_def)
      with Nil pn B show ?thesis by (cases bs) (auto simp: n_def)
    next
      case (snoc as' a)
      then have "a = p" by (simp add: p_def)
      with snoc pn A B show ?thesis by (cases bs) (auto simp: n_def)
    qed
    moreover have "remove1 x xs = as @ bs" using dist by (simp add: split remove1_append)
    ultimately show ?thesis using dist by (auto simp: ring_def)
  qed
  moreover have "data_kept h h'" using s ps ns by (auto simp: h'_def data_kept_def)
  moreover have "\<forall>y. y \<notin> set (head # xs) \<longrightarrow> h' y = h y"
    using neq by (auto simp: h'_def split)
  moreover have "\<exists>s'. h' x = Some s' \<and> off_ring s'" by (simp add: h'_def off_ring_def)
  ultimately show ?thesis using that by blast
qed

subsection \<open>The bitmap as a set of used elements\<close>

definition used_bit :: "64 word list \<Rightarrow> nat \<Rightarrow> bool" where
  "used_bit ws k \<longleftrightarrow> bit (ws ! (k div 64)) (k mod 64)"

definition used_elems :: "PoolSubpage \<Rightarrow> nat set" where
  "used_elems s = {k. k < nat (sp_maxNumElems s) \<and> used_bit (sp_bitmap s) k}"

definition sp_inv :: "PoolSubpage \<Rightarrow> bool" where
  "sp_inv s \<longleftrightarrow>
     0 < sp_elemSize s \<and> 0 < sp_maxNumElems s \<and> sp_maxNumElems s \<le> 2 ^ 20 \<and>
     sp_maxNumElems s \<le> 64 * int (length (sp_bitmap s)) \<and>
     sp_bitmapLength s = (sp_maxNumElems s + 63) div 64 \<and>
     sp_numAvail s = sp_maxNumElems s - int (card (used_elems s)) \<and>
     (sp_nextAvail s = - 1 \<or>
        0 \<le> sp_nextAvail s \<and> sp_nextAvail s < sp_maxNumElems s \<and> nat (sp_nextAvail s) \<notin> used_elems s)"

lemma finite_used [simp]: "finite (used_elems s)"
  by (simp add: used_elems_def)

lemma card_used_le: "0 \<le> sp_maxNumElems s \<Longrightarrow> int (card (used_elems s)) \<le> sp_maxNumElems s"
proof -
  assume "0 \<le> sp_maxNumElems s"
  moreover have "card (used_elems s) \<le> card {..<nat (sp_maxNumElems s)}"
    by (intro card_mono) (auto simp: used_elems_def)
  ultimately show ?thesis by simp
qed

lemma free_exists:
  assumes "sp_inv s" "sp_numAvail s \<noteq> 0"
  shows "\<exists>k<nat (sp_maxNumElems s). k \<notin> used_elems s"
proof (rule ccontr)
  assume "\<not> ?thesis"
  then have "used_elems s = {..<nat (sp_maxNumElems s)}" by (auto simp: used_elems_def)
  with assms show False by (simp add: sp_inv_def)
qed

lemma and_1_eq_0: "w AND 1 = 0 \<longleftrightarrow> \<not> bit w 0" for w :: "64 word"
  by (simp add: and_one_eq bit_0 mod_2_eq_odd)

lemma not_eq_0_iff: "NOT w \<noteq> 0 \<longleftrightarrow> (\<exists>n<64. \<not> bit w n)" for w :: "64 word"
proof
  assume "NOT w \<noteq> 0"
  then obtain n where "bit (NOT w) n" by (metis bit_eqI bit_0_eq bot_apply bot_bool_def)
  then show "\<exists>n<64. \<not> bit w n" by (auto simp: bit_simps)
next
  assume "\<exists>n<64. \<not> bit w n"
  then obtain n where "bit (NOT w) n" by (auto simp: bit_simps)
  then show "NOT w \<noteq> 0" by auto
qed

lemma or_offset: "j < 64 \<Longrightarrow> i \<le> 2 ^ 16 \<Longrightarrow> shl (int i) 6 OR int j = int (64 * i + j)"
proof -
  assume j: "j < 64" and i: "i \<le> 2 ^ 16"
  have "shl (int i) 6 = push_bit 6 (int i)" using i by (simp add: machine_int push_bit_eq_mult)
  moreover have "push_bit 6 (int i) OR int j = push_bit 6 (int i) + int j"
  proof (rule disjunctive_add [symmetric])
    fix n
    show "\<not> bit (push_bit 6 (int i)) n \<or> \<not> bit (int j) n"
    proof (cases "n < 6")
      case False
      have "int j < 2 ^ 6" using j by simp
      then have "take_bit 6 (int j) = int j" by (simp add: take_bit_int_eq_self)
      then have "\<not> bit (int j) n" using False by (metis bit_take_bit_iff)
      then show ?thesis ..
    qed (simp add: bit_simps)
  qed
  ultimately show ?thesis by (simp add: push_bit_eq_mult)
qed

lemma findNextAvail0_from_eq:
  assumes "j \<le> r" "r < 64" "\<forall>n<64 - j. bit bits n \<longleftrightarrow> bit w (j + n)"
    and "\<not> bit w r" "\<forall>n<r. j \<le> n \<longrightarrow> bit w n" "i \<le> 2 ^ 16"
  shows "findNextAvail0_from s (shl (int i) 6) bits j =
    (if int (64 * i + r) < sp_maxNumElems s then int (64 * i + r) else - 1)"
  using assms
proof (induction "r - j" arbitrary: j bits)
  case 0
  then have "j = r" by simp
  moreover have "\<not> bit bits 0" using 0 by (metis \<open>j = r\<close> add_0_right zero_less_diff)
  ultimately show ?case
    using 0 or_offset [of r i] by (subst findNextAvail0_from.simps) (simp add: and_1_eq_0)
next
  case (Suc d)
  then have j: "j < r" by simp
  then have "bit bits 0" using Suc.prems by auto
  moreover have "\<forall>n<64 - (j + 1). bit (signed_drop_bit 1 bits) n \<longleftrightarrow> bit w (j + 1 + n)"
    using Suc.prems(3) by (auto simp: bit_signed_drop_bit_iff)
  then have "findNextAvail0_from s (shl (int i) 6) (signed_drop_bit 1 bits) (j + 1) =
      (if int (64 * i + r) < sp_maxNumElems s then int (64 * i + r) else - 1)"
    using Suc.hyps(2) Suc.prems j by (intro Suc.hyps(1)) auto
  ultimately show ?case
    using Suc.prems j by (subst findNextAvail0_from.simps) (simp add: and_1_eq_0)
qed

lemma findNextAvail_least:
  assumes inv: "sp_inv s" and K: "K < nat (sp_maxNumElems s)" "\<not> used_bit (sp_bitmap s) K"
    and least: "\<And>k. k < K \<Longrightarrow> used_bit (sp_bitmap s) k"
  shows "findNextAvail s = Inr (int K)"
proof -
  have m: "sp_maxNumElems s \<le> 1048576" using inv by (simp add: sp_inv_def)
  have Km: "int K < sp_maxNumElems s" using K(1) by simp
  have len: "K div 64 < length (sp_bitmap s)" "int (K div 64) < sp_bitmapLength s"
  proof -
    from inv have b: "sp_maxNumElems s \<le> 64 * int (length (sp_bitmap s))"
      "sp_bitmapLength s = (sp_maxNumElems s + 63) div 64" by (simp_all only: sp_inv_def)
    show "K div 64 < length (sp_bitmap s)" using Km b(1) by linarith
    show "int (K div 64) < sp_bitmapLength s" using Km b(2) by linarith
  qed
  have "findNextAvail_from s i = Inr (int K)" if "i \<le> K div 64" for i
    using that
  proof (induction "K div 64 - i" arbitrary: i)
    case 0
    then have i: "i = K div 64" by simp
    let ?w = "sp_bitmap s ! (K div 64)"
    have "\<not> bit ?w (K mod 64)" using K(2) by (simp add: used_bit_def)
    moreover have "\<forall>n<K mod 64. bit ?w n"
    proof safe
      fix n assume n: "n < K mod 64"
      then have "64 * (K div 64) + n < K" by (metis mult_div_mod_eq nat_add_left_cancel_less)
      from least [OF this] n show "bit ?w n"
        using mod_less_divisor [of 64 K] by (simp add: used_bit_def)
    qed
    moreover have "K div 64 \<le> 2 ^ 16"
    proof -
      have "K < 1048576" using Km m by linarith
      then show ?thesis by simp
    qed
    moreover have "64 * (K div 64) + K mod 64 = K" by simp
    ultimately have "findNextAvail0 s (K div 64) ?w = int K"
      using findNextAvail0_from_eq [of 0 "K mod 64" ?w ?w "K div 64" s] Km
      by (simp add: findNextAvail0_def del: of_nat_add of_nat_mult)
    moreover have "NOT ?w \<noteq> 0"
      unfolding not_eq_0_iff using \<open>\<not> bit ?w (K mod 64)\<close> by (intro exI [of _ "K mod 64"]) simp
    ultimately show ?case using i len by (subst findNextAvail_from.simps) simp
  next
    case (Suc d)
    then have i: "i < K div 64" by simp
    have "bit (sp_bitmap s ! i) n" if "n < 64" for n
    proof -
      have "64 * i + n < K" using i that by linarith
      from least [OF this] that show ?thesis by (simp add: used_bit_def)
    qed
    then have "NOT (sp_bitmap s ! i) = 0" using not_eq_0_iff by blast
    moreover have "findNextAvail_from s (i + 1) = Inr (int K)" using Suc i by simp
    ultimately show ?case using i len by (subst findNextAvail_from.simps) simp
  qed
  from this [of 0] show ?thesis by (simp add: findNextAvail_def)
qed

lemma shr_6_nat [simp]: "shr (int k) 6 = int (k div 64)"
  by (simp add: shr_eq)

lemma and_63_nat [simp]: "nat (int k AND 63) = k mod 64"
proof -
  have "int k AND 63 = int k mod 64"
    using take_bit_eq_mask [of 6 "int k"] by (simp add: take_bit_eq_mod mask_eq_exp_minus_1)
  then show ?thesis by (simp add: nat_mod_as_int)
qed

lemma used_test: "r < 64 \<Longrightarrow> signed_drop_bit r w AND 1 = 0 \<longleftrightarrow> \<not> bit w r" for w :: "64 word"
  by (simp add: and_1_eq_0 bit_signed_drop_bit_iff)

lemma bit_one_at: "r < 64 \<Longrightarrow> bit ((2 :: 64 word) ^ r) n \<longleftrightarrow> n = r"
  by (auto simp: bit_exp_iff)

lemma div_mod_64_eq: "j div 64 = k div 64 \<Longrightarrow> j mod 64 = k mod 64 \<Longrightarrow> j = (k::nat)"
  by (metis div_mult_mod_eq)

lemma used_bit_set:
  "k div 64 < length ws \<Longrightarrow>
   used_bit (ws[k div 64 := ws ! (k div 64) OR push_bit (k mod 64) 1]) j \<longleftrightarrow> used_bit ws j \<or> j = k"
  by (auto simp: used_bit_def nth_list_update bit_or_iff bit_one_at dest: div_mod_64_eq)

lemma used_bit_flip:
  "k div 64 < length ws \<Longrightarrow> used_bit ws k \<Longrightarrow>
   used_bit (ws[k div 64 := ws ! (k div 64) XOR push_bit (k mod 64) 1]) j \<longleftrightarrow> used_bit ws j \<and> j \<noteq> k"
  by (auto simp: used_bit_def nth_list_update bit_xor_iff bit_one_at dest: div_mod_64_eq)

lemma index_in_bitmap:
  assumes "sp_inv s" "k < nat (sp_maxNumElems s)"
  shows "k div 64 < length (sp_bitmap s)"
proof -
  have "sp_maxNumElems s \<le> 64 * int (length (sp_bitmap s))" using assms(1) by (simp only: sp_inv_def)
  moreover have "int k < sp_maxNumElems s" using assms(2) by linarith
  ultimately show ?thesis by linarith
qed

text \<open>The two updates of a subpage, without the ring.\<close>

definition take_elem :: "PoolSubpage \<Rightarrow> nat \<Rightarrow> PoolSubpage" where
  "take_elem s k = s\<lparr>sp_nextAvail := - 1,
     sp_bitmap := (sp_bitmap s)[k div 64 := sp_bitmap s ! (k div 64) OR push_bit (k mod 64) 1],
     sp_numAvail := sp_numAvail s - 1\<rparr>"

definition give_elem :: "PoolSubpage \<Rightarrow> nat \<Rightarrow> PoolSubpage" where
  "give_elem s k = s\<lparr>sp_bitmap := (sp_bitmap s)[k div 64 := sp_bitmap s ! (k div 64) XOR push_bit (k mod 64) 1],
     sp_nextAvail := int k, sp_numAvail := sp_numAvail s + 1\<rparr>"

lemma take_elem_used:
  assumes "sp_inv s" "k < nat (sp_maxNumElems s)"
  shows "used_elems (take_elem s k) = insert k (used_elems s)"
  using assms used_bit_set [OF index_in_bitmap [OF assms]]
  by (auto simp: used_elems_def take_elem_def)

lemma give_elem_used:
  assumes "sp_inv s" "k \<in> used_elems s"
  shows "used_elems (give_elem s k) = used_elems s - {k}"
proof -
  have k: "k < nat (sp_maxNumElems s)" "used_bit (sp_bitmap s) k" using assms(2) by (auto simp: used_elems_def)
  show ?thesis
    using used_bit_flip [OF index_in_bitmap [OF assms(1) k(1)] k(2)]
    by (auto simp: used_elems_def give_elem_def)
qed

lemma take_elem_inv:
  assumes "sp_inv s" "k < nat (sp_maxNumElems s)" "k \<notin> used_elems s"
  shows "sp_inv (take_elem s k)"
  using assms take_elem_used [OF assms(1,2)] by (simp add: sp_inv_def) (simp add: take_elem_def)

lemma give_elem_inv:
  assumes "sp_inv s" "k \<in> used_elems s"
  shows "sp_inv (give_elem s k)"
proof -
  have "0 < card (used_elems s)" using assms(2) by (auto simp: card_gt_0_iff)
  moreover have "int k < sp_maxNumElems s" using assms(2) by (auto simp: used_elems_def)
  ultimately show ?thesis
    using assms give_elem_used [OF assms] by (simp add: sp_inv_def) (simp add: give_elem_def of_nat_diff)
qed

text \<open>\<open>getNextAvail\<close> finds a free element whenever there is one.\<close>

lemma getNextAvail_ok:
  assumes inv: "sp_inv s" and avail: "sp_numAvail s \<noteq> 0"
  obtains k where "getNextAvail s = Inr (int k, s\<lparr>sp_nextAvail := - 1\<rparr>)"
    "k < nat (sp_maxNumElems s)" "k \<notin> used_elems s"
proof (cases "sp_nextAvail s = - 1")
  case True
  define K where "K = (LEAST k. \<not> used_bit (sp_bitmap s) k)"
  obtain k where k: "k < nat (sp_maxNumElems s)" "\<not> used_bit (sp_bitmap s) k"
    using free_exists [OF assms] by (auto simp: used_elems_def)
  have "\<not> used_bit (sp_bitmap s) K" "K \<le> k" unfolding K_def using k(2) by (rule LeastI, rule Least_le)
  moreover have "used_bit (sp_bitmap s) j" if "j < K" for j
    using not_less_Least [of j "\<lambda>k. \<not> used_bit (sp_bitmap s) k"] that by (auto simp: K_def)
  ultimately have "findNextAvail s = Inr (int K)" "K < nat (sp_maxNumElems s)" "K \<notin> used_elems s"
    using findNextAvail_least [OF inv, of K] k by (auto simp: used_elems_def)
  moreover have "s\<lparr>sp_nextAvail := - 1\<rparr> = s" using True by (metis PoolSubpage.surjective PoolSubpage.update_convs(7))
  ultimately show ?thesis using that True by (simp add: getNextAvail_def)
next
  case False
  with inv have n: "0 \<le> sp_nextAvail s" "sp_nextAvail s < sp_maxNumElems s"
    "nat (sp_nextAvail s) \<notin> used_elems s" by (auto simp: sp_inv_def)
  then show ?thesis using that [of "nat (sp_nextAvail s)"] by (simp add: getNextAvail_def)
qed

subsection \<open>Allocating and freeing elements\<close>

text \<open>
  The subpages \<open>U\<close> of one size class: each is well formed, the ring of \<open>head\<close> holds exactly
  those with a free element, the others are off the ring.
\<close>

definition pool_inv :: "subpages \<Rightarrow> nat \<Rightarrow> nat list \<Rightarrow> nat set \<Rightarrow> bool" where
  "pool_inv h head xs U \<longleftrightarrow>
     ring h head xs \<and> set xs \<subseteq> U \<and> head \<notin> U \<and>
     (\<forall>p\<in>U. \<exists>s. h p = Some s \<and> sp_inv s \<and> sp_doNotDestroy s \<and>
        (p \<in> set xs \<longleftrightarrow> sp_numAvail s \<noteq> 0) \<and> (p \<notin> set xs \<longrightarrow> off_ring s))"

lemma pool_invD:
  assumes "pool_inv h head xs U" "p \<in> U" "h p = Some s"
  shows "ring h head xs" "sp_inv s" "sp_doNotDestroy s" "p \<in> set xs \<longleftrightarrow> sp_numAvail s \<noteq> 0"
    "p \<notin> set xs \<Longrightarrow> off_ring s" "p \<noteq> head"
  using assms by (auto simp: pool_inv_def)

lemma ring_data:
  assumes "ring h head xs" "h p = Some s" "sp_prev s' = sp_prev s" "sp_next s' = sp_next s"
  shows "ring (h(p \<mapsto> s')) head xs"
proof -
  have "links (h(p \<mapsto> s')) head xs head"
    by (rule links_cong [of h]) (use assms in \<open>auto simp: ring_def\<close>)
  then show ?thesis using assms(1) by (simp add: ring_def)
qed

lemma same_dataD:
  assumes "same_data s t"
  shows "sp_inv t = sp_inv s" "sp_doNotDestroy t = sp_doNotDestroy s" "sp_numAvail t = sp_numAvail s"
    "used_elems t = used_elems s" "sp_maxNumElems t = sp_maxNumElems s"
    "sp_elemSize t = sp_elemSize s" "sp_runOffset t = sp_runOffset s" "sp_runSize t = sp_runSize s"
    "sp_bitmap t = sp_bitmap s" "sp_pageShifts t = sp_pageShifts s"
proof -
  have t: "t = s\<lparr>sp_prev := sp_prev t, sp_next := sp_next t\<rparr>"
    using assms by (cases s, cases t) (simp add: same_data_def)
  show "sp_inv t = sp_inv s" "sp_doNotDestroy t = sp_doNotDestroy s" "sp_numAvail t = sp_numAvail s"
    "used_elems t = used_elems s" "sp_maxNumElems t = sp_maxNumElems s"
    "sp_elemSize t = sp_elemSize s" "sp_runOffset t = sp_runOffset s" "sp_runSize t = sp_runSize s"
    "sp_bitmap t = sp_bitmap s" "sp_pageShifts t = sp_pageShifts s"
    by (subst t, simp add: sp_inv_def used_elems_def)+
qed

text \<open>The invariant after a change of the ring, for all subpages but the one that changed.\<close>

lemma pool_inv_ringI:
  assumes old: "pool_inv h head xs U" and ring: "ring h' head xs'" and U: "U' \<subseteq> insert p U"
    and mem: "\<And>q. q \<noteq> p \<Longrightarrow> q \<in> set xs' \<longleftrightarrow> q \<in> set xs" and "p \<in> set xs' \<Longrightarrow> p \<in> U'" "p \<noteq> head"
    and keep: "U \<subseteq> insert p U'"
    and data: "\<And>q t. q \<in> U \<Longrightarrow> q \<noteq> p \<Longrightarrow> h q = Some t \<Longrightarrow> \<exists>t'. h' q = Some t' \<and> same_data t t'"
    and off: "\<And>q. q \<in> U \<Longrightarrow> q \<noteq> p \<Longrightarrow> q \<notin> set xs \<Longrightarrow> h' q = h q"
    and this': "p \<in> U' \<Longrightarrow> \<exists>s. h' p = Some s \<and> sp_inv s \<and> sp_doNotDestroy s \<and>
        (p \<in> set xs' \<longleftrightarrow> sp_numAvail s \<noteq> 0) \<and> (p \<notin> set xs' \<longrightarrow> off_ring s)"
  shows "pool_inv h' head xs' U'"
  unfolding pool_inv_def
proof (intro conjI ballI)
  show "ring h' head xs'" by (rule ring)
  show "set xs' \<subseteq> U'" using old mem keep assms(5) by (force simp: pool_inv_def)
  show "head \<notin> U'" using old U assms(6) by (auto simp: pool_inv_def)
  fix q assume q: "q \<in> U'"
  show "\<exists>s. h' q = Some s \<and> sp_inv s \<and> sp_doNotDestroy s \<and>
      (q \<in> set xs' \<longleftrightarrow> sp_numAvail s \<noteq> 0) \<and> (q \<notin> set xs' \<longrightarrow> off_ring s)"
  proof (cases "q = p")
    case True
    with q this' show ?thesis by simp
  next
    case False
    with q U have qU: "q \<in> U" by auto
    then obtain t where t: "h q = Some t" "sp_inv t" "sp_doNotDestroy t"
      "q \<in> set xs \<longleftrightarrow> sp_numAvail t \<noteq> 0" "q \<notin> set xs \<longrightarrow> off_ring t"
      using old by (auto simp: pool_inv_def)
    obtain t' where "h' q = Some t'" "same_data t t'" using data [OF qU False t(1)] by blast
    with t mem [OF False] off [OF qU False] same_dataD [OF \<open>same_data t t'\<close>] show ?thesis by auto
  qed
qed

lemma sp_allocate_full:
  "h p = Some s \<Longrightarrow> sp_numAvail s = 0 \<or> \<not> sp_doNotDestroy s \<Longrightarrow> sp_allocate h p = Inr (- 1, h)"
  by (simp add: sp_allocate_def)

lemma sp_allocate_step:
  assumes inv: "sp_inv s" and s: "h p = Some s" "sp_doNotDestroy s" "sp_numAvail s \<noteq> 0"
  obtains k where "k < nat (sp_maxNumElems s)" "k \<notin> used_elems s"
    "sp_allocate h p =
       bindE (if sp_numAvail s = 1 then removeFromPool (h(p \<mapsto> take_elem s k)) p
              else Inr (h(p \<mapsto> take_elem s k))) (\<lambda>h. Inr (toHandle s (int k), h))"
proof -
  obtain k where k: "getNextAvail s = Inr (int k, s\<lparr>sp_nextAvail := - 1\<rparr>)"
    "k < nat (sp_maxNumElems s)" "k \<notin> used_elems s"
    using getNextAvail_ok [OF inv s(3)] by blast
  have "\<not> used_bit (sp_bitmap s) k" using k by (auto simp: used_elems_def)
  then have "sp_allocate h p =
       bindE (if sp_numAvail s = 1 then removeFromPool (h(p \<mapsto> take_elem s k)) p
              else Inr (h(p \<mapsto> take_elem s k))) (\<lambda>h. Inr (toHandle s (int k), h))"
    using s k(1) index_in_bitmap [OF inv k(2)]
    by (simp add: sp_allocate_def used_test used_bit_def Let_def take_elem_def toHandle_def)
  with k that show ?thesis by blast
qed

lemma take_elem_frame [simp]:
  "sp_prev (take_elem s k) = sp_prev s" "sp_next (take_elem s k) = sp_next s"
  "sp_doNotDestroy (take_elem s k) = sp_doNotDestroy s" "sp_numAvail (take_elem s k) = sp_numAvail s - 1"
  "sp_maxNumElems (take_elem s k) = sp_maxNumElems s"
  by (simp_all add: take_elem_def)

lemma give_elem_frame [simp]:
  "sp_prev (give_elem s k) = sp_prev s" "sp_next (give_elem s k) = sp_next s"
  "sp_doNotDestroy (give_elem s k) = sp_doNotDestroy s" "sp_numAvail (give_elem s k) = sp_numAvail s + 1"
  "sp_maxNumElems (give_elem s k) = sp_maxNumElems s"
  by (simp_all add: give_elem_def)

lemma sp_allocate_ok:
  assumes inv: "pool_inv h head xs U" and p: "p \<in> U" "h p = Some s" and avail: "sp_numAvail s \<noteq> 0"
  obtains k h' xs' s' where "sp_allocate h p = Inr (toHandle s (int k), h')"
    "k < nat (sp_maxNumElems s)" "k \<notin> used_elems s"
    "pool_inv h' head xs' U" "h' p = Some s'" "used_elems s' = insert k (used_elems s)"
    "same_data (take_elem s k) s'"
    "\<And>q t. h q = Some t \<Longrightarrow> q \<noteq> p \<Longrightarrow> \<exists>t'. h' q = Some t' \<and> same_data t t'"
proof -
  note D = pool_invD [OF inv p]
  obtain k where k: "k < nat (sp_maxNumElems s)" "k \<notin> used_elems s"
    and step: "sp_allocate h p =
       bindE (if sp_numAvail s = 1 then removeFromPool (h(p \<mapsto> take_elem s k)) p
              else Inr (h(p \<mapsto> take_elem s k))) (\<lambda>h. Inr (toHandle s (int k), h))"
    using sp_allocate_step [of s h p] D(2,3) p(2) avail by blast
  let ?s = "take_elem s k" and ?h = "h(p \<mapsto> take_elem s k)"
  note tk = take_elem_inv [OF D(2) k] take_elem_used [OF D(2) k(1)]
  have ring: "ring ?h head xs" by (rule ring_data [OF D(1) p(2)]) simp_all
  have pxs: "p \<in> set xs" using D(4) avail by simp
  show ?thesis
  proof (cases "sp_numAvail s = 1")
    case True
    obtain h' where h': "removeFromPool ?h p = Inr h'" "ring h' head (remove1 p xs)"
      "data_kept ?h h'" "\<forall>y. y \<notin> set (head # xs) \<longrightarrow> h' y = ?h y" "\<exists>s'. h' p = Some s' \<and> off_ring s'"
      by (rule removeFromPool_ring [OF ring pxs])
    obtain s' where s': "h' p = Some s'" "same_data ?s s'" using data_keptD [OF h'(3), of p ?s] by auto
    have dist: "distinct xs" using ring by (simp add: ring_def)
    have "pool_inv h' head (remove1 p xs) U"
    proof (rule pool_inv_ringI [OF inv h'(2)])
      show "\<exists>t'. h' q = Some t' \<and> same_data t t'" if "q \<in> U" "q \<noteq> p" "h q = Some t" for q t
        using data_keptD [OF h'(3), of q t] that by simp
      show "h' q = h q" if "q \<in> U" "q \<noteq> p" "q \<notin> set xs" for q
        using h'(4) that inv by (auto simp: pool_inv_def)
      show "\<exists>s. h' p = Some s \<and> sp_inv s \<and> sp_doNotDestroy s \<and>
          (p \<in> set (remove1 p xs) \<longleftrightarrow> sp_numAvail s \<noteq> 0) \<and> (p \<notin> set (remove1 p xs) \<longrightarrow> off_ring s)"
        using s' h'(5) same_dataD [OF s'(2)] tk D(3) True dist by auto
    qed (use D(6) dist p in \<open>auto simp: notin_set_remove1\<close>)
    then show ?thesis
      using that [of k h' "remove1 p xs" s'] step True h'(1) data_keptD [OF h'(3)] k s' tk
        same_dataD [OF s'(2)] by auto
  next
    case False
    have "pool_inv ?h head xs U"
      by (rule pool_inv_ringI [OF inv ring, of _ p]) (use tk D pxs p avail False in auto)
    then show ?thesis
      using that [of k ?h xs ?s] step False k tk by auto
  qed
qed

lemma sp_free_step:
  assumes inv: "sp_inv s" and s: "h p = Some s" and k: "k \<in> used_elems s"
  shows "sp_free h p head (int k) =
    (let s' = give_elem s k; h1 = h(p \<mapsto> s')
     in bindE (if sp_numAvail s = 0 then addToPool h1 p head else Inr h1) (\<lambda>h.
        if sp_numAvail s = 0 \<and> sp_maxNumElems s > 1 \<or> sp_numAvail s + 1 \<noteq> sp_maxNumElems s then Inr (True, h)
        else bindE (load h p) (\<lambda>s. if sp_prev s = sp_next s then Inr (True, h)
          else bindE (removeFromPool (h(p \<mapsto> s\<lparr>sp_doNotDestroy := False\<rparr>)) p) (\<lambda>h. Inr (False, h)))))"
proof -
  have k': "k < nat (sp_maxNumElems s)" "used_bit (sp_bitmap s) k" using k by (auto simp: used_elems_def)
  show ?thesis
    using s k' index_in_bitmap [OF inv k'(1)] inv
    by (auto simp: sp_free_def used_test used_bit_def Let_def give_elem_def setNextAvail_def sp_inv_def
        intro!: bindE_cong)
qed

lemma ring_alone_iff:
  assumes "ring h head xs" "p \<in> set xs" "h p = Some s"
  shows "sp_prev s = sp_next s \<longleftrightarrow> xs = [p]"
proof -
  obtain as bs where split: "xs = as @ p # bs" using assms(2) by (meson split_list)
  have l: "links h head as p" "links h p bs head" using assms(1) by (simp_all add: ring_def split)
  have "edge h (last (head # as)) p" "edge h p (hd (bs @ [head]))"
    using last_edge [OF l(1)] first_edge [OF l(2)] by simp_all
  then have "sp_prev s = Some (last (head # as))" "sp_next s = Some (hd (bs @ [head]))"
    using assms(3) by (auto simp: edge_def)
  moreover have "last (head # as) = hd (bs @ [head]) \<longleftrightarrow> as = [] \<and> bs = []"
    using assms(1) by (cases as rule: rev_cases; cases bs) (auto simp: ring_def split)
  moreover have "xs = [p] \<longleftrightarrow> as = [] \<and> bs = []" by (auto simp: split append_eq_Cons_conv)
  ultimately show ?thesis by simp
qed

text \<open>After the element is returned and the subpage is back on the ring.\<close>

lemma sp_free_back_on_ring:
  assumes inv: "pool_inv h head xs U" and p: "p \<in> U" "h p = Some s" and k: "k \<in> used_elems s"
  defines "h1 \<equiv> h(p \<mapsto> give_elem s k)"
  obtains h2 xs2 s2 where
    "(if sp_numAvail s = 0 then addToPool h1 p head else Inr h1) = Inr h2"
    "pool_inv h2 head xs2 U" "p \<in> set xs2" "set xs2 = insert p (set xs)" "h2 p = Some s2"
    "same_data (give_elem s k) s2"
    "\<forall>q t. h q = Some t \<longrightarrow> q \<noteq> p \<longrightarrow> (\<exists>t'. h2 q = Some t' \<and> same_data t t')"
proof -
  note D = pool_invD [OF inv p]
  note gv = give_elem_inv [OF D(2) k]
  have num: "0 \<le> sp_numAvail s" using card_used_le [of s] D(2) by (simp add: sp_inv_def)
  have ring: "ring h1 head xs" unfolding h1_def by (rule ring_data [OF D(1) p(2)]) simp_all
  show ?thesis
  proof (cases "sp_numAvail s = 0")
    case True
    then have off: "p \<notin> set xs" "off_ring (give_elem s k)" using D(4,5) by (auto simp: off_ring_def)
    have h1p: "h1 p = Some (give_elem s k)" and pxs: "p \<notin> set (head # xs)"
      using off D(6) by (simp_all add: h1_def)
    obtain h' where h': "addToPool h1 p head = Inr h'" "ring h' head (p # xs)" "data_kept h1 h'"
      "\<forall>x. x \<notin> set (p # head # xs) \<longrightarrow> h' x = h1 x"
      "\<exists>s'. h' p = Some s' \<and> same_data (give_elem s k) s' \<and> sp_prev s' = Some head"
      by (rule addToPool_ring [OF ring h1p off(2) pxs])
    then obtain s' where s': "h' p = Some s'" "same_data (give_elem s k) s'" by blast
    have "pool_inv h' head (p # xs) U"
    proof (rule pool_inv_ringI [OF inv h'(2)])
      show "\<exists>t'. h' q = Some t' \<and> same_data t t'" if "q \<in> U" "q \<noteq> p" "h q = Some t" for q t
        using data_keptD [OF h'(3), of q t] that by (simp add: h1_def)
      show "h' q = h q" if "q \<in> U" "q \<noteq> p" "q \<notin> set xs" for q
        using h'(4) that inv by (auto simp: pool_inv_def h1_def)
      show "\<exists>s. h' p = Some s \<and> sp_inv s \<and> sp_doNotDestroy s \<and>
          (p \<in> set (p # xs) \<longleftrightarrow> sp_numAvail s \<noteq> 0) \<and> (p \<notin> set (p # xs) \<longrightarrow> off_ring s)"
        using s' same_dataD [OF s'(2)] gv D(3) True by auto
    qed (use D(6) p in auto)
    moreover have "\<forall>q t. h q = Some t \<longrightarrow> q \<noteq> p \<longrightarrow> (\<exists>t'. h' q = Some t' \<and> same_data t t')"
      using data_keptD [OF h'(3)] by (simp add: h1_def)
    ultimately show ?thesis using that [of h' "p # xs" s'] h'(1) True s' by simp
  next
    case False
    then have pxs: "p \<in> set xs" using D(4) by simp
    have "pool_inv h1 head xs U"
      by (rule pool_inv_ringI [OF inv ring, of _ p]) (use gv D pxs p num in \<open>auto simp: h1_def\<close>)
    then show ?thesis
      using that [of h1 xs "give_elem s k"] False pxs by (auto simp: h1_def)
  qed
qed

lemma sp_free_ok:
  assumes inv: "pool_inv h head xs U" and p: "p \<in> U" "h p = Some s" and k: "k \<in> used_elems s"
  obtains b h' xs' s' where "sp_free h p head (int k) = Inr (b, h')"
    "h' p = Some s'" "used_elems s' = used_elems s - {k}"
    "b \<longleftrightarrow> used_elems s \<noteq> {k} \<or> set xs \<subseteq> {p}"
    "pool_inv h' head xs' (if b then U else U - {p})"
    "\<not> b \<Longrightarrow> \<not> sp_doNotDestroy s' \<and> off_ring s'"
    "\<forall>q t. h q = Some t \<longrightarrow> q \<noteq> p \<longrightarrow> (\<exists>t'. h' q = Some t' \<and> same_data t t')"
proof -
  note D = pool_invD [OF inv p]
  note gv = give_elem_inv [OF D(2) k] give_elem_used [OF D(2) k]
  obtain h2 xs2 s2 where h2: "(if sp_numAvail s = 0 then addToPool (h(p \<mapsto> give_elem s k)) p head
        else Inr (h(p \<mapsto> give_elem s k))) = Inr h2"
    "pool_inv h2 head xs2 U" "p \<in> set xs2" "set xs2 = insert p (set xs)" "h2 p = Some s2"
    "same_data (give_elem s k) s2"
    "\<forall>q t. h q = Some t \<longrightarrow> q \<noteq> p \<longrightarrow> (\<exists>t'. h2 q = Some t' \<and> same_data t t')"
    by (rule sp_free_back_on_ring [OF inv p k])
  note sd = same_dataD [OF h2(6)]
  have ring2: "ring h2 head xs2" using h2(2) by (simp add: pool_inv_def)
  have empty: "sp_numAvail s + 1 = sp_maxNumElems s \<longleftrightarrow> used_elems s = {k}"
  proof -
    have "sp_numAvail s = sp_maxNumElems s - int (card (used_elems s))" using D(2) by (simp only: sp_inv_def)
    then have "sp_numAvail s + 1 = sp_maxNumElems s \<longleftrightarrow> card (used_elems s) = 1" by linarith
    also have "\<dots> \<longleftrightarrow> used_elems s = {k}" using k by (auto simp: card_1_singleton_iff)
    finally show ?thesis .
  qed
  have alone: "sp_prev s2 = sp_next s2 \<longleftrightarrow> set xs \<subseteq> {p}"
  proof -
    have "distinct xs2" using ring2 by (simp add: ring_def)
    then have "xs2 = [p] \<longleftrightarrow> set xs2 = {p}"
      by (metis distinct.simps(1,2) distinct_singleton empty_set list.set(2) set_eq_iff_mset_eq_distinct
          mset_single_iff_right mset.simps)
    with ring_alone_iff [OF ring2 h2(3,5)] h2(4) show ?thesis by auto
  qed
  have step: "sp_free h p head (int k) = (if sp_numAvail s + 1 \<noteq> sp_maxNumElems s \<or> sp_prev s2 = sp_next s2
      then Inr (True, h2)
      else bindE (removeFromPool (h2(p \<mapsto> s2\<lparr>sp_doNotDestroy := False\<rparr>)) p) (\<lambda>h. Inr (False, h)))"
    unfolding sp_free_step [where h = h, OF D(2) p(2) k] Let_def h2(1) using h2(5) by auto
  show ?thesis
  proof (cases "sp_numAvail s + 1 \<noteq> sp_maxNumElems s \<or> sp_prev s2 = sp_next s2")
    case True
    then show ?thesis
      using that [of True h2 s2 xs2] step h2 gv sd empty alone by auto
  next
    case False
    let ?h3 = "h2(p \<mapsto> s2\<lparr>sp_doNotDestroy := False\<rparr>)"
    have ring3: "ring ?h3 head xs2" by (rule ring_data [OF ring2 h2(5)]) simp_all
    obtain h' where h': "removeFromPool ?h3 p = Inr h'" "ring h' head (remove1 p xs2)" "data_kept ?h3 h'"
      "\<forall>y. y \<notin> set (head # xs2) \<longrightarrow> h' y = ?h3 y" "\<exists>s'. h' p = Some s' \<and> off_ring s'"
      by (rule removeFromPool_ring [OF ring3 h2(3)])
    obtain s' where s': "h' p = Some s'" "same_data (s2\<lparr>sp_doNotDestroy := False\<rparr>) s'" "off_ring s'"
      using data_keptD [OF h'(3), of p] h'(5) by auto
    note sd' = same_dataD [OF s'(2)]
    have dist: "distinct xs2" using ring2 by (simp add: ring_def)
    have "pool_inv h' head (remove1 p xs2) (U - {p})"
    proof (rule pool_inv_ringI [OF h2(2) h'(2)])
      show "\<exists>t'. h' q = Some t' \<and> same_data t t'" if "q \<in> U" "q \<noteq> p" "h2 q = Some t" for q t
        using data_keptD [OF h'(3), of q t] that by simp
      show "h' q = h2 q" if "q \<in> U" "q \<noteq> p" "q \<notin> set xs2" for q
        using h'(4) that h2(2) by (auto simp: pool_inv_def)
    qed (use D(6) dist p in \<open>auto simp: notin_set_remove1\<close>)
    moreover have "\<forall>q t. h q = Some t \<longrightarrow> q \<noteq> p \<longrightarrow> (\<exists>t'. h' q = Some t' \<and> same_data t t')"
      using data_keptD [OF h'(3)] h2(7) unfolding same_data_def by (metis fun_upd_other)
    moreover have "used_elems s' = used_elems s - {k}" using sd'(4) sd(4) gv(2) by (simp add: used_elems_def)
    ultimately show ?thesis
      using that [of False h' s' "remove1 p xs2"] step False h'(1) s' sd' empty alone by auto
  qed
qed

subsection \<open>A new subpage\<close>

lemma clearWords_zero: "n \<le> m \<Longrightarrow> clearWords (replicate m 0) n = Inr (replicate m 0)"
  by (induction n) (auto simp: list_update_same_conv)

definition new_subpage :: "nat \<Rightarrow> int \<Rightarrow> int \<Rightarrow> int \<Rightarrow> int \<Rightarrow> PoolSubpage" where
  "new_subpage chunk pageShifts runOffset runSize elemSize =
     \<lparr>sp_pageShifts = pageShifts, sp_runOffset = runOffset, sp_runSize = runSize,
      sp_bitmap = replicate (nat (runSize div 1024)) 0, sp_maxNumElems = runSize div elemSize,
      sp_bitmapLength = (runSize div elemSize + 63) div 64, sp_nextAvail = 0,
      sp_numAvail = runSize div elemSize, sp_prev = None, sp_next = None, sp_doNotDestroy = True,
      sp_elemSize = elemSize, sp_chunk = Some chunk\<rparr>"

definition run_fits :: "int \<Rightarrow> int \<Rightarrow> bool" where
  "run_fits runSize elemSize \<longleftrightarrow>
     16 \<le> elemSize \<and> elemSize \<le> runSize \<and> runSize \<le> 2 ^ 24 \<and> 1024 dvd runSize"

lemma run_fitsD:
  assumes "run_fits rs es"
  shows "0 < rs div es" "rs div es \<le> 64 * (rs div 1024)" "rs div es \<le> 2 ^ 20" "0 < es" "0 \<le> rs"
proof -
  have a: "16 \<le> es" "es \<le> rs" "rs \<le> 16777216" "1024 dvd rs" using assms by (simp_all add: run_fits_def)
  show "0 < es" "0 \<le> rs" using a by simp_all
  show "0 < rs div es" using a by (simp add: pos_imp_zdiv_pos_iff)
  have "rs div es \<le> rs div 16" using a by (intro zdiv_mono2) simp_all
  moreover have "rs div 16 = 64 * (rs div 1024)" using a(4) by (auto elim!: dvdE)
  ultimately show "rs div es \<le> 64 * (rs div 1024)" by simp
  have "rs div 16 \<le> 1048576" using a(3) by simp
  with \<open>rs div es \<le> rs div 16\<close> show "rs div es \<le> 2 ^ 20" by simp
qed

lemma new_subpage_ok:
  assumes "run_fits rs es"
  shows "used_elems (new_subpage c ps off rs es) = {}" "sp_inv (new_subpage c ps off rs es)"
proof -
  note R = run_fitsD [OF assms]
  show u: "used_elems (new_subpage c ps off rs es) = {}"
  proof -
    have "k div 64 < nat (rs div 1024)" if "k < nat (rs div es)" for k
    proof -
      have "int k < rs div es" using that by linarith
      with R(2) have "int k < 64 * (rs div 1024)" by linarith
      then show ?thesis by linarith
    qed
    then show ?thesis by (auto simp: used_elems_def new_subpage_def used_bit_def)
  qed
  have "0 \<le> rs div 1024" using R(5) by (simp add: pos_imp_zdiv_nonneg_iff)
  then show "sp_inv (new_subpage c ps off rs es)"
    using u R by (simp add: sp_inv_def) (simp add: new_subpage_def)
qed

lemma PoolSubpage_new_eq:
  assumes "run_fits rs es"
  shows "PoolSubpage_new h this head c ps off rs es =
    addToPool (h(this \<mapsto> new_subpage c ps off rs es)) this head"
proof -
  note R = run_fitsD [OF assms]
  define m where "m = rs div es"
  have m: "rs sdiv es = m" "0 < m" "m \<le> 64 * (rs div 1024)" using R by (simp_all add: m_def signed_divide_int_def sgn_if)
  have "m AND 63 = m mod 64"
    using take_bit_eq_mask [of 6 m] by (simp add: take_bit_eq_mod mask_eq_exp_minus_1)
  moreover have "(m + 63) div 64 = m div 64 + (if m mod 64 \<noteq> 0 then 1 else 0)"
  proof -
    define q r where "q = m div 64" and "r = m mod 64"
    have m_eq: "m = r + 64 * q" and r: "0 \<le> r" "r < 64" by (simp_all add: q_def r_def)
    have "(m + 63) div 64 = (r + 63 + 64 * q) div 64" by (simp add: m_eq algebra_simps)
    also have "\<dots> = q + (r + 63) div 64" by simp
    also have "(r + 63) div 64 = (if r \<noteq> 0 then 1 else 0)"
      using r by (auto intro!: int_div_pos_eq [where r = "r - 1"])
    finally show ?thesis by (simp add: q_def r_def)
  qed
  ultimately have len: "shr m 6 + (if m AND 63 \<noteq> 0 then 1 else 0) = (m + 63) div 64"
    by (simp add: shr_eq)
  have "nat ((m + 63) div 64) \<le> nat (rs div 1024)" using m(3) by linarith
  note cw = clearWords_zero [OF this]
  have sh: "shr rs (6 + LOG2_QUANTUM) = rs div 1024" by (simp add: shr_eq LOG2_QUANTUM_def)
  show ?thesis
    unfolding PoolSubpage_new_def Let_def sh m(1) len
    using R(4) cw by (simp add: new_subpage_def m_def)
qed

lemma PoolSubpage_new_ok:
  assumes inv: "pool_inv h head xs U" and fits: "run_fits rs es"
    and this': "this \<notin> insert head U"
  obtains h' s' where "PoolSubpage_new h this head c ps off rs es = Inr h'"
    "pool_inv h' head (this # xs) (insert this U)" "h' this = Some s'"
    "same_data (new_subpage c ps off rs es) s'"
    "\<forall>q t. h q = Some t \<longrightarrow> q \<noteq> this \<longrightarrow> (\<exists>t'. h' q = Some t' \<and> same_data t t')"
proof -
  let ?s = "new_subpage c ps off rs es" and ?h = "h(this \<mapsto> new_subpage c ps off rs es)"
  have U: "set xs \<subseteq> U" "head \<notin> U" "ring h head xs" using inv by (simp_all add: pool_inv_def)
  have ring: "ring ?h head xs"
  proof -
    have "links ?h head xs head"
      by (rule links_cong [of h]) (use U this' in \<open>auto simp: ring_def\<close>)
    then show ?thesis using U(3) by (simp add: ring_def)
  qed
  have p: "?h this = Some ?s" "off_ring ?s" "this \<notin> set (head # xs)"
    using U this' by (auto simp: off_ring_def new_subpage_def)
  obtain h' where h': "addToPool ?h this head = Inr h'" "ring h' head (this # xs)" "data_kept ?h h'"
    "\<forall>x. x \<notin> set (this # head # xs) \<longrightarrow> h' x = ?h x"
    "\<exists>s'. h' this = Some s' \<and> same_data ?s s' \<and> sp_prev s' = Some head"
    by (rule addToPool_ring [OF ring p])
  then obtain s' where s': "h' this = Some s'" "same_data ?s s'" by blast
  have num: "sp_numAvail ?s \<noteq> 0" "sp_doNotDestroy ?s"
    using run_fitsD(1) [OF fits] by (simp_all add: new_subpage_def)
  have "pool_inv h' head (this # xs) (insert this U)"
  proof (rule pool_inv_ringI [OF inv h'(2)])
    show "\<exists>t'. h' q = Some t' \<and> same_data t t'" if "q \<in> U" "q \<noteq> this" "h q = Some t" for q t
      using data_keptD [OF h'(3), of q t] that by simp
    show "h' q = h q" if "q \<in> U" "q \<noteq> this" "q \<notin> set xs" for q
      using h'(4) that U by auto
    show "\<exists>s. h' this = Some s \<and> sp_inv s \<and> sp_doNotDestroy s \<and>
        (this \<in> set (this # xs) \<longleftrightarrow> sp_numAvail s \<noteq> 0) \<and> (this \<notin> set (this # xs) \<longrightarrow> off_ring s)"
      using s' same_dataD [OF s'(2)] new_subpage_ok [OF fits] num by auto
  qed (use this' in auto)
  moreover have "\<forall>q t. h q = Some t \<longrightarrow> q \<noteq> this \<longrightarrow> (\<exists>t'. h' q = Some t' \<and> same_data t t')"
    using data_keptD [OF h'(3)] by (metis fun_upd_other)
  ultimately show ?thesis using that [of h' s'] h'(1) s' PoolSubpage_new_eq [OF fits] by simp
qed

subsection \<open>Properties\<close>

text \<open>The handle of an element names its run and its index.\<close>

definition sp_geometry :: "PoolSubpage \<Rightarrow> int \<Rightarrow> bool" where
  "sp_geometry s pages \<longleftrightarrow>
     0 \<le> sp_runOffset s \<and> sp_runOffset s < 2 ^ 14 \<and> 0 < pages \<and> pages < 2 ^ 15 \<and>
     shr (sp_runSize s) (sp_pageShifts s) = pages"

lemma toHandle_eq:
  assumes "sp_geometry s pages" "k < 2 ^ 20"
  shows "toHandle s (int k) = handle_of (sp_runOffset s) pages 1 1 (int k)"
    "handle_fields (sp_runOffset s) pages 1 1 (int k)"
proof -
  show f: "handle_fields (sp_runOffset s) pages 1 1 (int k)"
    using assms by (simp add: sp_geometry_def handle_fields_def)
  show "toHandle s (int k) = handle_of (sp_runOffset s) pages 1 1 (int k)"
    using pack_handle [OF f] assms(1) by (simp add: toHandle_def sp_geometry_def)
qed

lemma index_bound:
  assumes "sp_inv s" "k < nat (sp_maxNumElems s)"
  shows "k < 2 ^ 20"
proof -
  have "sp_maxNumElems s \<le> 1048576" using assms(1) by (simp add: sp_inv_def)
  with assms(2) show ?thesis by simp
qed

lemma newSubpagePoolHead_inv: "pool_inv (newSubpagePoolHead h head) head [] {}"
  by (simp add: pool_inv_def ring_def edge_def newSubpagePoolHead_def)

text \<open>A pool with one fresh subpage: two pages at page offset 5, elements of 4 KiB.\<close>

lemma example_pool:
  obtains h s where "PoolSubpage_new (newSubpagePoolHead Map.empty 0) 1 0 7 13 5 16384 4096 = Inr h"
    "pool_inv h 0 [1] {1}" "h 1 = Some s" "sp_numAvail s = 4" "sp_geometry s 2" "used_elems s = {}"
    "sp_maxNumElems s = 4"
proof -
  have fits: "run_fits 16384 4096" by (simp add: run_fits_def)
  have one: "1 \<notin> insert 0 ({} :: nat set)" by simp
  obtain h s where h: "PoolSubpage_new (newSubpagePoolHead Map.empty 0) 1 0 7 13 5 16384 4096 = Inr h"
    "pool_inv h 0 [1] (insert 1 {})" "h 1 = Some s" "same_data (new_subpage 7 13 5 16384 4096) s"
    by (rule PoolSubpage_new_ok [OF newSubpagePoolHead_inv fits one])
  note d = same_dataD [OF h(4)]
  have "sp_numAvail s = 4" "sp_geometry s 2" "used_elems s = {}" "sp_maxNumElems s = 4"
    using d new_subpage_ok [OF fits] by (simp_all add: new_subpage_def sp_geometry_def shr_eq)
  with h that show ?thesis by simp
qed

text \<open>
  C18: In a pool of subpages of one size class, allocating from a subpage with a free element
  succeeds: every assertion holds, the handle names the subpage's run and an element that was
  free, exactly that element becomes used, no other subpage changes its elements, and the
  ring still holds exactly the subpages with free elements.
\<close>

theorem subpage_allocate_takes_free_element:
  assumes "pool_inv h head xs U" "p \<in> U" "h p = Some s" "sp_numAvail s \<noteq> 0" "sp_geometry s pages"
  shows "\<exists>hdl h' xs' s'. sp_allocate h p = Inr (hdl, h') \<and> pool_inv h' head xs' U \<and> h' p = Some s' \<and>
    calculateRunOffset hdl = sp_runOffset s \<and> calculateRunPages hdl = pages \<and> isSubpage hdl \<and> isUsed hdl \<and>
    0 \<le> calculateBitmapIdx hdl \<and> calculateBitmapIdx hdl < sp_maxNumElems s \<and>
    nat (calculateBitmapIdx hdl) \<notin> used_elems s \<and>
    used_elems s' = insert (nat (calculateBitmapIdx hdl)) (used_elems s) \<and>
    (\<forall>q\<in>U. q \<noteq> p \<longrightarrow> map_option used_elems (h' q) = map_option used_elems (h q))"
proof -
  obtain k h' xs' s' where r: "sp_allocate h p = Inr (toHandle s (int k), h')"
    "k < nat (sp_maxNumElems s)" "k \<notin> used_elems s" "pool_inv h' head xs' U" "h' p = Some s'"
    "used_elems s' = insert k (used_elems s)"
    and other: "\<And>q t. h q = Some t \<Longrightarrow> q \<noteq> p \<Longrightarrow> \<exists>t'. h' q = Some t' \<and> same_data t t'"
    using sp_allocate_ok [OF assms(1-4)] by metis
  have k: "k < 2 ^ 20" using index_bound pool_invD(2) [OF assms(1-3)] r(2) by blast
  note th = toHandle_eq [OF assms(5) k] and u = unpack_handle [OF toHandle_eq(2) [OF assms(5) k]]
  have "map_option used_elems (h' q) = map_option used_elems (h q)" if "q \<in> U" "q \<noteq> p" for q
  proof -
    from assms(1) that(1) obtain t where t: "h q = Some t" by (auto simp: pool_inv_def)
    from other [OF t that(2)] obtain t' where "h' q = Some t'" "same_data t t'" by blast
    with t same_dataD(4) show ?thesis by simp
  qed
  then show ?thesis
    using r th u by (intro exI [of _ "toHandle s (int k)"] exI [of _ h'] exI [of _ xs'] exI [of _ s']) auto
qed

text \<open>C18 on the first allocation from a fresh subpage.\<close>

theorem subpage_allocate_takes_free_element_witness:
  "\<exists>h s. PoolSubpage_new (newSubpagePoolHead Map.empty 0) 1 0 7 13 5 16384 4096 = Inr h \<and> h 1 = Some s \<and>
    (\<exists>hdl h' xs' s'. sp_allocate h 1 = Inr (hdl, h') \<and> pool_inv h' 0 xs' {1} \<and> h' 1 = Some s' \<and>
      calculateRunOffset hdl = sp_runOffset s \<and> calculateRunPages hdl = 2 \<and> isSubpage hdl \<and> isUsed hdl \<and>
      0 \<le> calculateBitmapIdx hdl \<and> calculateBitmapIdx hdl < sp_maxNumElems s \<and>
      nat (calculateBitmapIdx hdl) \<notin> used_elems s \<and>
      used_elems s' = insert (nat (calculateBitmapIdx hdl)) (used_elems s) \<and>
      (\<forall>q\<in>{1}. q \<noteq> 1 \<longrightarrow> map_option used_elems (h' q) = map_option used_elems (h q)))"
proof -
  obtain h s where h: "PoolSubpage_new (newSubpagePoolHead Map.empty 0) 1 0 7 13 5 16384 4096 = Inr h"
    "pool_inv h 0 [1] {1}" "h 1 = Some s" "sp_numAvail s = 4" "sp_geometry s 2"
    by (rule example_pool)
  show ?thesis
    using h(1,3) subpage_allocate_takes_free_element [OF h(2) _ h(3) _ h(5)] h(4)
    by (intro exI [of _ h] exI [of _ s]) simp
qed

text \<open>
  C19: Freeing a used element succeeds: exactly that element becomes free. The call reports that
  the subpage is still needed unless its last element was freed while the ring holds another
  subpage; then the subpage leaves the pool and is marked for destruction.
\<close>

theorem subpage_free_returns_element:
  assumes "pool_inv h head xs U" "p \<in> U" "h p = Some s" "k \<in> used_elems s"
  shows "\<exists>inUse h' xs' s'. sp_free h p head (int k) = Inr (inUse, h') \<and> h' p = Some s' \<and>
    used_elems s' = used_elems s - {k} \<and>
    (inUse \<longleftrightarrow> used_elems s \<noteq> {k} \<or> set xs \<subseteq> {p}) \<and>
    pool_inv h' head xs' (if inUse then U else U - {p}) \<and>
    (\<not> inUse \<longrightarrow> \<not> sp_doNotDestroy s' \<and> off_ring s') \<and>
    (\<forall>q\<in>U. q \<noteq> p \<longrightarrow> map_option used_elems (h' q) = map_option used_elems (h q))"
proof -
  obtain b h' xs' s' where r: "sp_free h p head (int k) = Inr (b, h')" "h' p = Some s'"
    "used_elems s' = used_elems s - {k}" "b \<longleftrightarrow> used_elems s \<noteq> {k} \<or> set xs \<subseteq> {p}"
    "pool_inv h' head xs' (if b then U else U - {p})"
    "\<not> b \<Longrightarrow> \<not> sp_doNotDestroy s' \<and> off_ring s'"
    "\<forall>q t. h q = Some t \<longrightarrow> q \<noteq> p \<longrightarrow> (\<exists>t'. h' q = Some t' \<and> same_data t t')"
    using sp_free_ok [OF assms] by metis
  have "map_option used_elems (h' q) = map_option used_elems (h q)" if "q \<in> U" "q \<noteq> p" for q
  proof -
    from assms(1) that(1) obtain t where t: "h q = Some t" by (auto simp: pool_inv_def)
    with r(7) that(2) obtain t' where "h' q = Some t'" "same_data t t'" by blast
    with t same_dataD(4) show ?thesis by simp
  qed
  with r show ?thesis by (intro exI [of _ b] exI [of _ h'] exI [of _ xs'] exI [of _ s']) simp
qed

text \<open>C19 on the element of the first allocation: the only subpage of its ring is kept.\<close>

theorem subpage_free_returns_element_witness:
  "\<exists>h s k. pool_inv h 0 [1] {1} \<and> h 1 = Some s \<and> used_elems s = {k} \<and>
    (\<exists>inUse h' xs' s'. sp_free h 1 0 (int k) = Inr (inUse, h') \<and> h' 1 = Some s' \<and>
      used_elems s' = used_elems s - {k} \<and>
      (inUse \<longleftrightarrow> used_elems s \<noteq> {k} \<or> set [1::nat] \<subseteq> {1}) \<and>
      pool_inv h' 0 xs' (if inUse then {1} else {1} - {1}) \<and>
      (\<not> inUse \<longrightarrow> \<not> sp_doNotDestroy s' \<and> off_ring s') \<and>
      (\<forall>q\<in>{1}. q \<noteq> 1 \<longrightarrow> map_option used_elems (h' q) = map_option used_elems (h q)))"
proof -
  obtain h s where h: "pool_inv h 0 [1] {1}" "h 1 = Some s" "sp_numAvail s = 4" "used_elems s = {}"
    "sp_maxNumElems s = 4"
    by (rule example_pool)
  have one: "(1::nat) \<in> {1}" by simp
  let ?s = "take_elem s 0" and ?h = "h(1 \<mapsto> take_elem s 0)"
  note D = pool_invD [OF h(1) one h(2)]
  have "sp_inv ?s" "used_elems ?s = {0}"
    using take_elem_inv [OF D(2), of 0] take_elem_used [OF D(2), of 0] h by simp_all
  moreover have "ring ?h 0 [1]" by (rule ring_data [OF D(1) h(2)]) simp_all
  ultimately have inv: "pool_inv ?h 0 [1] {1}" using D(3) h(3) by (simp add: pool_inv_def)
  have used: "?h 1 = Some ?s" "used_elems ?s = {0}" "0 \<in> used_elems ?s"
    using \<open>used_elems ?s = {0}\<close> by simp_all
  show ?thesis
    by (rule exI [of _ ?h], rule exI [of _ ?s], rule exI [of _ 0], intro conjI)
      (rule inv used subpage_free_returns_element [OF inv one used(1,3)])+
qed

text \<open>Allocating \<open>n\<close> times from one subpage.\<close>

primrec sp_allocate_n :: "subpages \<Rightarrow> nat \<Rightarrow> nat \<Rightarrow> (int list \<times> subpages) result" where
  "sp_allocate_n h p 0 = Inr ([], h)"
| "sp_allocate_n h p (Suc n) =
     bindE (sp_allocate h p) (\<lambda>(hdl, h). bindE (sp_allocate_n h p n) (\<lambda>(hdls, h). Inr (hdl # hdls, h)))"

lemma same_data_geometry:
  "same_data (take_elem s k) s' \<Longrightarrow> sp_geometry s' pages = sp_geometry s pages"
  using same_dataD(7,8,10) [of "take_elem s k" s'] by (simp add: sp_geometry_def take_elem_def)

lemma sp_allocate_n_ok:
  assumes "pool_inv h head xs U" "p \<in> U" "h p = Some s" "int n \<le> sp_numAvail s" "sp_geometry s pages"
  shows "\<exists>ks h' xs' s'. sp_allocate_n h p n =
      Inr (map (\<lambda>k. handle_of (sp_runOffset s) pages 1 1 (int k)) ks, h') \<and>
    pool_inv h' head xs' U \<and> h' p = Some s' \<and> length ks = n \<and> distinct ks \<and>
    set ks \<inter> used_elems s = {} \<and> set ks \<subseteq> {..<nat (sp_maxNumElems s)} \<and>
    sp_numAvail s' = sp_numAvail s - int n"
  using assms
proof (induction n arbitrary: h xs s)
  case 0
  then show ?case by auto
next
  case (Suc n)
  have "sp_numAvail s \<noteq> 0" using Suc.prems(4) by simp
  from sp_allocate_ok [OF Suc.prems(1-3) this]
  obtain k h1 xs1 s1 where r: "sp_allocate h p = Inr (toHandle s (int k), h1)"
    "k < nat (sp_maxNumElems s)" "k \<notin> used_elems s" "pool_inv h1 head xs1 U" "h1 p = Some s1"
    "used_elems s1 = insert k (used_elems s)" "same_data (take_elem s k) s1"
    by metis
  note d = same_dataD [OF r(7)]
  have "sp_geometry s1 pages" using same_data_geometry [OF r(7)] Suc.prems(5) by simp
  moreover have "int n \<le> sp_numAvail s1" using d(3) Suc.prems(4) by simp
  ultimately obtain ks h' xs' s' where ih: "sp_allocate_n h1 p n =
      Inr (map (\<lambda>k. handle_of (sp_runOffset s1) pages 1 1 (int k)) ks, h')"
    "pool_inv h' head xs' U" "h' p = Some s'" "length ks = n" "distinct ks"
    "set ks \<inter> used_elems s1 = {}" "set ks \<subseteq> {..<nat (sp_maxNumElems s1)}"
    "sp_numAvail s' = sp_numAvail s1 - int n"
    using Suc.IH [OF r(4) Suc.prems(2) r(5)] by blast
  have "k < 2 ^ 20" using index_bound pool_invD(2) [OF Suc.prems(1-3)] r(2) by blast
  then have th: "toHandle s (int k) = handle_of (sp_runOffset s) pages 1 1 (int k)"
    using toHandle_eq [OF Suc.prems(5)] by blast
  have "sp_runOffset s1 = sp_runOffset s" using d(7) by (simp add: take_elem_def)
  then show ?case
    using r ih th d by (intro exI [of _ "k # ks"] exI [of _ h'] exI [of _ xs'] exI [of _ s']) auto
qed

text \<open>
  C20: A subpage serves as many allocations as it has free elements: that many calls in a row
  succeed with pairwise different handles, and the next call returns -1.
\<close>

theorem subpage_serves_all_elements:
  assumes "pool_inv h head xs U" "p \<in> U" "h p = Some s" "sp_geometry s pages"
  shows "\<exists>hdls h'. sp_allocate_n h p (nat (sp_numAvail s)) = Inr (hdls, h') \<and>
    length hdls = nat (sp_numAvail s) \<and> distinct hdls \<and> sp_allocate h' p = Inr (- 1, h')"
proof -
  have num: "0 \<le> sp_numAvail s"
    using card_used_le [of s] pool_invD(2) [OF assms(1-3)] by (simp add: sp_inv_def)
  obtain ks h' xs' s' where r: "sp_allocate_n h p (nat (sp_numAvail s)) =
      Inr (map (\<lambda>k. handle_of (sp_runOffset s) pages 1 1 (int k)) ks, h')" "h' p = Some s'"
    "length ks = nat (sp_numAvail s)" "distinct ks" "sp_numAvail s' = sp_numAvail s - int (nat (sp_numAvail s))"
    using sp_allocate_n_ok [OF assms(1-3) _ assms(4), of "nat (sp_numAvail s)"] num by auto
  have "inj_on (\<lambda>k. handle_of (sp_runOffset s) pages 1 1 (int k)) (set ks)"
    by (rule inj_onI) (simp add: handle_of_def)
  with r(4) have "distinct (map (\<lambda>k. handle_of (sp_runOffset s) pages 1 1 (int k)) ks)"
    by (simp add: distinct_map)
  moreover have "sp_allocate h' p = Inr (- 1, h')" using sp_allocate_full [of h' p s'] r(2,5) num by simp
  ultimately show ?thesis using r by auto
qed

text \<open>C20 on a fresh subpage of four elements.\<close>

theorem subpage_serves_all_elements_witness:
  "\<exists>h. PoolSubpage_new (newSubpagePoolHead Map.empty 0) 1 0 7 13 5 16384 4096 = Inr h \<and>
    (\<exists>hdls h'. sp_allocate_n h 1 (nat 4) = Inr (hdls, h') \<and> length hdls = nat 4 \<and> distinct hdls \<and>
      sp_allocate h' 1 = Inr (- 1, h'))"
proof -
  obtain h s where h: "PoolSubpage_new (newSubpagePoolHead Map.empty 0) 1 0 7 13 5 16384 4096 = Inr h"
    "pool_inv h 0 [1] {1}" "h 1 = Some s" "sp_numAvail s = 4" "sp_geometry s 2"
    by (rule example_pool)
  show ?thesis
    using h(1,4) subpage_serves_all_elements [OF h(2) _ h(3,5)] by auto
qed

end
