(* ===== verification/Long_Priority_Queue.thy ===== *)
theory Long_Priority_Queue
  imports Prelude
begin

section \<open>LongPriorityQueue: the binary heap of free run handles\<close>

text \<open>
  \<open>buffer/LongPriorityQueue.h\<close>: a 1-based binary min-heap of \<open>long\<close> handles kept in a
  vector whose slot 0 is unused. The model keeps the vector, its fill \<open>size\<close> and every
  loop; an access outside the vector is the error \<open>OutOfBounds\<close>. Heap indices are \<open>nat\<close>:
  a chunk has at most \<open>2^13\<close> pages and hence runs, so \<open>index << 1\<close> cannot overflow.
  The heap invariant is shown to be kept by every operation, and the locale
  \<open>handle_queue\<close> states what the free-run index of a chunk relies on.
\<close>

record LongPriorityQueue =
  lpq_array :: "int list"
  lpq_size :: nat

definition NO_VALUE :: int where
  "NO_VALUE = - 1"

definition subord :: "int list \<Rightarrow> nat \<Rightarrow> nat \<Rightarrow> bool result" where
  "subord arr a b = bindE (getN arr a) (\<lambda>x. bindE (getN arr b) (\<lambda>y. Inr (x > y)))"

definition swap :: "int list \<Rightarrow> nat \<Rightarrow> nat \<Rightarrow> int list result" where
  "swap arr a b =
     bindE (getN arr a) (\<lambda>value.
     bindE (getN arr b) (\<lambda>y.
     bindE (setN arr a y) (\<lambda>arr'. setN arr' b value)))"

fun lift :: "int list \<Rightarrow> nat \<Rightarrow> int list result" where
  "lift arr index =
     (if index > 1 then
        bindE (subord arr (index div 2) index) (\<lambda>b.
          if b then bindE (swap arr index (index div 2)) (\<lambda>arr'. lift arr' (index div 2))
          else Inr arr)
      else Inr arr)"

lemma subord_in [simp]:
  "a < length arr \<Longrightarrow> b < length arr \<Longrightarrow> subord arr a b = Inr (arr ! a > arr ! b)"
  by (simp add: subord_def)

lemma subord_eq_Inr [result_simps]:
  "subord arr a b = Inr r \<longleftrightarrow> a < length arr \<and> b < length arr \<and> r = (arr ! a > arr ! b)"
  by (auto simp: subord_def result_simps)

lemma swap_in [simp]:
  "a < length arr \<Longrightarrow> b < length arr \<Longrightarrow> swap arr a b = Inr (arr[a := arr ! b, b := arr ! a])"
  by (simp add: swap_def)

lemma nth_double_less: "arr ! (2 * i) < (arr ! i :: int) \<Longrightarrow> 0 < i"
  by (cases i) auto

function sink :: "nat \<Rightarrow> int list \<Rightarrow> nat \<Rightarrow> int list result" where
  "sink sz arr index =
     (let child = 2 * index
      in if child \<le> sz then
           bindE (if child < sz then subord arr child (child + 1) else Inr False) (\<lambda>b.
             let child = (if b then child + 1 else child)
             in bindE (subord arr index child) (\<lambda>c.
                  if \<not> c then Inr arr
                  else bindE (swap arr index child) (\<lambda>arr'. sink sz arr' child)))
         else Inr arr)"
  by pat_completeness auto
termination
  by (relation "measure (\<lambda>(sz, arr, index). Suc sz - index)")
     (auto simp: result_simps dest: nth_double_less split: if_splits)

declare lift.simps [simp del] sink.simps [simp del]

definition LongPriorityQueue_new :: LongPriorityQueue where
  "LongPriorityQueue_new = \<lparr>lpq_array = replicate 9 0, lpq_size = 0\<rparr>"

definition grow :: "int list \<Rightarrow> nat \<Rightarrow> int list" where
  "grow arr sz =
     (if sz = length arr
      then arr @ replicate (1 + (length arr - 1) * 2 - length arr) 0 else arr)"

definition offer :: "LongPriorityQueue \<Rightarrow> int \<Rightarrow> LongPriorityQueue result" where
  "offer q handle =
     (if handle = NO_VALUE then Inl StdException
      else let sz = lpq_size q + 1; arr = grow (lpq_array q) sz
           in bindE (setN arr sz handle) (\<lambda>arr.
              bindE (lift arr sz) (\<lambda>arr. Inr \<lparr>lpq_array = arr, lpq_size = sz\<rparr>)))"

function remove_from :: "LongPriorityQueue \<Rightarrow> int \<Rightarrow> nat \<Rightarrow> LongPriorityQueue result" where
  "remove_from q value i =
     (if i \<le> lpq_size q then
        bindE (getN (lpq_array q) i) (\<lambda>x.
          if x = value then
            bindE (getN (lpq_array q) (lpq_size q)) (\<lambda>y.
            bindE (setN (lpq_array q) i y) (\<lambda>arr.
            let sz = lpq_size q - 1
            in bindE (lift arr i) (\<lambda>arr.
               bindE (sink sz arr i) (\<lambda>arr. Inr \<lparr>lpq_array = arr, lpq_size = sz\<rparr>))))
          else remove_from q value (i + 1))
      else Inr q)"
  by pat_completeness auto
termination
  by (relation "measure (\<lambda>(q, value, i). Suc (lpq_size q) - i)") auto

declare remove_from.simps [simp del]

definition remove :: "LongPriorityQueue \<Rightarrow> int \<Rightarrow> LongPriorityQueue result" where
  "remove q value = remove_from q value 1"

definition peek :: "LongPriorityQueue \<Rightarrow> int result" where
  "peek q = (if lpq_size q = 0 then Inr NO_VALUE else getN (lpq_array q) 1)"

definition poll :: "LongPriorityQueue \<Rightarrow> (int \<times> LongPriorityQueue) result" where
  "poll q =
     (if lpq_size q = 0 then Inr (NO_VALUE, q)
      else bindE (getN (lpq_array q) 1) (\<lambda>val.
           bindE (getN (lpq_array q) (lpq_size q)) (\<lambda>x.
           bindE (setN (lpq_array q) 1 x) (\<lambda>arr.
           bindE (setN arr (lpq_size q) 0) (\<lambda>arr.
           let sz = lpq_size q - 1
           in bindE (sink sz arr 1) (\<lambda>arr. Inr (val, \<lparr>lpq_array = arr, lpq_size = sz\<rparr>)))))))"

definition isEmpty :: "LongPriorityQueue \<Rightarrow> bool" where
  "isEmpty q \<longleftrightarrow> lpq_size q = 0"

subsection \<open>The heap invariant and what lift and sink restore\<close>

definition heap_on :: "int list \<Rightarrow> nat \<Rightarrow> bool" where
  "heap_on a n \<longleftrightarrow> (\<forall>i. 2 \<le> i \<longrightarrow> i \<le> n \<longrightarrow> a ! (i div 2) \<le> a ! i)"

text \<open>The order may fail only between \<open>k\<close> and its parent; the parent still bounds the
  children of \<open>k\<close>.\<close>

definition heap_but_up :: "int list \<Rightarrow> nat \<Rightarrow> nat \<Rightarrow> bool" where
  "heap_but_up a n k \<longleftrightarrow>
     (\<forall>i. 2 \<le> i \<longrightarrow> i \<le> n \<longrightarrow>
        (i \<noteq> k \<longrightarrow> a ! (i div 2) \<le> a ! i) \<and>
        (i div 2 = k \<longrightarrow> 2 \<le> k \<longrightarrow> a ! (k div 2) \<le> a ! i))"

text \<open>The order may fail only between \<open>k\<close> and its children.\<close>

definition heap_but_down :: "int list \<Rightarrow> nat \<Rightarrow> nat \<Rightarrow> bool" where
  "heap_but_down a n k \<longleftrightarrow>
     (\<forall>i. 2 \<le> i \<longrightarrow> i \<le> n \<longrightarrow>
        (i div 2 \<noteq> k \<longrightarrow> a ! (i div 2) \<le> a ! i) \<and>
        (i div 2 = k \<longrightarrow> 2 \<le> k \<longrightarrow> a ! (k div 2) \<le> a ! i))"

text \<open>A rearrangement of the slots \<open>1..n\<close> that leaves the others alone.\<close>

definition rearranges :: "nat \<Rightarrow> int list \<Rightarrow> int list \<Rightarrow> bool" where
  "rearranges n a b \<longleftrightarrow> length b = length a \<and> mset b = mset a \<and>
     (\<forall>i < length a. i = 0 \<or> n < i \<longrightarrow> b ! i = a ! i)"

lemma rearranges_refl [simp]: "rearranges n a a"
  by (simp add: rearranges_def)

lemma rearranges_trans [trans]: "rearranges n a b \<Longrightarrow> rearranges n b c \<Longrightarrow> rearranges n a c"
  by (simp add: rearranges_def)

lemma rearranges_swap:
  assumes "1 \<le> i" "i \<le> n" "1 \<le> j" "j \<le> n" "n < length a"
  shows "rearranges n a (a[i := a ! j, j := a ! i])"
  using assms by (auto simp: rearranges_def mset_swap nth_list_update)

lemma heap_but_up_swap:
  assumes up: "heap_but_up a n k" and k: "1 < k" "k \<le> n" "n < length a"
    and less: "a ! k < a ! (k div 2)"
  shows "heap_but_up (a[k := a ! (k div 2), k div 2 := a ! k]) n (k div 2)"
proof -
  define p where "p = k div 2"
  define b where "b = a[k := a ! p, p := a ! k]"
  have p: "p < k" "1 \<le> p" "k < length a" using k by (auto simp: p_def)
  then have b: "b ! i = (if i = p then a ! k else if i = k then a ! p else a ! i)" if "i \<le> n" for i
    using that k by (simp add: b_def nth_list_update)
  have ord: "a ! (i div 2) \<le> a ! i" if "2 \<le> i" "i \<le> n" "i \<noteq> k" for i
    using up that by (simp add: heap_but_up_def)
  have grand: "a ! p \<le> a ! i" if "2 \<le> i" "i \<le> n" "i div 2 = k" for i
    using up that k by (simp add: heap_but_up_def p_def)
  have "b ! (i div 2) \<le> b ! i" if "2 \<le> i" "i \<le> n" "i \<noteq> p" for i
    using that less ord [of i] grand [of i] by (auto simp: b p_def)
  moreover have "b ! (p div 2) \<le> b ! i" if "2 \<le> i" "i \<le> n" "i div 2 = p" "2 \<le> p" for i
  proof -
    have "p div 2 \<noteq> p" "p div 2 \<noteq> k" "p div 2 \<le> n" using p k that by auto
    moreover have "a ! (p div 2) \<le> a ! p" using ord [of p] that p k by simp
    ultimately show ?thesis using that ord [of i] by (auto simp: b)
  qed
  ultimately have "heap_but_up b n p" by (simp add: heap_but_up_def)
  then show ?thesis by (simp add: b_def p_def)
qed

lemma lift_restores:
  assumes "heap_but_up a n k" "k \<le> n" "n < length a"
  shows "\<exists>b. lift a k = Inr b \<and> heap_on b n \<and> rearranges n a b"
  using assms
proof (induction a k rule: lift.induct)
  case (1 a k)
  show ?case
  proof (cases "1 < k \<and> a ! k < a ! (k div 2)")
    case True
    let ?b = "a[k := a ! (k div 2), k div 2 := a ! k]"
    have "k < length a" "k div 2 < length a" using "1.prems" by auto
    then have sw: "subord a (k div 2) k = Inr True" "swap a k (k div 2) = Inr ?b"
      using True by simp_all
    have "heap_but_up ?b n (k div 2)" "k div 2 \<le> n"
      using heap_but_up_swap [of a n k] "1.prems" True by auto
    then obtain c where "lift ?b (k div 2) = Inr c" "heap_on c n" "rearranges n ?b c"
      using "1.IH" [OF _ sw(1) _ sw(2)] True "1.prems"(3) by auto
    moreover have "rearranges n a ?b"
      using rearranges_swap [of k n "k div 2" a] "1.prems" True by auto
    ultimately show ?thesis
      using True sw by (auto simp: lift.simps [of a k] intro: rearranges_trans)
  next
    case False
    have "a ! (i div 2) \<le> a ! i" if "2 \<le> i" "i \<le> n" for i
      using "1.prems"(1) False that by (cases "i = k") (auto simp: heap_but_up_def)
    then have "heap_on a n" by (simp add: heap_on_def)
    moreover have "lift a k = Inr a"
      using False "1.prems"(2,3) by (auto simp: lift.simps [of a k])
    ultimately show ?thesis by simp
  qed
qed

lemma heap_but_down_swap:
  assumes dn: "heap_but_down a n k" and k: "1 \<le> k" "c \<le> n" "n < length a" "c div 2 = k"
    and less: "a ! c < a ! k" and least: "\<And>i. i \<le> n \<Longrightarrow> i div 2 = k \<Longrightarrow> a ! c \<le> a ! i"
  shows "heap_but_down (a[k := a ! c, c := a ! k]) n c"
proof -
  define b where "b = a[k := a ! c, c := a ! k]"
  have c: "k < c" "2 \<le> c" using k by auto
  then have b: "b ! i = (if i = c then a ! k else if i = k then a ! c else a ! i)" if "i \<le> n" for i
    using that k by (simp add: b_def nth_list_update)
  have ord: "a ! (i div 2) \<le> a ! i" if "2 \<le> i" "i \<le> n" "i div 2 \<noteq> k" for i
    using dn that by (simp add: heap_but_down_def)
  have grand: "a ! (k div 2) \<le> a ! c" if "2 \<le> k"
    using dn that k c by (simp add: heap_but_down_def)
  have "b ! (i div 2) \<le> b ! i" if i: "2 \<le> i" "i \<le> n" "i div 2 \<noteq> c" for i
  proof (cases "i div 2 = k")
    case True
    then show ?thesis using i c less least [of i] by (auto simp: b)
  next
    case False
    then show ?thesis using i c k ord [of i] grand by (auto simp: b)
  qed
  moreover have "b ! (c div 2) \<le> b ! i" if "2 \<le> i" "i \<le> n" "i div 2 = c" for i
    using that c k ord [of i] by (auto simp: b)
  ultimately have "heap_but_down b n c" by (simp add: heap_but_down_def)
  then show ?thesis by (simp add: b_def)
qed

lemma sink_unfold:
  assumes "n < length a" "2 * k \<le> n" "c = (if 2 * k < n \<and> a ! (2 * k + 1) < a ! (2 * k) then 2 * k + 1 else 2 * k)"
  shows "sink n a k = (if a ! c < a ! k then sink n (a[k := a ! c, c := a ! k]) c else Inr a)"
  using assms by (cases "2 * k < n") (auto simp: sink.simps [of n a k] Let_def)

lemma sink_leaf: "n < 2 * k \<Longrightarrow> sink n a k = Inr a"
  by (simp add: sink.simps)

lemma sink_restores:
  assumes "heap_but_down a n k" "1 \<le> k" "n < length a"
  shows "\<exists>b. sink n a k = Inr b \<and> heap_on b n \<and> rearranges n a b"
  using assms
proof (induction "Suc n - k" arbitrary: a k rule: less_induct)
  case less
  define c where "c = (if 2 * k < n \<and> a ! (2 * k + 1) < a ! (2 * k) then 2 * k + 1 else 2 * k)"
  have c: "c div 2 = k" "k < c" "2 * k \<le> n \<Longrightarrow> c \<le> n" using less.prems(2) by (auto simp: c_def)
  have least: "a ! c \<le> a ! i" if "i \<le> n" "i div 2 = k" for i
  proof -
    have "i = 2 * k \<or> i = 2 * k + 1" using that(2) by auto
    with that(1) show ?thesis by (auto simp: c_def)
  qed
  show ?case
  proof (cases "2 * k \<le> n \<and> a ! c < a ! k")
    case True
    let ?d = "a[k := a ! c, c := a ! k]"
    have "heap_but_down ?d n c"
      using heap_but_down_swap [of a n k c] less.prems c least True by blast
    moreover have "Suc n - c < Suc n - k" "1 \<le> c" "n < length ?d"
      using c True less.prems(3) by auto
    ultimately obtain e where "sink n ?d c = Inr e" "heap_on e n" "rearranges n ?d e"
      using less.hyps [of c ?d] by blast
    moreover have "rearranges n a ?d"
      using rearranges_swap [of k n c a] less.prems c True by auto
    ultimately show ?thesis
      using sink_unfold [OF less.prems(3) _ c_def] True by (auto intro: rearranges_trans)
  next
    case False
    have "a ! (i div 2) \<le> a ! i" if "2 \<le> i" "i \<le> n" for i
    proof (cases "i div 2 = k")
      case True
      then have "2 * k \<le> n" using that by auto
      with False have "a ! k \<le> a ! c" by simp
      with True least [OF that(2)] show ?thesis by auto
    qed (use less.prems(1) that in \<open>simp add: heap_but_down_def\<close>)
    then have "heap_on a n" by (simp add: heap_on_def)
    moreover have "sink n a k = Inr a"
      using False sink_unfold [OF less.prems(3) _ c_def] sink_leaf [of n k a]
      by (cases "2 * k \<le> n") auto
    ultimately show ?thesis by simp
  qed
qed

subsection \<open>The operations of the queue\<close>

definition lpq_inv :: "LongPriorityQueue \<Rightarrow> bool" where
  "lpq_inv q \<longleftrightarrow> 2 \<le> length (lpq_array q) \<and> lpq_size q < length (lpq_array q) \<and>
     heap_on (lpq_array q) (lpq_size q)"

definition lpq_list :: "LongPriorityQueue \<Rightarrow> int list" where
  "lpq_list q = take (lpq_size q) (tl (lpq_array q))"

abbreviation lpq_elems :: "LongPriorityQueue \<Rightarrow> int multiset" where
  "lpq_elems q \<equiv> mset (lpq_list q)"

lemma length_lpq_list: "lpq_inv q \<Longrightarrow> length (lpq_list q) = lpq_size q"
  by (auto simp: lpq_inv_def lpq_list_def)

lemma nth_lpq_list:
  "lpq_inv q \<Longrightarrow> i < lpq_size q \<Longrightarrow> lpq_list q ! i = lpq_array q ! Suc i"
  by (cases "lpq_array q") (auto simp: lpq_list_def lpq_inv_def)

lemma mset_slots_rearranged:
  assumes "rearranges n a b" "n < length a"
  shows "mset (take n (tl b)) = mset (take n (tl a))"
proof -
  have split: "mset c = add_mset (c ! 0) (mset (take n (tl c)) + mset (drop (Suc n) c))"
    if "n < length c" for c :: "int list"
    using that by (cases c) (simp_all flip: mset_append)
  have "0 < length a" using assms(2) by linarith
  then have len: "length b = length a" and eq: "mset b = mset a" "b ! 0 = a ! 0"
    using assms(1) by (auto simp: rearranges_def)
  have "drop (Suc n) b = drop (Suc n) a"
    using assms len by (intro nth_equalityI) (auto simp: rearranges_def)
  with split [of a] split [of b] eq len assms(2) show ?thesis by simp
qed

lemma mset_butlast_replace:
  assumes "i < length xs"
  shows "mset (butlast (xs[i := last xs])) = mset xs - {#xs ! i#}"
proof -
  have ne: "xs[i := last xs] \<noteq> []" using assms by auto
  have "last (xs[i := last xs]) = last xs"
    using ne by (simp add: last_list_update)
  then have "add_mset (last xs) (mset (butlast (xs[i := last xs]))) = mset (xs[i := last xs])"
    using append_butlast_last_id [OF ne] by (metis mset.simps(2) mset_append union_mset_add_mset_right add.right_neutral mset.simps(1))
  also have "\<dots> = add_mset (last xs) (mset xs - {#xs ! i#})"
    using assms by (simp add: mset_update)
  finally show ?thesis by simp
qed

lemma heap_root_least:
  assumes "heap_on a n" "1 \<le> i" "i \<le> n"
  shows "a ! 1 \<le> a ! i"
  using assms(2,3)
proof (induction i rule: less_induct)
  case (less i)
  show ?case
  proof (cases "i = 1")
    case False
    with less.prems have "a ! 1 \<le> a ! (i div 2)" by (intro less.IH) auto
    also have "\<dots> \<le> a ! i" using assms(1) less.prems False by (simp add: heap_on_def)
    finally show ?thesis .
  qed simp
qed

lemma lift_stop: "k < length a \<Longrightarrow> (1 < k \<Longrightarrow> a ! (k div 2) \<le> a ! k) \<Longrightarrow> lift a k = Inr a"
  by (cases "1 < k") (simp_all add: lift.simps [of a k])

lemma lift_heap_id: "heap_on a m \<Longrightarrow> k \<le> m \<Longrightarrow> m < length a \<Longrightarrow> lift a k = Inr a"
  by (rule lift_stop) (auto simp: heap_on_def)

lemma grow_keeps:
  assumes "2 \<le> length a" "n < length a"
  shows "Suc n < length (grow a (Suc n))" "2 \<le> length (grow a (Suc n))"
    "i \<le> n \<Longrightarrow> grow a (Suc n) ! i = a ! i"
    "take n (tl (grow a (Suc n))) = take n (tl a)"
proof -
  have ne: "a \<noteq> []" using assms(1) by auto
  show "Suc n < length (grow a (Suc n))" "2 \<le> length (grow a (Suc n))"
    using assms by (auto simp: grow_def)
  show "i \<le> n \<Longrightarrow> grow a (Suc n) ! i = a ! i"
    using assms by (auto simp: grow_def nth_append)
  show "take n (tl (grow a (Suc n))) = take n (tl a)"
    using assms(2) ne by (auto simp: grow_def)
qed

lemma heap_on_imp_but_down:
  assumes "heap_on a n"
  shows "heap_but_down a n k"
proof -
  have "a ! (k div 2) \<le> a ! i" if "2 \<le> i" "i \<le> n" "i div 2 = k" "2 \<le> k" for i
  proof -
    have "a ! (k div 2) \<le> a ! k" "a ! k \<le> a ! i"
      using assms that by (auto simp: heap_on_def)
    then show ?thesis by simp
  qed
  with assms show ?thesis by (simp add: heap_on_def heap_but_down_def)
qed

lemma new_inv: "lpq_inv LongPriorityQueue_new" "lpq_elems LongPriorityQueue_new = {#}"
  by (simp_all add: lpq_inv_def LongPriorityQueue_new_def heap_on_def lpq_list_def)

lemma isEmpty_iff: "lpq_inv q \<Longrightarrow> isEmpty q \<longleftrightarrow> lpq_elems q = {#}"
  using length_lpq_list [of q] by (auto simp: isEmpty_def)

lemma offer_ok:
  assumes "lpq_inv q" "h \<noteq> NO_VALUE"
  shows "\<exists>q'. offer q h = Inr q' \<and> lpq_inv q' \<and> lpq_elems q' = add_mset h (lpq_elems q)"
proof -
  let ?n = "lpq_size q + 1"
  define g where "g = grow (lpq_array q) ?n"
  have g: "?n < length g" "\<And>i. i < ?n \<Longrightarrow> g ! i = lpq_array q ! i" "2 \<le> length g"
    "take (lpq_size q) (tl g) = lpq_list q"
    using assms(1) grow_keeps [of "lpq_array q" "lpq_size q"]
    by (simp_all add: g_def lpq_inv_def lpq_list_def)
  have "heap_but_up (g[?n := h]) ?n ?n"
    using assms(1) g by (auto simp: heap_but_up_def lpq_inv_def heap_on_def nth_list_update)
  then obtain b where b: "lift (g[?n := h]) ?n = Inr b" "heap_on b ?n" "rearranges ?n (g[?n := h]) b"
    using lift_restores [of "g[?n := h]" ?n ?n] g(1) by auto
  have len: "length b = length g" using b(3) by (simp add: rearranges_def)
  have "mset (take ?n (tl b)) = mset (take ?n (tl (g[?n := h])))"
    using mset_slots_rearranged [OF b(3)] g(1) by simp
  also have "take ?n (tl (g[?n := h])) = lpq_list q @ [h]"
    using g(1,4) by (cases g) (simp_all add: take_Suc_conv_app_nth)
  finally have "mset (take ?n (tl b)) = add_mset h (lpq_elems q)" by simp
  moreover have "offer q h = Inr \<lparr>lpq_array = b, lpq_size = ?n\<rparr>"
    using assms(2) g(1) b(1) by (simp add: offer_def g_def Let_def)
  ultimately show ?thesis
    using b(2) len g(1,3) by (simp add: lpq_inv_def lpq_list_def)
qed

text \<open>What is left of the slots when slot \<open>i\<close> takes the last entry and the fill shrinks.\<close>

lemma mset_slots_replaced:
  assumes "lpq_inv q" "1 \<le> i" "i \<le> lpq_size q"
    and b: "length b = length (lpq_array q)"
      "\<And>j. 1 \<le> j \<Longrightarrow> j < lpq_size q \<Longrightarrow>
        b ! j = (if j = i then lpq_array q ! lpq_size q else lpq_array q ! j)"
  shows "mset (take (lpq_size q - 1) (tl b)) = lpq_elems q - {#lpq_array q ! i#}"
proof -
  let ?xs = "lpq_list q"
  have len: "length ?xs = lpq_size q" by (rule length_lpq_list [OF assms(1)])
  have lt: "lpq_size q < length b" using assms(1) b(1) by (simp add: lpq_inv_def)
  have "0 < lpq_size q" using assms(2,3) by linarith
  moreover from this len have "?xs \<noteq> []" by (metis length_greater_0_conv)
  ultimately have "last ?xs = lpq_array q ! lpq_size q"
    using nth_lpq_list [OF assms(1), of "lpq_size q - 1"] len by (simp add: last_conv_nth)
  moreover have "?xs ! (i - 1) = lpq_array q ! i"
    using nth_lpq_list [OF assms(1), of "i - 1"] assms(2,3) by simp
  moreover have "take (lpq_size q - 1) (tl b) = butlast (?xs[i - 1 := last ?xs])"
  proof (rule nth_equalityI)
    fix j assume "j < length (take (lpq_size q - 1) (tl b))"
    then have j: "j < lpq_size q - 1" "j < length (tl b)" by auto
    then show "take (lpq_size q - 1) (tl b) ! j = butlast (?xs[i - 1 := last ?xs]) ! j"
      using b(2) [of "Suc j"] nth_lpq_list [OF assms(1), of j] assms(2,3) len
        \<open>last ?xs = lpq_array q ! lpq_size q\<close>
      by (auto simp: nth_tl nth_butlast nth_list_update)
  qed (use lt len in auto)
  ultimately show ?thesis
    using mset_butlast_replace [of "i - 1" ?xs] assms(2,3) len by simp
qed

lemma poll_ok:
  assumes "lpq_inv q" "lpq_elems q \<noteq> {#}"
  shows "\<exists>x q'. poll q = Inr (x, q') \<and> lpq_inv q' \<and> x \<in># lpq_elems q \<and>
           (\<forall>y \<in># lpq_elems q. x \<le> y) \<and> lpq_elems q' = lpq_elems q - {#x#}"
proof -
  let ?a = "lpq_array q" and ?n = "lpq_size q"
  have "lpq_list q \<noteq> []" using assms(2) by simp
  then have "0 < ?n" using length_lpq_list [OF assms(1)] by (metis length_greater_0_conv)
  then have n: "0 < ?n" "?n < length ?a" "heap_on ?a ?n" "2 \<le> length ?a"
    using assms(1) by (auto simp: lpq_inv_def)
  define b where "b = ?a[1 := ?a ! ?n, ?n := 0]"
  have b: "b ! j = (if j = 1 then ?a ! ?n else ?a ! j)" if "1 \<le> j" "j < ?n" for j
    using that n by (auto simp: b_def nth_list_update)
  have "heap_but_down b (?n - 1) 1"
    unfolding heap_but_down_def
  proof (intro allI impI conjI)
    fix i assume "2 \<le> i" "i \<le> ?n - 1" "i div 2 \<noteq> 1"
    then show "b ! (i div 2) \<le> b ! i"
      using b [of i] b [of "i div 2"] n(3) by (simp add: heap_on_def)
  qed simp
  moreover have lt: "?n - 1 < length b"
    unfolding b_def length_list_update using n(2) by linarith
  ultimately obtain c where c: "sink (?n - 1) b 1 = Inr c" "heap_on c (?n - 1)" "rearranges (?n - 1) b c"
    using sink_restores [of b "?n - 1" 1] by auto
  have "length b = length ?a" by (simp add: b_def)
  then have "mset (take (?n - 1) (tl c)) = lpq_elems q - {#?a ! 1#}"
    using mset_slots_rearranged [OF c(3) lt] mset_slots_replaced [OF assms(1), of 1 b] b n by simp
  moreover have "poll q = Inr (?a ! 1, \<lparr>lpq_array = c, lpq_size = ?n - 1\<rparr>)"
    using n c(1) by (simp add: poll_def b_def Let_def)
  moreover have "?a ! 1 \<in># lpq_elems q"
    using nth_mem [of 0 "lpq_list q"] nth_lpq_list [OF assms(1), of 0] n length_lpq_list [OF assms(1)] by simp
  moreover have "?a ! 1 \<le> y" if "y \<in># lpq_elems q" for y
  proof -
    have "y \<in> set (lpq_list q)" using that by simp
    then obtain j where "j < ?n" "y = ?a ! Suc j"
      using nth_lpq_list [OF assms(1)] length_lpq_list [OF assms(1)] by (metis in_set_conv_nth)
    with heap_root_least [OF n(3), of "Suc j"] show ?thesis by simp
  qed
  moreover have "length c = length ?a" using c(3) by (simp add: rearranges_def b_def)
  ultimately show ?thesis
    using c(2) n by (simp add: lpq_inv_def lpq_list_def)
qed

lemma poll_empty: "lpq_inv q \<Longrightarrow> lpq_elems q = {#} \<Longrightarrow> poll q = Inr (NO_VALUE, q)"
  using isEmpty_iff [of q] by (simp add: poll_def isEmpty_def)

lemma remove_at_restores:
  assumes "lpq_inv q" "1 \<le> i" "i \<le> lpq_size q"
  defines "b \<equiv> (lpq_array q)[i := lpq_array q ! lpq_size q]" and "n \<equiv> lpq_size q - 1"
  shows "\<exists>c d. lift b i = Inr c \<and> sink n c i = Inr d \<and> heap_on d n \<and> rearranges n b d"
proof -
  let ?a = "lpq_array q" and ?v = "lpq_array q ! lpq_size q"
  have a: "heap_on ?a (lpq_size q)" "lpq_size q < length ?a"
    using assms(1) by (auto simp: lpq_inv_def)
  have len: "n < length b" "i < length b" using a assms(3) by (auto simp: b_def n_def)
  have bn: "b ! j = (if j = i then ?v else ?a ! j)" if "j \<le> n" for j
    using that a assms(3) by (auto simp: b_def n_def nth_list_update)
  have ord: "?a ! (j div 2) \<le> ?a ! j" if "2 \<le> j" "j \<le> n" for j
    using a(1) that by (simp add: heap_on_def n_def)
  have grand: "?a ! (i div 2) \<le> ?a ! j" if "2 \<le> j" "j \<le> n" "j div 2 = i" "2 \<le> i" for j
    using ord [of i] ord [of j] that by force
  have finish: "\<exists>c d. lift b i = Inr c \<and> sink n c i = Inr d \<and> heap_on d n \<and> rearranges n b d"
    if "lift b i = Inr c" "heap_but_down c n i" "rearranges n b c" for c
    using sink_restores [OF that(2) assms(2)] that len by (auto simp: rearranges_def)
  consider (last) "i = lpq_size q" | (up) "i \<le> n" "1 < i" "?v < ?a ! (i div 2)"
    | (down) "i \<le> n" "1 < i \<longrightarrow> ?a ! (i div 2) \<le> ?v"
    using assms(3) by (fastforce simp: n_def)
  then show ?thesis
  proof cases
    case last
    then have "b = ?a" by (simp add: b_def)
    moreover have "heap_on ?a n" using a(1) by (simp add: heap_on_def n_def)
    ultimately show ?thesis
      using finish [of ?a] lift_heap_id [OF a(1), of i] last a(2) by (simp add: heap_on_imp_but_down)
  next
    case up
    have "heap_but_up b n i"
      unfolding heap_but_up_def
    proof (intro allI impI conjI)
      fix j assume j: "2 \<le> j" "j \<le> n"
      then have "j div 2 \<le> n" "i div 2 \<noteq> i" "i div 2 \<le> n" using up by auto
      then show "b ! (j div 2) \<le> b ! j" if "j \<noteq> i"
        using that j up ord [OF j] grand [OF j] by (auto simp: bn)
      show "b ! (i div 2) \<le> b ! j" if "j div 2 = i" "2 \<le> i"
        using that j up grand [OF j] \<open>i div 2 \<le> n\<close> \<open>i div 2 \<noteq> i\<close> by (auto simp: bn)
    qed
    then obtain c where "lift b i = Inr c" "heap_on c n" "rearranges n b c"
      using lift_restores up(1) len(1) by blast
    then show ?thesis using finish by (simp add: heap_on_imp_but_down)
  next
    case down
    have "lift b i = Inr b"
      using len down bn [of i] bn [of "i div 2"] by (intro lift_stop) auto
    moreover have "heap_but_down b n i"
      unfolding heap_but_down_def
    proof (intro allI impI conjI)
      fix j assume j: "2 \<le> j" "j \<le> n"
      then have "j div 2 \<le> n" "i div 2 \<le> n" using down by auto
      then show "b ! (j div 2) \<le> b ! j" if "j div 2 \<noteq> i"
        using that j down ord [OF j] by (auto simp: bn)
      show "b ! (i div 2) \<le> b ! j" if "j div 2 = i" "2 \<le> i"
      proof -
        have "i div 2 \<noteq> i" "j \<noteq> i" using that by auto
        with that j grand [OF j] \<open>i div 2 \<le> n\<close> show ?thesis by (simp add: bn)
      qed
    qed
    ultimately show ?thesis using finish by simp
  qed
qed

lemma remove_from_ok:
  assumes "lpq_inv q" "1 \<le> i"
  shows "\<exists>q'. remove_from q v i = Inr q' \<and> lpq_inv q' \<and>
    lpq_elems q' = (if \<exists>j. i \<le> j \<and> j \<le> lpq_size q \<and> lpq_array q ! j = v
                    then lpq_elems q - {#v#} else lpq_elems q)"
  using assms
proof (induction q v i rule: remove_from.induct)
  case (1 q v i)
  let ?a = "lpq_array q" and ?n = "lpq_size q - 1"
  let ?ex = "\<lambda>i. \<exists>j. i \<le> j \<and> j \<le> lpq_size q \<and> ?a ! j = v"
  have a: "lpq_size q < length ?a" "2 \<le> length ?a" using "1.prems" by (auto simp: lpq_inv_def)
  consider (stop) "lpq_size q < i" | (hit) "i \<le> lpq_size q" "?a ! i = v"
    | (next_) "i \<le> lpq_size q" "?a ! i \<noteq> v" by linarith
  then show ?case
  proof cases
    case stop
    then have "remove_from q v i = Inr q" "\<not> ?ex i" by (auto simp: remove_from.simps)
    with "1.prems" show ?thesis by (simp only: if_False) simp
  next
    case hit
    let ?b = "?a[i := ?a ! lpq_size q]"
    obtain c d where cd: "lift ?b i = Inr c" "sink ?n c i = Inr d" "heap_on d ?n" "rearranges ?n ?b d"
      using remove_at_restores [OF "1.prems"(1,2) hit(1)] by blast
    have "?n < length ?b" using a by simp
    then have "mset (take ?n (tl d)) = lpq_elems q - {#v#}"
      using mset_slots_rearranged [OF cd(4)] hit
        mset_slots_replaced [OF "1.prems"(1,2) hit(1), of ?b]
      by (simp add: nth_list_update)
    moreover have "remove_from q v i = Inr \<lparr>lpq_array = d, lpq_size = ?n\<rparr>"
      using hit a cd by (simp add: remove_from.simps [of q v i] Let_def)
    moreover have "length d = length ?a" using cd(4) by (simp add: rearranges_def)
    ultimately show ?thesis
      using hit cd(3) a by (auto simp: lpq_inv_def lpq_list_def)
  next
    case next_
    then have "?ex i \<longleftrightarrow> ?ex (i + 1)"
      by (metis Suc_eq_plus1 Suc_leD Suc_leI le_neq_implies_less)
    moreover have "remove_from q v i = remove_from q v (i + 1)"
      using next_ a by (simp add: remove_from.simps [of q v i])
    ultimately show ?thesis using "1.IH" [of "?a ! i"] next_ a "1.prems" by simp
  qed
qed

lemma remove_ok:
  assumes "lpq_inv q"
  shows "\<exists>q'. remove q v = Inr q' \<and> lpq_inv q' \<and> lpq_elems q' = lpq_elems q - {#v#}"
proof -
  have "v \<in># lpq_elems q \<longleftrightarrow> (\<exists>j. 1 \<le> j \<and> j \<le> lpq_size q \<and> lpq_array q ! j = v)"
  proof
    assume "v \<in># lpq_elems q"
    then have "v \<in> set (lpq_list q)" by simp
    then obtain j where "j < lpq_size q" "v = lpq_array q ! Suc j"
      using nth_lpq_list [OF assms] length_lpq_list [OF assms] by (metis in_set_conv_nth)
    then show "\<exists>j. 1 \<le> j \<and> j \<le> lpq_size q \<and> lpq_array q ! j = v" by (intro exI [of _ "Suc j"]) auto
  next
    assume "\<exists>j. 1 \<le> j \<and> j \<le> lpq_size q \<and> lpq_array q ! j = v"
    then obtain j where "1 \<le> j" "j \<le> lpq_size q" "lpq_array q ! j = v" by blast
    then show "v \<in># lpq_elems q"
      using nth_lpq_list [OF assms, of "j - 1"] nth_mem [of "j - 1" "lpq_list q"]
        length_lpq_list [OF assms] by simp
  qed
  with remove_from_ok [OF assms, of 1 v] show ?thesis
    by (auto simp: remove_def diff_single_trivial)
qed

subsection \<open>The contract a chunk relies on\<close>

text \<open>Sequences of calls, for any queue with these operations.\<close>

primrec offer_all :: "('q \<Rightarrow> int \<Rightarrow> 'q result) \<Rightarrow> 'q \<Rightarrow> int list \<Rightarrow> 'q result" where
  "offer_all off q [] = Inr q"
| "offer_all off q (h # hs) = bindE (off q h) (\<lambda>q. offer_all off q hs)"

primrec poll_n :: "('q \<Rightarrow> (int \<times> 'q) result) \<Rightarrow> nat \<Rightarrow> 'q \<Rightarrow> (int list \<times> 'q) result" where
  "poll_n pol 0 q = Inr ([], q)"
| "poll_n pol (Suc n) q =
     bindE (pol q) (\<lambda>(x, q). bindE (poll_n pol n q) (\<lambda>(xs, q). Inr (x # xs, q)))"

locale handle_queue =
  fixes new :: "'q" and offr :: "'q \<Rightarrow> int \<Rightarrow> 'q result" and remov :: "'q \<Rightarrow> int \<Rightarrow> 'q result"
    and pol :: "'q \<Rightarrow> (int \<times> 'q) result" and empt :: "'q \<Rightarrow> bool"
    and qinv :: "'q \<Rightarrow> bool" and elems :: "'q \<Rightarrow> int multiset"
  assumes new_qinv: "qinv new" and new_elems: "elems new = {#}"
    and offr_spec: "qinv q \<Longrightarrow> h \<noteq> NO_VALUE \<Longrightarrow>
      \<exists>q'. offr q h = Inr q' \<and> qinv q' \<and> elems q' = add_mset h (elems q)"
    and remov_spec: "qinv q \<Longrightarrow> \<exists>q'. remov q h = Inr q' \<and> qinv q' \<and> elems q' = elems q - {#h#}"
    and pol_spec: "qinv q \<Longrightarrow> elems q \<noteq> {#} \<Longrightarrow>
      \<exists>x q'. pol q = Inr (x, q') \<and> qinv q' \<and> x \<in># elems q \<and> (\<forall>y \<in># elems q. x \<le> y) \<and>
             elems q' = elems q - {#x#}"
    and empt_spec: "qinv q \<Longrightarrow> empt q \<longleftrightarrow> elems q = {#}"
begin

lemma offer_all_spec:
  "qinv q \<Longrightarrow> NO_VALUE \<notin> set hs \<Longrightarrow>
   \<exists>q'. offer_all offr q hs = Inr q' \<and> qinv q' \<and> elems q' = elems q + mset hs"
proof (induction hs arbitrary: q)
  case (Cons h hs)
  then obtain q1 where q1: "offr q h = Inr q1" "qinv q1" "elems q1 = add_mset h (elems q)"
    using offr_spec [of q h] by auto
  then show ?case using Cons.IH [of q1] Cons.prems by auto
qed simp

lemma poll_n_spec:
  "qinv q \<Longrightarrow> n \<le> size (elems q) \<Longrightarrow>
   \<exists>xs q'. poll_n pol n q = Inr (xs, q') \<and> qinv q' \<and> length xs = n \<and> sorted xs \<and>
     elems q = mset xs + elems q' \<and> (\<forall>x \<in> set xs. \<forall>y \<in># elems q'. x \<le> y)"
proof (induction n arbitrary: q)
  case (Suc n)
  then have "elems q \<noteq> {#}" by auto
  then obtain x q1 where q1: "pol q = Inr (x, q1)" "qinv q1" "x \<in># elems q"
    "\<forall>y \<in># elems q. x \<le> y" "elems q1 = elems q - {#x#}"
    using pol_spec Suc.prems by blast
  then have "n \<le> size (elems q1)" using Suc.prems by (simp add: size_Diff_singleton)
  then obtain xs q2 where q2: "poll_n pol n q1 = Inr (xs, q2)" "qinv q2" "length xs = n" "sorted xs"
    "elems q1 = mset xs + elems q2" "\<forall>x \<in> set xs. \<forall>y \<in># elems q2. x \<le> y"
    using Suc.IH q1(2) by blast
  have split: "elems q = add_mset x (mset xs + elems q2)"
    using q1(3,5) q2(5) insert_DiffM by metis
  then have "\<forall>y \<in> set xs. x \<le> y" "\<forall>y \<in># elems q2. x \<le> y"
    using q1(4) by auto
  then show ?case using q1 q2 split by auto
qed simp

lemma poll_all_sorts:
  assumes "qinv q"
  shows "\<exists>q'. poll_n pol (size (elems q)) q = Inr (sorted_list_of_multiset (elems q), q') \<and>
    qinv q' \<and> empt q'"
proof -
  obtain xs q' where q': "poll_n pol (size (elems q)) q = Inr (xs, q')" "qinv q'"
    "length xs = size (elems q)" "sorted xs" "elems q = mset xs + elems q'"
    using poll_n_spec [OF assms] by blast
  then have "elems q' = {#}" by (metis add_cancel_right_right size_eq_0_iff_empty size_mset size_union)
  moreover from this have "sorted_list_of_multiset (elems q) = xs"
    using q'(4,5) by (simp add: properties_for_sort)
  ultimately show ?thesis using q'(1,2) empt_spec [OF q'(2)] by metis
qed

end

interpretation lpq: handle_queue LongPriorityQueue_new offer remove poll isEmpty lpq_inv lpq_elems
  by unfold_locales (fact new_inv offer_ok remove_ok poll_ok isEmpty_iff)+



text \<open>\<open>remove\<close> takes out exactly one occurrence of its argument and nothing else (and
  changes nothing when the argument is absent), wherever in the heap it sits: the polls that
  follow still come in ascending order.\<close>

theorem remove_then_poll_sorts:
  assumes "NO_VALUE \<notin> set hs"
  shows "\<exists>q q1 q'. offer_all offer LongPriorityQueue_new hs = Inr q \<and> remove q v = Inr q1 \<and>
    poll_n poll (length (remove1 v hs)) q1 = Inr (sort (remove1 v hs), q') \<and> isEmpty q'"
proof -
  obtain q where q: "offer_all offer LongPriorityQueue_new hs = Inr q" "lpq_inv q"
    "lpq_elems q = mset hs"
    using lpq.offer_all_spec [OF lpq.new_qinv assms] lpq.new_elems by auto
  then obtain q1 where q1: "remove q v = Inr q1" "lpq_inv q1" "lpq_elems q1 = mset (remove1 v hs)"
    using lpq.remov_spec [OF q(2), of v] by auto
  then have "sorted_list_of_multiset (lpq_elems q1) = sort (remove1 v hs)"
    "size (lpq_elems q1) = length (remove1 v hs)"
    by (simp_all only: sorted_list_of_multiset_mset size_mset)
  with q q1 lpq.poll_all_sorts [OF q1(2)] show ?thesis by auto
qed

end
