(* ===== verification/Pooled_Byte_Buf.thy ===== *)
theory Pooled_Byte_Buf
  imports Prelude
begin

section \<open>PooledByteBuf: a window on pooled memory with two indices\<close>

text \<open>
  \<open>buffer/PooledByteBuf.h\<close> and \<open>buffer/PooledByteBuf.cpp\<close>: the fields, the initialisation from a
  chunk, the reader and writer index, and the reads and writes that stay within the memory the
  buffer has. Memory is a store of blocks, a pointer a block with an offset. Growing a buffer
  beyond its memory goes through the arena and is modelled there.
\<close>

subsection \<open>State\<close>

type_synonym memory = "char list store"

record PooledByteBuf =
  pb_allocator :: "nat option"
  pb_maxCapacity :: int
  pb_chunk :: "nat option"
  pb_handle :: int
  pb_memory :: "nat option"
  pb_offset :: int
  pb_length :: int
  pb_maxLength :: int
  pb_cache :: "nat option"
  pb_tmpBuf :: "(nat \<times> int) option"
  pb_readerIndex :: int
  pb_writerIndex :: int

definition PooledByteBuf_new :: "int \<Rightarrow> PooledByteBuf result" where
  "PooledByteBuf_new maxCapacity =
     bindE (assertE (maxCapacity \<ge> 0)) (\<lambda>_.
     Inr \<lparr>pb_allocator = None, pb_maxCapacity = maxCapacity, pb_chunk = None, pb_handle = 0,
          pb_memory = None, pb_offset = 0, pb_length = 0, pb_maxLength = 0, pb_cache = None,
          pb_tmpBuf = None, pb_readerIndex = 0, pb_writerIndex = 0\<rparr>)"

text \<open>
  \<open>init0\<close>: \<open>memory\<close> and \<open>allocator\<close> are \<open>chunk->m_memory\<close> and \<open>chunk->m_arena->m_parent\<close>; without a
  cached buffer the temporary pointer is the start of the window.
\<close>

definition init0 ::
  "PooledByteBuf \<Rightarrow> nat option \<Rightarrow> nat option \<Rightarrow> nat option \<Rightarrow> (nat \<times> int) option \<Rightarrow> int \<Rightarrow> int \<Rightarrow> int \<Rightarrow> int
   \<Rightarrow> nat option \<Rightarrow> PooledByteBuf result" where
  "init0 buf chunk memory allocator buffer handle offset length' maxLength cache =
     bindE (assertE (handle \<ge> 0)) (\<lambda>_.
     bindE (assertE (chunk \<noteq> None)) (\<lambda>_.
     let tmp = (if buffer = None then map_option (\<lambda>m. (m, offset)) memory else buffer)
     in Inr (buf\<lparr>pb_chunk := chunk, pb_memory := memory, pb_allocator := allocator, pb_cache := cache,
                 pb_handle := handle, pb_offset := offset, pb_length := length',
                 pb_maxLength := maxLength, pb_tmpBuf := tmp\<rparr>)))"

definition setMaxCapacity :: "PooledByteBuf \<Rightarrow> int \<Rightarrow> PooledByteBuf" where
  "setMaxCapacity buf maxCapacity = buf\<lparr>pb_maxCapacity := maxCapacity\<rparr>"

definition setIndex0 :: "PooledByteBuf \<Rightarrow> int \<Rightarrow> int \<Rightarrow> PooledByteBuf" where
  "setIndex0 buf readerIndex writerIndex =
     buf\<lparr>pb_readerIndex := readerIndex, pb_writerIndex := writerIndex\<rparr>"

definition reuse :: "PooledByteBuf \<Rightarrow> int \<Rightarrow> PooledByteBuf" where
  "reuse buf maxCapacity = setIndex0 (setMaxCapacity buf maxCapacity) 0 0"

subsection \<open>Indices\<close>

definition idx :: "PooledByteBuf \<Rightarrow> int \<Rightarrow> int" where
  "idx buf index = i32 (pb_offset buf + index)"

definition readableBytes :: "PooledByteBuf \<Rightarrow> int" where
  "readableBytes buf = i32 (pb_writerIndex buf - pb_readerIndex buf)"

definition writableBytes :: "PooledByteBuf \<Rightarrow> int" where
  "writableBytes buf = i32 (pb_length buf - pb_writerIndex buf)"

definition maxWritableBytes :: "PooledByteBuf \<Rightarrow> int" where
  "maxWritableBytes buf = i32 (pb_maxCapacity buf - pb_writerIndex buf)"

definition checkIndexBounds :: "int \<Rightarrow> int \<Rightarrow> int \<Rightarrow> unit result" where
  "checkIndexBounds readerIndex writerIndex capacity =
     (if readerIndex < 0 \<or> readerIndex > writerIndex \<or> writerIndex > capacity then Inl StdException
      else Inr ())"

definition checkNewCapacity :: "PooledByteBuf \<Rightarrow> int \<Rightarrow> unit result" where
  "checkNewCapacity buf newCapacity =
     (if newCapacity < 0 \<or> newCapacity > pb_maxCapacity buf then Inl StdException else Inr ())"

definition trimIndicesToCapacity :: "PooledByteBuf \<Rightarrow> int \<Rightarrow> PooledByteBuf" where
  "trimIndicesToCapacity buf newCapacity =
     (if pb_writerIndex buf > newCapacity
      then setIndex0 buf (min (pb_readerIndex buf) newCapacity) newCapacity else buf)"

definition clear :: "PooledByteBuf \<Rightarrow> PooledByteBuf" where
  "clear buf = buf\<lparr>pb_readerIndex := 0, pb_writerIndex := 0\<rparr>"

definition retrieveAll :: "PooledByteBuf \<Rightarrow> PooledByteBuf" where
  "retrieveAll buf = buf\<lparr>pb_readerIndex := 0, pb_writerIndex := 0\<rparr>"

text \<open>\<open>len\<close> is a \<open>size_t\<close>: a negative \<open>readableBytes()\<close> is compared as a huge unsigned number.\<close>

definition as_size_t :: "int \<Rightarrow> int" where
  "as_size_t x = take_bit 64 x"

definition retrieve :: "PooledByteBuf \<Rightarrow> nat \<Rightarrow> PooledByteBuf result" where
  "retrieve buf len =
     bindE (assertE (int len \<le> as_size_t (readableBytes buf))) (\<lambda>_.
     if int len < as_size_t (readableBytes buf)
     then Inr (buf\<lparr>pb_readerIndex := i32 (pb_readerIndex buf + int len)\<rparr>)
     else Inr (retrieveAll buf))"

subsection \<open>Reading and writing memory\<close>

text \<open>Bytes of a block from \<open>start\<close>, and the block with bytes replaced; both within the block.\<close>

definition read_block :: "memory \<Rightarrow> nat \<Rightarrow> int \<Rightarrow> nat \<Rightarrow> char list result" where
  "read_block m b start len =
     bindE (load m b) (\<lambda>bs.
     if 0 \<le> start \<and> start + int len \<le> int (length bs) then Inr (take len (drop (nat start) bs))
     else Inl OutOfBounds)"

definition write_block :: "memory \<Rightarrow> nat \<Rightarrow> int \<Rightarrow> char list \<Rightarrow> memory result" where
  "write_block m b start src =
     bindE (load m b) (\<lambda>bs.
     if 0 \<le> start \<and> start + int (length src) \<le> int (length bs)
     then Inr (m(b \<mapsto> take (nat start) bs @ src @ drop (nat start + length src) bs))
     else Inl OutOfBounds)"

text \<open>\<open>peek\<close> points at the readable bytes, \<open>m_tmpBuf + m_readerIndex\<close>.\<close>

definition pb_peek :: "PooledByteBuf \<Rightarrow> (nat \<times> int) result" where
  "pb_peek buf =
     (case pb_tmpBuf buf of None \<Rightarrow> Inl NullPointer | Some (b, off) \<Rightarrow> Inr (b, off + pb_readerIndex buf))"

definition retrieveAsString :: "memory \<Rightarrow> PooledByteBuf \<Rightarrow> nat \<Rightarrow> (char list \<times> PooledByteBuf) result" where
  "retrieveAsString m buf len =
     bindE (assertE (int len \<le> as_size_t (readableBytes buf))) (\<lambda>_.
     bindE (pb_peek buf) (\<lambda>(b, start).
     bindE (read_block m b start len) (\<lambda>result.
     bindE (retrieve buf len) (\<lambda>buf. Inr (result, buf)))))"

definition retrieveAllAsString :: "memory \<Rightarrow> PooledByteBuf \<Rightarrow> (char list \<times> PooledByteBuf) result" where
  "retrieveAllAsString m buf = retrieveAsString m buf (nat (as_size_t (readableBytes buf)))"

text \<open>\<open>setBytes\<close> copies \<open>length\<close> bytes of \<open>src\<close> from \<open>srcIndex\<close>.\<close>

definition setBytes :: "memory \<Rightarrow> PooledByteBuf \<Rightarrow> int \<Rightarrow> char list \<Rightarrow> nat \<Rightarrow> nat \<Rightarrow> memory result" where
  "setBytes m buf index src srcIndex length' =
     bindE (assertE (i32 (index + int length') \<le> pb_length buf)) (\<lambda>_.
     bindE (deref (pb_memory buf)) (\<lambda>b.
     if srcIndex + length' \<le> length src
     then write_block m b (idx buf index) (take length' (drop srcIndex src))
     else Inl OutOfBounds))"

text \<open>\<open>_internalBuffer\<close> and its two callers reposition the temporary pointer.\<close>

definition internalBuffer_at :: "PooledByteBuf \<Rightarrow> int \<Rightarrow> ((nat \<times> int) \<times> PooledByteBuf) result" where
  "internalBuffer_at buf index =
     bindE (deref (pb_memory buf)) (\<lambda>b.
     let p = (b, idx buf index) in Inr (p, buf\<lparr>pb_tmpBuf := Some p\<rparr>))"

definition internalBuffer :: "PooledByteBuf \<Rightarrow> int \<Rightarrow> int \<Rightarrow> ((nat \<times> int) \<times> PooledByteBuf) result" where
  "internalBuffer buf index length' =
     bindE (assertE (i32 (index + length') \<le> pb_length buf)) (\<lambda>_. internalBuffer_at buf index)"

end
