(* ===== verification/Pool_Chunk.thy ===== *)
theory Pool_Chunk
  imports Long_Priority_Queue Size_Classes Pool_Subpage Pooled_Byte_Buf
begin

section \<open>PoolChunk: runs of pages\<close>

text \<open>
  \<open>buffer/PoolChunk.h\<close> and \<open>buffer/PoolChunk.cpp\<close>: a chunk of pages cut into runs. Free runs are
  kept in one priority queue of handles per page class, ordered by offset, and in a map from
  their first and last page to the handle, which the merging of neighbours uses. Small sizes get
  a run with a subpage on it. The locks serialise the operations and have no other effect, so
  each operation is one step of the model.
\<close>

subsection \<open>State\<close>

text \<open>\<open>std::unordered_map\<close>: \<open>insert\<close> does not replace an entry, \<open>erase\<close> removes it.\<close>

type_synonym run_map = "(int \<times> int) list"

definition map_insert :: "run_map \<Rightarrow> int \<Rightarrow> int \<Rightarrow> run_map" where
  "map_insert m k v = (if map_of m k = None then (k, v) # m else m)"

definition map_erase :: "run_map \<Rightarrow> int \<Rightarrow> run_map" where
  "map_erase m k = filter (\<lambda>e. fst e \<noteq> k) m"

record PoolChunk =
  pc_runsAvailMap :: run_map
  pc_runsAvail :: "LongPriorityQueue list"
  pc_subpages :: "nat option list"
  pc_cachedBuffers :: "(nat \<times> int) list"
  pc_pageSize :: int
  pc_pageShifts :: int
  pc_chunkSize :: int
  pc_memory :: "nat option"
  pc_freeBytes :: int
  pc_unpooled :: bool
  pc_prev :: "nat option"
  pc_next :: "nat option"
  pc_parent :: "nat option"
  pc_arena :: nat

text \<open>
  What a chunk reads of its arena: the size classes it inherits, the sentinels
  \<open>m_smallSubpagePools\<close>, the allocator \<open>m_parent\<close> and the calling thread's cache
  \<open>m_parent->threadCache()\<close>.
\<close>

record ArenaView =
  av_sizes :: SizeClasses
  av_smallSubpagePools :: "nat list"
  av_parent :: "nat option"
  av_threadCache :: "nat option"

definition DEFAULT_MAX_CACHED_BYTEBUFFERS_PER_CHUNK :: int where
  "DEFAULT_MAX_CACHED_BYTEBUFFERS_PER_CHUNK = 1023"

definition findSubpagePoolHead :: "ArenaView \<Rightarrow> int \<Rightarrow> nat result" where
  "findSubpagePoolHead av sizeIdx = getE (av_smallSubpagePools av) sizeIdx"

subsection \<open>The free runs\<close>

definition insertAvailRun0 :: "PoolChunk \<Rightarrow> int \<Rightarrow> int \<Rightarrow> PoolChunk" where
  "insertAvailRun0 c runOffset handle =
     c\<lparr>pc_runsAvailMap := map_insert (pc_runsAvailMap c) runOffset handle\<rparr>"

definition insertAvailRun :: "SizeClasses \<Rightarrow> PoolChunk \<Rightarrow> int \<Rightarrow> int \<Rightarrow> int \<Rightarrow> PoolChunk result" where
  "insertAvailRun sc c runOffset pages handle =
     bindE (pages2pageIdxFloor sc pages) (\<lambda>pageIdxFloor.
     bindE (getE (pc_runsAvail c) pageIdxFloor) (\<lambda>queue.
     bindE (offer queue handle) (\<lambda>queue.
     bindE (setE (pc_runsAvail c) pageIdxFloor queue) (\<lambda>queues.
     let c = insertAvailRun0 (c\<lparr>pc_runsAvail := queues\<rparr>) runOffset handle
     in Inr (if pages > 1 then insertAvailRun0 c (lastPage runOffset pages) handle else c)))))"

definition removeAvailRun_queue :: "PoolChunk \<Rightarrow> int \<Rightarrow> int \<Rightarrow> PoolChunk result" where
  "removeAvailRun_queue c queueIdx handle =
     bindE (getE (pc_runsAvail c) queueIdx) (\<lambda>queue.
     bindE (remove queue handle) (\<lambda>queue.
     bindE (setE (pc_runsAvail c) queueIdx queue) (\<lambda>queues.
     let runOffset = calculateRunOffset handle;
         pages = calculateRunPages handle;
         m = map_erase (pc_runsAvailMap c) runOffset;
         m = (if pages > 1 then map_erase m (lastPage runOffset pages) else m)
     in Inr (c\<lparr>pc_runsAvail := queues, pc_runsAvailMap := m\<rparr>))))"

definition removeAvailRun :: "SizeClasses \<Rightarrow> PoolChunk \<Rightarrow> int \<Rightarrow> PoolChunk result" where
  "removeAvailRun sc c handle =
     bindE (pages2pageIdxFloor sc (calculateRunPages handle)) (\<lambda>pageIdxFloor.
       removeAvailRun_queue c pageIdxFloor handle)"

definition getAvailRunByOffset :: "PoolChunk \<Rightarrow> int \<Rightarrow> int" where
  "getAvailRunByOffset c runOffset =
     (case map_of (pc_runsAvailMap c) runOffset of Some h \<Rightarrow> h | None \<Rightarrow> - 1)"

subsection \<open>Construction\<close>

definition newRunsAvailqueueArray :: "int \<Rightarrow> LongPriorityQueue list" where
  "newRunsAvailqueueArray size' = replicate (nat size') LongPriorityQueue_new"

definition PoolChunk_new ::
  "SizeClasses \<Rightarrow> nat \<Rightarrow> nat option \<Rightarrow> int \<Rightarrow> int \<Rightarrow> int \<Rightarrow> int \<Rightarrow> PoolChunk result" where
  "PoolChunk_new sc arena memory pageSize' pageShifts chunkSize maxPageIdx =
     (let c = \<lparr>pc_runsAvailMap = [], pc_runsAvail = newRunsAvailqueueArray maxPageIdx,
               pc_subpages = replicate (nat (shr chunkSize pageShifts)) None, pc_cachedBuffers = [],
               pc_pageSize = pageSize', pc_pageShifts = pageShifts, pc_chunkSize = chunkSize,
               pc_memory = memory, pc_freeBytes = chunkSize, pc_unpooled = False,
               pc_prev = None, pc_next = None, pc_parent = None, pc_arena = arena\<rparr>;
          pages = shr chunkSize pageShifts;
          initHandle = shl64 pages SIZE_SHIFT
      in insertAvailRun sc c 0 pages initHandle)"

definition PoolChunk_unpooled :: "nat \<Rightarrow> nat option \<Rightarrow> int \<Rightarrow> PoolChunk" where
  "PoolChunk_unpooled arena memory size' =
     \<lparr>pc_runsAvailMap = [], pc_runsAvail = [], pc_subpages = [], pc_cachedBuffers = [],
      pc_pageSize = 0, pc_pageShifts = 0, pc_chunkSize = size', pc_memory = memory,
      pc_freeBytes = 0, pc_unpooled = True, pc_prev = None, pc_next = None, pc_parent = None,
      pc_arena = arena\<rparr>"

definition usage :: "PoolChunk \<Rightarrow> int" where
  "usage c =
     (if pc_freeBytes c = 0 then 100
      else let freePercentage = i32 (i64 (pc_freeBytes c * 100) sdiv pc_chunkSize c)
           in if freePercentage = 0 then 99 else 100 - freePercentage)"

subsection \<open>Allocating a run\<close>

function runFirstBestFit_from :: "SizeClasses \<Rightarrow> PoolChunk \<Rightarrow> int \<Rightarrow> int result" where
  "runFirstBestFit_from sc c i =
     (if i < m_nPSizes sc then
        bindE (getE (pc_runsAvail c) i) (\<lambda>queue.
          if \<not> isEmpty queue then Inr i else runFirstBestFit_from sc c (i + 1))
      else Inr (- 1))"
  by pat_completeness auto
termination
  by (relation "measure (\<lambda>(sc, c, i). nat (m_nPSizes sc - i))") auto

declare runFirstBestFit_from.simps [simp del]

definition runFirstBestFit :: "SizeClasses \<Rightarrow> PoolChunk \<Rightarrow> int \<Rightarrow> int result" where
  "runFirstBestFit sc c pageIdx =
     (if pc_freeBytes c = pc_chunkSize c then Inr (m_nPSizes sc - 1)
      else runFirstBestFit_from sc c pageIdx)"

definition splitLargeRun :: "SizeClasses \<Rightarrow> PoolChunk \<Rightarrow> int \<Rightarrow> int \<Rightarrow> (int \<times> PoolChunk) result" where
  "splitLargeRun sc c handle needPages =
     bindE (assertE (needPages > 0)) (\<lambda>_.
     let totalPages = calculateRunPages handle
     in bindE (assertE (needPages \<le> totalPages)) (\<lambda>_.
     let remPages = totalPages - needPages
     in if remPages > 0 then
          let runOffset = calculateRunOffset handle;
              availOffset = runOffset + needPages;
              availRun = toRunHandle availOffset remPages 0
          in bindE (insertAvailRun sc c availOffset remPages availRun) (\<lambda>c.
               Inr (toRunHandle runOffset needPages 1, c))
        else Inr (handle OR shl64 1 IS_USED_SHIFT, c)))"

definition allocateRun :: "SizeClasses \<Rightarrow> PoolChunk \<Rightarrow> int \<Rightarrow> (int \<times> PoolChunk) result" where
  "allocateRun sc c runSize =
     (let pages = shr runSize (pc_pageShifts c)
      in bindE (pages2pageIdx sc pages) (\<lambda>pageIdx.
      bindE (runFirstBestFit sc c pageIdx) (\<lambda>queueIdx.
      if queueIdx = - 1 then Inr (- 1, c)
      else
        bindE (getE (pc_runsAvail c) queueIdx) (\<lambda>queue.
        bindE (assertE (\<not> isEmpty queue)) (\<lambda>_.
        bindE (poll queue) (\<lambda>(handle, queue).
        bindE (assertE (\<not> isUsed handle)) (\<lambda>_.
        bindE (setE (pc_runsAvail c) queueIdx queue) (\<lambda>queues.
        bindE (removeAvailRun_queue (c\<lparr>pc_runsAvail := queues\<rparr>) queueIdx handle) (\<lambda>c.
        bindE (if handle \<noteq> - 1 then splitLargeRun sc c handle pages else Inr (handle, c)) (\<lambda>(handle, c).
          Inr (handle, c\<lparr>pc_freeBytes :=
            i32 (pc_freeBytes c - calculateRunSize (pc_pageShifts c) handle)\<rparr>)))))))))))"

subsection \<open>Freeing a run\<close>

text \<open>
  The two loops that merge neighbours. Every round but the last erases an entry of the map, so
  one round more than there are entries is enough for a well-formed chunk.
\<close>

primrec collapsePast_loop :: "nat \<Rightarrow> SizeClasses \<Rightarrow> PoolChunk \<Rightarrow> int \<Rightarrow> (int \<times> PoolChunk) result" where
  "collapsePast_loop 0 sc c handle = Inl Diverges"
| "collapsePast_loop (Suc fuel) sc c handle =
     (let runOffset = calculateRunOffset handle;
          runPages = calculateRunPages handle;
          pastRun = getAvailRunByOffset c (runOffset - 1)
      in if pastRun = - 1 then Inr (handle, c)
         else
           let pastOffset = calculateRunOffset pastRun;
               pastPages = calculateRunPages pastRun
           in if pastRun \<noteq> handle \<and> pastOffset + pastPages = runOffset then
                bindE (removeAvailRun sc c pastRun) (\<lambda>c.
                  collapsePast_loop fuel sc c (toRunHandle pastOffset (pastPages + runPages) 0))
              else Inr (handle, c))"

definition collapsePast :: "SizeClasses \<Rightarrow> PoolChunk \<Rightarrow> int \<Rightarrow> (int \<times> PoolChunk) result" where
  "collapsePast sc c handle = collapsePast_loop (Suc (length (pc_runsAvailMap c))) sc c handle"

text \<open>\<open>collapseNext\<close> reads \<open>nextOffset\<close> with \<open>calculateRunPages\<close>, as the source does.\<close>

primrec collapseNext_loop :: "nat \<Rightarrow> SizeClasses \<Rightarrow> PoolChunk \<Rightarrow> int \<Rightarrow> (int \<times> PoolChunk) result" where
  "collapseNext_loop 0 sc c handle = Inl Diverges"
| "collapseNext_loop (Suc fuel) sc c handle =
     (let runOffset = calculateRunOffset handle;
          runPages = calculateRunPages handle;
          nextRun = getAvailRunByOffset c (runOffset + runPages)
      in if nextRun = - 1 then Inr (handle, c)
         else
           let nextOffset = calculateRunPages nextRun;
               nextPages = calculateRunPages nextRun
           in if nextRun \<noteq> handle \<and> runOffset + runPages = nextOffset then
                bindE (removeAvailRun sc c nextRun) (\<lambda>c.
                  collapseNext_loop fuel sc c (toRunHandle runOffset (runPages + nextPages) 0))
              else Inr (handle, c))"

definition collapseNext :: "SizeClasses \<Rightarrow> PoolChunk \<Rightarrow> int \<Rightarrow> (int \<times> PoolChunk) result" where
  "collapseNext sc c handle = collapseNext_loop (Suc (length (pc_runsAvailMap c))) sc c handle"

definition collapseRuns :: "SizeClasses \<Rightarrow> PoolChunk \<Rightarrow> int \<Rightarrow> (int \<times> PoolChunk) result" where
  "collapseRuns sc c handle =
     bindE (collapsePast sc c handle) (\<lambda>(handle, c). collapseNext sc c handle)"

text \<open>The second half of \<open>free\<close>: the run goes back to the free runs.\<close>

definition freeRun :: "SizeClasses \<Rightarrow> PoolChunk \<Rightarrow> int \<Rightarrow> PoolChunk result" where
  "freeRun sc c handle =
     (let pages = calculateRunPages handle
      in bindE (collapseRuns sc c handle) (\<lambda>(finalRun, c).
         let finalRun = finalRun AND NOT (shl64 1 IS_USED_SHIFT);
             finalRun = finalRun AND NOT (shl64 1 IS_SUBPAGE_SHIFT)
         in bindE (insertAvailRun sc c (calculateRunOffset finalRun) (calculateRunPages finalRun) finalRun) (\<lambda>c.
            Inr (c\<lparr>pc_freeBytes := i32 (pc_freeBytes c + shl pages (pc_pageShifts c))\<rparr>))))"

definition pc_free ::
  "ArenaView \<Rightarrow> subpages \<Rightarrow> PoolChunk \<Rightarrow> int \<Rightarrow> int \<Rightarrow> (nat \<times> int) option \<Rightarrow> (PoolChunk \<times> subpages) result" where
  "pc_free av h c handle normCapacity buffer =
     (let sc = av_sizes av
      in bindE
        (if isSubpage handle then
           bindE (size2SizeIdx sc normCapacity) (\<lambda>sizeIdx.
           bindE (findSubpagePoolHead av sizeIdx) (\<lambda>head.
           let sIdx = calculateRunOffset handle
           in bindE (getE (pc_subpages c) sIdx) (\<lambda>subpage.
           bindE (assertE (subpage \<noteq> None)) (\<lambda>_.
           bindE (deref subpage) (\<lambda>sp.
           bindE (load h sp) (\<lambda>s.
           bindE (assertE (sp_doNotDestroy s)) (\<lambda>_.
           bindE (sp_free h sp head (calculateBitmapIdx handle)) (\<lambda>(inUse, h).
             if inUse then Inr (False, c, h)
             else
               bindE (load h sp) (\<lambda>s.
               bindE (assertE (\<not> sp_doNotDestroy s)) (\<lambda>_.
               bindE (setE (pc_subpages c) sIdx None) (\<lambda>sps.
                 Inr (True, c\<lparr>pc_subpages := sps\<rparr>, h))))))))))))
         else Inr (True, c, h))
        (\<lambda>(freeTheRun, c, h).
           if freeTheRun then
             bindE (freeRun sc c handle) (\<lambda>c.
             Inr (case buffer of
                    Some b \<Rightarrow>
                      if pc_cachedBuffers c \<noteq> [] \<and>
                         int (length (pc_cachedBuffers c)) < DEFAULT_MAX_CACHED_BYTEBUFFERS_PER_CHUNK
                      then c\<lparr>pc_cachedBuffers := pc_cachedBuffers c @ [b]\<rparr> else c
                  | None \<Rightarrow> c, h))
           else Inr (c, h)))"

subsection \<open>Allocating for a buffer\<close>

text \<open>
  \<open>calculateRunSize(sizeIdx)\<close>: the do-while adds pages until the element size divides the run or
  the run holds \<open>maxElements\<close>; the second loop takes pages off again. \<open>fuel\<close> bounds the pages.
\<close>

primrec runSize_up :: "nat \<Rightarrow> int \<Rightarrow> int \<Rightarrow> int \<Rightarrow> int \<Rightarrow> int result" where
  "runSize_up 0 pageSize' elemSize maxElements runSize = Inl Diverges"
| "runSize_up (Suc fuel) pageSize' elemSize maxElements runSize =
     (let runSize = i32 (runSize + pageSize');
          nElements = runSize sdiv elemSize
      in if nElements < maxElements \<and> runSize \<noteq> i32 (nElements * elemSize)
         then runSize_up fuel pageSize' elemSize maxElements runSize else Inr runSize)"

primrec runSize_down :: "nat \<Rightarrow> int \<Rightarrow> int \<Rightarrow> int \<Rightarrow> int \<Rightarrow> int result" where
  "runSize_down 0 pageSize' elemSize maxElements runSize = Inl Diverges"
| "runSize_down (Suc fuel) pageSize' elemSize maxElements runSize =
     (if runSize sdiv elemSize > maxElements
      then runSize_down fuel pageSize' elemSize maxElements (i32 (runSize - pageSize'))
      else Inr runSize)"

definition calculateRunSize_idx :: "SizeClasses \<Rightarrow> PoolChunk \<Rightarrow> int \<Rightarrow> int result" where
  "calculateRunSize_idx sc c sizeIdx =
     (let maxElements = shl 1 (pc_pageShifts c - LOG2_QUANTUM);
          fuel = nat (shr (pc_chunkSize c) (pc_pageShifts c)) + 1
      in bindE (sizeIdx2size sc sizeIdx) (\<lambda>elemSize.
      bindE (runSize_up fuel (pc_pageSize c) elemSize maxElements 0) (\<lambda>runSize.
      bindE (runSize_down fuel (pc_pageSize c) elemSize maxElements runSize) (\<lambda>runSize.
      let nElements = runSize sdiv elemSize
      in bindE (assertE (nElements > 0)) (\<lambda>_.
      bindE (assertE (runSize \<le> pc_chunkSize c)) (\<lambda>_.
      bindE (assertE (runSize \<ge> elemSize)) (\<lambda>_. Inr runSize)))))))"

text \<open>\<open>fresh\<close> is the address of the \<open>new PoolSubpage\<close>, \<open>this\<close> the chunk's own.\<close>

definition allocateSubpage ::
  "ArenaView \<Rightarrow> subpages \<Rightarrow> nat \<Rightarrow> nat \<Rightarrow> PoolChunk \<Rightarrow> int \<Rightarrow> (int \<times> PoolChunk \<times> subpages) result" where
  "allocateSubpage av h this fresh c sizeIdx =
     (let sc = av_sizes av
      in bindE (findSubpagePoolHead av sizeIdx) (\<lambda>head.
      bindE (calculateRunSize_idx sc c sizeIdx) (\<lambda>runSize.
      bindE (allocateRun sc c runSize) (\<lambda>(runHandle, c).
      if runHandle < 0 then Inr (- 1, c, h)
      else
        let runOffset = calculateRunOffset runHandle
        in bindE (getE (pc_subpages c) runOffset) (\<lambda>old.
        bindE (assertE (old = None)) (\<lambda>_.
        bindE (sizeIdx2size sc sizeIdx) (\<lambda>elemSize.
        bindE (PoolSubpage_new h fresh head this (pc_pageShifts c) runOffset
                 (calculateRunSize (pc_pageShifts c) runHandle) elemSize) (\<lambda>h.
        bindE (setE (pc_subpages c) runOffset (Some fresh)) (\<lambda>sps.
        bindE (sp_allocate h fresh) (\<lambda>(handle, h).
          Inr (handle, c\<lparr>pc_subpages := sps\<rparr>, h)))))))))))"

definition initBufWithSubpage ::
  "ArenaView \<Rightarrow> subpages \<Rightarrow> nat \<Rightarrow> PoolChunk \<Rightarrow> PooledByteBuf \<Rightarrow> (nat \<times> int) option \<Rightarrow> int \<Rightarrow> int \<Rightarrow> nat option
   \<Rightarrow> PooledByteBuf result" where
  "initBufWithSubpage av h this c buf buffer handle reqCapacity threadCache =
     (let runOffset = calculateRunOffset handle;
          bitmapIdx = calculateBitmapIdx handle
      in bindE (getE (pc_subpages c) runOffset) (\<lambda>sp.
      bindE (deref sp) (\<lambda>sp.
      bindE (load h sp) (\<lambda>s.
      bindE (assertE (sp_doNotDestroy s)) (\<lambda>_.
      bindE (assertE (reqCapacity \<le> sp_elemSize s)) (\<lambda>_.
      let offset = i32 (shl runOffset (pc_pageShifts c) + i32 (bitmapIdx * sp_elemSize s))
      in init0 buf (Some this) (pc_memory c) (av_parent av) buffer handle offset reqCapacity
           (sp_elemSize s) threadCache))))))"

definition initBuf ::
  "ArenaView \<Rightarrow> subpages \<Rightarrow> nat \<Rightarrow> PoolChunk \<Rightarrow> PooledByteBuf \<Rightarrow> (nat \<times> int) option \<Rightarrow> int \<Rightarrow> int \<Rightarrow> nat option
   \<Rightarrow> PooledByteBuf result" where
  "initBuf av h this c buf buffer handle reqCapacity threadCache =
     (if isRun handle then
        init0 buf (Some this) (pc_memory c) (av_parent av) buffer handle
          (shl (calculateRunOffset handle) (pc_pageShifts c)) reqCapacity
          (calculateRunSize (pc_pageShifts c) handle) (av_threadCache av)
      else initBufWithSubpage av h this c buf buffer handle reqCapacity threadCache)"

definition pc_allocate ::
  "ArenaView \<Rightarrow> subpages \<Rightarrow> nat \<Rightarrow> nat \<Rightarrow> PoolChunk \<Rightarrow> PooledByteBuf \<Rightarrow> int \<Rightarrow> int \<Rightarrow> nat option
   \<Rightarrow> (bool \<times> PooledByteBuf \<times> PoolChunk \<times> subpages) result" where
  "pc_allocate av h this fresh c buf reqCapacity sizeIdx cache =
     (let sc = av_sizes av
      in bindE
        (if sizeIdx \<le> m_smallMaxSizeIdx sc then
           bindE (allocateSubpage av h this fresh c sizeIdx) (\<lambda>(handle, c, h).
             if handle < 0 then Inr (handle, c, h)
             else bindE (assertE (isSubpage handle)) (\<lambda>_. Inr (handle, c, h)))
         else
           bindE (sizeIdx2size sc sizeIdx) (\<lambda>runSize.
           bindE (allocateRun sc c runSize) (\<lambda>(handle, c). Inr (handle, c, h))))
        (\<lambda>(handle, c, h).
           if handle < 0 then Inr (False, buf, c, h)
           else
             let buffer = (if pc_cachedBuffers c = [] then None else Some (last (pc_cachedBuffers c)));
                 c = c\<lparr>pc_cachedBuffers := butlast (pc_cachedBuffers c)\<rparr>
             in bindE (initBuf av h this c buf buffer handle reqCapacity cache) (\<lambda>buf.
                  Inr (True, buf, c, h))))"

end
