(* ===== verification/Pool_State.thy ===== *)
theory Pool_State
  imports Pool_Chunk
begin

section \<open>The objects of the pool\<close>

text \<open>
  The state shared by \<open>PoolChunkList\<close>, \<open>PoolThreadCache\<close>, \<open>PoolArena\<close> and \<open>PooledByteBufAllocator\<close>:
  one store per class, so that pointers between the objects are addresses. \<open>po_next\<close> is the next
  unused address of a \<open>new\<close> expression and \<open>po_threadCache\<close> the thread-local
  \<open>m_pooledTheadCache\<close> of the running thread.
\<close>

datatype SizeClassType = SMALL | NORMAL

record PoolChunkList =
  cl_arena :: nat
  cl_prevList :: "nat option"
  cl_nextList :: "nat option"
  cl_minUsage :: int
  cl_maxUsage :: int
  cl_maxCapacity :: int
  cl_head :: "nat option"
  cl_freeMinThreshold :: int
  cl_freeMaxThreshold :: int

text \<open>
  An \<open>Entry\<close> of a cache: its chunk, the temporary pointer, the handle and the normalised capacity.
  Entries are objects of a \<open>Recycler\<close>; \<open>newEntry\<close> writes every field, so a reused entry is equal to a
  new one and the model keeps the values only.
\<close>

record Entry =
  en_chunk :: nat
  en_buffer :: "(nat \<times> int) option"
  en_handle :: int
  en_normCapacity :: int

record MemoryRegionCache =
  mr_size :: int
  mr_sizeClassType :: SizeClassType
  mr_allocations :: int
  mr_queue :: "Entry list"

record PoolThreadCache =
  tc_smallSubPageCaches :: "MemoryRegionCache list"
  tc_normalCaches :: "MemoryRegionCache list"
  tc_toFree :: bool
  tc_allocations :: int
  tc_freeSweepAllocationThreshold :: int
  tc_arena :: "nat option"

record PoolArena =
  pa_sizes :: SizeClasses
  pa_smallSubpagePools :: "nat list"
  pa_q050 :: nat
  pa_q025 :: nat
  pa_q000 :: nat
  pa_qInit :: nat
  pa_q075 :: nat
  pa_q100 :: nat
  pa_allocationsNormal :: int
  pa_allocationsSmall :: int
  pa_allocationsHuge :: int
  pa_activeBytesHuge :: int
  pa_deallocationsSmall :: int
  pa_deallocationsNormal :: int
  pa_deallocationsHuge :: int
  pa_numSmallSubpagePools :: int
  pa_parent :: "nat option"
  pa_numThreadCaches :: int

record Pool =
  po_arenas :: "PoolArena store"
  po_lists :: "PoolChunkList store"
  po_chunks :: "PoolChunk store"
  po_subpages :: subpages
  po_caches :: "PoolThreadCache store"
  po_memory :: memory
  po_next :: nat
  po_threadCache :: "nat option"

abbreviation put_list :: "Pool \<Rightarrow> nat \<Rightarrow> PoolChunkList \<Rightarrow> Pool" where
  "put_list p a l \<equiv> p\<lparr>po_lists := (po_lists p)(a \<mapsto> l)\<rparr>"

abbreviation put_chunk :: "Pool \<Rightarrow> nat \<Rightarrow> PoolChunk \<Rightarrow> Pool" where
  "put_chunk p a c \<equiv> p\<lparr>po_chunks := (po_chunks p)(a \<mapsto> c)\<rparr>"

abbreviation put_arena :: "Pool \<Rightarrow> nat \<Rightarrow> PoolArena \<Rightarrow> Pool" where
  "put_arena p a r \<equiv> p\<lparr>po_arenas := (po_arenas p)(a \<mapsto> r)\<rparr>"

abbreviation put_cache :: "Pool \<Rightarrow> nat \<Rightarrow> PoolThreadCache \<Rightarrow> Pool" where
  "put_cache p a t \<equiv> p\<lparr>po_caches := (po_caches p)(a \<mapsto> t)\<rparr>"

text \<open>What a chunk reads of its arena.\<close>

definition arena_view :: "Pool \<Rightarrow> PoolArena \<Rightarrow> ArenaView" where
  "arena_view p r = \<lparr>av_sizes = pa_sizes r, av_smallSubpagePools = pa_smallSubpagePools r,
     av_parent = pa_parent r, av_threadCache = po_threadCache p\<rparr>"

text \<open>The calls \<open>chunk->allocate\<close> and \<open>chunk->free\<close> through a pointer.\<close>

definition chunk_allocate ::
  "Pool \<Rightarrow> nat \<Rightarrow> PooledByteBuf \<Rightarrow> int \<Rightarrow> int \<Rightarrow> nat option \<Rightarrow> (bool \<times> PooledByteBuf \<times> Pool) result" where
  "chunk_allocate p a buf reqCapacity sizeIdx cache =
     bindE (load (po_chunks p) a) (\<lambda>c.
     bindE (load (po_arenas p) (pc_arena c)) (\<lambda>r.
     bindE (pc_allocate (arena_view p r) (po_subpages p) a (po_next p) c buf reqCapacity sizeIdx cache)
       (\<lambda>(ok, buf, c, h).
          Inr (ok, buf, (put_chunk p a c)\<lparr>po_subpages := h, po_next := Suc (po_next p)\<rparr>))))"

definition chunk_free :: "Pool \<Rightarrow> nat \<Rightarrow> int \<Rightarrow> int \<Rightarrow> (nat \<times> int) option \<Rightarrow> Pool result" where
  "chunk_free p a handle normCapacity buffer =
     bindE (load (po_chunks p) a) (\<lambda>c.
     bindE (load (po_arenas p) (pc_arena c)) (\<lambda>r.
     bindE (pc_free (arena_view p r) (po_subpages p) c handle normCapacity buffer) (\<lambda>(c, h).
       Inr ((put_chunk p a c)\<lparr>po_subpages := h\<rparr>))))"

definition chunk_initBuf ::
  "Pool \<Rightarrow> nat \<Rightarrow> PooledByteBuf \<Rightarrow> (nat \<times> int) option \<Rightarrow> int \<Rightarrow> int \<Rightarrow> nat option \<Rightarrow> PooledByteBuf result" where
  "chunk_initBuf p a buf buffer handle reqCapacity cache =
     bindE (load (po_chunks p) a) (\<lambda>c.
     bindE (load (po_arenas p) (pc_arena c)) (\<lambda>r.
       initBuf (arena_view p r) (po_subpages p) a c buf buffer handle reqCapacity cache))"

definition chunk_initBufWithSubpage ::
  "Pool \<Rightarrow> nat \<Rightarrow> PooledByteBuf \<Rightarrow> (nat \<times> int) option \<Rightarrow> int \<Rightarrow> int \<Rightarrow> nat option \<Rightarrow> PooledByteBuf result" where
  "chunk_initBufWithSubpage p a buf buffer handle reqCapacity cache =
     bindE (load (po_chunks p) a) (\<lambda>c.
     bindE (load (po_arenas p) (pc_arena c)) (\<lambda>r.
       initBufWithSubpage (arena_view p r) (po_subpages p) a c buf buffer handle reqCapacity cache))"

end
