(* ===== verification/Pool_Chunk_List.thy ===== *)
theory Pool_Chunk_List
  imports Pool_State
begin

section \<open>PoolChunkList: chunks by usage\<close>

text \<open>
  \<open>buffer/PoolChunkList.h\<close> and \<open>buffer/PoolChunkList.cpp\<close>: a doubly linked list of the chunks whose usage
  is in a window, with the lists of the neighbouring windows. Allocation goes along the list and
  moves a chunk that became too full to the next list; freeing moves a chunk that became too empty
  to the previous one, and says when the chunk can be destroyed.
\<close>

subsection \<open>Operations\<close>

definition calculateMaxCapacity :: "int \<Rightarrow> int \<Rightarrow> int" where
  "calculateMaxCapacity minUsage chunkSize =
     (let minUsage = max 0 minUsage
      in if minUsage = 100 then 0 else i32 (i64 (chunkSize * (100 - minUsage)) sdiv 100))"

text \<open>
  \<open>static_cast<int>(chunkSize * (100.0 - usage + 0.99999999) / 100L)\<close>. The conversion truncates. A
  chunk size is \<open>2 ^ n\<close> with \<open>n \<ge> 12\<close>, so the exact quotient is at least \<open>5 ^ -10\<close> away from every
  integer, far more than the rounding of the double computation, and the integer quotient below
  is the value of the C++ expression.
\<close>

definition free_threshold :: "int \<Rightarrow> int \<Rightarrow> int" where
  "free_threshold chunkSize usage' = chunkSize * (10099999999 - 100000000 * usage') sdiv 10000000000"

definition PoolChunkList_new :: "nat \<Rightarrow> nat option \<Rightarrow> int \<Rightarrow> int \<Rightarrow> int \<Rightarrow> PoolChunkList result" where
  "PoolChunkList_new arena nextList minUsage maxUsage chunkSize =
     bindE (assertE (minUsage \<le> maxUsage)) (\<lambda>_.
     Inr \<lparr>cl_arena = arena, cl_prevList = None, cl_nextList = nextList, cl_minUsage = minUsage,
          cl_maxUsage = maxUsage, cl_maxCapacity = calculateMaxCapacity minUsage chunkSize, cl_head = None,
          cl_freeMinThreshold = (if maxUsage = 100 then 0 else free_threshold chunkSize maxUsage),
          cl_freeMaxThreshold = (if minUsage = 100 then 0 else free_threshold chunkSize minUsage)\<rparr>)"

definition prevList :: "PoolChunkList \<Rightarrow> nat option \<Rightarrow> PoolChunkList result" where
  "prevList l prev = bindE (assertE (cl_prevList l = None)) (\<lambda>_. Inr (l\<lparr>cl_prevList := prev\<rparr>))"

definition minUsage :: "PoolChunkList \<Rightarrow> int" where
  "minUsage l = max 1 (cl_minUsage l)"

definition maxUsage :: "PoolChunkList \<Rightarrow> int" where
  "maxUsage l = min (cl_maxUsage l) 100"

definition minUsage0 :: "int \<Rightarrow> int" where
  "minUsage0 value = max 1 value"

text \<open>Linking and unlinking a chunk.\<close>

definition set_prev :: "Pool \<Rightarrow> nat option \<Rightarrow> nat option \<Rightarrow> Pool result" where
  "set_prev p a prev = (case a of
       None \<Rightarrow> Inr p
     | Some a \<Rightarrow> bindE (load (po_chunks p) a) (\<lambda>c. Inr (put_chunk p a (c\<lparr>pc_prev := prev\<rparr>))))"

definition add0 :: "Pool \<Rightarrow> nat \<Rightarrow> nat \<Rightarrow> Pool result" where
  "add0 p a chunk =
     bindE (load (po_lists p) a) (\<lambda>l.
     bindE (load (po_chunks p) chunk) (\<lambda>c.
     let c = c\<lparr>pc_parent := Some a, pc_prev := None, pc_next := cl_head l\<rparr>;
         p = put_chunk p chunk c
     in bindE (set_prev p (cl_head l) (Some chunk)) (\<lambda>p.
        Inr (put_list p a (l\<lparr>cl_head := Some chunk\<rparr>)))))"

definition cl_remove :: "Pool \<Rightarrow> nat \<Rightarrow> nat \<Rightarrow> Pool result" where
  "cl_remove p a cur =
     bindE (load (po_lists p) a) (\<lambda>l.
     bindE (load (po_chunks p) cur) (\<lambda>c.
     if cl_head l = Some cur then
       let p = put_list p a (l\<lparr>cl_head := pc_next c\<rparr>)
       in set_prev p (pc_next c) None
     else
       bindE (deref (pc_prev c)) (\<lambda>prev.
       bindE (load (po_chunks p) prev) (\<lambda>d.
       let p = put_chunk p prev (d\<lparr>pc_next := pc_next c\<rparr>)
       in set_prev p (pc_next c) (pc_prev c)))))"

text \<open>
  \<open>add\<close> passes a chunk that is too full on to the next list, \<open>move\<close> one that is too empty on to the
  previous list. The recursion along the lists gets as many rounds as there are addresses.
\<close>

primrec add_from :: "nat \<Rightarrow> Pool \<Rightarrow> nat \<Rightarrow> nat \<Rightarrow> Pool result" where
  "add_from 0 p a chunk = Inl Diverges"
| "add_from (Suc fuel) p a chunk =
     bindE (load (po_lists p) a) (\<lambda>l.
     bindE (load (po_chunks p) chunk) (\<lambda>c.
     if pc_freeBytes c \<le> cl_freeMinThreshold l then
       bindE (deref (cl_nextList l)) (\<lambda>n. add_from fuel p n chunk)
     else add0 p a chunk))"

definition add :: "Pool \<Rightarrow> nat \<Rightarrow> nat \<Rightarrow> Pool result" where
  "add p a chunk = add_from (Suc (po_next p)) p a chunk"

primrec move_from :: "nat \<Rightarrow> Pool \<Rightarrow> nat \<Rightarrow> nat \<Rightarrow> (bool \<times> Pool) result" where
  "move_from 0 p a chunk = Inl Diverges"
| "move_from (Suc fuel) p a chunk =
     bindE (load (po_lists p) a) (\<lambda>l.
     bindE (load (po_chunks p) chunk) (\<lambda>c.
     bindE (assertE (usage c < cl_maxUsage l)) (\<lambda>_.
     if pc_freeBytes c > cl_freeMaxThreshold l then
       (case cl_prevList l of
          None \<Rightarrow> bindE (assertE (usage c = 0)) (\<lambda>_. Inr (False, p))
        | Some b \<Rightarrow> move_from fuel p b chunk)
     else bindE (add0 p a chunk) (\<lambda>p. Inr (True, p)))))"

definition move :: "Pool \<Rightarrow> nat \<Rightarrow> nat \<Rightarrow> (bool \<times> Pool) result" where
  "move p a chunk = move_from (Suc (po_next p)) p a chunk"

definition move0 :: "Pool \<Rightarrow> nat \<Rightarrow> nat \<Rightarrow> (bool \<times> Pool) result" where
  "move0 p a chunk =
     bindE (load (po_lists p) a) (\<lambda>l.
     bindE (load (po_chunks p) chunk) (\<lambda>c.
     case cl_prevList l of
       None \<Rightarrow> bindE (assertE (usage c = 0)) (\<lambda>_. Inr (False, p))
     | Some b \<Rightarrow> move p b chunk))"

text \<open>\<open>allocate\<close> tries the chunks of the list in order.\<close>

primrec cl_allocate_from ::
  "nat \<Rightarrow> Pool \<Rightarrow> nat \<Rightarrow> nat option \<Rightarrow> PooledByteBuf \<Rightarrow> int \<Rightarrow> int \<Rightarrow> nat option
   \<Rightarrow> (bool \<times> PooledByteBuf \<times> Pool) result" where
  "cl_allocate_from 0 p a cur buf reqCapacity sizeIdx cache = Inl Diverges"
| "cl_allocate_from (Suc fuel) p a cur buf reqCapacity sizeIdx cache =
     (case cur of
        None \<Rightarrow> Inr (False, buf, p)
      | Some x \<Rightarrow>
          bindE (chunk_allocate p x buf reqCapacity sizeIdx cache) (\<lambda>(ok, buf, p).
          bindE (load (po_chunks p) x) (\<lambda>c.
          bindE (load (po_lists p) a) (\<lambda>l.
          if ok then
            bindE (if pc_freeBytes c \<le> cl_freeMinThreshold l then
                     bindE (cl_remove p a x) (\<lambda>p.
                     bindE (deref (cl_nextList l)) (\<lambda>n. add p n x))
                   else Inr p) (\<lambda>p. Inr (True, buf, p))
          else cl_allocate_from fuel p a (pc_next c) buf reqCapacity sizeIdx cache))))"

definition cl_allocate ::
  "Pool \<Rightarrow> nat \<Rightarrow> PooledByteBuf \<Rightarrow> int \<Rightarrow> int \<Rightarrow> nat option \<Rightarrow> (bool \<times> PooledByteBuf \<times> Pool) result" where
  "cl_allocate p a buf reqCapacity sizeIdx cache =
     bindE (load (po_lists p) a) (\<lambda>l.
     bindE (load (po_arenas p) (cl_arena l)) (\<lambda>r.
     bindE (sizeIdx2size (pa_sizes r) sizeIdx) (\<lambda>normCapacity.
     if normCapacity > cl_maxCapacity l then Inr (False, buf, p)
     else cl_allocate_from (Suc (po_next p)) p a (cl_head l) buf reqCapacity sizeIdx cache)))"

definition cl_free :: "Pool \<Rightarrow> nat \<Rightarrow> nat \<Rightarrow> int \<Rightarrow> int \<Rightarrow> (nat \<times> int) option \<Rightarrow> (bool \<times> Pool) result" where
  "cl_free p a chunk handle normCapacity buffer =
     bindE (chunk_free p chunk handle normCapacity buffer) (\<lambda>p.
     bindE (load (po_lists p) a) (\<lambda>l.
     bindE (load (po_chunks p) chunk) (\<lambda>c.
     if pc_freeBytes c > cl_freeMaxThreshold l then
       bindE (cl_remove p a chunk) (\<lambda>p. move0 p a chunk)
     else Inr (True, p))))"

end
