(* ===== verification/Pool_Chunk_Laws.thy ===== *)
theory Pool_Chunk_Laws
  imports Pool_Chunk Size_Class_Laws Pool_Subpage_Laws
begin

section \<open>PoolChunk: the free runs\<close>

text \<open>
  The abstract state of a chunk is the set of handles of its free runs. The queues and the map
  are two indexes of that set; the invariant says so. An allocation takes pages from the set, a
  free puts them back, and no page is ever in two runs.
\<close>

subsection \<open>Runs\<close>

definition valid_handle :: "int \<Rightarrow> int \<Rightarrow> bool" where
  "valid_handle N h \<longleftrightarrow>
     (\<exists>off p u s i. h = handle_of off p u s i \<and> handle_fields off p u s i \<and> 1 \<le> p \<and> off + p \<le> N)"

definition free_handle :: "int \<Rightarrow> int \<Rightarrow> bool" where
  "free_handle N h \<longleftrightarrow> valid_handle N h \<and> \<not> isUsed h \<and> \<not> isSubpage h"

definition rset :: "int \<Rightarrow> int set" where
  "rset h = {calculateRunOffset h..<calculateRunOffset h + calculateRunPages h}"

lemma valid_handleD:
  assumes "valid_handle N h"
  shows "0 \<le> calculateRunOffset h" "1 \<le> calculateRunPages h"
    "calculateRunOffset h + calculateRunPages h \<le> N" "0 \<le> h" "rset h \<noteq> {}"
proof -
  obtain off p u s i where h: "h = handle_of off p u s i" "handle_fields off p u s i" "1 \<le> p" "off + p \<le> N"
    using assms by (auto simp: valid_handle_def)
  note u = unpack_handle [OF h(2)] and b = handle_bounds [OF h(2)]
  show "0 \<le> calculateRunOffset h" "1 \<le> calculateRunPages h"
    "calculateRunOffset h + calculateRunPages h \<le> N" "0 \<le> h" "rset h \<noteq> {}"
    using h u b by (simp_all add: handle_fields_def rset_def)
qed

lemma finite_rset [simp]: "finite (rset h)"
  by (simp add: rset_def)

lemma card_rset: "valid_handle N h \<Longrightarrow> int (card (rset h)) = calculateRunPages h"
  using valid_handleD(2) [of N h] by (simp add: rset_def)

lemma toRunHandle_valid:
  assumes "0 \<le> off" "1 \<le> p" "off + p \<le> N" "N \<le> 2 ^ 14" "u = 0 \<or> u = 1"
  shows "valid_handle N (toRunHandle off p u)" "calculateRunOffset (toRunHandle off p u) = off"
    "calculateRunPages (toRunHandle off p u) = p" "isUsed (toRunHandle off p u) \<longleftrightarrow> u = 1"
    "\<not> isSubpage (toRunHandle off p u)" "rset (toRunHandle off p u) = {off..<off + p}"
    "toRunHandle off p u = handle_of off p u 0 0"
proof -
  have f: "handle_fields off p u 0 0" using assms by (auto simp: handle_fields_def)
  note u = unpack_handle [OF f]
  show eq: "toRunHandle off p u = handle_of off p u 0 0" by (rule toRunHandle_eq [OF f])
  show "valid_handle N (toRunHandle off p u)" 
    unfolding valid_handle_def eq using f assms(2,3) by blast
  show "calculateRunOffset (toRunHandle off p u) = off" "calculateRunPages (toRunHandle off p u) = p"
    "isUsed (toRunHandle off p u) \<longleftrightarrow> u = 1" "\<not> isSubpage (toRunHandle off p u)"
    "rset (toRunHandle off p u) = {off..<off + p}"
    using u by (simp_all add: eq rset_def)
qed

text \<open>Setting and clearing the two flags of a handle.\<close>

lemma or_bit_add:
  fixes x :: int
  assumes "\<not> bit x n"
  shows "x OR 2 ^ n = x + 2 ^ n"
proof -
  have "\<not> bit x i \<or> \<not> bit ((2::int) ^ n) i" for i using assms by (auto simp: bit_exp_iff)
  then show ?thesis by (rule disjunctive_add [symmetric])
qed

lemma and_not_bit:
  fixes x :: int
  assumes "\<not> bit x n"
  shows "(x + 2 ^ n) AND NOT (2 ^ n) = x" "x AND NOT (2 ^ n) = x"
proof -
  show x: "x AND NOT (2 ^ n) = x" using assms by (intro bit_eqI) (auto simp: bit_simps)
  have "(x OR 2 ^ n) AND NOT (2 ^ n) = x AND NOT (2 ^ n)" by (intro bit_eqI) (auto simp: bit_simps)
  then show "(x + 2 ^ n) AND NOT (2 ^ n) = x" using or_bit_add [OF assms] x by simp
qed

lemma bit_drop_and_1: "drop_bit n x AND 1 = 1 \<longleftrightarrow> bit x n" for x :: int
  by (simp add: and_one_eq bit_iff_odd_drop_bit mod_2_eq_odd)

lemma flag_bits:
  assumes "handle_fields off p u s i"
  shows "bit (handle_of off p u s i) IS_USED_SHIFT \<longleftrightarrow> u = 1"
    "bit (handle_of off p u s i) IS_SUBPAGE_SHIFT \<longleftrightarrow> s = 1"
  using unpack_handle(3,4) [OF assms] by (simp_all add: isUsed_def isSubpage_def bit_drop_and_1)

lemma flag_values: "shl64 1 IS_USED_SHIFT = 2 ^ IS_USED_SHIFT" "shl64 1 IS_SUBPAGE_SHIFT = 2 ^ IS_SUBPAGE_SHIFT"
  by (simp_all add: shl64_eq handle_consts)

lemma set_used:
  assumes "handle_fields off p 0 s i"
  shows "handle_of off p 0 s i OR shl64 1 IS_USED_SHIFT = handle_of off p 1 s i"
  using or_bit_add [of "handle_of off p 0 s i" IS_USED_SHIFT] flag_bits [OF assms]
  by (simp add: flag_values) (simp add: handle_of_def handle_consts)

lemma clear_flags:
  assumes "handle_fields off p u s i"
  shows "(handle_of off p u s i AND NOT (shl64 1 IS_USED_SHIFT)) AND NOT (shl64 1 IS_SUBPAGE_SHIFT)
    = handle_of off p 0 0 i"
proof -
  have f: "handle_fields off p 0 s i" "handle_fields off p 0 0 i" using assms by (simp_all add: handle_fields_def)
  have u: "u = 0 \<or> u = 1" "s = 0 \<or> s = 1" using assms by (auto simp: handle_fields_def)
  have 1: "handle_of off p u s i AND NOT (2 ^ IS_USED_SHIFT) = handle_of off p 0 s i"
    using u(1) and_not_bit [of "handle_of off p 0 s i" IS_USED_SHIFT] flag_bits [OF f(1)]
    by (auto simp: handle_of_def handle_consts algebra_simps)
  have 2: "handle_of off p 0 s i AND NOT (2 ^ IS_SUBPAGE_SHIFT) = handle_of off p 0 0 i"
    using u(2) and_not_bit [of "handle_of off p 0 0 i" IS_SUBPAGE_SHIFT] flag_bits [OF f(2)]
    by (auto simp: handle_of_def handle_consts algebra_simps)
  show ?thesis by (simp only: flag_values 1 2)
qed

subsection \<open>Page classes of runs\<close>

definition floor_idx :: "SizeClasses \<Rightarrow> int \<Rightarrow> nat" where
  "floor_idx sc p = (case pages2pageIdxFloor sc p of Inr i \<Rightarrow> nat i | Inl _ \<Rightarrow> 0)"

lemma floor_idx_ok:
  assumes ok: "sc_ok ps n sc" and p: "1 \<le> p" "p \<le> 2 ^ (n - ps)"
  shows "pages2pageIdxFloor sc p = Inr (int (floor_idx sc p))" "floor_idx sc p < 4 * (n - ps - 1)"
    "class_size ps (floor_idx sc p) \<le> p * 2 ^ ps"
    "\<And>i. class_size ps i \<le> p * 2 ^ ps \<Longrightarrow> i \<le> floor_idx sc p"
proof -
  have "(2::int) ^ (n - ps) * 2 ^ ps = 2 ^ n" using sc_okD(2) [OF ok] by (simp flip: power_add)
  moreover have "p * 2 ^ ps \<le> 2 ^ (n - ps) * 2 ^ ps" using p(2) by simp
  ultimately have s: "0 < p" "p * 2 ^ ps \<le> 2 ^ n" using p(1) by simp_all
  obtain i where i: "best_class ps i (p * 2 ^ ps)" "i < 4 * (n - ps - 1)"
    "pages2pageIdxFloor sc p = Inr (if class_size ps i > p * 2 ^ ps then int i - 1 else int i)"
    using pages2pageIdxCompute_ok [OF ok s] unfolding pages2pageIdxFloor_def by metis
  have "\<exists>j. pages2pageIdxFloor sc p = Inr (int j) \<and> j < 4 * (n - ps - 1) \<and> class_size ps j \<le> p * 2 ^ ps \<and>
      (\<forall>k. class_size ps k \<le> p * 2 ^ ps \<longrightarrow> k \<le> j)"
  proof (cases "class_size ps i > p * 2 ^ ps")
    case True
    have "class_size ps 0 \<le> p * 2 ^ ps" using p(1) by simp
    with True have "0 < i" by (metis less_irrefl not_less gr0I)
    then have "pages2pageIdxFloor sc p = Inr (int (i - 1))" "i - 1 < 4 * (n - ps - 1)"
      using i(2,3) True by simp_all
    moreover have "class_size ps (i - 1) \<le> p * 2 ^ ps"
      using i(1) \<open>0 < i\<close> by (simp add: best_class_def less_imp_le)
    moreover have "k \<le> i - 1" if "class_size ps k \<le> p * 2 ^ ps" for k
    proof -
      have "class_size ps k < class_size ps i" using that True by linarith
      then show ?thesis by simp
    qed
    ultimately show ?thesis by blast
  next
    case False
    with i(1) have eq: "class_size ps i = p * 2 ^ ps" by (simp add: best_class_def)
    have "pages2pageIdxFloor sc p = Inr (int i)" using i(3) False by simp
    moreover have "\<forall>k. class_size ps k \<le> p * 2 ^ ps \<longrightarrow> k \<le> i" unfolding eq [symmetric] by simp
    moreover have "class_size ps i \<le> p * 2 ^ ps" using eq by simp
    ultimately show ?thesis using i(2) by blast
  qed
  then show "pages2pageIdxFloor sc p = Inr (int (floor_idx sc p))" "floor_idx sc p < 4 * (n - ps - 1)"
    "class_size ps (floor_idx sc p) \<le> p * 2 ^ ps"
    "\<And>i. class_size ps i \<le> p * 2 ^ ps \<Longrightarrow> i \<le> floor_idx sc p"
    by (auto simp: floor_idx_def)
qed

text \<open>A run filed at or above the ceiling class of a request is large enough for it.\<close>

lemma ceiling_idx_fits:
  assumes ok: "sc_ok ps n sc" and p: "1 \<le> p" "p \<le> 2 ^ (n - ps)" and q: "1 \<le> q" "q \<le> 2 ^ (n - ps)"
    and i: "pages2pageIdx sc p = Inr i" "i \<le> int (floor_idx sc q)"
  shows "p \<le> q"
proof -
  have "(2::int) ^ (n - ps) * 2 ^ ps = 2 ^ n" using sc_okD(2) [OF ok] by (simp flip: power_add)
  moreover have "p * 2 ^ ps \<le> 2 ^ (n - ps) * 2 ^ ps" using p(2) by simp
  ultimately have s: "0 < p" "p * 2 ^ ps \<le> 2 ^ n" using p(1) by simp_all
  obtain j where j: "best_class ps j (p * 2 ^ ps)" "pages2pageIdx sc p = Inr (int j)"
    using pages2pageIdxCompute_ok [OF ok s] unfolding pages2pageIdx_def by metis
  have "p * 2 ^ ps \<le> class_size ps j" using j(1) by (simp add: best_class_def)
  also have "\<dots> \<le> class_size ps (floor_idx sc q)" using i j(2) by simp
  also have "\<dots> \<le> q * 2 ^ ps" by (rule floor_idx_ok(3) [OF ok q])
  finally show ?thesis by simp
qed

lemma ceiling_idx_ok:
  assumes ok: "sc_ok ps n sc" and p: "1 \<le> p" "p \<le> 2 ^ (n - ps)"
  obtains i where "pages2pageIdx sc p = Inr (int i)" "i < 4 * (n - ps - 1)"
proof -
  have "(2::int) ^ (n - ps) * 2 ^ ps = 2 ^ n" using sc_okD(2) [OF ok] by (simp flip: power_add)
  moreover have "p * 2 ^ ps \<le> 2 ^ (n - ps) * 2 ^ ps" using p(2) by simp
  ultimately have s: "0 < p" "p * 2 ^ ps \<le> 2 ^ n" using p(1) by simp_all
  show ?thesis using pages2pageIdxCompute_ok [OF ok s] that unfolding pages2pageIdx_def by metis
qed

lemma floor_idx_whole: "sc_ok ps n sc \<Longrightarrow> floor_idx sc (2 ^ (n - ps)) = 4 * (n - ps - 1) - 1"
proof -
  assume ok: "sc_ok ps n sc"
  note f = floor_idx_ok [OF ok, of "2 ^ (n - ps)"]
  have "(2::int) ^ (n - ps) * 2 ^ ps = 2 ^ n" using sc_okD(2) [OF ok] by (simp flip: power_add)
  with page_tab_last [OF ok] f(4) [of "4 * (n - ps - 1) - 1"]
  have "4 * (n - ps - 1) - 1 \<le> floor_idx sc (2 ^ (n - ps))" by simp
  with f(2) show ?thesis by simp
qed

subsection \<open>The two indexes of the free runs\<close>

definition avail_inv :: "nat \<Rightarrow> nat \<Rightarrow> SizeClasses \<Rightarrow> PoolChunk \<Rightarrow> int set \<Rightarrow> bool" where
  "avail_inv ps n sc c F \<longleftrightarrow>
     sc_ok ps n sc \<and> n - ps \<le> 14 \<and> pc_pageShifts c = int ps \<and> pc_chunkSize c = 2 ^ n \<and>
     finite F \<and> (\<forall>h\<in>F. free_handle (2 ^ (n - ps)) h) \<and>
     (\<forall>h\<in>F. \<forall>g\<in>F. h \<noteq> g \<longrightarrow> rset h \<inter> rset g = {}) \<and>
     length (pc_runsAvail c) = 4 * (n - ps - 1) \<and>
     (\<forall>i<4 * (n - ps - 1). lpq_inv (pc_runsAvail c ! i) \<and>
        lpq_elems (pc_runsAvail c ! i) = mset_set {h \<in> F. floor_idx sc (calculateRunPages h) = i}) \<and>
     (\<forall>k h. map_of (pc_runsAvailMap c) k = Some h \<longleftrightarrow>
        h \<in> F \<and> (k = calculateRunOffset h \<or> k = calculateRunOffset h + calculateRunPages h - 1))"

lemma avail_invD:
  assumes "avail_inv ps n sc c F"
  shows "sc_ok ps n sc" "n - ps \<le> 14" "pc_pageShifts c = int ps" "pc_chunkSize c = 2 ^ n" "finite F"
    "h \<in> F \<Longrightarrow> free_handle (2 ^ (n - ps)) h" "h \<in> F \<Longrightarrow> g \<in> F \<Longrightarrow> h \<noteq> g \<Longrightarrow> rset h \<inter> rset g = {}"
    "length (pc_runsAvail c) = 4 * (n - ps - 1)"
    "i < 4 * (n - ps - 1) \<Longrightarrow> lpq_inv (pc_runsAvail c ! i)"
    "i < 4 * (n - ps - 1) \<Longrightarrow>
       lpq_elems (pc_runsAvail c ! i) = mset_set {h \<in> F. floor_idx sc (calculateRunPages h) = i}"
    "map_of (pc_runsAvailMap c) k = Some h \<longleftrightarrow>
        h \<in> F \<and> (k = calculateRunOffset h \<or> k = calculateRunOffset h + calculateRunPages h - 1)"
  using assms by (simp_all add: avail_inv_def)

lemma pages_bound: "n - ps \<le> 14 \<Longrightarrow> (2::int) ^ (n - ps) \<le> 2 ^ 14"
  by (rule power_increasing) simp_all

lemma free_handleD:
  assumes "free_handle N h"
  shows "0 \<le> calculateRunOffset h" "1 \<le> calculateRunPages h"
    "calculateRunOffset h + calculateRunPages h \<le> N" "calculateRunPages h \<le> N" "0 \<le> h"
    "rset h \<noteq> {}" "\<not> isUsed h" "valid_handle N h"
  using valid_handleD [of N h] assms by (auto simp: free_handle_def)

lemma lastPage_eq:
  "free_handle N h \<Longrightarrow> N \<le> 2 ^ 14 \<Longrightarrow>
   lastPage (calculateRunOffset h) (calculateRunPages h) = calculateRunOffset h + calculateRunPages h - 1"
  using free_handleD [of N h] by (simp add: lastPage_def i32_id)

lemma map_insert_of: "map_of (map_insert m k v) k' = (if k' = k \<and> map_of m k = None then Some v else map_of m k')"
  by (simp add: map_insert_def)

lemma map_erase_of: "map_of (map_erase m k) k' = (if k' = k then None else map_of m k')"
  by (induction m) (auto simp: map_erase_def)

text \<open>Pages that no free run has are not in the map.\<close>

lemma map_of_outside:
  assumes inv: "avail_inv ps n sc c F" and k: "\<And>h. h \<in> F \<Longrightarrow> k \<notin> rset h"
  shows "map_of (pc_runsAvailMap c) k = None"
proof (rule ccontr)
  assume "map_of (pc_runsAvailMap c) k \<noteq> None"
  then obtain h where "map_of (pc_runsAvailMap c) k = Some h" by blast
  then have h: "h \<in> F" "k = calculateRunOffset h \<or> k = calculateRunOffset h + calculateRunPages h - 1"
    using avail_invD(11) [OF inv] by auto
  have "k \<in> rset h" using h(2) free_handleD [OF avail_invD(6) [OF inv h(1)]] by (auto simp: rset_def)
  with k [OF h(1)] show False by blast
qed

definition same_chunk :: "PoolChunk \<Rightarrow> PoolChunk \<Rightarrow> bool" where
  "same_chunk c d \<longleftrightarrow> c\<lparr>pc_runsAvail := [], pc_runsAvailMap := []\<rparr> = d\<lparr>pc_runsAvail := [], pc_runsAvailMap := []\<rparr>"

lemma same_chunkI [simp]: "same_chunk c (c\<lparr>pc_runsAvail := qs, pc_runsAvailMap := m\<rparr>)"
  by (simp add: same_chunk_def)

lemma same_chunk_refl [simp]: "same_chunk c c"
  by (simp add: same_chunk_def)

lemma same_chunk_trans: "same_chunk a b \<Longrightarrow> same_chunk b c \<Longrightarrow> same_chunk a c"
  by (simp add: same_chunk_def)

lemma same_chunkD:
  assumes "same_chunk c d"
  shows "pc_freeBytes d = pc_freeBytes c" "pc_pageShifts d = pc_pageShifts c" "pc_chunkSize d = pc_chunkSize c"
    "pc_subpages d = pc_subpages c" "pc_memory d = pc_memory c" "pc_cachedBuffers d = pc_cachedBuffers c"
    "pc_pageSize d = pc_pageSize c"
  using assms by (cases c; cases d; simp add: same_chunk_def)+

lemma mset_set_filter_insert:
  "finite F \<Longrightarrow> x \<notin> F \<Longrightarrow>
   mset_set {h \<in> insert x F. P h} = (if P x then add_mset x (mset_set {h \<in> F. P h}) else mset_set {h \<in> F. P h})"
proof -
  assume "finite F" "x \<notin> F"
  moreover have "{h \<in> insert x F. P h} = (if P x then insert x {h \<in> F. P h} else {h \<in> F. P h})" by auto
  ultimately show ?thesis by simp
qed

lemma mset_set_filter_remove:
  "finite F \<Longrightarrow> x \<in> F \<Longrightarrow>
   mset_set {h \<in> F - {x}. P h} = mset_set {h \<in> F. P h} - (if P x then {#x#} else {#})"
proof -
  assume "finite F" "x \<in> F"
  moreover have "{h \<in> F - {x}. P h} = (if P x then {h \<in> F. P h} - {x} else {h \<in> F. P h})" by auto
  ultimately show ?thesis by (simp add: mset_set_Diff)
qed

lemma insertAvailRun_ok:
  assumes inv: "avail_inv ps n sc c F" and h: "free_handle (2 ^ (n - ps)) h"
    and disj: "\<And>g. g \<in> F \<Longrightarrow> rset h \<inter> rset g = {}"
  obtains c' where "insertAvailRun sc c (calculateRunOffset h) (calculateRunPages h) h = Inr c'"
    "avail_inv ps n sc c' (insert h F)" "same_chunk c c'"
proof -
  note D = avail_invD [OF inv] and H = free_handleD [OF h]
  let ?i = "floor_idx sc (calculateRunPages h)" and ?o = "calculateRunOffset h" and ?p = "calculateRunPages h"
  note fl = floor_idx_ok [OF D(1) H(2) H(4)]
  have hF: "h \<notin> F" using disj [of h] H(6) by auto
  have "h \<noteq> NO_VALUE" using H(5) by (simp add: NO_VALUE_def)
  then obtain q where q: "offer (pc_runsAvail c ! ?i) h = Inr q" "lpq_inv q"
    "lpq_elems q = add_mset h (lpq_elems (pc_runsAvail c ! ?i))"
    using offer_ok [OF D(9) [OF fl(2)]] by blast
  have lp: "lastPage ?o ?p = ?o + ?p - 1" by (rule lastPage_eq [OF h pages_bound [OF D(2)]])
  have notin: "map_of (pc_runsAvailMap c) k = None" if "k \<in> rset h" for k
    by (rule map_of_outside [OF inv]) (use disj that in blast)
  have ends: "?o \<in> rset h" "?o + ?p - 1 \<in> rset h" using H(2) by (simp_all add: rset_def)
  define m where "m = (if ?p > 1 then map_insert (map_insert (pc_runsAvailMap c) ?o h) (?o + ?p - 1) h
    else map_insert (pc_runsAvailMap c) ?o h)"
  define c' where "c' = c\<lparr>pc_runsAvail := (pc_runsAvail c)[?i := q], pc_runsAvailMap := m\<rparr>"
  have "insertAvailRun sc c ?o ?p h = Inr c'"
    using fl q(1) D(8) by (simp add: insertAvailRun_def insertAvailRun0_def lp c'_def m_def Let_def)
  moreover have "avail_inv ps n sc c' (insert h F)"
    unfolding avail_inv_def
  proof (intro conjI)
    show "\<forall>i<4 * (n - ps - 1). lpq_inv (pc_runsAvail c' ! i) \<and>
        lpq_elems (pc_runsAvail c' ! i) = mset_set {h' \<in> insert h F. floor_idx sc (calculateRunPages h') = i}"
      using D(8,9,10) q fl(2) mset_set_filter_insert [OF D(5) hF]
      by (auto simp: c'_def nth_list_update)
    have "map_of m k = Some g \<longleftrightarrow> g \<in> insert h F \<and> (k = calculateRunOffset g \<or> k = calculateRunOffset g + calculateRunPages g - 1)"
      for k g
    proof (cases "k = ?o \<or> k = ?o + ?p - 1")
      case True
      then have "map_of m k = Some h" using notin ends H(2) by (auto simp: m_def map_insert_of)
      moreover have "\<not> (g \<in> F \<and> (k = calculateRunOffset g \<or> k = calculateRunOffset g + calculateRunPages g - 1))"
        using D(11) [of k g] notin [of k] ends True by auto
      ultimately show ?thesis using True by auto
    next
      case False
      then have "map_of m k = map_of (pc_runsAvailMap c) k" by (auto simp: m_def map_insert_of)
      then show ?thesis using D(11) [of k g] False by auto
    qed
    then show "\<forall>k g. map_of (pc_runsAvailMap c') k = Some g \<longleftrightarrow>
        g \<in> insert h F \<and> (k = calculateRunOffset g \<or> k = calculateRunOffset g + calculateRunPages g - 1)"
      by (simp add: c'_def)
    show "\<forall>h'\<in>insert h F. \<forall>g\<in>insert h F. h' \<noteq> g \<longrightarrow> rset h' \<inter> rset g = {}"
      using D(7) disj by blast
  qed (use D h in \<open>simp_all add: c'_def\<close>)
  moreover have "same_chunk c c'" by (simp add: c'_def)
  ultimately show ?thesis using that by blast
qed

text \<open>
  Removing a free run from both indexes, whether its queue still holds the handle or it was just
  polled.
\<close>

lemma removeAvailRun_queue_ok:
  assumes inv: "avail_inv ps n sc c F" and h: "h \<in> F"
    and q: "lpq_inv q" "lpq_elems q - {#h#} =
      lpq_elems (pc_runsAvail c ! floor_idx sc (calculateRunPages h)) - {#h#}"
  defines "i \<equiv> floor_idx sc (calculateRunPages h)"
  obtains c' where "removeAvailRun_queue (c\<lparr>pc_runsAvail := (pc_runsAvail c)[i := q]\<rparr>) (int i) h = Inr c'"
    "avail_inv ps n sc c' (F - {h})" "same_chunk c c'"
proof -
  note D = avail_invD [OF inv] and H = free_handleD [OF avail_invD(6) [OF inv h]]
  let ?o = "calculateRunOffset h" and ?p = "calculateRunPages h"
  have i: "i < 4 * (n - ps - 1)" using floor_idx_ok(2) [OF D(1) H(2) H(4)] by (simp add: i_def)
  obtain q' where q': "remove q h = Inr q'" "lpq_inv q'" "lpq_elems q' = lpq_elems q - {#h#}"
    using remove_ok [OF q(1)] by blast
  have lp: "lastPage ?o ?p = ?o + ?p - 1" by (rule lastPage_eq [OF D(6) [OF h] pages_bound [OF D(2)]])
  define m where "m = (if ?p > 1 then map_erase (map_erase (pc_runsAvailMap c) ?o) (?o + ?p - 1)
    else map_erase (pc_runsAvailMap c) ?o)"
  define c' where "c' = c\<lparr>pc_runsAvail := (pc_runsAvail c)[i := q'], pc_runsAvailMap := m\<rparr>"
  have "removeAvailRun_queue (c\<lparr>pc_runsAvail := (pc_runsAvail c)[i := q]\<rparr>) (int i) h = Inr c'"
    using i D(8) q' by (simp add: removeAvailRun_queue_def lp c'_def m_def Let_def)
  moreover have "avail_inv ps n sc c' (F - {h})"
    unfolding avail_inv_def
  proof (intro conjI)
    show "\<forall>j<4 * (n - ps - 1). lpq_inv (pc_runsAvail c' ! j) \<and>
        lpq_elems (pc_runsAvail c' ! j) = mset_set {g \<in> F - {h}. floor_idx sc (calculateRunPages g) = j}"
      using D(8,9,10) q q' i mset_set_filter_remove [OF D(5) h]
      by (auto simp: c'_def nth_list_update i_def)
    have "map_of m k = Some g \<longleftrightarrow> g \<in> F - {h} \<and> (k = calculateRunOffset g \<or> k = calculateRunOffset g + calculateRunPages g - 1)"
      for k g
    proof (cases "k = ?o \<or> k = ?o + ?p - 1")
      case True
      then have "map_of m k = None" using H(2) by (auto simp: m_def map_erase_of)
      moreover have "map_of (pc_runsAvailMap c) k = Some h" using D(11) [of k h] h True by blast
      then have "\<not> (g \<in> F - {h} \<and> (k = calculateRunOffset g \<or> k = calculateRunOffset g + calculateRunPages g - 1))"
        using D(11) [of k g] by auto
      ultimately show ?thesis by simp
    next
      case False
      then have "map_of m k = map_of (pc_runsAvailMap c) k" by (auto simp: m_def map_erase_of)
      then show ?thesis using D(11) [of k g] False by auto
    qed
    then show "\<forall>k g. map_of (pc_runsAvailMap c') k = Some g \<longleftrightarrow>
        g \<in> F - {h} \<and> (k = calculateRunOffset g \<or> k = calculateRunOffset g + calculateRunPages g - 1)"
      by (simp add: c'_def)
    show "\<forall>h'\<in>F - {h}. \<forall>g\<in>F - {h}. h' \<noteq> g \<longrightarrow> rset h' \<inter> rset g = {}"
      using D(7) by blast
  qed (use D in \<open>simp_all add: c'_def\<close>)
  moreover have "same_chunk c c'" by (simp add: c'_def)
  ultimately show ?thesis using that by blast
qed

lemma removeAvailRun_ok:
  assumes inv: "avail_inv ps n sc c F" and h: "h \<in> F"
  obtains c' where "removeAvailRun sc c h = Inr c'" "avail_inv ps n sc c' (F - {h})" "same_chunk c c'"
proof -
  note D = avail_invD [OF inv] and H = free_handleD [OF avail_invD(6) [OF inv h]]
  let ?i = "floor_idx sc (calculateRunPages h)"
  note fl = floor_idx_ok [OF D(1) H(2) H(4)]
  have "c\<lparr>pc_runsAvail := (pc_runsAvail c)[?i := pc_runsAvail c ! ?i]\<rparr> = c" by simp
  then show ?thesis
    using removeAvailRun_queue_ok [OF inv h D(9) [OF fl(2)] refl] that fl(1)
    by (simp add: removeAvailRun_def) metis
qed

subsection \<open>Allocating a run\<close>

definition pages_of :: "int set \<Rightarrow> int set" where
  "pages_of F = (\<Union>h\<in>F. rset h)"

definition chunk_inv :: "nat \<Rightarrow> nat \<Rightarrow> SizeClasses \<Rightarrow> PoolChunk \<Rightarrow> int set \<Rightarrow> bool" where
  "chunk_inv ps n sc c F \<longleftrightarrow>
     avail_inv ps n sc c F \<and> pc_freeBytes c = 2 ^ ps * int (card (pages_of F))"

lemma avail_inv_freeBytes [simp]:
  "avail_inv ps n sc (c\<lparr>pc_freeBytes := x\<rparr>) F \<longleftrightarrow> avail_inv ps n sc c F"
  by (simp add: avail_inv_def)

lemma pages_of_simps [simp]:
  "pages_of {} = {}" "pages_of (insert h F) = rset h \<union> pages_of F"
  by (simp_all add: pages_of_def)

lemma finite_pages_of [simp]: "finite F \<Longrightarrow> finite (pages_of F)"
  by (simp add: pages_of_def)

lemma pages_of_remove:
  assumes "avail_inv ps n sc c F" "h \<in> F"
  shows "pages_of (F - {h}) = pages_of F - rset h" "rset h \<subseteq> pages_of F"
  using assms avail_invD(7) [OF assms(1)] by (fastforce simp: pages_of_def)+

lemma pages_of_range:
  assumes "avail_inv ps n sc c F"
  shows "pages_of F \<subseteq> {0..<2 ^ (n - ps)}"
  using free_handleD [OF avail_invD(6) [OF assms]] by (fastforce simp: pages_of_def rset_def)

lemma runFirstBestFit_from_ok:
  assumes inv: "avail_inv ps n sc c F" and i: "i \<le> 4 * (n - ps - 1)"
  shows "(runFirstBestFit_from sc c (int i) = Inr (- 1) \<and> (\<forall>h\<in>F. floor_idx sc (calculateRunPages h) < i)) \<or>
    (\<exists>j. i \<le> j \<and> j < 4 * (n - ps - 1) \<and> runFirstBestFit_from sc c (int i) = Inr (int j) \<and>
      lpq_elems (pc_runsAvail c ! j) \<noteq> {#})"
  using i
proof (induction "4 * (n - ps - 1) - i" arbitrary: i)
  case 0
  then have i: "i = 4 * (n - ps - 1)" by simp
  have "runFirstBestFit_from sc c (int i) = Inr (- 1)"
    using sc_okD(2,8) [OF avail_invD(1) [OF inv]] i
    by (subst runFirstBestFit_from.simps) (simp add: of_nat_diff)
  moreover have "floor_idx sc (calculateRunPages h) < i" if "h \<in> F" for h
    using floor_idx_ok(2) [OF avail_invD(1) [OF inv]] free_handleD [OF avail_invD(6) [OF inv that]] i by simp
  ultimately show ?case by blast
next
  case (Suc d)
  note D = avail_invD [OF inv]
  from Suc have i: "i < 4 * (n - ps - 1)" by simp
  then have lt: "int i < m_nPSizes sc" using sc_okD(2,8) [OF D(1)] by (simp add: of_nat_diff)
  show ?case
  proof (cases "lpq_elems (pc_runsAvail c ! i) = {#}")
    case False
    then have "runFirstBestFit_from sc c (int i) = Inr (int i)"
      using lt i D(8) isEmpty_iff [OF D(9) [OF i]] by (subst runFirstBestFit_from.simps) simp
    with False i show ?thesis by blast
  next
    case True
    then have "runFirstBestFit_from sc c (int i) = runFirstBestFit_from sc c (int (Suc i))"
      using lt i D(8) isEmpty_iff [OF D(9) [OF i]]
      by (subst runFirstBestFit_from.simps) (simp add: add.commute)
    moreover have "floor_idx sc (calculateRunPages h) \<noteq> i" if "h \<in> F" for h
      using True D(5) D(10) [OF i] that by (auto simp: mset_set_empty_iff)
    moreover have "d = 4 * (n - ps - 1) - Suc i" "Suc i \<le> 4 * (n - ps - 1)" using Suc.hyps(2) i by simp_all
    note Suc.hyps(1) [OF this]
    ultimately show ?thesis by (metis Suc_leD less_SucE)
  qed
qed

lemma split_rest:
  assumes "free_handle N h" "N \<le> 2 ^ 14" "0 < p" "p < calculateRunPages h"
  defines "r \<equiv> toRunHandle (calculateRunOffset h + p) (calculateRunPages h - p) 0"
    and "H \<equiv> toRunHandle (calculateRunOffset h) p 1"
  shows "free_handle N r" "calculateRunOffset r = calculateRunOffset h + p" "calculateRunPages r = calculateRunPages h - p"
    "rset r \<inter> rset H = {}" "rset r \<union> rset H = rset h" "valid_handle N H" "isUsed H" "\<not> isSubpage H"
    "calculateRunPages H = p"
proof -
  note D = free_handleD [OF assms(1)]
  have 1: "0 \<le> calculateRunOffset h + p" "1 \<le> calculateRunPages h - p"
    "calculateRunOffset h + p + (calculateRunPages h - p) \<le> N" using D assms by simp_all
  have 2: "0 \<le> calculateRunOffset h" "1 \<le> p" "calculateRunOffset h + p \<le> N" using D assms by simp_all
  note r = toRunHandle_valid [OF 1 assms(2), of 0] and H = toRunHandle_valid [OF 2 assms(2), of 1]
  show "free_handle N r" using r by (simp add: free_handle_def r_def)
  show "calculateRunOffset r = calculateRunOffset h + p" "calculateRunPages r = calculateRunPages h - p"
    "valid_handle N H" "isUsed H" "\<not> isSubpage H" "calculateRunPages H = p"
    using r H by (simp_all add: r_def H_def)
  show "rset r \<inter> rset H = {}" "rset r \<union> rset H = rset h"
    using r H assms(3,4) by (auto simp: r_def H_def rset_def)
qed

lemma mark_used:
  assumes "free_handle N h"
  defines "H \<equiv> h OR shl64 1 IS_USED_SHIFT"
  shows "valid_handle N H" "isUsed H" "\<not> isSubpage H" "rset H = rset h" "calculateRunPages H = calculateRunPages h"
proof -
  obtain off p u s i where h: "h = handle_of off p u s i" "handle_fields off p u s i" "1 \<le> p" "off + p \<le> N"
    using assms by (auto simp: valid_handle_def free_handle_def)
  note un = unpack_handle [OF h(2)]
  have us: "u = 0" "s = 0" using assms(1) un h(1,2) by (auto simp: free_handle_def handle_fields_def)
  have f: "handle_fields off p 1 0 i" using h(2) us by (simp add: handle_fields_def)
  have H: "H = handle_of off p 1 0 i" using set_used [of off p 0 i] h us by (simp add: H_def)
  note un' = unpack_handle [OF f]
  show "valid_handle N H" unfolding valid_handle_def H using f h(3,4) by blast
  show "isUsed H" "\<not> isSubpage H" "rset H = rset h" "calculateRunPages H = calculateRunPages h"
    using un un' h(1) H by (simp_all add: rset_def)
qed

lemma splitLargeRun_ok:
  assumes inv: "avail_inv ps n sc c (F - {h})" and h: "free_handle (2 ^ (n - ps)) h"
    and disj: "\<And>g. g \<in> F - {h} \<Longrightarrow> rset h \<inter> rset g = {}" and p: "0 < p" "p \<le> calculateRunPages h"
  obtains H c' F' where "splitLargeRun sc c h p = Inr (H, c')" "avail_inv ps n sc c' F'" "same_chunk c c'"
    "valid_handle (2 ^ (n - ps)) H" "isUsed H" "\<not> isSubpage H" "calculateRunPages H = p" "rset H \<subseteq> rset h"
    "pages_of F' = pages_of (F - {h}) \<union> (rset h - rset H)"
proof (cases "p < calculateRunPages h")
  case True
  note N = pages_bound [OF avail_invD(2) [OF inv]]
  let ?r = "toRunHandle (calculateRunOffset h + p) (calculateRunPages h - p) 0"
  let ?H = "toRunHandle (calculateRunOffset h) p 1"
  note r = split_rest [OF h N p(1) True]
  have "rset ?r \<inter> rset g = {}" if "g \<in> F - {h}" for g using disj [OF that] r(5) by blast
  then obtain c' where c': "insertAvailRun sc c (calculateRunOffset ?r) (calculateRunPages ?r) ?r = Inr c'"
    "avail_inv ps n sc c' (insert ?r (F - {h}))" "same_chunk c c'"
    using insertAvailRun_ok [OF inv r(1)] by blast
  have "splitLargeRun sc c h p = Inr (?H, c')"
    using c'(1) p True r(2,3) by (simp add: splitLargeRun_def Let_def)
  moreover have "rset ?H \<subseteq> rset h" "rset h - rset ?H = rset ?r" using r(4,5) by blast+
  then have "pages_of (insert ?r (F - {h})) = pages_of (F - {h}) \<union> (rset h - rset ?H)" by auto
  ultimately show ?thesis
    using that [of ?H c' "insert ?r (F - {h})"] c' r \<open>rset ?H \<subseteq> rset h\<close> by blast
next
  case False
  with p have p_eq: "p = calculateRunPages h" by simp
  let ?H = "h OR shl64 1 IS_USED_SHIFT"
  note m = mark_used [OF h]
  have "splitLargeRun sc c h p = Inr (?H, c)" using p p_eq by (simp add: splitLargeRun_def Let_def)
  then show ?thesis using that [of ?H c "F - {h}"] inv m p_eq by simp
qed

lemma polled_run:
  assumes inv: "avail_inv ps n sc c F" and j: "j < 4 * (n - ps - 1)" "lpq_elems (pc_runsAvail c ! j) \<noteq> {#}"
  obtains h q where "poll (pc_runsAvail c ! j) = Inr (h, q)" "h \<in> F" "floor_idx sc (calculateRunPages h) = j"
    "lpq_inv q" "lpq_elems q - {#h#} = lpq_elems (pc_runsAvail c ! j) - {#h#}"
proof -
  note D = avail_invD [OF inv]
  obtain h q where q: "poll (pc_runsAvail c ! j) = Inr (h, q)" "lpq_inv q"
    "h \<in># lpq_elems (pc_runsAvail c ! j)" "lpq_elems q = lpq_elems (pc_runsAvail c ! j) - {#h#}"
    using poll_ok [OF D(9) [OF j(1)] j(2)] by blast
  have "h \<in> F" "floor_idx sc (calculateRunPages h) = j" using q(3) D(5) D(10) [OF j(1)] by auto
  moreover have "h \<notin># lpq_elems q" using q(4) D(5) D(10) [OF j(1)] by (simp add: in_diff_count count_mset_set')
  then have "lpq_elems q - {#h#} = lpq_elems q" by (rule diff_single_trivial)
  then have "lpq_elems q - {#h#} = lpq_elems (pc_runsAvail c ! j) - {#h#}" using q(4) by metis
  ultimately show ?thesis using that q by blast
qed

lemma chunk_invD:
  assumes "chunk_inv ps n sc c F"
  shows "avail_inv ps n sc c F" "pc_freeBytes c = 2 ^ ps * int (card (pages_of F))"
    "0 \<le> pc_freeBytes c" "pc_freeBytes c \<le> 2 ^ n"
proof -
  show a: "avail_inv ps n sc c F" and f: "pc_freeBytes c = 2 ^ ps * int (card (pages_of F))"
    using assms by (simp_all add: chunk_inv_def)
  then show "0 \<le> pc_freeBytes c" by simp
  have "card (pages_of F) \<le> card {0..<(2::int) ^ (n - ps)}" by (rule card_mono [OF _ pages_of_range [OF a]]) simp
  then have "int (card (pages_of F)) \<le> int (card {0..<(2::int) ^ (n - ps)})" by (simp only: of_nat_le_iff)
  then have "int (card (pages_of F)) \<le> 2 ^ (n - ps)" by simp
  then have "2 ^ ps * int (card (pages_of F)) \<le> 2 ^ ps * 2 ^ (n - ps)" by (rule mult_left_mono) simp
  then show "pc_freeBytes c \<le> 2 ^ n" using f sc_okD(2) [OF avail_invD(1) [OF a]] by (simp flip: power_add)
qed

lemma run_bytes:
  assumes "sc_ok ps n sc" "1 \<le> p" "p \<le> 2 ^ (n - ps)"
  shows "shl p (int ps) = p * 2 ^ ps" "p * 2 ^ ps \<le> 2 ^ n" "shr (p * 2 ^ ps) (int ps) = p"
proof -
  have "(2::int) ^ (n - ps) * 2 ^ ps = 2 ^ n" using sc_okD(2) [OF assms(1)] by (simp flip: power_add)
  moreover have "p * 2 ^ ps \<le> 2 ^ (n - ps) * 2 ^ ps" using assms(3) by simp
  ultimately show le: "p * 2 ^ ps \<le> 2 ^ n" by simp
  then have "p * 2 ^ ps \<le> INT_MAX" using chunk_bound [OF assms(1)] by linarith
  then show "shl p (int ps) = p * 2 ^ ps" using assms(2) by (simp add: machine_int)
  show "shr (p * 2 ^ ps) (int ps) = p" by (simp add: shr_eq)
qed

text \<open>The accounting of a chunk after pages leave its free runs.\<close>

lemma chunk_inv_take:
  assumes inv: "chunk_inv ps n sc c F" and c': "avail_inv ps n sc c' F'" "same_chunk c c'"
    and H: "valid_handle (2 ^ (n - ps)) H" "rset H \<subseteq> pages_of F" "pages_of F' = pages_of F - rset H"
  shows "chunk_inv ps n sc (c'\<lparr>pc_freeBytes :=
    i32 (pc_freeBytes c' - calculateRunSize (pc_pageShifts c') H)\<rparr>) F'"
proof -
  note C = chunk_invD [OF inv] and A = avail_invD [OF c'(1)]
  note V = valid_handleD [OF H(1)]
  have rb: "shl (calculateRunPages H) (int ps) = calculateRunPages H * 2 ^ ps"
    by (rule run_bytes [OF A(1)]) (use V in simp_all)
  have fin: "finite (pages_of F)" using avail_invD(5) [OF C(1)] by simp
  have "int (card (pages_of F')) = int (card (pages_of F)) - calculateRunPages H"
    using card_Diff_subset [OF finite_subset [OF H(2) fin] H(2)] card_mono [OF fin H(2)] card_rset [OF H(1)] H(3)
    by (simp add: of_nat_diff)
  moreover have "calculateRunPages H \<le> int (card (pages_of F))" using card_mono [OF fin H(2)] card_rset [OF H(1)] by simp
  then have "calculateRunPages H * 2 ^ ps \<le> pc_freeBytes c" unfolding C(2) by (simp add: mult.commute)
  moreover have "0 \<le> calculateRunPages H * 2 ^ ps" using V(2) by simp
  moreover from calculation have "i32 (pc_freeBytes c - calculateRunPages H * 2 ^ ps) =
      pc_freeBytes c - calculateRunPages H * 2 ^ ps"
    using C(4) chunk_bound [OF A(1)] by (intro i32_id) linarith+
  ultimately have "i32 (pc_freeBytes c - calculateRunPages H * 2 ^ ps) = 2 ^ ps * int (card (pages_of F'))"
    unfolding C(2) by (simp only: right_diff_distrib) (simp add: mult.commute)
  then show ?thesis
    using c'(1) same_chunkD(1) [OF c'(2)] A(3) rb by (simp add: chunk_inv_def calculateRunSize_def)
qed

lemma allocateRun_ok:
  assumes inv: "chunk_inv ps n sc c F" and p: "1 \<le> p" "p \<le> 2 ^ (n - ps)"
    and whole: "pc_freeBytes c = 2 ^ n \<longrightarrow> (\<exists>h\<in>F. calculateRunPages h = 2 ^ (n - ps))"
  shows "(allocateRun sc c (p * 2 ^ ps) = Inr (- 1, c) \<and> (\<forall>h\<in>F. \<not> (\<exists>i. pages2pageIdx sc p = Inr i \<and>
        i \<le> int (floor_idx sc (calculateRunPages h))))) \<or>
    (\<exists>H c' F'. allocateRun sc c (p * 2 ^ ps) = Inr (H, c') \<and> chunk_inv ps n sc c' F' \<and>
      valid_handle (2 ^ (n - ps)) H \<and> isUsed H \<and> \<not> isSubpage H \<and> calculateRunPages H = p \<and>
      rset H \<subseteq> pages_of F \<and> pages_of F' = pages_of F - rset H \<and>
      pc_subpages c' = pc_subpages c \<and> pc_memory c' = pc_memory c \<and> pc_cachedBuffers c' = pc_cachedBuffers c \<and>
      pc_pageSize c' = pc_pageSize c)"
proof -
  note C = chunk_invD [OF inv]
  note D = avail_invD [OF C(1)]
  note rb = run_bytes [OF D(1) p]
  obtain i where i: "pages2pageIdx sc p = Inr (int i)" "i < 4 * (n - ps - 1)"
    by (rule ceiling_idx_ok [OF D(1) p])
  have "(runFirstBestFit sc c (int i) = Inr (- 1) \<and> (\<forall>h\<in>F. floor_idx sc (calculateRunPages h) < i)) \<or>
    (\<exists>j. i \<le> j \<and> j < 4 * (n - ps - 1) \<and> runFirstBestFit sc c (int i) = Inr (int j) \<and>
      lpq_elems (pc_runsAvail c ! j) \<noteq> {#})"
  proof (cases "pc_freeBytes c = 2 ^ n")
    case True
    let ?j = "4 * (n - ps - 1) - 1"
    obtain h where "h \<in> F" "calculateRunPages h = 2 ^ (n - ps)" using whole True by blast
    then have "h \<in> {h \<in> F. floor_idx sc (calculateRunPages h) = ?j}" using floor_idx_whole [OF D(1)] by simp
    moreover have j: "?j < 4 * (n - ps - 1)" using i(2) by simp
    ultimately have "lpq_elems (pc_runsAvail c ! ?j) \<noteq> {#}"
      using D(5) unfolding D(10) [OF j] by (simp add: mset_set_empty_iff) blast
    moreover have "runFirstBestFit sc c (int i) = Inr (int ?j)"
      using True D(4) sc_okD(2,8) [OF D(1)] by (simp add: runFirstBestFit_def of_nat_diff)
    ultimately show ?thesis using i(2) j by (metis Suc_pred le_simps(2) less_imp_Suc_add zero_less_Suc diff_Suc_1)
  next
    case False
    then show ?thesis
      using runFirstBestFit_from_ok [OF C(1) less_imp_le [OF i(2)]] D(4) by (simp add: runFirstBestFit_def)
  qed
  then show ?thesis
  proof
    assume n: "runFirstBestFit sc c (int i) = Inr (- 1) \<and> (\<forall>h\<in>F. floor_idx sc (calculateRunPages h) < i)"
    then have "allocateRun sc c (p * 2 ^ ps) = Inr (- 1, c)"
      using i(1) rb(3) D(3) by (simp add: allocateRun_def)
    then show ?thesis using n i(1) by auto
  next
    assume "\<exists>j. i \<le> j \<and> j < 4 * (n - ps - 1) \<and> runFirstBestFit sc c (int i) = Inr (int j) \<and>
      lpq_elems (pc_runsAvail c ! j) \<noteq> {#}"
    then obtain j where j: "i \<le> j" "j < 4 * (n - ps - 1)" "runFirstBestFit sc c (int i) = Inr (int j)"
      "lpq_elems (pc_runsAvail c ! j) \<noteq> {#}" by blast
    obtain h q where q: "poll (pc_runsAvail c ! j) = Inr (h, q)" "h \<in> F" "floor_idx sc (calculateRunPages h) = j"
      "lpq_inv q" "lpq_elems q - {#h#} = lpq_elems (pc_runsAvail c ! j) - {#h#}"
      by (rule polled_run [OF C(1) j(2,4)])
    have q5: "lpq_elems q - {#h#} = lpq_elems (pc_runsAvail c ! floor_idx sc (calculateRunPages h)) - {#h#}"
      using q(3,5) by simp
    note H = free_handleD [OF D(6) [OF q(2)]]
    obtain c1 where c1: "removeAvailRun_queue (c\<lparr>pc_runsAvail := (pc_runsAvail c)[j := q]\<rparr>) (int j) h = Inr c1"
      "avail_inv ps n sc c1 (F - {h})" "same_chunk c c1"
      using removeAvailRun_queue_ok [OF C(1) q(2,4) q5] unfolding q(3) .
    have fit: "p \<le> calculateRunPages h"
      by (rule ceiling_idx_fits [OF D(1) p H(2,4) i(1)]) (use j(1) q(3) in simp)
    have disj: "rset h \<inter> rset g = {}" if "g \<in> F - {h}" for g using D(7) [OF q(2)] that by blast
    obtain R c' F' where r: "splitLargeRun sc c1 h p = Inr (R, c')" "avail_inv ps n sc c' F'" "same_chunk c1 c'"
      "valid_handle (2 ^ (n - ps)) R" "isUsed R" "\<not> isSubpage R" "calculateRunPages R = p" "rset R \<subseteq> rset h"
      "pages_of F' = pages_of (F - {h}) \<union> (rset h - rset R)"
      using splitLargeRun_ok [OF c1(2) D(6) [OF q(2)] disj _ fit] p by auto
    note rem = pages_of_remove [OF C(1) q(2)]
    have sub: "rset R \<subseteq> pages_of F" "pages_of F' = pages_of F - rset R" using r(8,9) rem by blast+
    have same: "same_chunk c c'" using same_chunk_trans [OF c1(3) r(3)] .
    let ?c' = "c'\<lparr>pc_freeBytes := i32 (pc_freeBytes c' - calculateRunSize (pc_pageShifts c') R)\<rparr>"
    have "allocateRun sc c (p * 2 ^ ps) = Inr (R, ?c')"
      using i(1) rb(3) D(3,8) j q(1) H(5,7) c1(1) r(1) isEmpty_iff [OF D(9) [OF j(2)]]
      by (simp add: allocateRun_def)
    moreover have "chunk_inv ps n sc ?c' F'" by (rule chunk_inv_take [OF inv r(2) same r(4) sub])
    ultimately show ?thesis using r sub same_chunkD [OF same] by auto
  qed
qed

subsection \<open>Freeing a run\<close>

definition apart :: "int \<Rightarrow> int set \<Rightarrow> bool" where
  "apart H F \<longleftrightarrow> rset H \<inter> pages_of F = {}"

lemma apartD: "apart H F \<Longrightarrow> g \<in> F \<Longrightarrow> rset H \<inter> rset g = {}"
  by (auto simp: apart_def pages_of_def)

lemma avail_run_at:
  assumes inv: "avail_inv ps n sc c F"
  shows "getAvailRunByOffset c k = - 1 \<longleftrightarrow> map_of (pc_runsAvailMap c) k = None"
    "getAvailRunByOffset c k \<noteq> - 1 \<Longrightarrow> getAvailRunByOffset c k \<in> F \<and> k \<in> rset (getAvailRunByOffset c k)"
proof -
  have g: "g \<in> F" "k \<in> rset g" "0 \<le> g" if "map_of (pc_runsAvailMap c) k = Some g" for g
    using avail_invD(11) [OF inv, of k g] that free_handleD [OF avail_invD(6) [OF inv, of g]]
    by (auto simp: rset_def)
  show "getAvailRunByOffset c k = - 1 \<longleftrightarrow> map_of (pc_runsAvailMap c) k = None"
    using g(3) by (force simp: getAvailRunByOffset_def split: option.splits)
  show "getAvailRunByOffset c k \<noteq> - 1 \<Longrightarrow> getAvailRunByOffset c k \<in> F \<and> k \<in> rset (getAvailRunByOffset c k)"
    using g by (auto simp: getAvailRunByOffset_def split: option.splits)
qed

lemma card_remove_less: "finite F \<Longrightarrow> g \<in> F \<Longrightarrow> card F < Suc m \<Longrightarrow> card (F - {g}) < m"
  by (metis card_Diff1_less less_Suc_eq_le order_less_le_trans)

lemma interval_join: "0 \<le> p \<Longrightarrow> 0 \<le> q \<Longrightarrow> {a..<a + p} \<union> {a + p..<a + p + q} = {a..<a + (p + q)}"
  for a p q :: int
  by auto

text \<open>Joining a run with the free run next to it.\<close>

lemma join_runs:
  assumes "valid_handle N g" "valid_handle N h" "N \<le> 2 ^ 14"
    and "calculateRunOffset g + calculateRunPages g = calculateRunOffset h"
  defines "j \<equiv> toRunHandle (calculateRunOffset g) (calculateRunPages g + calculateRunPages h) 0"
  shows "free_handle N j" "rset j = rset g \<union> rset h" "calculateRunOffset j = calculateRunOffset g"
proof -
  note G = valid_handleD [OF assms(1)] and H = valid_handleD [OF assms(2)]
  have a: "0 \<le> calculateRunOffset g" "1 \<le> calculateRunPages g + calculateRunPages h"
    "calculateRunOffset g + (calculateRunPages g + calculateRunPages h) \<le> N"
    using G H assms(4) by linarith+
  note t = toRunHandle_valid [OF a assms(3) disjI1 [OF refl]]
  show "free_handle N j" "calculateRunOffset j = calculateRunOffset g"
    using t by (simp_all add: free_handle_def j_def)
  show "rset j = rset g \<union> rset h" 
    using interval_join [of "calculateRunPages g" "calculateRunPages h" "calculateRunOffset g"] G(2) H(2)
    unfolding j_def rset_def assms(4) [symmetric] t(2) t(3) by simp
qed

definition merged :: "nat \<Rightarrow> nat \<Rightarrow> SizeClasses \<Rightarrow> PoolChunk \<Rightarrow> int \<Rightarrow> int set \<Rightarrow> PoolChunk \<Rightarrow> int \<Rightarrow> int set \<Rightarrow> bool" where
  "merged ps n sc c H F c' H' F' \<longleftrightarrow>
     avail_inv ps n sc c' F' \<and> same_chunk c c' \<and> valid_handle (2 ^ (n - ps)) H' \<and> apart H' F' \<and>
     rset H' \<union> pages_of F' = rset H \<union> pages_of F \<and> rset H \<subseteq> rset H'"

lemma merged_refl:
  "avail_inv ps n sc c F \<Longrightarrow> valid_handle (2 ^ (n - ps)) H \<Longrightarrow> apart H F \<Longrightarrow> merged ps n sc c H F c H F"
  by (simp add: merged_def)

lemma merged_trans:
  "merged ps n sc a G E b H F \<Longrightarrow> merged ps n sc b H F c I D \<Longrightarrow> merged ps n sc a G E c I D"
  unfolding merged_def using same_chunk_trans by (metis subset_trans)

lemma merge_step:
  assumes inv: "avail_inv ps n sc c F" and H: "valid_handle (2 ^ (n - ps)) H" "apart H F" and g: "g \<in> F"
    and adj: "calculateRunOffset g + calculateRunPages g = calculateRunOffset H \<and>
        j = toRunHandle (calculateRunOffset g) (calculateRunPages g + calculateRunPages H) 0 \<or>
      calculateRunOffset H + calculateRunPages H = calculateRunOffset g \<and>
        j = toRunHandle (calculateRunOffset H) (calculateRunPages H + calculateRunPages g) 0"
  obtains c' where "removeAvailRun sc c g = Inr c'" "merged ps n sc c H F c' j (F - {g})"
proof -
  obtain c' where c': "removeAvailRun sc c g = Inr c'" "avail_inv ps n sc c' (F - {g})" "same_chunk c c'"
    by (rule removeAvailRun_ok [OF inv g])
  note N = pages_bound [OF avail_invD(2) [OF inv]]
  have gv: "valid_handle (2 ^ (n - ps)) g" by (rule free_handleD(8) [OF avail_invD(6) [OF inv g]])
  have j: "valid_handle (2 ^ (n - ps)) j" "rset j = rset g \<union> rset H"
    using adj join_runs [OF gv H(1) N] join_runs [OF H(1) gv N] by (auto simp: free_handle_def)
  note rem = pages_of_remove [OF inv g]
  have "apart j (F - {g})" using H(2) rem j(2) by (auto simp: apart_def)
  moreover have "rset j \<union> pages_of (F - {g}) = rset H \<union> pages_of F" using rem j(2) by blast
  ultimately have "merged ps n sc c H F c' j (F - {g})" using c' j by (auto simp: merged_def)
  with c'(1) that show ?thesis by blast
qed

lemma collapsePast_loop_ok:
  assumes "avail_inv ps n sc c F" "valid_handle (2 ^ (n - ps)) H" "apart H F" "card F < fuel"
  shows "\<exists>H' c' F'. collapsePast_loop fuel sc c H = Inr (H', c') \<and> merged ps n sc c H F c' H' F' \<and> F' \<subseteq> F \<and>
    calculateRunOffset H' - 1 \<notin> pages_of F'"
  using assms
proof (induction fuel arbitrary: c F H)
  case (Suc fuel)
  note inv = Suc.prems(1)
  let ?o = "calculateRunOffset H"
  let ?g = "getAvailRunByOffset c (?o - 1)"
  show ?case
  proof (cases "?g = - 1")
    case True
    have "?o - 1 \<notin> pages_of F"
    proof
      assume "?o - 1 \<in> pages_of F"
      then obtain g where g: "g \<in> F" "?o - 1 \<in> rset g" by (auto simp: pages_of_def)
      have "?o \<in> rset H" using valid_handleD(2) [OF Suc.prems(2)] by (simp add: rset_def)
      then have "?o \<notin> rset g" using apartD [OF Suc.prems(3) g(1)] by blast
      with g(2) have "?o - 1 = calculateRunOffset g + calculateRunPages g - 1" by (auto simp: rset_def)
      then have "map_of (pc_runsAvailMap c) (?o - 1) = Some g" using avail_invD(11) [OF inv] g(1) by blast
      with True avail_run_at(1) [OF inv] show False by simp
    qed
    moreover have "collapsePast_loop (Suc fuel) sc c H = Inr (H, c)" using True by (simp add: Let_def)
    ultimately show ?thesis using merged_refl [OF Suc.prems(1-3)] by blast
  next
    case False
    note g = avail_run_at(2) [OF inv False]
    have "?o \<in> rset H" using valid_handleD(2) [OF Suc.prems(2)] by (simp add: rset_def)
    then have "?o \<notin> rset ?g" using apartD [OF Suc.prems(3)] g by blast
    with g have adj: "calculateRunOffset ?g + calculateRunPages ?g = ?o" by (auto simp: rset_def)
    have ne: "?g \<noteq> H" using \<open>?o \<in> rset H\<close> \<open>?o \<notin> rset ?g\<close> by metis
    let ?j = "toRunHandle (calculateRunOffset ?g) (calculateRunPages ?g + calculateRunPages H) 0"
    obtain c1 where c1: "removeAvailRun sc c ?g = Inr c1" "merged ps n sc c H F c1 ?j (F - {?g})"
      using merge_step [OF Suc.prems(1-3)] g adj by blast
    have "card (F - {?g}) < fuel" by (rule card_remove_less [OF avail_invD(5) [OF inv] _ Suc.prems(4)]) (use g in simp)
    then obtain H' c' F' where r: "collapsePast_loop fuel sc c1 ?j = Inr (H', c')"
      "merged ps n sc c1 ?j (F - {?g}) c' H' F'" "F' \<subseteq> F - {?g}" "calculateRunOffset H' - 1 \<notin> pages_of F'"
      using Suc.IH [of c1 "F - {?g}" ?j] c1(2) by (auto simp: merged_def)
    have "collapsePast_loop (Suc fuel) sc c H = Inr (H', c')"
      using False ne adj c1(1) r(1) by (simp add: Let_def)
    then show ?thesis using r merged_trans [OF c1(2) r(2)] by blast
  qed
qed simp

lemma collapseNext_loop_ok:
  assumes "avail_inv ps n sc c F" "valid_handle (2 ^ (n - ps)) H" "apart H F" "card F < fuel"
  shows "\<exists>H' c' F'. collapseNext_loop fuel sc c H = Inr (H', c') \<and> merged ps n sc c H F c' H' F' \<and> F' \<subseteq> F \<and>
    calculateRunOffset H' = calculateRunOffset H"
  using assms
proof (induction fuel arbitrary: c F H)
  case (Suc fuel)
  note inv = Suc.prems(1)
  let ?e = "calculateRunOffset H + calculateRunPages H"
  let ?g = "getAvailRunByOffset c ?e"
  show ?case
  proof (cases "?g = - 1 \<or> ?g = H \<or> ?e \<noteq> calculateRunPages ?g")
    case True
    then have "collapseNext_loop (Suc fuel) sc c H = Inr (H, c)" by (auto simp: Let_def)
    then show ?thesis using merged_refl [OF Suc.prems(1-3)] by blast
  next
    case False
    then have g: "?g \<in> F" "?e \<in> rset ?g" using avail_run_at(2) [OF inv] by blast+
    have "?e - 1 \<in> rset H" using valid_handleD(2) [OF Suc.prems(2)] by (simp add: rset_def)
    then have "?e - 1 \<notin> rset ?g" using apartD [OF Suc.prems(3)] g by blast
    with g have adj: "?e = calculateRunOffset ?g" by (auto simp: rset_def)
    let ?j = "toRunHandle (calculateRunOffset H) (calculateRunPages H + calculateRunPages ?g) 0"
    have off: "calculateRunOffset ?j = calculateRunOffset H"
      by (rule join_runs(3) [OF Suc.prems(2) free_handleD(8) [OF avail_invD(6) [OF inv g(1)]]
            pages_bound [OF avail_invD(2) [OF inv]] adj])
    obtain c1 where c1: "removeAvailRun sc c ?g = Inr c1" "merged ps n sc c H F c1 ?j (F - {?g})"
      using merge_step [OF Suc.prems(1-3)] g adj by blast
    have "card (F - {?g}) < fuel" by (rule card_remove_less [OF avail_invD(5) [OF inv] _ Suc.prems(4)]) (use g in simp)
    then obtain H' c' F' where r: "collapseNext_loop fuel sc c1 ?j = Inr (H', c')"
      "merged ps n sc c1 ?j (F - {?g}) c' H' F'" "F' \<subseteq> F - {?g}" "calculateRunOffset H' = calculateRunOffset ?j"
      using Suc.IH [of c1 "F - {?g}" ?j] c1(2) by (auto simp: merged_def)
    have "collapseNext_loop (Suc fuel) sc c H = Inr (H', c')"
      using False c1(1) r(1) by (simp add: Let_def)
    then show ?thesis using r off merged_trans [OF c1(2) r(2)] by auto
  qed
qed simp

text \<open>Every free run has the entry of its first page in the map, which bounds the rounds of the loops.\<close>

lemma card_runs:
  assumes inv: "avail_inv ps n sc c F"
  shows "card F \<le> length (pc_runsAvailMap c)"
proof -
  have "inj_on calculateRunOffset F"
  proof (rule inj_onI)
    fix g h assume gh: "g \<in> F" "h \<in> F" "calculateRunOffset g = calculateRunOffset h"
    then have "calculateRunOffset g \<in> rset g \<inter> rset h"
      using free_handleD(2) [OF avail_invD(6) [OF inv gh(1)]] free_handleD(2) [OF avail_invD(6) [OF inv gh(2)]]
      by (simp add: rset_def)
    then show "g = h" using avail_invD(7) [OF inv gh(1,2)] by blast
  qed
  moreover have "calculateRunOffset ` F \<subseteq> fst ` set (pc_runsAvailMap c)"
    using avail_invD(11) [OF inv] 
    by (metis image_subsetI map_of_SomeD fst_conv image_eqI)
  ultimately have "card F \<le> card (fst ` set (pc_runsAvailMap c))" by (rule card_inj_on_le) simp
  also have "\<dots> \<le> length (pc_runsAvailMap c)" by (metis card_length length_map set_map)
  finally show ?thesis .
qed

lemma collapseRuns_ok:
  assumes inv: "avail_inv ps n sc c F" and H: "valid_handle (2 ^ (n - ps)) H" "apart H F"
  obtains R c' F' where "collapseRuns sc c H = Inr (R, c')" "merged ps n sc c H F c' R F'"
    "calculateRunOffset R - 1 \<notin> pages_of F'"
proof -
  obtain G c1 E where g: "collapsePast sc c H = Inr (G, c1)" "merged ps n sc c H F c1 G E"
    "calculateRunOffset G - 1 \<notin> pages_of E"
    using collapsePast_loop_ok [OF inv H le_imp_less_Suc [OF card_runs [OF inv]]]
    by (auto simp: collapsePast_def)
  then have e: "avail_inv ps n sc c1 E" "valid_handle (2 ^ (n - ps)) G" "apart G E"
    by (simp_all add: merged_def)
  obtain R c' F' where r: "collapseNext sc c1 G = Inr (R, c')" "merged ps n sc c1 G E c' R F'" "F' \<subseteq> E"
    "calculateRunOffset R = calculateRunOffset G"
    using collapseNext_loop_ok [OF e le_imp_less_Suc [OF card_runs [OF e(1)]]]
    by (auto simp: collapseNext_def)
  have "collapseRuns sc c H = Inr (R, c')" using g(1) r(1) by (simp add: collapseRuns_def)
  moreover have "calculateRunOffset R - 1 \<notin> pages_of F'" using g(3) r(3,4) by (auto simp: pages_of_def)
  ultimately show ?thesis using that merged_trans [OF g(2) r(2)] by blast
qed

lemma clear_valid:
  assumes "valid_handle N H"
  defines "R \<equiv> (H AND NOT (shl64 1 IS_USED_SHIFT)) AND NOT (shl64 1 IS_SUBPAGE_SHIFT)"
  shows "free_handle N R" "rset R = rset H" "calculateRunOffset R = calculateRunOffset H"
    "calculateRunPages R = calculateRunPages H"
proof -
  obtain off p u s i where h: "H = handle_of off p u s i" "handle_fields off p u s i" "1 \<le> p" "off + p \<le> N"
    using assms(1) by (auto simp: valid_handle_def)
  have f: "handle_fields off p 0 0 i" using h(2) by (simp add: handle_fields_def)
  have R: "R = handle_of off p 0 0 i" using clear_flags [OF h(2)] h(1) by (simp add: R_def)
  note un = unpack_handle [OF h(2)] and un' = unpack_handle [OF f]
  have "valid_handle N R" unfolding valid_handle_def R using f h(3,4) by blast
  then show "free_handle N R" using un' R by (simp add: free_handle_def)
  show "rset R = rset H" "calculateRunOffset R = calculateRunOffset H" "calculateRunPages R = calculateRunPages H"
    using un un' h(1) R by (simp_all add: rset_def)
qed

text \<open>The accounting of a chunk after pages come back.\<close>

lemma chunk_inv_give:
  assumes inv: "chunk_inv ps n sc c F" and c': "avail_inv ps n sc c' F'" "same_chunk c c'"
    and H: "valid_handle (2 ^ (n - ps)) H" "apart H F" "pages_of F' = rset H \<union> pages_of F"
  shows "chunk_inv ps n sc (c'\<lparr>pc_freeBytes :=
    i32 (pc_freeBytes c' + shl (calculateRunPages H) (pc_pageShifts c'))\<rparr>) F'"
proof -
  note C = chunk_invD [OF inv] and A = avail_invD [OF c'(1)] and V = valid_handleD [OF H(1)]
  have rb: "shl (calculateRunPages H) (int ps) = calculateRunPages H * 2 ^ ps"
    by (rule run_bytes [OF A(1)]) (use V in simp_all)
  have fin: "finite (rset H)" "finite (pages_of F)" using avail_invD(5) [OF C(1)] by (simp_all add: rset_def)
  have "card (pages_of F') = card (rset H) + card (pages_of F)"
    unfolding H(3) using H(2) by (intro card_Un_disjoint fin) (simp add: apart_def)
  then have eq: "2 ^ ps * int (card (pages_of F')) = pc_freeBytes c + calculateRunPages H * 2 ^ ps"
    unfolding C(2) using card_rset [OF H(1)] by (simp add: algebra_simps)
  have "chunk_inv ps n sc (c'\<lparr>pc_freeBytes := 2 ^ ps * int (card (pages_of F'))\<rparr>) F'"
    using c'(1) by (simp add: chunk_inv_def)
  then have "2 ^ ps * int (card (pages_of F')) \<le> 2 ^ n" using chunk_invD(4) by fastforce
  moreover have "0 \<le> 2 ^ ps * int (card (pages_of F'))" by simp
  ultimately have "i32 (2 ^ ps * int (card (pages_of F'))) = 2 ^ ps * int (card (pages_of F'))"
    using chunk_bound [OF A(1)] by (intro i32_id) linarith+
  then show ?thesis
    using eq c'(1) same_chunkD(1) [OF c'(2)] A(3) rb by (simp add: chunk_inv_def)
qed

lemma freeRun_ok:
  assumes inv: "chunk_inv ps n sc c F" and H: "valid_handle (2 ^ (n - ps)) H" "apart H F"
  obtains R c' F' where "freeRun sc c H = Inr c'" "chunk_inv ps n sc c' F'" "pages_of F' = rset H \<union> pages_of F"
    "R \<in> F'" "rset H \<subseteq> rset R" "calculateRunOffset R - 1 \<notin> pages_of F'"
    "pc_freeBytes c' = pc_freeBytes c + calculateRunPages H * 2 ^ ps" "pc_subpages c' = pc_subpages c"
proof -
  obtain R c1 F1 where r: "collapseRuns sc c H = Inr (R, c1)" "merged ps n sc c H F c1 R F1"
    "calculateRunOffset R - 1 \<notin> pages_of F1"
    by (rule collapseRuns_ok [OF chunk_invD(1) [OF inv] H])
  then have m: "avail_inv ps n sc c1 F1" "same_chunk c c1" "valid_handle (2 ^ (n - ps)) R" "apart R F1"
    "rset R \<union> pages_of F1 = rset H \<union> pages_of F" "rset H \<subseteq> rset R" by (simp_all add: merged_def)
  let ?R = "(R AND NOT (shl64 1 IS_USED_SHIFT)) AND NOT (shl64 1 IS_SUBPAGE_SHIFT)"
  note cl = clear_valid [OF m(3)]
  have "rset ?R \<inter> rset g = {}" if "g \<in> F1" for g using apartD [OF m(4) that] cl(2) by simp
  then obtain c2 where c2: "insertAvailRun sc c1 (calculateRunOffset ?R) (calculateRunPages ?R) ?R = Inr c2"
    "avail_inv ps n sc c2 (insert ?R F1)" "same_chunk c1 c2"
    using insertAvailRun_ok [OF m(1) cl(1)] by blast
  have pg: "pages_of (insert ?R F1) = rset H \<union> pages_of F" using cl(2) m(5) by simp
  let ?c = "c2\<lparr>pc_freeBytes := i32 (pc_freeBytes c2 + shl (calculateRunPages H) (pc_pageShifts c2))\<rparr>"
  note same = same_chunk_trans [OF m(2) c2(3)]
  have inv': "chunk_inv ps n sc ?c (insert ?R F1)" by (rule chunk_inv_give [OF inv c2(2) same H pg])
  have "freeRun sc c H = Inr ?c" using r(1) c2(1) by (simp add: freeRun_def Let_def)
  moreover have "calculateRunOffset ?R - 1 \<notin> pages_of (insert ?R F1)" using r(3) cl by (simp add: rset_def)
  moreover have "pc_freeBytes ?c = pc_freeBytes c + calculateRunPages H * 2 ^ ps"
  proof -
    have "finite (rset H)" "finite (pages_of F)" 
      using avail_invD(5) [OF chunk_invD(1) [OF inv]] by (simp_all add: rset_def)
    then have "card (rset H \<union> pages_of F) = card (rset H) + card (pages_of F)"
      using H(2) by (intro card_Un_disjoint) (simp_all add: apart_def)
    then show ?thesis unfolding chunk_invD(2) [OF inv'] pg unfolding chunk_invD(2) [OF inv]
      using card_rset [OF H(1)] by (simp add: algebra_simps)
  qed
  moreover have "pc_subpages ?c = pc_subpages c" using same_chunkD(4) [OF same] by simp
  moreover have "rset H \<subseteq> rset ?R" using m(6) cl(2) by simp
  ultimately show ?thesis using that [of ?c "insert ?R F1" ?R] inv' pg by blast
qed

subsection \<open>A new chunk\<close>

lemma pages_of_chunk:
  assumes "sc_ok ps n sc"
  shows "shr (2 ^ n) (int ps) = 2 ^ (n - ps)"
proof -
  have "(2::int) ^ n = 2 ^ (n - ps) * 2 ^ ps" using sc_okD(2) [OF assms] by (simp flip: power_add)
  then show ?thesis by (simp add: shr_eq)
qed

lemma PoolChunk_new_ok:
  assumes ok: "sc_ok ps n sc" and N: "n - ps \<le> 14"
  obtains c W where "PoolChunk_new sc ar mem psz (int ps) (2 ^ n) (m_nPSizes sc) = Inr c"
    "chunk_inv ps n sc c {W}" "rset W = {0..<2 ^ (n - ps)}" "pc_freeBytes c = 2 ^ n"
    "pc_subpages c = replicate (2 ^ (n - ps)) None"
proof -
  let ?p = "2 ^ (n - ps) :: int"
  let ?c = "\<lparr>pc_runsAvailMap = [], pc_runsAvail = newRunsAvailqueueArray (m_nPSizes sc),
     pc_subpages = replicate (nat ?p) None, pc_cachedBuffers = [], pc_pageSize = psz, pc_pageShifts = int ps,
     pc_chunkSize = 2 ^ n, pc_memory = mem, pc_freeBytes = 2 ^ n, pc_unpooled = False, pc_prev = None,
     pc_next = None, pc_parent = None, pc_arena = ar\<rparr>"
  let ?W = "toRunHandle 0 ?p 0"
  have W_eq: "shl64 ?p SIZE_SHIFT = ?W" by (simp add: toRunHandle_def shl64_def i64_int)
  have "(1::int) \<le> ?p" by simp
  note t = toRunHandle_valid [OF order_refl this _ pages_bound [OF N] disjI1 [OF refl]]
  have W: "free_handle ?p ?W" "calculateRunOffset ?W = 0" "calculateRunPages ?W = ?p" "rset ?W = {0..<?p}"
    using t by (simp_all add: free_handle_def)
  have empty: "avail_inv ps n sc ?c {}"
    using ok N sc_okD(2,8) [OF ok] new_inv by (auto simp: avail_inv_def newRunsAvailqueueArray_def)
  obtain c where c: "insertAvailRun sc ?c (calculateRunOffset ?W) (calculateRunPages ?W) ?W = Inr c"
    "avail_inv ps n sc c {?W}" "same_chunk ?c c"
    using insertAvailRun_ok [OF empty W(1)] by auto
  have "PoolChunk_new sc ar mem psz (int ps) (2 ^ n) (m_nPSizes sc) = Inr c"
    using c(1) W(2,3) by (simp add: PoolChunk_new_def pages_of_chunk [OF ok] W_eq)
  moreover have "(2::int) ^ n = 2 ^ ps * ?p" using sc_okD(2) [OF ok] by (simp flip: power_add)
  then have "chunk_inv ps n sc c {?W}"
    using c(2) same_chunkD(1) [OF c(3)] by (simp add: chunk_inv_def pages_of_def W(4))
  moreover have "pc_freeBytes c = 2 ^ n" "pc_subpages c = replicate (2 ^ (n - ps)) None"
    using same_chunkD(1,4) [OF c(3)] by (simp_all add: nat_power_eq)
  ultimately show ?thesis using that W(4) by blast
qed

text \<open>
  \<open>runFirstBestFit\<close> answers the last class for a chunk without a byte in use; that class holds whole
  chunks only, so \<open>allocateRun\<close> stops at its assertion when the free pages are in several runs.
\<close>

lemma allocateRun_unmerged:
  assumes inv: "chunk_inv ps n sc c F" and p: "1 \<le> p" "p \<le> 2 ^ (n - ps)"
    and full: "pc_freeBytes c = 2 ^ n" and cut: "\<And>h. h \<in> F \<Longrightarrow> calculateRunPages h \<noteq> 2 ^ (n - ps)"
  shows "allocateRun sc c (p * 2 ^ ps) = Inl AssertionFailed"
proof -
  note D = avail_invD [OF chunk_invD(1) [OF inv]]
  obtain i where i: "pages2pageIdx sc p = Inr (int i)" "i < 4 * (n - ps - 1)"
    by (rule ceiling_idx_ok [OF D(1) p])
  define j where "j = 4 * (n - ps - 1) - 1"
  have j: "j < 4 * (n - ps - 1)" using i(2) by (simp add: j_def)
  have "floor_idx sc (calculateRunPages h) \<noteq> j" if "h \<in> F" for h
  proof
    assume eq: "floor_idx sc (calculateRunPages h) = j"
    note H = free_handleD [OF D(6) [OF that]]
    have "class_size ps j \<le> calculateRunPages h * 2 ^ ps" using floor_idx_ok(3) [OF D(1) H(2,4)] eq by simp
    moreover have "(2::int) ^ (n - ps) * 2 ^ ps = 2 ^ n" using sc_okD(2) [OF D(1)] by (simp flip: power_add)
    ultimately have "(2::int) ^ (n - ps) * 2 ^ ps \<le> calculateRunPages h * 2 ^ ps" using page_tab_last [OF D(1)] by (simp add: j_def)
    then have "2 ^ (n - ps) \<le> calculateRunPages h" by simp
    with H(4) cut [OF that] show False by simp
  qed
  then have "{h \<in> F. floor_idx sc (calculateRunPages h) = j} = {}" by blast
  then have "lpq_elems (pc_runsAvail c ! j) = {#}" unfolding D(10) [OF j] by (simp only: mset_set.empty)
  then have "isEmpty (pc_runsAvail c ! j)" using isEmpty_iff [OF D(9) [OF j]] by simp
  moreover have "runFirstBestFit sc c (int i) = Inr (int j)"
    using full D(4) sc_okD(2,8) [OF D(1)] by (simp add: runFirstBestFit_def of_nat_diff j_def)
  ultimately show ?thesis
    using i(1) run_bytes(3) [OF D(1) p] D(3,8) j by (simp add: allocateRun_def)
qed

end
