(* ===== verification/Pool_Chunk_Runs.thy ===== *)
theory Pool_Chunk_Runs
  imports Pool_Chunk_Laws
begin

section \<open>PoolChunk: histories of runs\<close>

text \<open>
  The behaviour of \<open>buffer/PoolChunk.cpp\<close> over sequences of run allocations and releases: live runs
  never overlap, no page is lost, the byte counter is exact, a release always succeeds; and the
  one request that stops at an assertion.
\<close>

subsection \<open>Histories of a chunk\<close>

text \<open>
  What the callers of a chunk do to its runs: they allocate one, which becomes live, or give a live
  one back. \<open>L\<close> lists the handles of the live runs.
\<close>

inductive run_history :: "nat \<Rightarrow> nat \<Rightarrow> SizeClasses \<Rightarrow> PoolChunk \<Rightarrow> int list \<Rightarrow> bool" for ps n sc where
  start: "PoolChunk_new sc ar mem psz (int ps) (2 ^ n) (m_nPSizes sc) = Inr c \<Longrightarrow> run_history ps n sc c []"
| alloc: "run_history ps n sc c L \<Longrightarrow> 1 \<le> p \<Longrightarrow> p \<le> 2 ^ (n - ps) \<Longrightarrow>
    allocateRun sc c (p * 2 ^ ps) = Inr (H, c') \<Longrightarrow> 0 \<le> H \<Longrightarrow> run_history ps n sc c' (H # L)"
| free: "run_history ps n sc c (A @ H # B) \<Longrightarrow> freeRun sc c H = Inr c' \<Longrightarrow> run_history ps n sc c' (A @ B)"

definition live_pages :: "int list \<Rightarrow> int set" where
  "live_pages L = (\<Union>H\<in>set L. rset H)"

lemma live_pages_simps [simp]:
  "live_pages [] = {}" "live_pages (H # L) = rset H \<union> live_pages L" "live_pages (A @ B) = live_pages A \<union> live_pages B"
  by (simp_all add: live_pages_def)

definition run_apart :: "int \<Rightarrow> int \<Rightarrow> bool" where
  "run_apart G H \<longleftrightarrow> rset G \<inter> rset H = {}"

lemma all_apart: "(\<forall>G\<in>set L. run_apart H G) \<longleftrightarrow> rset H \<inter> live_pages L = {}"
  by (auto simp: live_pages_def run_apart_def)

lemma run_apart_sym: "run_apart G H = run_apart H G"
  by (auto simp: run_apart_def)

definition runs_inv :: "nat \<Rightarrow> nat \<Rightarrow> SizeClasses \<Rightarrow> PoolChunk \<Rightarrow> int list \<Rightarrow> bool" where
  "runs_inv ps n sc c L \<longleftrightarrow> (\<exists>F. chunk_inv ps n sc c F \<and> live_pages L \<inter> pages_of F = {} \<and>
     live_pages L \<union> pages_of F = {0..<2 ^ (n - ps)}) \<and>
     (\<forall>H\<in>set L. valid_handle (2 ^ (n - ps)) H) \<and> sorted_wrt run_apart L"

lemma runs_invI:
  "chunk_inv ps n sc c F \<Longrightarrow> live_pages L \<inter> pages_of F = {} \<Longrightarrow>
   live_pages L \<union> pages_of F = {0..<2 ^ (n - ps)} \<Longrightarrow> \<forall>H\<in>set L. valid_handle (2 ^ (n - ps)) H \<Longrightarrow>
   sorted_wrt run_apart L \<Longrightarrow> runs_inv ps n sc c L"
  by (auto simp: runs_inv_def)

lemma runs_inv_new:
  assumes "sc_ok ps n sc" "n - ps \<le> 14"
  obtains c W where "PoolChunk_new sc ar mem psz (int ps) (2 ^ n) (m_nPSizes sc) = Inr c" "runs_inv ps n sc c []"
    "chunk_inv ps n sc c {W}" "calculateRunPages W = 2 ^ (n - ps)" "pc_freeBytes c = 2 ^ n"
proof -
  obtain c W where c: "PoolChunk_new sc ar mem psz (int ps) (2 ^ n) (m_nPSizes sc) = Inr c"
    "chunk_inv ps n sc c {W}" "rset W = {0..<2 ^ (n - ps)}" "pc_freeBytes c = 2 ^ n"
    using PoolChunk_new_ok [OF assms, of ar mem psz] by metis
  have "W \<in> {W}" by simp
  note W = free_handleD [OF avail_invD(6) [OF chunk_invD(1) [OF c(2)] this]]
  have "int (card (rset W)) = 2 ^ (n - ps)" using c(3) by simp
  then have "calculateRunPages W = 2 ^ (n - ps)" using card_rset [OF W(8)] by simp
  moreover have "pages_of {W} = {0..<2 ^ (n - ps)}" using c(3) by (simp add: pages_of_def)
  then have "runs_inv ps n sc c []" using c(2) by (auto simp: runs_inv_def)
  ultimately show ?thesis using that c by blast
qed

lemma runs_inv_take:
  assumes inv: "runs_inv ps n sc c L"
    and F: "chunk_inv ps n sc c F" "live_pages L \<inter> pages_of F = {}" "live_pages L \<union> pages_of F = {0..<2 ^ (n - ps)}"
    and F': "chunk_inv ps n sc c' F'" "valid_handle (2 ^ (n - ps)) H" "rset H \<subseteq> pages_of F"
      "pages_of F' = pages_of F - rset H"
  shows "runs_inv ps n sc c' (H # L)"
proof (rule runs_invI [OF F'(1)])
  have "rset H \<inter> live_pages L = {}" using F(2) F'(3) by blast
  then show "\<forall>G\<in>set (H # L). valid_handle (2 ^ (n - ps)) G" "sorted_wrt run_apart (H # L)"
    using inv F'(2) by (simp_all add: runs_inv_def all_apart)
qed (use F F'(3,4) in auto)

text \<open>The three outcomes of a request; the assertion fails on chunks without a live run only.\<close>

lemma runs_inv_alloc:
  assumes inv: "runs_inv ps n sc c L" and p: "1 \<le> p" "p \<le> 2 ^ (n - ps)"
  shows "allocateRun sc c (p * 2 ^ ps) = Inl AssertionFailed \<and> L = [] \<or> allocateRun sc c (p * 2 ^ ps) = Inr (- 1, c) \<or>
    (\<exists>H c'. allocateRun sc c (p * 2 ^ ps) = Inr (H, c') \<and> runs_inv ps n sc c' (H # L) \<and> 0 \<le> H \<and> isUsed H \<and>
      \<not> isSubpage H \<and> calculateRunPages H = p)"
proof -
  obtain F where F: "chunk_inv ps n sc c F" "live_pages L \<inter> pages_of F = {}"
    "live_pages L \<union> pages_of F = {0..<2 ^ (n - ps)}" and V: "\<forall>H\<in>set L. valid_handle (2 ^ (n - ps)) H"
    using inv by (auto simp: runs_inv_def)
  show ?thesis
  proof (cases "pc_freeBytes c = 2 ^ n \<and> (\<forall>h\<in>F. calculateRunPages h \<noteq> 2 ^ (n - ps))")
    case True
    note A = chunk_invD(1) [OF F(1)]
    have "(2::int) ^ n = 2 ^ ps * 2 ^ (n - ps)" using sc_okD(2) [OF avail_invD(1) [OF A]] by (simp flip: power_add)
    then have "int (card (pages_of F)) = 2 ^ (n - ps)" using chunk_invD(2) [OF F(1)] True by simp
    then have "card (pages_of F) = card {0..<(2::int) ^ (n - ps)}" by (metis card_atLeastLessThan_int diff_zero nat_int)
    then have "pages_of F = {0..<2 ^ (n - ps)}" using card_subset_eq [OF _ pages_of_range [OF A]] by blast
    then have "live_pages L = {}" using F(2,3) by blast
    then have "L = []" using V valid_handleD(5) by (cases L) auto
    then show ?thesis using allocateRun_unmerged [OF F(1) p] True by blast
  next
    case False
    then have "pc_freeBytes c = 2 ^ n \<longrightarrow> (\<exists>h\<in>F. calculateRunPages h = 2 ^ (n - ps))" by blast
    from allocateRun_ok [OF F(1) p this] show ?thesis
    proof (elim disjE conjE exE)
      fix H c' F'
      assume r: "allocateRun sc c (p * 2 ^ ps) = Inr (H, c')" "chunk_inv ps n sc c' F'" "valid_handle (2 ^ (n - ps)) H"
        "isUsed H" "\<not> isSubpage H" "calculateRunPages H = p" "rset H \<subseteq> pages_of F" "pages_of F' = pages_of F - rset H"
      have "runs_inv ps n sc c' (H # L)" by (rule runs_inv_take [OF inv F r(2,3,7,8)])
      then show ?thesis using r valid_handleD(4) [OF r(3)] by blast
    qed simp
  qed
qed

lemma runs_inv_first:
  assumes "sc_ok ps n sc" "n - ps \<le> 14" and p: "1 \<le> p" "p \<le> 2 ^ (n - ps)"
    and c: "PoolChunk_new sc ar mem psz (int ps) (2 ^ n) (m_nPSizes sc) = Inr c"
  obtains H c' where "allocateRun sc c (p * 2 ^ ps) = Inr (H, c')" "runs_inv ps n sc c' [H]" "0 \<le> H" "isUsed H"
    "\<not> isSubpage H" "calculateRunPages H = p"
proof -
  obtain W where W: "runs_inv ps n sc c []" "chunk_inv ps n sc c {W}" "calculateRunPages W = 2 ^ (n - ps)"
    using runs_inv_new [OF assms(1,2), of ar mem psz] c by (metis sum.inject(2))
  obtain i where i: "pages2pageIdx sc p = Inr (int i)" "i < 4 * (n - ps - 1)"
    by (rule ceiling_idx_ok [OF assms(1) p])
  have "i \<le> floor_idx sc (calculateRunPages W)" using i(2) floor_idx_whole [OF assms(1)] by (simp add: W(3))
  then obtain H c' F' where H: "allocateRun sc c (p * 2 ^ ps) = Inr (H, c')" "valid_handle (2 ^ (n - ps)) H"
    using allocateRun_ok [OF W(2) p] i(1) W(3) by auto
  then show ?thesis using runs_inv_alloc [OF W(1) p] valid_handleD(4) [OF H(2)] that by auto
qed

lemma runs_inv_free:
  assumes inv: "runs_inv ps n sc c (A @ H # B)"
  obtains c' where "freeRun sc c H = Inr c'" "runs_inv ps n sc c' (A @ B)"
    "pc_freeBytes c' = pc_freeBytes c + calculateRunPages H * 2 ^ ps"
proof -
  obtain F where F: "chunk_inv ps n sc c F" "live_pages (A @ H # B) \<inter> pages_of F = {}"
    "live_pages (A @ H # B) \<union> pages_of F = {0..<2 ^ (n - ps)}" and V: "valid_handle (2 ^ (n - ps)) H"
    and S: "sorted_wrt run_apart (A @ H # B)" using inv by (auto simp: runs_inv_def)
  have "apart H F" using F(2) by (auto simp: apart_def)
  then obtain c' F' where F': "freeRun sc c H = Inr c'" "chunk_inv ps n sc c' F'" "pages_of F' = rset H \<union> pages_of F"
    "pc_freeBytes c' = pc_freeBytes c + calculateRunPages H * 2 ^ ps"
    using freeRun_ok [OF F(1) V] by metis
  have "rset H \<inter> live_pages (A @ B) = {}"
    using S by (auto simp: sorted_wrt_append all_apart [symmetric] run_apart_sym Int_Un_distrib)
  then have "live_pages (A @ B) \<inter> pages_of F' = {}" "live_pages (A @ B) \<union> pages_of F' = {0..<2 ^ (n - ps)}"
    using F F'(3) by auto
  moreover have "\<forall>G\<in>set (A @ B). valid_handle (2 ^ (n - ps)) G" "sorted_wrt run_apart (A @ B)"
    using inv by (auto simp: runs_inv_def sorted_wrt_append)
  ultimately show ?thesis using runs_invI [OF F'(2)] that F' by blast
qed

lemma run_history_inv:
  assumes "run_history ps n sc c L" "sc_ok ps n sc" "n - ps \<le> 14"
  shows "runs_inv ps n sc c L"
  using assms(1)
proof induction
  case (start ar mem psz c)
  then show ?case using runs_inv_new [OF assms(2,3), of ar mem psz] by (metis sum.inject(2))
next
  case (alloc c L p H c')
  then show ?case using runs_inv_alloc [OF alloc.IH alloc.hyps(2,3)] by auto
next
  case (free c A H B c')
  then show ?case using runs_inv_free [OF free.IH] by (metis sum.inject(2))
qed

lemma runs_inv_bytes:
  assumes "runs_inv ps n sc c L" "sc_ok ps n sc"
  shows "pc_freeBytes c = 2 ^ n - (\<Sum>H\<leftarrow>L. calculateRunSize (int ps) H)"
proof -
  obtain F where F: "chunk_inv ps n sc c F" "live_pages L \<inter> pages_of F = {}"
    "live_pages L \<union> pages_of F = {0..<2 ^ (n - ps)}" using assms(1) by (auto simp: runs_inv_def)
  have V: "\<forall>H\<in>set L. valid_handle (2 ^ (n - ps)) H" "sorted_wrt run_apart L"
    using assms(1) by (simp_all add: runs_inv_def)
  have run: "calculateRunSize (int ps) H = 2 ^ ps * int (card (rset H))" if "valid_handle (2 ^ (n - ps)) H" for H
    using run_bytes(1) [OF assms(2), of "calculateRunPages H"] valid_handleD [OF that] card_rset [OF that]
    by (simp add: calculateRunSize_def)
  have fin: "finite (live_pages L)" "finite (pages_of F)" 
    using F(3) by (metis finite_Un finite_atLeastLessThan_int)+
  have "(\<Sum>H\<leftarrow>L. calculateRunSize (int ps) H) = 2 ^ ps * int (card (live_pages L))"
    using V
  proof (induction L)
    case (Cons H L)
    have "finite (rset G)" for G by (simp add: rset_def)
    then have "finite (live_pages L)" by (simp add: live_pages_def)
    moreover have "rset H \<inter> live_pages L = {}" using Cons.prems(2) by (simp add: all_apart)
    ultimately have "card (live_pages (H # L)) = card (rset H) + card (live_pages L)"
      by (simp add: card_Un_disjoint rset_def)
    then show ?case using Cons run [of H] by (simp add: algebra_simps)
  qed simp
  moreover have "card (live_pages L) + card (pages_of F) = card {0..<(2::int) ^ (n - ps)}"
    using card_Un_disjoint [OF fin F(2)] F(3) by simp
  then have "int (card (live_pages L)) + int (card (pages_of F)) = 2 ^ (n - ps)"
    by (simp flip: of_nat_add)
  then have "2 ^ ps * (int (card (live_pages L)) + int (card (pages_of F))) = 2 ^ ps * 2 ^ (n - ps)" by (rule arg_cong)
  then have "2 ^ ps * int (card (live_pages L)) + 2 ^ ps * int (card (pages_of F)) = 2 ^ n"
    using sc_okD(2) [OF assms(2)] by (simp add: distrib_left flip: power_add)
  ultimately show ?thesis using chunk_invD(2) [OF F(1)] by simp
qed

lemma first_allocation:
  assumes ok: "sc_ok ps n sc" "n - ps \<le> 14" and p: "1 \<le> p" "p \<le> 2 ^ (n - ps)"
  obtains c H where "run_history ps n sc c [H]" "calculateRunPages H = p"
proof -
  obtain c where c: "PoolChunk_new sc 0 None 0 (int ps) (2 ^ n) (m_nPSizes sc) = Inr c"
    using runs_inv_new [OF ok, of 0 None 0] by metis
  obtain H c' where H: "allocateRun sc c (p * 2 ^ ps) = Inr (H, c')" "0 \<le> H" "calculateRunPages H = p"
    by (rule runs_inv_first [OF ok p c])
  have "run_history ps n sc c' [H]" by (rule run_history.alloc [OF run_history.start [OF c] p H(1,2)])
  then show ?thesis using that H(3) by blast
qed

subsection \<open>Properties\<close>

text \<open>
  C1: Runs never overlap and no page is lost: after any sequence of run allocations and releases on a
  chunk of at most \<open>2 ^ 14\<close> pages, the live runs are pairwise disjoint and inside the chunk, and
  \<open>m_freeBytes\<close> is the chunk size less the sizes of the live runs.
\<close>

theorem live_runs_never_overlap:
  assumes "12 \<le> ps" "ps + 2 \<le> n" "n \<le> 29" "n - ps \<le> 14" "SizeClasses_new (2 ^ ps) (int ps) (2 ^ n) = Inr sc"
    and "run_history ps n sc c L"
  shows "sorted_wrt run_apart L \<and> live_pages L \<subseteq> {0..<2 ^ (n - ps)} \<and>
    pc_freeBytes c = 2 ^ n - (\<Sum>H\<leftarrow>L. calculateRunSize (int ps) H)"
proof -
  have ok: "sc_ok ps n sc" by (rule SizeClasses_new_sc_ok [OF assms(1-3,5)])
  note inv = run_history_inv [OF assms(6) ok assms(4)]
  have "live_pages L \<subseteq> {0..<2 ^ (n - ps)}" "sorted_wrt run_apart L" using inv by (auto simp: runs_inv_def)
  then show ?thesis using runs_inv_bytes [OF inv ok] by blast
qed

text \<open>C1 at 8 KiB pages and 16 MiB chunks, after the allocation of a run of 3 pages.\<close>

theorem live_runs_never_overlap_witness:
  "\<exists>sc c H. SizeClasses_new (2 ^ 13) (int 13) (2 ^ 24) = Inr sc \<and> run_history 13 24 sc c [H] \<and>
    calculateRunPages H = 3 \<and> sorted_wrt run_apart [H] \<and> live_pages [H] \<subseteq> {0..<2 ^ 11} \<and>
    pc_freeBytes c = 2 ^ 24 - calculateRunSize 13 H"
proof -
  obtain sc where sc: "SizeClasses_new (2 ^ 13) (int 13) (2 ^ 24) = Inr sc" "sc_ok 13 24 sc"
    using SizeClasses_new_ok [of 13 24] by auto
  obtain c H where h: "run_history 13 24 sc c [H]" "calculateRunPages H = 3"
    using first_allocation [OF sc(2), of 3] by auto
  show ?thesis using live_runs_never_overlap [OF _ _ _ _ sc(1) h(1)] sc(1) h by auto
qed

text \<open>
  C2: \<open>allocateRun\<close> on every branch, for a request of \<open>p\<close> pages: either no free run is in a class that
  surely holds \<open>p\<close> pages, and the answer is -1 with the chunk unchanged; or the answer is the handle of
  a run of exactly \<open>p\<close> pages, marked used, none of them in a live run; or the chunk has every byte free
  in more than one run and the assertion of an empty queue fails.
\<close>

theorem allocateRun_branches:
  assumes "12 \<le> ps" "ps + 2 \<le> n" "n \<le> 29" "n - ps \<le> 14" "SizeClasses_new (2 ^ ps) (int ps) (2 ^ n) = Inr sc"
    and "run_history ps n sc c L" "1 \<le> p" "p \<le> 2 ^ (n - ps)"
  shows "(allocateRun sc c (p * 2 ^ ps) = Inr (- 1, c) \<and>
      (\<forall>k h i j. map_of (pc_runsAvailMap c) k = Some h \<and> pages2pageIdx sc p = Inr i \<and>
         pages2pageIdxFloor sc (calculateRunPages h) = Inr j \<longrightarrow> j < i)) \<or>
    (\<exists>H c'. allocateRun sc c (p * 2 ^ ps) = Inr (H, c') \<and> isUsed H \<and> \<not> isSubpage H \<and>
      calculateRunPages H = p \<and> 0 \<le> calculateRunOffset H \<and> calculateRunOffset H + p \<le> 2 ^ (n - ps) \<and>
      rset H \<inter> live_pages L = {}) \<or>
    (allocateRun sc c (p * 2 ^ ps) = Inl AssertionFailed \<and> pc_freeBytes c = 2 ^ n \<and>
      (\<forall>k h. map_of (pc_runsAvailMap c) k = Some h \<longrightarrow> calculateRunPages h < 2 ^ (n - ps)))"
proof -
  have ok: "sc_ok ps n sc" by (rule SizeClasses_new_sc_ok [OF assms(1-3,5)])
  obtain F where F: "chunk_inv ps n sc c F" "live_pages L \<inter> pages_of F = {}"
    using run_history_inv [OF assms(6) ok assms(4)] by (auto simp: runs_inv_def)
  note D = avail_invD [OF chunk_invD(1) [OF F(1)]]
  have run: "h \<in> F" "calculateRunPages h \<le> 2 ^ (n - ps)" 
    "pages2pageIdxFloor sc (calculateRunPages h) = Inr (int (floor_idx sc (calculateRunPages h)))"
    if "map_of (pc_runsAvailMap c) k = Some h" for k h
  proof -
    show h: "h \<in> F" using D(11) that by blast
    show p: "calculateRunPages h \<le> 2 ^ (n - ps)" using free_handleD(4) [OF D(6) [OF h]] .
    show "pages2pageIdxFloor sc (calculateRunPages h) = Inr (int (floor_idx sc (calculateRunPages h)))"
      by (rule floor_idx_ok(1) [OF ok free_handleD(2) [OF D(6) [OF h]] p])
  qed
  show ?thesis
  proof (cases "pc_freeBytes c = 2 ^ n \<and> (\<forall>h\<in>F. calculateRunPages h \<noteq> 2 ^ (n - ps))")
    case True
    then have "allocateRun sc c (p * 2 ^ ps) = Inl AssertionFailed"
      using allocateRun_unmerged [OF F(1) assms(7,8)] by blast
    moreover have "calculateRunPages h < 2 ^ (n - ps)" if "map_of (pc_runsAvailMap c) k = Some h" for k h
      using run [OF that] True by (simp add: order_less_le)
    ultimately show ?thesis using True by blast
  next
    case False
    then have "pc_freeBytes c = 2 ^ n \<longrightarrow> (\<exists>h\<in>F. calculateRunPages h = 2 ^ (n - ps))" by blast
    from allocateRun_ok [OF F(1) assms(7,8) this] show ?thesis
    proof (elim disjE conjE exE)
      assume r: "allocateRun sc c (p * 2 ^ ps) = Inr (- 1, c)"
        "\<forall>h\<in>F. \<not> (\<exists>i. pages2pageIdx sc p = Inr i \<and> i \<le> int (floor_idx sc (calculateRunPages h)))"
      have "j < i" if "map_of (pc_runsAvailMap c) k = Some h" "pages2pageIdx sc p = Inr i"
        "pages2pageIdxFloor sc (calculateRunPages h) = Inr j" for k h i j
        using r(2) run [OF that(1)] that(2,3) by force
      then show ?thesis using r(1) by blast
    next
      fix H c' F'
      assume r: "allocateRun sc c (p * 2 ^ ps) = Inr (H, c')" "valid_handle (2 ^ (n - ps)) H" "isUsed H"
        "\<not> isSubpage H" "calculateRunPages H = p" "rset H \<subseteq> pages_of F"
      then show ?thesis using valid_handleD [OF r(2)] F(2) by blast
    qed
  qed
qed

text \<open>C2 at the same configuration: a second request, of 2 pages, after one of 3 pages.\<close>

theorem allocateRun_branches_witness:
  "\<exists>sc c G. SizeClasses_new (2 ^ 13) (int 13) (2 ^ 24) = Inr sc \<and> run_history 13 24 sc c [G] \<and>
    calculateRunPages G = 3 \<and>
    ((allocateRun sc c (2 * 2 ^ 13) = Inr (- 1, c) \<and>
      (\<forall>k h i j. map_of (pc_runsAvailMap c) k = Some h \<and> pages2pageIdx sc 2 = Inr i \<and>
         pages2pageIdxFloor sc (calculateRunPages h) = Inr j \<longrightarrow> j < i)) \<or>
    (\<exists>H c'. allocateRun sc c (2 * 2 ^ 13) = Inr (H, c') \<and> isUsed H \<and> \<not> isSubpage H \<and>
      calculateRunPages H = 2 \<and> 0 \<le> calculateRunOffset H \<and> calculateRunOffset H + 2 \<le> 2 ^ (24 - 13) \<and>
      rset H \<inter> live_pages [G] = {}) \<or>
    (allocateRun sc c (2 * 2 ^ 13) = Inl AssertionFailed \<and> pc_freeBytes c = 2 ^ 24 \<and>
      (\<forall>k h. map_of (pc_runsAvailMap c) k = Some h \<longrightarrow> calculateRunPages h < 2 ^ (24 - 13))))"
proof -
  obtain sc where sc: "SizeClasses_new (2 ^ 13) (int 13) (2 ^ 24) = Inr sc" "sc_ok 13 24 sc"
    using SizeClasses_new_ok [of 13 24] by auto
  obtain c G where g: "run_history 13 24 sc c [G]" "calculateRunPages G = 3"
    using first_allocation [OF sc(2), of 3] by auto
  have "(2::int) \<le> 2 ^ (24 - 13)" by simp
  note b = allocateRun_branches [OF _ _ _ _ sc(1) g(1) _ this]
  have "13 + 2 \<le> (24::nat)" "12 \<le> (13::nat)" "24 \<le> (29::nat)" "24 - 13 \<le> (14::nat)" "(1::int) \<le> 2" by simp_all
  note b = b [OF \<open>12 \<le> 13\<close> \<open>13 + 2 \<le> 24\<close> \<open>24 \<le> 29\<close> \<open>24 - 13 \<le> 14\<close> \<open>1 \<le> 2\<close>]
  show ?thesis by (intro exI conjI) (rule sc(1), rule g, rule g, rule b)
qed

text \<open>
  C3: Releasing a live run always succeeds (the merging loops end, no assertion fails): the chunk gets
  back exactly the bytes of the run, and the run now holding its pages has no free page before it.
\<close>

theorem freeRun_succeeds:
  assumes "12 \<le> ps" "ps + 2 \<le> n" "n \<le> 29" "n - ps \<le> 14" "SizeClasses_new (2 ^ ps) (int ps) (2 ^ n) = Inr sc"
    and "run_history ps n sc c L" "H \<in> set L"
  shows "\<exists>c' k R. freeRun sc c H = Inr c' \<and> pc_freeBytes c' = pc_freeBytes c + calculateRunSize (int ps) H \<and>
    map_of (pc_runsAvailMap c') k = Some R \<and> rset H \<subseteq> rset R \<and>
    (\<forall>k' R'. map_of (pc_runsAvailMap c') k' = Some R' \<longrightarrow> calculateRunOffset R - 1 \<notin> rset R')"
proof -
  have ok: "sc_ok ps n sc" by (rule SizeClasses_new_sc_ok [OF assms(1-3,5)])
  obtain F where F: "chunk_inv ps n sc c F" "live_pages L \<inter> pages_of F = {}" and V: "valid_handle (2 ^ (n - ps)) H"
    using run_history_inv [OF assms(6) ok assms(4)] assms(7) by (auto simp: runs_inv_def)
  have "apart H F" using F(2) assms(7) by (auto simp: apart_def live_pages_def)
  then obtain R c' F' where r: "freeRun sc c H = Inr c'" "chunk_inv ps n sc c' F'" "R \<in> F'" "rset H \<subseteq> rset R"
    "calculateRunOffset R - 1 \<notin> pages_of F'" "pc_freeBytes c' = pc_freeBytes c + calculateRunPages H * 2 ^ ps"
    by (rule freeRun_ok [OF F(1) V])
  note D = avail_invD [OF chunk_invD(1) [OF r(2)]]
  have "calculateRunSize (int ps) H = calculateRunPages H * 2 ^ ps"
    using run_bytes(1) [OF ok] valid_handleD [OF V] by (simp add: calculateRunSize_def)
  moreover have "map_of (pc_runsAvailMap c') (calculateRunOffset R) = Some R" using D(11) r(3) by blast
  moreover have "calculateRunOffset R - 1 \<notin> rset R'" if "map_of (pc_runsAvailMap c') k' = Some R'" for k' R'
    using that D(11) r(5) by (auto simp: pages_of_def)
  ultimately show ?thesis using r by metis
qed

text \<open>C3 at the same configuration: the release of a run of 3 pages.\<close>

theorem freeRun_succeeds_witness:
  "\<exists>sc c H. SizeClasses_new (2 ^ 13) (int 13) (2 ^ 24) = Inr sc \<and> run_history 13 24 sc c [H] \<and>
    calculateRunPages H = 3 \<and>
    (\<exists>c' k R. freeRun sc c H = Inr c' \<and> pc_freeBytes c' = pc_freeBytes c + calculateRunSize (int 13) H \<and>
      map_of (pc_runsAvailMap c') k = Some R \<and> rset H \<subseteq> rset R \<and>
      (\<forall>k' R'. map_of (pc_runsAvailMap c') k' = Some R' \<longrightarrow> calculateRunOffset R - 1 \<notin> rset R'))"
proof -
  obtain sc where sc: "SizeClasses_new (2 ^ 13) (int 13) (2 ^ 24) = Inr sc" "sc_ok 13 24 sc"
    using SizeClasses_new_ok [of 13 24] by auto
  obtain c H where h: "run_history 13 24 sc c [H]" "calculateRunPages H = 3"
    using first_allocation [OF sc(2), of 3] by auto
  have "H \<in> set [H]" by simp
  note f = freeRun_succeeds [OF _ _ _ _ sc(1) h(1) this]
  have "13 + 2 \<le> (24::nat)" "12 \<le> (13::nat)" "24 \<le> (29::nat)" "24 - 13 \<le> (14::nat)" by simp_all
  with f sc(1) h show ?thesis by blast
qed

text \<open>
  The chunk does not merge a released run with the free run behind it: on a chunk of four pages of
  4 KiB, allocating one page, releasing it and asking for one page again fails the assertion that the
  queue answered by \<open>runFirstBestFit\<close> is not empty, although every page is free.
\<close>

theorem reallocation_after_release_asserts:
  "bindE (SizeClasses_new 4096 12 16384) (\<lambda>sc.
   bindE (PoolChunk_new sc 0 None 4096 12 16384 (m_nPSizes sc)) (\<lambda>c.
   bindE (allocateRun sc c 4096) (\<lambda>(H, c).
   bindE (freeRun sc c H) (\<lambda>c.
     Inr (pc_freeBytes c, allocateRun sc c 4096))))) = Inr (16384, Inl AssertionFailed)"
  by code_simp

end
