(* ===== verification/Pool_Chunk_List_Laws.thy ===== *)
theory Pool_Chunk_List_Laws
  imports Pool_Chunk_List Pool_Chunk_Runs
begin

section \<open>PoolChunkList: the lists as lists\<close>

text \<open>
  The pointers of \<open>buffer/PoolChunkList.cpp\<close> refine lists of chunks: \<open>add0\<close> puts a chunk in front,
  \<open>remove\<close> takes it out, and nothing else changes. A chunk is filed along the six lists of an arena by
  its free bytes; filing upwards and downwards always ends, in a list whose window holds the bytes.
\<close>

subsection \<open>Doubly linked segments\<close>

primrec chunk_seg :: "PoolChunk store \<Rightarrow> nat \<Rightarrow> nat option \<Rightarrow> nat option \<Rightarrow> nat list \<Rightarrow> nat option \<Rightarrow> bool" where
  "chunk_seg cs a prev cur [] end \<longleftrightarrow> cur = end"
| "chunk_seg cs a prev cur (x # xs) end \<longleftrightarrow> cur = Some x \<and>
     (\<exists>c. cs x = Some c \<and> pc_parent c = Some a \<and> pc_prev c = prev \<and> chunk_seg cs a (Some x) (pc_next c) xs end)"

definition chunk_seg_before :: "nat option \<Rightarrow> nat list \<Rightarrow> nat option" where
  "chunk_seg_before prev xs = (if xs = [] then prev else Some (last xs))"

lemma chunk_seg_append:
  "chunk_seg cs a prev cur (xs @ ys) end \<longleftrightarrow>
     (\<exists>m. chunk_seg cs a prev cur xs m \<and> chunk_seg cs a (chunk_seg_before prev xs) m ys end)"
  by (induction xs arbitrary: prev cur) (auto simp: chunk_seg_before_def)

text \<open>A segment depends on the links of its own chunks only.\<close>

definition same_links :: "PoolChunk \<Rightarrow> PoolChunk \<Rightarrow> bool" where
  "same_links c d \<longleftrightarrow> pc_prev d = pc_prev c \<and> pc_next d = pc_next c \<and> pc_parent d = pc_parent c"

lemma same_links_refl [simp]: "same_links c c"
  by (simp add: same_links_def)

lemma chunk_seg_cong:
  assumes "chunk_seg cs a prev cur xs end"
    and "\<And>x c. x \<in> set xs \<Longrightarrow> cs x = Some c \<Longrightarrow> \<exists>d. ds x = Some d \<and> same_links c d"
  shows "chunk_seg ds a prev cur xs end"
  using assms
proof (induction xs arbitrary: prev cur)
  case (Cons x xs)
  then obtain c where c: "cs x = Some c" "cur = Some x" "pc_parent c = Some a" "pc_prev c = prev"
    "chunk_seg cs a (Some x) (pc_next c) xs end" by auto
  have "chunk_seg ds a (Some x) (pc_next c) xs end" by (rule Cons.IH [OF c(5)]) (use Cons.prems(2) in auto)
  then show ?case using c Cons.prems(2) [of x c] by (auto simp: same_links_def)
qed simp

lemma chunk_seg_upd [simp]: "x \<notin> set xs \<Longrightarrow> chunk_seg cs a prev cur xs end \<Longrightarrow> chunk_seg (cs(x := v)) a prev cur xs end"
  by (erule chunk_seg_cong) auto

lemma chunk_seg_parent: "chunk_seg cs a prev cur xs end \<Longrightarrow> x \<in> set xs \<Longrightarrow> \<exists>c. cs x = Some c \<and> pc_parent c = Some a"
  by (induction xs arbitrary: prev cur) auto

subsection \<open>What relinking keeps\<close>

definition unlinked :: "PoolChunk \<Rightarrow> PoolChunk" where
  "unlinked c = c\<lparr>pc_prev := None, pc_next := None, pc_parent := None\<rparr>"

lemma unlinked_upd [simp]:
  "unlinked (c\<lparr>pc_prev := v\<rparr>) = unlinked c" "unlinked (c\<lparr>pc_next := v\<rparr>) = unlinked c"
  "unlinked (c\<lparr>pc_parent := v\<rparr>) = unlinked c"
  by (simp_all add: unlinked_def)

definition headless :: "PoolChunkList \<Rightarrow> PoolChunkList" where
  "headless l = l\<lparr>cl_head := None\<rparr>"

lemma headless_upd [simp]: "headless (l\<lparr>cl_head := v\<rparr>) = headless l"
  by (simp add: headless_def)

definition relinked :: "Pool \<Rightarrow> Pool \<Rightarrow> bool" where
  "relinked p p' \<longleftrightarrow> p'\<lparr>po_chunks := Map.empty, po_lists := Map.empty\<rparr> = p\<lparr>po_chunks := Map.empty, po_lists := Map.empty\<rparr> \<and>
     (\<forall>x. map_option unlinked (po_chunks p' x) = map_option unlinked (po_chunks p x)) \<and>
     (\<forall>a. map_option headless (po_lists p' a) = map_option headless (po_lists p a))"

lemma relinked_refl [simp]: "relinked p p"
  by (simp add: relinked_def)

lemma relinked_trans: "relinked p q \<Longrightarrow> relinked q s \<Longrightarrow> relinked p s"
  by (simp add: relinked_def)

lemma relinkedD:
  assumes "relinked p p'"
  shows "po_arenas p' = po_arenas p" "po_subpages p' = po_subpages p" "po_caches p' = po_caches p"
    "po_memory p' = po_memory p" "po_next p' = po_next p" "po_threadCache p' = po_threadCache p"
    "map_option unlinked (po_chunks p' x) = map_option unlinked (po_chunks p x)"
    "map_option headless (po_lists p' a) = map_option headless (po_lists p a)"
  using assms by (cases p; cases p'; simp add: relinked_def)+

lemma relinked_put_chunk:
  "po_chunks p x = Some c \<Longrightarrow> unlinked c' = unlinked c \<Longrightarrow> relinked p (put_chunk p x c')"
  by (simp add: relinked_def)

lemma relinked_put_list:
  "po_lists p a = Some l \<Longrightarrow> headless l' = headless l \<Longrightarrow> relinked p (put_list p a l')"
  by (simp add: relinked_def)

subsection \<open>The abstraction\<close>

definition lists_ok :: "Pool \<Rightarrow> (nat \<Rightarrow> nat list) \<Rightarrow> bool" where
  "lists_ok p L \<longleftrightarrow> (\<forall>a. distinct (L a) \<and> (case po_lists p a of
     None \<Rightarrow> L a = [] | Some l \<Rightarrow> chunk_seg (po_chunks p) a None (cl_head l) (L a) None))"

lemma lists_okD:
  assumes "lists_ok p L"
  shows "distinct (L a)" "po_lists p a = Some l \<Longrightarrow> chunk_seg (po_chunks p) a None (cl_head l) (L a) None"
    "po_lists p a = None \<Longrightarrow> L a = []"
  using assms by (auto simp: lists_ok_def split: option.splits dest!: spec [of _ a])

lemma lists_ok_member:
  assumes "lists_ok p L" "x \<in> set (L a)"
  shows "\<exists>l c. po_lists p a = Some l \<and> po_chunks p x = Some c \<and> pc_parent c = Some a"
  using lists_okD [OF assms(1), of a] assms(2) chunk_seg_parent by (cases "po_lists p a") fastforce+

lemma lists_ok_unique: "lists_ok p L \<Longrightarrow> x \<in> set (L a) \<Longrightarrow> x \<in> set (L b) \<Longrightarrow> a = b"
  using lists_ok_member [of p L x a] lists_ok_member [of p L x b] by auto

definition filed :: "(nat \<Rightarrow> nat list) \<Rightarrow> nat \<Rightarrow> bool" where
  "filed L x \<longleftrightarrow> (\<exists>a. x \<in> set (L a))"

text \<open>Changing one list: the segment of that list is shown, the others are framed.\<close>

lemma lists_ok_change:
  assumes ok: "lists_ok p L" and l: "po_lists p' a = Some l'" "chunk_seg (po_chunks p') a None (cl_head l') xs None" "distinct xs"
    and other: "\<And>b. b \<noteq> a \<Longrightarrow> po_lists p' b = po_lists p b"
    and cs: "\<And>b x c. b \<noteq> a \<Longrightarrow> x \<in> set (L b) \<Longrightarrow> po_chunks p x = Some c \<Longrightarrow>
      \<exists>d. po_chunks p' x = Some d \<and> same_links c d"
  shows "lists_ok p' (L(a := xs))"
  unfolding lists_ok_def
proof (intro allI conjI)
  fix b
  show "distinct ((L(a := xs)) b)" using l(3) lists_okD(1) [OF ok] by simp
  show "case po_lists p' b of None \<Rightarrow> (L(a := xs)) b = []
    | Some l \<Rightarrow> chunk_seg (po_chunks p') b None (cl_head l) ((L(a := xs)) b) None"
  proof (cases "b = a")
    case False
    then show ?thesis
      using lists_okD(2,3) [OF ok, of b] other [OF False] chunk_seg_cong [OF _ cs [OF False]]
      by (auto split: option.splits)
  qed (use l in simp)
qed

subsection \<open>Linking and unlinking\<close>

lemma set_prev_ok:
  assumes s: "chunk_seg (po_chunks p) a prev cur ys None" "distinct ys"
  obtains p' where "set_prev p cur q = Inr p'" "chunk_seg (po_chunks p') a q cur ys None"
    "\<And>x. x \<notin> set ys \<Longrightarrow> po_chunks p' x = po_chunks p x" "relinked p p'" "po_lists p' = po_lists p"
proof (cases ys)
  case Nil
  with s that [of p] show ?thesis by (simp add: set_prev_def)
next
  case (Cons y zs)
  with s obtain c where c: "po_chunks p y = Some c" "cur = Some y" "pc_parent c = Some a"
    "chunk_seg (po_chunks p) a (Some y) (pc_next c) zs None" by auto
  let ?p = "put_chunk p y (c\<lparr>pc_prev := q\<rparr>)"
  have "set_prev p cur q = Inr ?p" using c by (simp add: set_prev_def)
  moreover have "chunk_seg (po_chunks ?p) a q cur ys None" using c Cons s(2) by simp
  moreover have "relinked p ?p" by (rule relinked_put_chunk [OF c(1)]) simp
  ultimately show ?thesis using that [of ?p] Cons by auto
qed

lemma add0_ok:
  assumes ok: "lists_ok p L" and l: "po_lists p a = Some l" and x: "po_chunks p x = Some c" "\<not> filed L x"
  obtains p' where "add0 p a x = Inr p'" "lists_ok p' (L(a := x # L a))" "relinked p p'"
proof -
  let ?c = "c\<lparr>pc_parent := Some a, pc_prev := None, pc_next := cl_head l\<rparr>"
  let ?p = "put_chunk p x ?c"
  have new: "x \<notin> set (L b)" for b using x(2) by (simp add: filed_def)
  have s: "chunk_seg (po_chunks ?p) a None (cl_head l) (L a) None" using lists_okD(2) [OF ok l] new by simp
  obtain q where q: "set_prev ?p (cl_head l) (Some x) = Inr q" "chunk_seg (po_chunks q) a (Some x) (cl_head l) (L a) None"
    "\<And>y. y \<notin> set (L a) \<Longrightarrow> po_chunks q y = po_chunks ?p y" "relinked ?p q" "po_lists q = po_lists ?p"
    using set_prev_ok [OF s lists_okD(1) [OF ok]] by metis
  let ?q = "put_list q a (l\<lparr>cl_head := Some x\<rparr>)"
  have "add0 p a x = Inr ?q" using l x(1) q(1) by (simp add: add0_def Let_def)
  moreover have "relinked p ?q"
  proof (rule relinked_trans)
    show "relinked p ?p" by (rule relinked_put_chunk [OF x(1)]) simp
    show "relinked ?p ?q" by (rule relinked_trans [OF q(4) relinked_put_list]) (use l q(5) in simp_all)
  qed
  moreover have "lists_ok ?q (L(a := x # L a))"
  proof (rule lists_ok_change [OF ok])
    show "chunk_seg (po_chunks ?q) a None (cl_head (l\<lparr>cl_head := Some x\<rparr>)) (x # L a) None"
      using q(2) q(3) [of x] new by simp
    fix b y d
    assume b: "b \<noteq> a" and y: "y \<in> set (L b)" "po_chunks p y = Some d"
    then have "y \<notin> set (L a)" "y \<noteq> x" using lists_ok_unique [OF ok] new by auto
    then show "\<exists>d'. po_chunks ?q y = Some d' \<and> same_links d d'" using q(3) y(2) by simp
  qed (use new lists_okD(1) [OF ok] q(5) in simp_all)
  ultimately show ?thesis using that by blast
qed

lemma chunk_seg_set_next:
  assumes "chunk_seg cs a prev cur (xs @ [z]) m" "distinct (xs @ [z])" "cs z = Some d"
  shows "chunk_seg (cs(z \<mapsto> d\<lparr>pc_next := m'\<rparr>)) a prev cur (xs @ [z]) m'"
  using assms by (auto simp: chunk_seg_append)

lemma cl_remove_ok:
  assumes ok: "lists_ok p L" and x: "x \<in> set (L a)"
  obtains p' where "cl_remove p a x = Inr p'" "lists_ok p' (L(a := remove1 x (L a)))" "relinked p p'"
proof -
  obtain l c where l: "po_lists p a = Some l" and c: "po_chunks p x = Some c"
    using lists_ok_member [OF ok x] by blast
  note D = lists_okD [OF ok, of a]
  obtain xs ys where split: "L a = xs @ x # ys" "x \<notin> set xs" using split_list_first [OF x] by blast
  then have rem: "remove1 x (L a) = xs @ ys" by (simp add: remove1_append)
  have dist: "distinct (xs @ x # ys)" using D(1) split(1) by simp
  have s: "chunk_seg (po_chunks p) a None (cl_head l) (xs @ x # ys) None" using D(2) [OF l] split(1) by simp
  have frame: "y \<notin> set (L a)" if "b \<noteq> a" "y \<in> set (L b)" for b y
    using lists_ok_unique [OF ok] that by blast
  show ?thesis
  proof (cases xs rule: rev_cases)
    case Nil
    let ?p = "put_list p a (l\<lparr>cl_head := pc_next c\<rparr>)"
    have h: "cl_head l = Some x" "chunk_seg (po_chunks ?p) a (Some x) (pc_next c) ys None"
      using s Nil c by simp_all
    obtain q where q: "set_prev ?p (pc_next c) None = Inr q" "chunk_seg (po_chunks q) a None (pc_next c) ys None"
      "\<And>y. y \<notin> set ys \<Longrightarrow> po_chunks q y = po_chunks ?p y" "relinked ?p q" "po_lists q = po_lists ?p"
      using set_prev_ok [OF h(2)] dist Nil by (metis append_Nil distinct.simps(2))
    have "cl_remove p a x = Inr q" using l c h(1) q(1) by (simp add: cl_remove_def Let_def)
    moreover have "relinked p q"
      by (rule relinked_trans [OF relinked_put_list [OF l] q(4)]) simp
    moreover have "lists_ok q (L(a := xs @ ys))"
      by (rule lists_ok_change [OF ok, where l' = "l\<lparr>cl_head := pc_next c\<rparr>"])
        (use q(2,3,5) dist Nil frame split(1) in auto)
    ultimately show ?thesis using that rem by simp
  next
    case (snoc us z)
    obtain m d where m: "chunk_seg (po_chunks p) a None (cl_head l) (us @ [z]) m" "m = Some x" "pc_prev c = Some z"
      "chunk_seg (po_chunks p) a (Some x) (pc_next c) ys None" and d: "po_chunks p z = Some d"
      using s c snoc by (auto simp: chunk_seg_append chunk_seg_before_def)
    let ?p = "put_chunk p z (d\<lparr>pc_next := pc_next c\<rparr>)"
    have s1: "chunk_seg (po_chunks ?p) a None (cl_head l) (us @ [z]) (pc_next c)"
      using chunk_seg_set_next [OF m(1) _ d] dist snoc by simp
    have s2: "chunk_seg (po_chunks ?p) a (Some x) (pc_next c) ys None" using m(4) dist snoc by simp
    obtain q where q: "set_prev ?p (pc_next c) (Some z) = Inr q" "chunk_seg (po_chunks q) a (Some z) (pc_next c) ys None"
      "\<And>y. y \<notin> set ys \<Longrightarrow> po_chunks q y = po_chunks ?p y" "relinked ?p q" "po_lists q = po_lists ?p"
      using set_prev_ok [OF s2] dist by (metis distinct.simps(2) distinct_append)
    have "cl_head l \<noteq> Some x" using m(1) snoc split(2) by (cases us) auto
    then have "cl_remove p a x = Inr q" using l c d m(3) q(1) by (simp add: cl_remove_def Let_def)
    moreover have "relinked p q"
      by (rule relinked_trans [OF relinked_put_chunk [OF d] q(4)]) simp
    moreover have "lists_ok q (L(a := xs @ ys))"
    proof (rule lists_ok_change [OF ok])
      have "chunk_seg (po_chunks q) a None (cl_head l) (us @ [z]) (pc_next c)"
      proof (rule chunk_seg_cong [OF s1])
        fix y e
        assume y: "y \<in> set (us @ [z])" "po_chunks ?p y = Some e"
        then have "y \<notin> set ys" using dist snoc by auto
        then show "\<exists>e'. po_chunks q y = Some e' \<and> same_links e e'" using q(3) y(2) by simp
      qed
      then show "chunk_seg (po_chunks q) a None (cl_head l) (xs @ ys) None"
        using q(2) snoc unfolding chunk_seg_append [of _ _ _ _ xs] by (auto simp: chunk_seg_before_def)
      fix b y e
      assume y: "b \<noteq> a" "y \<in> set (L b)" "po_chunks p y = Some e"
      then have "y \<notin> set ys" "y \<noteq> z" using frame [OF y(1,2)] split(1) snoc by auto
      then show "\<exists>e'. po_chunks q y = Some e' \<and> same_links e e'" using q(3) y(3) by simp
    qed (use l q(5) dist in simp_all)
    ultimately show ?thesis using that rem by simp
  qed
qed

subsection \<open>The six lists of an arena\<close>

text \<open>
  \<open>qInit\<close>, \<open>q000\<close>, \<open>q025\<close>, \<open>q050\<close>, \<open>q075\<close> and \<open>q100\<close> in this order, with the usage bounds of the
  constructor of \<open>PoolArena\<close>; \<open>lo\<close> and \<open>hi\<close> are the free bytes below and above which a chunk leaves.
\<close>

definition q_at :: "PoolArena \<Rightarrow> nat \<Rightarrow> nat" where
  "q_at r k = [pa_qInit r, pa_q000 r, pa_q025 r, pa_q050 r, pa_q075 r, pa_q100 r] ! k"

definition min_at :: "nat \<Rightarrow> int" where "min_at k = [- 8192, 1, 25, 50, 75, 100] ! k"
definition max_at :: "nat \<Rightarrow> int" where "max_at k = [25, 50, 75, 100, 100, 8192] ! k"

definition lo :: "int \<Rightarrow> nat \<Rightarrow> int" where
  "lo C k = (if max_at k = 100 then 0 else free_threshold C (max_at k))"

definition hi :: "int \<Rightarrow> nat \<Rightarrow> int" where
  "hi C k = (if min_at k = 100 then 0 else free_threshold C (min_at k))"

definition prev_at :: "PoolArena \<Rightarrow> nat \<Rightarrow> nat option" where
  "prev_at r k = (if k = 0 then Some (q_at r 0) else if k = 1 then None else Some (q_at r (k - 1)))"

definition next_at :: "PoolArena \<Rightarrow> nat \<Rightarrow> nat option" where
  "next_at r k = (if k = 5 then None else Some (q_at r (Suc k)))"

definition list_at :: "nat \<Rightarrow> PoolArena \<Rightarrow> int \<Rightarrow> nat \<Rightarrow> PoolChunkList" where
  "list_at this r C k = \<lparr>cl_arena = this, cl_prevList = prev_at r k, cl_nextList = next_at r k,
     cl_minUsage = min_at k, cl_maxUsage = max_at k, cl_maxCapacity = calculateMaxCapacity (min_at k) C,
     cl_head = None, cl_freeMinThreshold = lo C k, cl_freeMaxThreshold = hi C k\<rparr>"

definition six_lists :: "Pool \<Rightarrow> nat \<Rightarrow> PoolArena \<Rightarrow> int \<Rightarrow> bool" where
  "six_lists p this r C \<longleftrightarrow> inj_on (q_at r) {..<6} \<and>
     (\<forall>k<6. map_option headless (po_lists p (q_at r k)) = Some (list_at this r C k))"

lemma six_listsD:
  assumes "six_lists p this r C" "k < 6"
  obtains l where "po_lists p (q_at r k) = Some l" "cl_arena l = this" "cl_prevList l = prev_at r k"
    "cl_nextList l = next_at r k" "cl_maxUsage l = max_at k" "cl_freeMinThreshold l = lo C k"
    "cl_freeMaxThreshold l = hi C k" "cl_maxCapacity l = calculateMaxCapacity (min_at k) C"
proof -
  obtain l where l: "po_lists p (q_at r k) = Some l" "headless l = list_at this r C k"
    using assms by (auto simp: six_lists_def)
  then show ?thesis using that [of l] by (cases l) (simp add: headless_def list_at_def)
qed

lemma six_lists_relinked: "relinked p p' \<Longrightarrow> six_lists p' this r C = six_lists p this r C"
  by (simp add: six_lists_def relinkedD(8))

lemma less_6_cases: "k < 6 \<longleftrightarrow> k = 0 \<or> k = 1 \<or> k = 2 \<or> k = 3 \<or> k = 4 \<or> k = (5::nat)"
  by auto

lemma free_threshold_div:
  "0 \<le> C \<Longrightarrow> u \<le> 100 \<Longrightarrow> free_threshold C u = C * (10099999999 - 100000000 * u) div 10000000000"
  by (cases "C = 0") (simp_all add: free_threshold_def signed_divide_int_def sgn_mult)

lemma windows:
  assumes C: "4096 \<le> C" "C \<le> 1000000000"
  shows "k < 5 \<Longrightarrow> lo C k \<le> hi C (Suc k)" "lo C 5 < 0" "C \<le> hi C 0" "hi C 1 = C - 1"
    "k < 5 \<Longrightarrow> 0 \<le> lo C k" "1 \<le> k \<Longrightarrow> k < 6 \<Longrightarrow> hi C k < C"
proof -
  have "free_threshold C 8192 = - (C * 809100000001 div 10000000000)"
    using C by (simp add: free_threshold_def signed_divide_int_def sgn_mult abs_mult)
  then show "lo C 5 < 0" using C by (simp add: lo_def max_at_def)
  show "lo C k \<le> hi C (Suc k)" if "k < 5"
  proof -
    have "max_at k = 100 \<and> min_at (Suc k) = 100 \<or> max_at k = 100 \<and> min_at (Suc k) = 75 \<or>
        min_at (Suc k) \<le> max_at k \<and> max_at k < 100"
      using that by (auto simp: max_at_def min_at_def less_Suc_eq numeral_eq_Suc)
    then show ?thesis using C by (auto simp: lo_def hi_def free_threshold_div intro!: zdiv_mono1 pos_imp_zdiv_nonneg_iff [THEN iffD2])
  qed
  show "C \<le> hi C 0" "hi C 1 = C - 1" using C by (simp_all add: hi_def min_at_def free_threshold_div) 
  show "0 \<le> lo C k" if "k < 5"
  proof -
    have "max_at k \<le> 100" using that by (auto simp: max_at_def less_Suc_eq numeral_eq_Suc)
    then show ?thesis using C by (simp add: lo_def free_threshold_div pos_imp_zdiv_nonneg_iff)
  qed
  show "hi C k < C" if "1 \<le> k" "k < 6"
  proof -
    have u: "1 \<le> min_at k" "min_at k \<le> 100" using that by (auto simp: min_at_def less_Suc_eq numeral_eq_Suc)
    have "C * (10099999999 - 100000000 * min_at k) \<le> C * 9999999999" using C u by (intro mult_left_mono) simp_all
    then have "C * (10099999999 - 100000000 * min_at k) div 10000000000 \<le> C * 9999999999 div 10000000000"
      by (rule zdiv_mono1) simp
    then show ?thesis using C u \<open>hi C 1 = C - 1\<close> by (simp add: hi_def free_threshold_div min_at_def)
  qed
qed

lemma free_above:
  assumes C: "4096 \<le> C" and u: "0 \<le> u" "u \<le> 100" and f: "free_threshold C u < f"
  shows "C * (100 - u) < f * 100"
proof -
  let ?X = "C * (10099999999 - 100000000 * u)"
  have "?X < (?X div 10000000000 + 1) * 10000000000" by (rule div_window(2)) simp
  also have "\<dots> \<le> f * 10000000000" using f free_threshold_div [of C u] C u by simp
  finally have "C * (10099999999 - 100000000 * u) < f * 10000000000" .
  moreover have "C * (10000000000 - 100000000 * u) \<le> C * (10099999999 - 100000000 * u)" using C by (intro mult_left_mono) simp_all
  ultimately have "C * (10000000000 - 100000000 * u) < f * 10000000000" by linarith
  moreover have "C * (10000000000 - 100000000 * u) = 100000000 * (C * (100 - u))" by (simp add: algebra_simps)
  ultimately show ?thesis by simp
qed

lemma usage_bound:
  assumes C: "4096 \<le> C" "C \<le> 1000000000" and c: "pc_chunkSize c = C" "0 < pc_freeBytes c" "pc_freeBytes c \<le> C"
  shows "usage c < 100" "0 \<le> u \<Longrightarrow> u \<le> 99 \<Longrightarrow> C * (100 - u) < pc_freeBytes c * 100 \<Longrightarrow> usage c \<le> u"
    "usage c = 0 \<longleftrightarrow> pc_freeBytes c = C"
proof -
  let ?f = "pc_freeBytes c"
  let ?d = "?f * 100 div C"
  have d: "0 \<le> ?d" "?d \<le> 100" using C c(2,3) zdiv_mono1 [of "?f * 100" "C * 100" C] 
    by (simp_all add: pos_imp_zdiv_nonneg_iff)
  have "i64 (?f * 100) = ?f * 100" using C c by (intro i64_id) simp_all
  moreover have "i32 ?d = ?d" using d by (intro i32_id) simp_all
  moreover have "(?f * 100) sdiv C = ?d" using C c by (simp add: signed_divide_int_def sgn_mult)
  ultimately have us: "usage c = (if ?d = 0 then 99 else 100 - ?d)" using c by (simp add: usage_def)
  show "usage c < 100" using us d by auto
  show "usage c \<le> u" if u: "0 \<le> u" "u \<le> 99" "C * (100 - u) < ?f * 100"
  proof -
    have "(100 - u) * C div C \<le> ?d" by (rule zdiv_mono1) (use C u in \<open>simp_all add: mult.commute\<close>)
    then show ?thesis using us u C by simp
  qed
  show "usage c = 0 \<longleftrightarrow> ?f = C"
  proof
    assume "usage c = 0"
    then have "?d = 100" using us by (auto split: if_splits)
    then have "100 * C \<le> ?f * 100" using div_window(1) [of C "?f * 100"] C by simp
    then show "?f = C" using c(3) by simp
  next
    assume "?f = C"
    then have "?d = 100" using C by simp
    then show "usage c = 0" using us by simp
  qed
qed

text \<open>A chunk too empty for a list passes the usage assertion of the list before it.\<close>

lemma usage_previous:
  assumes C: "4096 \<le> C" "C \<le> 1000000000" and c: "pc_chunkSize c = C" "pc_freeBytes c \<le> C"
    and k: "1 \<le> k" "k < 5" and f: "hi C (Suc k) < pc_freeBytes c"
  shows "usage c < max_at k" "0 < pc_freeBytes c"
proof -
  have "0 \<le> hi C (Suc k)" using windows(1,5) [OF C, of k] k by simp
  then show pos: "0 < pc_freeBytes c" using f by simp
  note U = usage_bound [OF C c(1) pos c(2)]
  consider "max_at k = 100" | "k = 1" | "k = 2" using k by (auto simp: max_at_def less_Suc_eq numeral_eq_Suc)
  then show "usage c < max_at k"
  proof cases
    case 2
    then show ?thesis using U(2) [of 25] free_above [OF C(1), of 25] f by (simp add: hi_def min_at_def max_at_def)
  next
    case 3
    then show ?thesis using U(2) [of 50] free_above [OF C(1), of 50] f by (simp add: hi_def min_at_def max_at_def)
  qed (use U(1) in simp)
qed

subsection \<open>Filing a chunk\<close>

text \<open>What both loops share: the chunk is in front of list \<open>j\<close>, and only links have changed.\<close>

definition filed_in :: "Pool \<Rightarrow> (nat \<Rightarrow> nat list) \<Rightarrow> PoolArena \<Rightarrow> nat \<Rightarrow> nat \<Rightarrow> Pool \<Rightarrow> bool" where
  "filed_in p L r x j p' \<longleftrightarrow> lists_ok p' (L(q_at r j := x # L (q_at r j))) \<and> relinked p p'"

lemma add_from_ok:
  assumes ok: "lists_ok p L" "six_lists p this r C" and C: "4096 \<le> C" "C \<le> 1000000000"
    and x: "po_chunks p x = Some c" "\<not> filed L x" "0 \<le> pc_freeBytes c"
    and k: "k < 6" "5 < k + fuel"
  shows "\<exists>j p'. add_from fuel p (q_at r k) x = Inr p' \<and> k \<le> j \<and> j < 6 \<and> lo C j < pc_freeBytes c \<and>
    (\<forall>i. k \<le> i \<and> i < j \<longrightarrow> pc_freeBytes c \<le> lo C i) \<and> filed_in p L r x j p'"
  using k
proof (induction fuel arbitrary: k)
  case (Suc fuel)
  obtain l where l: "po_lists p (q_at r k) = Some l" "cl_nextList l = next_at r k" "cl_freeMinThreshold l = lo C k"
    using six_listsD [OF ok(2) Suc.prems(1)] by metis
  show ?case
  proof (cases "pc_freeBytes c \<le> lo C k")
    case True
    then have "k \<noteq> 5" using windows(2) [OF C] x(3) by auto
    then have k: "Suc k < 6" "5 < Suc k + fuel" "next_at r k = Some (q_at r (Suc k))"
      using Suc.prems by (simp_all add: next_at_def)
    from Suc.IH [OF k(1,2)] obtain j p' where j: "add_from fuel p (q_at r (Suc k)) x = Inr p'" "Suc k \<le> j" "j < 6"
      "lo C j < pc_freeBytes c" "\<forall>i. Suc k \<le> i \<and> i < j \<longrightarrow> pc_freeBytes c \<le> lo C i" "filed_in p L r x j p'" by blast
    have "\<forall>i. k \<le> i \<and> i < j \<longrightarrow> pc_freeBytes c \<le> lo C i" using j(5) True by (metis Suc_leI le_neq_implies_less)
    moreover have "add_from (Suc fuel) p (q_at r k) x = Inr p'" using True l x(1) j(1) k(3) by simp
    ultimately show ?thesis using j by (meson Suc_leD)
  next
    case False
    obtain p' where "add0 p (q_at r k) x = Inr p'" "lists_ok p' (L(q_at r k := x # L (q_at r k)))" "relinked p p'"
      by (rule add0_ok [OF ok(1) l(1) x(1,2)])
    then show ?thesis using False l x(1) Suc.prems by (intro exI [of _ k] exI [of _ p']) (auto simp: filed_in_def)
  qed
qed simp

lemma move_from_ok:
  assumes ok: "lists_ok p L" "six_lists p this r C" and C: "4096 \<le> C" "C \<le> 1000000000"
    and x: "po_chunks p x = Some c" "\<not> filed L x" "pc_chunkSize c = C" "pc_freeBytes c \<le> C"
    and k: "1 \<le> k" "k < 5" "k \<le> fuel" "hi C (Suc k) < pc_freeBytes c"
  shows "\<exists>p'. move_from fuel p (q_at r k) x = Inr (pc_freeBytes c < C, p') \<and>
    (if pc_freeBytes c < C
     then \<exists>j. 1 \<le> j \<and> j \<le> k \<and> pc_freeBytes c \<le> hi C j \<and> (\<forall>i. j < i \<and> i \<le> Suc k \<longrightarrow> hi C i < pc_freeBytes c) \<and>
            filed_in p L r x j p'
     else p' = p)"
  using k
proof (induction fuel arbitrary: k)
  case (Suc fuel)
  have "k < 6" using Suc.prems(2) by simp
  then obtain l where l: "po_lists p (q_at r k) = Some l" "cl_prevList l = prev_at r k" "cl_maxUsage l = max_at k"
    "cl_freeMaxThreshold l = hi C k"
    using six_listsD [OF ok(2)] by metis
  note u = usage_previous [OF C x(3,4) Suc.prems(1,2,4)]
  show ?case
  proof (cases "hi C k < pc_freeBytes c")
    case True
    show ?thesis
    proof (cases "k = 1")
      case True
      then have "pc_freeBytes c = C" using windows(4) [OF C] x(4) \<open>hi C k < _\<close> by simp
      moreover have "usage c = 0" using usage_bound(3) [OF C x(3) u(2) x(4)] calculation by simp
      ultimately show ?thesis using l x(1) u(1) True \<open>hi C k < _\<close> by (auto simp: prev_at_def)
    next
      case False
      then have k: "1 \<le> k - 1" "k - 1 < 5" "k - 1 \<le> fuel" "Suc (k - 1) = k" "prev_at r k = Some (q_at r (k - 1))"
        using Suc.prems by (simp_all add: prev_at_def)
      from Suc.IH [OF k(1-3), unfolded k(4), OF True] obtain p' where
        m: "move_from fuel p (q_at r (k - 1)) x = Inr (pc_freeBytes c < C, p')" and
        post: "if pc_freeBytes c < C
          then \<exists>j. 1 \<le> j \<and> j \<le> k - 1 \<and> pc_freeBytes c \<le> hi C j \<and> (\<forall>i. j < i \<and> i \<le> k \<longrightarrow> hi C i < pc_freeBytes c) \<and>
            filed_in p L r x j p'
          else p' = p" by blast
      have "move_from (Suc fuel) p (q_at r k) x = Inr (pc_freeBytes c < C, p')"
        using l x(1) u(1) True k(5) m by simp
      moreover have "hi C i < pc_freeBytes c" if "\<forall>i. j < i \<and> i \<le> k \<longrightarrow> hi C i < pc_freeBytes c" "j < i" "i \<le> Suc k" for i j
        using that Suc.prems(4) by (cases "i = Suc k") auto
      moreover have "j \<le> k - 1 \<Longrightarrow> j \<le> k" for j by simp
      ultimately show ?thesis using post by (metis (no_types, lifting))
    qed
  next
    case False
    obtain p' where p': "add0 p (q_at r k) x = Inr p'" "lists_ok p' (L(q_at r k := x # L (q_at r k)))" "relinked p p'"
      by (rule add0_ok [OF ok(1) l(1) x(1,2)])
    have "hi C k < C" by (rule windows(6) [OF C Suc.prems(1) \<open>k < 6\<close>])
    then have "pc_freeBytes c < C" using False by simp
    moreover have "\<forall>i. k < i \<and> i \<le> Suc k \<longrightarrow> hi C i < pc_freeBytes c" using Suc.prems(4) by (auto simp: le_Suc_eq)
    ultimately show ?thesis using False l x(1) u(1) p' Suc.prems(1) 
      by (intro exI [of _ p']) (auto simp: filed_in_def intro!: exI [of _ k])
  qed
qed simp

end
