(* ===== verification/Pool_Thread_Cache.thy ===== *)
theory Pool_Thread_Cache
  imports Pool_Chunk_List MathUtil
begin

section \<open>PoolThreadCache: freed memory kept by a thread\<close>

text \<open>
  \<open>buffer/PoolThreadCache.h\<close> and \<open>buffer/PoolThreadCache.cpp\<close>: per size class a queue of freed regions
  that the thread reuses before it asks the arena. Regions go back to the arena when the cache is
  trimmed or freed, through \<open>PoolArena::freeChunk\<close>, which is therefore modelled here, with
  \<open>DefaultArena::destroyChunk\<close>.
\<close>

subsection \<open>Giving a region back to its arena\<close>

text \<open>\<open>delete chunk\<close>: the destructor deletes the memory and the subpages.\<close>

definition destroyChunk :: "Pool \<Rightarrow> nat \<Rightarrow> Pool result" where
  "destroyChunk p chunk =
     bindE (load (po_chunks p) chunk) (\<lambda>c.
     let mem = (case pc_memory c of None \<Rightarrow> po_memory p | Some m \<Rightarrow> (po_memory p)(m := None));
         sps = fold (\<lambda>sp h. case sp of None \<Rightarrow> h | Some a \<Rightarrow> h(a := None)) (pc_subpages c) (po_subpages p)
     in Inr (p\<lparr>po_chunks := (po_chunks p)(chunk := None), po_memory := mem, po_subpages := sps\<rparr>))"

definition freeChunk ::
  "Pool \<Rightarrow> nat \<Rightarrow> nat \<Rightarrow> int \<Rightarrow> int \<Rightarrow> SizeClassType \<Rightarrow> (nat \<times> int) option \<Rightarrow> bool \<Rightarrow> Pool result" where
  "freeChunk p this chunk handle normCapacity cls buffer finalizer =
     bindE (load (po_arenas p) this) (\<lambda>r.
     let r = (if finalizer then r
              else case cls of
                     NORMAL \<Rightarrow> r\<lparr>pa_deallocationsNormal := i64 (pa_deallocationsNormal r + 1)\<rparr>
                   | SMALL \<Rightarrow> r\<lparr>pa_deallocationsSmall := i64 (pa_deallocationsSmall r + 1)\<rparr>);
         p = put_arena p this r
     in bindE (load (po_chunks p) chunk) (\<lambda>c.
     bindE (deref (pc_parent c)) (\<lambda>parent.
     bindE (cl_free p parent chunk handle normCapacity buffer) (\<lambda>(kept, p).
       if \<not> kept then destroyChunk p chunk else Inr p))))"

subsection \<open>MemoryRegionCache\<close>

definition MemoryRegionCache_new :: "int \<Rightarrow> SizeClassType \<Rightarrow> MemoryRegionCache" where
  "MemoryRegionCache_new size' cls =
     \<lparr>mr_size = nextPowerofTwo size', mr_sizeClassType = cls, mr_allocations = 0, mr_queue = []\<rparr>"

definition newEntry :: "nat \<Rightarrow> (nat \<times> int) option \<Rightarrow> int \<Rightarrow> int \<Rightarrow> Entry" where
  "newEntry chunk buffer handle normCapacity =
     \<lparr>en_chunk = chunk, en_buffer = buffer, en_handle = handle, en_normCapacity = normCapacity\<rparr>"

definition mr_add :: "MemoryRegionCache \<Rightarrow> nat \<Rightarrow> (nat \<times> int) option \<Rightarrow> int \<Rightarrow> int \<Rightarrow> bool \<times> MemoryRegionCache" where
  "mr_add m chunk buffer handle normCapacity =
     (True, m\<lparr>mr_queue := mr_queue m @ [newEntry chunk buffer handle normCapacity]\<rparr>)"

text \<open>\<open>initBuf\<close> of the two subclasses.\<close>

definition mr_initBuf ::
  "Pool \<Rightarrow> SizeClassType \<Rightarrow> Entry \<Rightarrow> PooledByteBuf \<Rightarrow> int \<Rightarrow> nat option \<Rightarrow> PooledByteBuf result" where
  "mr_initBuf p cls e buf reqCapacity threadCache =
     (case cls of
        SMALL \<Rightarrow> chunk_initBufWithSubpage p (en_chunk e) buf (en_buffer e) (en_handle e) reqCapacity threadCache
      | NORMAL \<Rightarrow> chunk_initBuf p (en_chunk e) buf (en_buffer e) (en_handle e) reqCapacity threadCache)"

definition mr_allocate ::
  "Pool \<Rightarrow> MemoryRegionCache \<Rightarrow> PooledByteBuf \<Rightarrow> int \<Rightarrow> nat option
   \<Rightarrow> (bool \<times> PooledByteBuf \<times> MemoryRegionCache) result" where
  "mr_allocate p m buf reqCapacity threadCache =
     (case mr_queue m of
        [] \<Rightarrow> Inr (False, buf, m)
      | e # q \<Rightarrow>
          bindE (mr_initBuf p (mr_sizeClassType m) e buf reqCapacity threadCache) (\<lambda>buf.
            Inr (True, buf, m\<lparr>mr_queue := q, mr_allocations := i32 (mr_allocations m + 1)\<rparr>)))"

definition freeEntry :: "Pool \<Rightarrow> SizeClassType \<Rightarrow> Entry \<Rightarrow> bool \<Rightarrow> Pool result" where
  "freeEntry p cls e finalizer =
     bindE (load (po_chunks p) (en_chunk e)) (\<lambda>c.
       freeChunk p (pc_arena c) (en_chunk e) (en_handle e) (en_normCapacity e) cls (en_buffer e) finalizer)"

fun mr_free_loop ::
  "Pool \<Rightarrow> SizeClassType \<Rightarrow> Entry list \<Rightarrow> int \<Rightarrow> int \<Rightarrow> bool \<Rightarrow> (int \<times> Entry list \<times> Pool) result" where
  "mr_free_loop p cls [] numFreed max' finalizer = Inr (numFreed, [], p)"
| "mr_free_loop p cls (e # q) numFreed max' finalizer =
     (if numFreed < max' then
        bindE (freeEntry p cls e finalizer) (\<lambda>p.
          mr_free_loop p cls q (numFreed + 1) max' finalizer)
      else Inr (numFreed, e # q, p))"

definition mr_free_max :: "Pool \<Rightarrow> MemoryRegionCache \<Rightarrow> int \<Rightarrow> bool \<Rightarrow> (int \<times> MemoryRegionCache \<times> Pool) result" where
  "mr_free_max p m max' finalizer =
     bindE (mr_free_loop p (mr_sizeClassType m) (mr_queue m) 0 max' finalizer) (\<lambda>(n, q, p).
       Inr (n, m\<lparr>mr_queue := q\<rparr>, p))"

definition mr_free :: "Pool \<Rightarrow> MemoryRegionCache \<Rightarrow> bool \<Rightarrow> (int \<times> MemoryRegionCache \<times> Pool) result" where
  "mr_free p m finalizer = mr_free_max p m INT_MAX finalizer"

definition mr_trim :: "Pool \<Rightarrow> MemoryRegionCache \<Rightarrow> (MemoryRegionCache \<times> Pool) result" where
  "mr_trim p m =
     (let toFreeNum = i32 (mr_size m - mr_allocations m);
          m = m\<lparr>mr_allocations := 0\<rparr>
      in if toFreeNum > 0
         then bindE (mr_free_max p m toFreeNum False) (\<lambda>(n, m, p). Inr (m, p))
         else Inr (m, p))"

subsection \<open>Construction\<close>

definition createSubPageCaches :: "int \<Rightarrow> int \<Rightarrow> MemoryRegionCache list" where
  "createSubPageCaches cacheSize numCaches =
     (if cacheSize > 0 \<and> numCaches > 0
      then replicate (nat numCaches) (MemoryRegionCache_new cacheSize SMALL) else [])"

function createNormalCaches_from :: "SizeClasses \<Rightarrow> int \<Rightarrow> int \<Rightarrow> int \<Rightarrow> MemoryRegionCache list result" where
  "createNormalCaches_from sc cacheSize maxSize i =
     (if i < m_nSizes sc then
        bindE (sizeIdx2size sc i) (\<lambda>s.
          if s \<le> maxSize then
            bindE (createNormalCaches_from sc cacheSize maxSize (i + 1)) (\<lambda>ms.
              Inr (MemoryRegionCache_new cacheSize NORMAL # ms))
          else Inr [])
      else Inr [])"
  by pat_completeness auto
termination
  by (relation "measure (\<lambda>(sc, cacheSize, maxSize, i). nat (m_nSizes sc - i))") auto

declare createNormalCaches_from.simps [simp del]

definition createNormalCaches :: "int \<Rightarrow> int \<Rightarrow> PoolArena \<Rightarrow> MemoryRegionCache list result" where
  "createNormalCaches cacheSize maxCachedBufferCapacity area =
     (if cacheSize > 0 \<and> maxCachedBufferCapacity > 0 then
        let maxSize = min (m_chunkSize (pa_sizes area)) maxCachedBufferCapacity
        in createNormalCaches_from (pa_sizes area) cacheSize maxSize (pa_numSmallSubpagePools area)
      else Inr [])"

definition PoolThreadCache_new ::
  "Pool \<Rightarrow> nat option \<Rightarrow> int \<Rightarrow> int \<Rightarrow> int \<Rightarrow> int \<Rightarrow> (PoolThreadCache \<times> Pool) result" where
  "PoolThreadCache_new p arena smallCacheSize normalCacheSize maxCachedBufferCapacity threshold =
     bindE (assertE (maxCachedBufferCapacity \<ge> 0)) (\<lambda>_.
     bindE (case arena of
              None \<Rightarrow> Inr ([], [], p)
            | Some a \<Rightarrow>
                bindE (load (po_arenas p) a) (\<lambda>r.
                bindE (createNormalCaches normalCacheSize maxCachedBufferCapacity r) (\<lambda>normal.
                  Inr (createSubPageCaches smallCacheSize (pa_numSmallSubpagePools r), normal,
                       put_arena p a (r\<lparr>pa_numThreadCaches := i32 (pa_numThreadCaches r + 1)\<rparr>)))))
       (\<lambda>(small, normal, p).
          if (small \<noteq> [] \<or> normal \<noteq> []) \<and> threshold < 1 then Inl StdException
          else Inr (\<lparr>tc_smallSubPageCaches = small, tc_normalCaches = normal, tc_toFree = False,
                     tc_allocations = 0, tc_freeSweepAllocationThreshold = threshold, tc_arena = arena\<rparr>, p)))"

subsection \<open>Operations of the thread cache\<close>

text \<open>
  A cache is found by its index in one of the two vectors; \<open>cache\<close> answers \<open>nullptr\<close> outside them (a
  negative index compares as a huge unsigned number).
\<close>

definition cache :: "MemoryRegionCache list \<Rightarrow> int \<Rightarrow> nat option" where
  "cache caches sizeIdx =
     (if caches = [] \<or> sizeIdx < 0 \<or> sizeIdx > int (length caches) - 1 then None else Some (nat sizeIdx))"

definition cacheForSmall :: "PoolThreadCache \<Rightarrow> int \<Rightarrow> (SizeClassType \<times> nat) option" where
  "cacheForSmall t sizeIdx = map_option (Pair SMALL) (cache (tc_smallSubPageCaches t) sizeIdx)"

definition cacheForNormal :: "PoolThreadCache \<Rightarrow> PoolArena \<Rightarrow> int \<Rightarrow> (SizeClassType \<times> nat) option" where
  "cacheForNormal t area sizeIdx =
     map_option (Pair NORMAL) (cache (tc_normalCaches t) (i32 (sizeIdx - pa_numSmallSubpagePools area)))"

definition genCache :: "PoolThreadCache \<Rightarrow> PoolArena \<Rightarrow> int \<Rightarrow> SizeClassType \<Rightarrow> (SizeClassType \<times> nat) option" where
  "genCache t area sizeIdx cls =
     (case cls of NORMAL \<Rightarrow> cacheForNormal t area sizeIdx | SMALL \<Rightarrow> cacheForSmall t sizeIdx)"

definition region :: "PoolThreadCache \<Rightarrow> SizeClassType \<times> nat \<Rightarrow> MemoryRegionCache result" where
  "region t k = (case k of
       (SMALL, i) \<Rightarrow> getN (tc_smallSubPageCaches t) i
     | (NORMAL, i) \<Rightarrow> getN (tc_normalCaches t) i)"

definition put_region :: "PoolThreadCache \<Rightarrow> SizeClassType \<times> nat \<Rightarrow> MemoryRegionCache \<Rightarrow> PoolThreadCache" where
  "put_region t k m = (case k of
       (SMALL, i) \<Rightarrow> t\<lparr>tc_smallSubPageCaches := (tc_smallSubPageCaches t)[i := m]\<rparr>
     | (NORMAL, i) \<Rightarrow> t\<lparr>tc_normalCaches := (tc_normalCaches t)[i := m]\<rparr>)"

primrec trim_caches :: "MemoryRegionCache list \<Rightarrow> Pool \<Rightarrow> (MemoryRegionCache list \<times> Pool) result" where
  "trim_caches [] p = Inr ([], p)"
| "trim_caches (m # ms) p =
     bindE (mr_trim p m) (\<lambda>(m, p).
     bindE (trim_caches ms p) (\<lambda>(ms, p). Inr (m # ms, p)))"

definition trim :: "PoolThreadCache \<Rightarrow> Pool \<Rightarrow> (PoolThreadCache \<times> Pool) result" where
  "trim t p =
     bindE (trim_caches (tc_smallSubPageCaches t) p) (\<lambda>(small, p).
     bindE (trim_caches (tc_normalCaches t) p) (\<lambda>(normal, p).
       Inr (t\<lparr>tc_smallSubPageCaches := small, tc_normalCaches := normal\<rparr>, p)))"

definition tc_allocate ::
  "Pool \<Rightarrow> nat \<Rightarrow> (SizeClassType \<times> nat) option \<Rightarrow> PooledByteBuf \<Rightarrow> int \<Rightarrow> (bool \<times> PooledByteBuf \<times> Pool) result" where
  "tc_allocate p this k buf reqCapacity =
     (case k of
        None \<Rightarrow> Inr (False, buf, p)
      | Some k \<Rightarrow>
          bindE (load (po_caches p) this) (\<lambda>t.
          bindE (region t k) (\<lambda>m.
          bindE (mr_allocate p m buf reqCapacity (Some this)) (\<lambda>(allocated, buf, m).
          let t = put_region t k m;
              n = i32 (tc_allocations t + 1)
          in bindE (if n \<ge> tc_freeSweepAllocationThreshold t then trim (t\<lparr>tc_allocations := 0\<rparr>) p
                    else Inr (t\<lparr>tc_allocations := n\<rparr>, p)) (\<lambda>(t, p).
               Inr (allocated, buf, put_cache p this t))))))"

definition tc_allocateSmall :: "Pool \<Rightarrow> nat \<Rightarrow> PooledByteBuf \<Rightarrow> int \<Rightarrow> int \<Rightarrow> (bool \<times> PooledByteBuf \<times> Pool) result" where
  "tc_allocateSmall p this buf reqCapacity sizeIdx =
     bindE (load (po_caches p) this) (\<lambda>t. tc_allocate p this (cacheForSmall t sizeIdx) buf reqCapacity)"

definition tc_allocateNormal ::
  "Pool \<Rightarrow> nat \<Rightarrow> PoolArena \<Rightarrow> PooledByteBuf \<Rightarrow> int \<Rightarrow> int \<Rightarrow> (bool \<times> PooledByteBuf \<times> Pool) result" where
  "tc_allocateNormal p this area buf reqCapacity sizeIdx =
     bindE (load (po_caches p) this) (\<lambda>t. tc_allocate p this (cacheForNormal t area sizeIdx) buf reqCapacity)"

definition tc_add ::
  "Pool \<Rightarrow> nat \<Rightarrow> PoolArena \<Rightarrow> nat \<Rightarrow> (nat \<times> int) option \<Rightarrow> int \<Rightarrow> int \<Rightarrow> SizeClassType \<Rightarrow> (bool \<times> Pool) result" where
  "tc_add p this area chunk buffer handle normCapacity cls =
     bindE (size2SizeIdx (pa_sizes area) normCapacity) (\<lambda>sizeIdx.
     bindE (load (po_caches p) this) (\<lambda>t.
     case genCache t area sizeIdx cls of
       None \<Rightarrow> Inr (False, p)
     | Some k \<Rightarrow>
         bindE (region t k) (\<lambda>m.
         let (ok, m) = mr_add m chunk buffer handle normCapacity
         in Inr (ok, put_cache p this (put_region t k m)))))"

primrec free_caches :: "MemoryRegionCache list \<Rightarrow> bool \<Rightarrow> Pool \<Rightarrow> (int \<times> MemoryRegionCache list \<times> Pool) result" where
  "free_caches [] finalizer p = Inr (0, [], p)"
| "free_caches (m # ms) finalizer p =
     bindE (mr_free p m finalizer) (\<lambda>(n, m, p).
     bindE (free_caches ms finalizer p) (\<lambda>(k, ms, p). Inr (i32 (n + k), m # ms, p)))"

definition tc_free :: "Pool \<Rightarrow> nat \<Rightarrow> bool \<Rightarrow> Pool result" where
  "tc_free p this finalizer =
     bindE (load (po_caches p) this) (\<lambda>t.
     bindE
       (if tc_toFree t then Inr (t, p)
        else
          bindE (free_caches (tc_smallSubPageCaches t) finalizer p) (\<lambda>(n, small, p).
          bindE (free_caches (tc_normalCaches t) finalizer p) (\<lambda>(k, normal, p).
          let t = t\<lparr>tc_toFree := True, tc_smallSubPageCaches := small, tc_normalCaches := normal\<rparr>
          in case tc_arena t of
               None \<Rightarrow> Inr (t, p)
             | Some a \<Rightarrow> bindE (load (po_arenas p) a) (\<lambda>r.
                 Inr (t, put_arena p a (r\<lparr>pa_numThreadCaches := i32 (pa_numThreadCaches r + 1)\<rparr>))))))
       (\<lambda>(t, p).
          let p = put_cache p this t
          in case tc_arena t of
               None \<Rightarrow> Inr p
             | Some a \<Rightarrow> bindE (load (po_arenas p) a) (\<lambda>r.
                 Inr (put_arena p a (r\<lparr>pa_numThreadCaches := i32 (pa_numThreadCaches r - 1)\<rparr>)))))"

end
