(* ===== verification/Pool_Arena.thy ===== *)
theory Pool_Arena
  imports Pool_Thread_Cache
begin

section \<open>PoolArena: allocation for buffers\<close>

text \<open>
  \<open>buffer/PoolArena.h\<close> and \<open>buffer/PoolArena.cpp\<close>: an arena inherits the size classes, keeps the rings of
  subpages per small size and six lists of chunks by usage. A request is served from the thread's
  cache, from a subpage ring, from a chunk, or, above the chunk size, by an unpooled chunk of its
  own. The adders of the statistics count with their sum.
\<close>

subsection \<open>Construction\<close>

text \<open>\<open>this\<close> is at \<open>po_next\<close>; the ring heads and the six lists take the addresses behind it.\<close>

primrec newHeads :: "nat \<Rightarrow> nat \<Rightarrow> subpages \<Rightarrow> subpages" where
  "newHeads 0 a h = h"
| "newHeads (Suc n) a h = newHeads n (Suc a) (newSubpagePoolHead h a)"

definition PoolArena_new :: "Pool \<Rightarrow> nat option \<Rightarrow> int \<Rightarrow> int \<Rightarrow> int \<Rightarrow> (nat \<times> Pool) result" where
  "PoolArena_new p parent pageSize' pageShifts chunkSize =
     bindE (SizeClasses_new pageSize' pageShifts chunkSize) (\<lambda>sc.
     let this = po_next p;
         n = nat (m_nSubpages sc);
         q100 = this + 1 + n; q075 = q100 + 1; q050 = q100 + 2; q025 = q100 + 3; q000 = q100 + 4;
         qInit = q100 + 5;
         r = \<lparr>pa_sizes = sc, pa_smallSubpagePools = [this + 1..<this + 1 + n],
              pa_q050 = q050, pa_q025 = q025, pa_q000 = q000, pa_qInit = qInit, pa_q075 = q075, pa_q100 = q100,
              pa_allocationsNormal = 0, pa_allocationsSmall = 0, pa_allocationsHuge = 0,
              pa_activeBytesHuge = 0, pa_deallocationsSmall = 0, pa_deallocationsNormal = 0,
              pa_deallocationsHuge = 0, pa_numSmallSubpagePools = m_nSubpages sc, pa_parent = parent,
              pa_numThreadCaches = 0\<rparr>
     in bindE (PoolChunkList_new this None 100 8192 chunkSize) (\<lambda>l100.
     bindE (PoolChunkList_new this (Some q100) 75 100 chunkSize) (\<lambda>l075.
     bindE (PoolChunkList_new this (Some q075) 50 100 chunkSize) (\<lambda>l050.
     bindE (PoolChunkList_new this (Some q050) 25 75 chunkSize) (\<lambda>l025.
     bindE (PoolChunkList_new this (Some q025) 1 50 chunkSize) (\<lambda>l000.
     bindE (PoolChunkList_new this (Some q000) (- 8192) 25 chunkSize) (\<lambda>lInit.
     bindE (prevList l100 (Some q075)) (\<lambda>l100.
     bindE (prevList l075 (Some q050)) (\<lambda>l075.
     bindE (prevList l050 (Some q025)) (\<lambda>l050.
     bindE (prevList l025 (Some q000)) (\<lambda>l025.
     bindE (prevList l000 None) (\<lambda>l000.
     bindE (prevList lInit (Some qInit)) (\<lambda>lInit.
       Inr (this, p\<lparr>po_arenas := (po_arenas p)(this \<mapsto> r),
                    po_subpages := newHeads n (this + 1) (po_subpages p),
                    po_lists := (po_lists p)(q100 \<mapsto> l100, q075 \<mapsto> l075, q050 \<mapsto> l050, q025 \<mapsto> l025,
                                             q000 \<mapsto> l000, qInit \<mapsto> lInit),
                    po_next := q100 + 6\<rparr>))))))))))))))"

subsection \<open>New chunks\<close>

text \<open>\<open>defaultAllocate\<close>: the content of \<open>new char[size]\<close> is not specified; the model has zero bytes.\<close>

definition defaultAllocate :: "Pool \<Rightarrow> int \<Rightarrow> nat \<times> Pool" where
  "defaultAllocate p size' =
     (po_next p, p\<lparr>po_memory := (po_memory p)(po_next p \<mapsto> replicate (nat size') (CHR 0x00)),
                   po_next := Suc (po_next p)\<rparr>)"

definition newChunk :: "Pool \<Rightarrow> nat \<Rightarrow> PoolArena \<Rightarrow> int \<Rightarrow> int \<Rightarrow> int \<Rightarrow> int \<Rightarrow> (nat \<times> Pool) result" where
  "newChunk p this r pageSize' maxPageIdx pageShifts chunkSize =
     (let (m, p) = defaultAllocate p chunkSize;
          a = po_next p
      in bindE (PoolChunk_new (pa_sizes r) this (Some m) pageSize' pageShifts chunkSize maxPageIdx) (\<lambda>c.
         Inr (a, (put_chunk p a c)\<lparr>po_next := Suc a\<rparr>)))"

definition newUnpooledChunk :: "Pool \<Rightarrow> nat \<Rightarrow> PoolArena \<Rightarrow> int \<Rightarrow> nat \<times> Pool" where
  "newUnpooledChunk p this r capacity =
     (let (m, p) = defaultAllocate p (m_chunkSize (pa_sizes r));
          a = po_next p
      in (a, (put_chunk p a (PoolChunk_unpooled this (Some m) capacity))\<lparr>po_next := Suc a\<rparr>))"

subsection \<open>Allocation\<close>

primrec try_lists ::
  "nat list \<Rightarrow> Pool \<Rightarrow> PooledByteBuf \<Rightarrow> int \<Rightarrow> int \<Rightarrow> nat option \<Rightarrow> (bool \<times> PooledByteBuf \<times> Pool) result" where
  "try_lists [] p buf reqCapacity sizeIdx threadCache = Inr (False, buf, p)"
| "try_lists (q # qs) p buf reqCapacity sizeIdx threadCache =
     bindE (cl_allocate p q buf reqCapacity sizeIdx threadCache) (\<lambda>(ok, buf, p).
       if ok then Inr (True, buf, p) else try_lists qs p buf reqCapacity sizeIdx threadCache)"

definition allocateNormal ::
  "Pool \<Rightarrow> nat \<Rightarrow> PooledByteBuf \<Rightarrow> int \<Rightarrow> int \<Rightarrow> nat option \<Rightarrow> (PooledByteBuf \<times> Pool) result" where
  "allocateNormal p this buf reqCapacity sizeIdx threadCache =
     bindE (load (po_arenas p) this) (\<lambda>r.
     bindE (try_lists [pa_q050 r, pa_q025 r, pa_q000 r, pa_qInit r, pa_q075 r] p buf reqCapacity sizeIdx threadCache)
       (\<lambda>(ok, buf, p).
          if ok then Inr (buf, p)
          else
            let sc = pa_sizes r
            in bindE (newChunk p this r (m_pageSize sc) (m_nPSizes sc) (m_pageShifts sc) (m_chunkSize sc)) (\<lambda>(c, p).
               bindE (chunk_allocate p c buf reqCapacity sizeIdx threadCache) (\<lambda>(success, buf, p).
               bindE (assertE success) (\<lambda>_.
               bindE (add p (pa_qInit r) c) (\<lambda>p. Inr (buf, p)))))))"

text \<open>\<open>initUnpooled\<close> of the buffer, with the fields \<open>init0\<close> reads of the chunk.\<close>

definition initUnpooled :: "PooledByteBuf \<Rightarrow> nat \<Rightarrow> PoolChunk \<Rightarrow> nat option \<Rightarrow> int \<Rightarrow> PooledByteBuf result" where
  "initUnpooled buf chunk c allocator length' =
     init0 buf (Some chunk) (pc_memory c) allocator None 0 0 length' length' None"

definition allocateHuge :: "Pool \<Rightarrow> nat \<Rightarrow> PooledByteBuf \<Rightarrow> int \<Rightarrow> (PooledByteBuf \<times> Pool) result" where
  "allocateHuge p this buf reqCapacity =
     bindE (load (po_arenas p) this) (\<lambda>r.
     let (chunk, p) = newUnpooledChunk p this r reqCapacity
     in bindE (load (po_chunks p) chunk) (\<lambda>c.
        let r = r\<lparr>pa_activeBytesHuge := i64 (pa_activeBytesHuge r + pc_chunkSize c)\<rparr>
        in bindE (initUnpooled buf chunk c (pa_parent r) reqCapacity) (\<lambda>buf.
           Inr (buf, put_arena p this (r\<lparr>pa_allocationsHuge := i64 (pa_allocationsHuge r + 1)\<rparr>)))))"

definition count_small :: "Pool \<Rightarrow> nat \<Rightarrow> Pool result" where
  "count_small p this =
     bindE (load (po_arenas p) this) (\<lambda>r.
       Inr (put_arena p this (r\<lparr>pa_allocationsSmall := i64 (pa_allocationsSmall r + 1)\<rparr>)))"

text \<open>The subpage ring: the first subpage behind the head has a free element.\<close>

definition allocateFromRing ::
  "Pool \<Rightarrow> PoolArena \<Rightarrow> nat \<Rightarrow> PooledByteBuf \<Rightarrow> int \<Rightarrow> int \<Rightarrow> nat \<Rightarrow> (PooledByteBuf \<times> Pool) result" where
  "allocateFromRing p r s buf reqCapacity sizeIdx threadCache =
     bindE (load (po_subpages p) s) (\<lambda>sp.
     bindE (sizeIdx2size (pa_sizes r) sizeIdx) (\<lambda>size'.
     bindE (assertE (sp_doNotDestroy sp \<and> sp_elemSize sp = size')) (\<lambda>_.
     bindE (sp_allocate (po_subpages p) s) (\<lambda>(handle, h).
     bindE (assertE (handle \<ge> 0)) (\<lambda>_.
     let p = p\<lparr>po_subpages := h\<rparr>
     in bindE (deref (sp_chunk sp)) (\<lambda>chunk.
        bindE (chunk_initBufWithSubpage p chunk buf None handle reqCapacity (Some threadCache)) (\<lambda>buf.
          Inr (buf, p))))))))"

definition tcacheAllocateSmall ::
  "Pool \<Rightarrow> nat \<Rightarrow> nat \<Rightarrow> PooledByteBuf \<Rightarrow> int \<Rightarrow> int \<Rightarrow> (PooledByteBuf \<times> Pool) result" where
  "tcacheAllocateSmall p this cache' buf reqCapacity sizeIdx =
     bindE (tc_allocateSmall p cache' buf reqCapacity sizeIdx) (\<lambda>(ok, buf, p).
     if ok then Inr (buf, p)
     else
       bindE (load (po_arenas p) this) (\<lambda>r.
       bindE (getE (pa_smallSubpagePools r) sizeIdx) (\<lambda>head.
       bindE (load (po_subpages p) head) (\<lambda>hsp.
       bindE (deref (sp_next hsp)) (\<lambda>s.
       bindE (if s = head then allocateNormal p this buf reqCapacity sizeIdx (Some cache')
              else allocateFromRing p r s buf reqCapacity sizeIdx cache') (\<lambda>(buf, p).
       bindE (count_small p this) (\<lambda>p. Inr (buf, p))))))))"

definition tcacheAllocateNormal ::
  "Pool \<Rightarrow> nat \<Rightarrow> nat \<Rightarrow> PooledByteBuf \<Rightarrow> int \<Rightarrow> int \<Rightarrow> (PooledByteBuf \<times> Pool) result" where
  "tcacheAllocateNormal p this cache' buf reqCapacity sizeIdx =
     bindE (load (po_arenas p) this) (\<lambda>r.
     bindE (tc_allocateNormal p cache' r buf reqCapacity sizeIdx) (\<lambda>(ok, buf, p).
     if ok then Inr (buf, p)
     else
       bindE (allocateNormal p this buf reqCapacity sizeIdx (Some cache')) (\<lambda>(buf, p).
       bindE (load (po_arenas p) this) (\<lambda>r.
         Inr (buf, put_arena p this (r\<lparr>pa_allocationsNormal := i64 (pa_allocationsNormal r + 1)\<rparr>))))))"

definition arena_allocate :: "Pool \<Rightarrow> nat \<Rightarrow> nat \<Rightarrow> PooledByteBuf \<Rightarrow> int \<Rightarrow> (PooledByteBuf \<times> Pool) result" where
  "arena_allocate p this cache' buf reqCapacity =
     bindE (load (po_arenas p) this) (\<lambda>r.
     let sc = pa_sizes r
     in bindE (size2SizeIdx sc reqCapacity) (\<lambda>sizeIdx.
        if sizeIdx \<le> m_smallMaxSizeIdx sc then tcacheAllocateSmall p this cache' buf reqCapacity sizeIdx
        else if sizeIdx < m_nSizes sc then tcacheAllocateNormal p this cache' buf reqCapacity sizeIdx
        else bindE (normalizeSize sc reqCapacity) (\<lambda>normCapacity. allocateHuge p this buf normCapacity)))"

text \<open>
  \<open>allocate\<close> with \<open>newByteBuf\<close>: \<open>obj\<close> is the object that the recycler of buffers hands out, a new one
  or one that was recycled; \<open>newInstance\<close> makes it reusable.
\<close>

definition newInstance :: "PooledByteBuf \<Rightarrow> int \<Rightarrow> PooledByteBuf" where
  "newInstance obj maxCapacity = reuse obj maxCapacity"

definition arena_allocate_new :: "Pool \<Rightarrow> nat \<Rightarrow> nat \<Rightarrow> PooledByteBuf \<Rightarrow> int \<Rightarrow> int \<Rightarrow> (PooledByteBuf \<times> Pool) result" where
  "arena_allocate_new p this cache' obj reqCapacity maxCapacity =
     arena_allocate p this cache' (newInstance obj maxCapacity) reqCapacity"

subsection \<open>Freeing and reallocating\<close>

definition getSizeClassType :: "int \<Rightarrow> SizeClassType" where
  "getSizeClassType handle = (if isSubpage handle then SMALL else NORMAL)"

definition arena_free ::
  "Pool \<Rightarrow> nat \<Rightarrow> nat \<Rightarrow> (nat \<times> int) option \<Rightarrow> int \<Rightarrow> int \<Rightarrow> nat option \<Rightarrow> Pool result" where
  "arena_free p this chunk buffer handle normCapacity cache' =
     bindE (load (po_arenas p) this) (\<lambda>r.
     bindE (load (po_chunks p) chunk) (\<lambda>c.
     if pc_unpooled c then
       bindE (destroyChunk p chunk) (\<lambda>p.
         Inr (put_arena p this (r\<lparr>pa_activeBytesHuge := i64 (pa_activeBytesHuge r + i32 (- pc_chunkSize c)),
                                  pa_deallocationsHuge := i64 (pa_deallocationsHuge r + 1)\<rparr>)))
     else
       let cls = getSizeClassType handle
       in bindE (case cache' of
                   None \<Rightarrow> Inr (False, p)
                 | Some t \<Rightarrow> tc_add p t r chunk buffer handle normCapacity cls) (\<lambda>(cached, p).
          if cached then Inr p else freeChunk p this chunk handle normCapacity cls buffer False)))"

text \<open>\<open>memoryCopy\<close>: \<open>length\<close> bytes of the old block to the window of the buffer.\<close>

definition memoryCopy :: "memory \<Rightarrow> nat option \<Rightarrow> int \<Rightarrow> PooledByteBuf \<Rightarrow> int \<Rightarrow> memory result" where
  "memoryCopy m src srcOffset dst length' =
     (if length' = 0 then Inr m
      else bindE (deref src) (\<lambda>b.
           bindE (read_block m b srcOffset (nat length')) (\<lambda>bs.
           bindE (deref (pb_memory dst)) (\<lambda>d. write_block m d (pb_offset dst) bs))))"

definition reallocate :: "Pool \<Rightarrow> nat \<Rightarrow> PooledByteBuf \<Rightarrow> int \<Rightarrow> bool \<Rightarrow> (PooledByteBuf \<times> Pool) result" where
  "reallocate p this buf newCapacity freeOldMemory =
     bindE (assertE (newCapacity \<ge> 0 \<and> newCapacity \<le> pb_maxCapacity buf)) (\<lambda>_.
     let oldCapacity = pb_length buf
     in if oldCapacity = newCapacity then Inr (buf, p)
        else
          bindE (assertE (po_threadCache p \<noteq> None)) (\<lambda>_.
          bindE (deref (po_threadCache p)) (\<lambda>cache'.
          bindE (arena_allocate p this cache' buf newCapacity) (\<lambda>(new, p).
          let (new, bytesToCopy) =
                (if newCapacity > oldCapacity then (new, oldCapacity)
                 else (trimIndicesToCapacity new newCapacity, newCapacity))
          in bindE (memoryCopy (po_memory p) (pb_memory buf) (pb_offset buf) new bytesToCopy) (\<lambda>m.
             let p = p\<lparr>po_memory := m\<rparr>
             in if freeOldMemory then
                  bindE (deref (pb_chunk buf)) (\<lambda>oldChunk.
                  bindE (arena_free p this oldChunk (pb_tmpBuf buf) (pb_handle buf) (pb_maxLength buf) (pb_cache new)) (\<lambda>p.
                    Inr (new, p)))
                else Inr (new, p))))))"

end
