(* ===== verification/Pool_Arena_Laws.thy ===== *)
theory Pool_Arena_Laws
  imports Pool_Chunk_List_Laws Pool_Arena
begin

section \<open>PoolArena: the chunks of an arena\<close>

text \<open>
  The invariant of an arena of \<open>buffer/PoolArena.cpp\<close>: every chunk is in exactly one of its six lists,
  the one whose window holds its free bytes, and its live runs are accounted for. Allocating a run
  from the arena and giving one back keep it, over all branches of the lists.
\<close>

subsection \<open>What the run operations leave alone\<close>

definition frame :: "PoolChunk \<Rightarrow> PoolChunk \<Rightarrow> bool" where
  "frame c d \<longleftrightarrow> c\<lparr>pc_runsAvail := [], pc_runsAvailMap := [], pc_freeBytes := 0\<rparr> =
     d\<lparr>pc_runsAvail := [], pc_runsAvailMap := [], pc_freeBytes := 0\<rparr>"

lemma frame_refl [simp]: "frame c c"
  by (simp add: frame_def)

lemma frame_upd [simp]:
  "frame c (d\<lparr>pc_runsAvail := q\<rparr>) = frame c d" "frame c (d\<lparr>pc_runsAvailMap := m\<rparr>) = frame c d"
  "frame c (d\<lparr>pc_freeBytes := f\<rparr>) = frame c d" "frame (c\<lparr>pc_runsAvail := q\<rparr>) d = frame c d"
  by (simp_all add: frame_def)

lemma frame_trans: "frame b c \<Longrightarrow> frame c d \<Longrightarrow> frame b d"
  by (simp add: frame_def)

lemma frameD:
  assumes "frame c d"
  shows "pc_subpages d = pc_subpages c" "pc_cachedBuffers d = pc_cachedBuffers c" "pc_memory d = pc_memory c"
    "pc_unpooled d = pc_unpooled c" "pc_prev d = pc_prev c" "pc_next d = pc_next c" "pc_parent d = pc_parent c"
    "pc_arena d = pc_arena c" "pc_chunkSize d = pc_chunkSize c" "pc_pageShifts d = pc_pageShifts c"
  using assms by (cases c; cases d; simp add: frame_def)+

lemma frame_links: "frame c d \<Longrightarrow> same_links c d"
  by (simp add: same_links_def frameD)

lemma insertAvailRun_frame: "insertAvailRun sc c o' p h = Inr d \<Longrightarrow> frame c d"
  by (auto simp: insertAvailRun_def insertAvailRun0_def result_simps Let_def split: if_splits)

lemma removeAvailRun_queue_frame: "removeAvailRun_queue c i h = Inr d \<Longrightarrow> frame c d"
  by (auto simp: removeAvailRun_queue_def result_simps Let_def)

lemma removeAvailRun_frame: "removeAvailRun sc c h = Inr d \<Longrightarrow> frame c d"
  by (auto simp: removeAvailRun_def result_simps intro: removeAvailRun_queue_frame)

lemma splitLargeRun_frame: "splitLargeRun sc c h n = Inr (g, d) \<Longrightarrow> frame c d"
  by (auto simp: splitLargeRun_def result_simps Let_def intro: insertAvailRun_frame split: if_splits)

lemma allocateRun_frame: "allocateRun sc c s = Inr (h, d) \<Longrightarrow> frame c d"
  by (auto simp: allocateRun_def result_simps Let_def split: if_splits prod.splits
      dest!: removeAvailRun_queue_frame splitLargeRun_frame intro: frame_trans)

lemma collapsePast_loop_frame: "collapsePast_loop fuel sc c h = Inr (g, d) \<Longrightarrow> frame c d"
  by (induction fuel arbitrary: c h)
    (auto simp: result_simps Let_def split: if_splits dest!: removeAvailRun_frame intro: frame_trans)

lemma collapseNext_loop_frame: "collapseNext_loop fuel sc c h = Inr (g, d) \<Longrightarrow> frame c d"
  by (induction fuel arbitrary: c h)
    (auto simp: result_simps Let_def split: if_splits dest!: removeAvailRun_frame intro: frame_trans)

lemma collapse_frame:
  "collapsePast sc c h = Inr (g, d) \<Longrightarrow> frame c d" "collapseNext sc c h = Inr (g, d) \<Longrightarrow> frame c d"
  unfolding collapsePast_def collapseNext_def by (fact collapsePast_loop_frame, fact collapseNext_loop_frame)

lemma freeRun_frame: "freeRun sc c h = Inr d \<Longrightarrow> frame c d"
  by (auto simp: freeRun_def collapseRuns_def result_simps Let_def
      dest!: collapse_frame insertAvailRun_frame intro: frame_trans)

subsection \<open>Normal size classes\<close>

lemma normal_class_pages:
  assumes "4 * (ps - 3) - 1 \<le> i" "12 \<le> ps" "class_size 4 i \<le> 2 ^ n" "ps \<le> n"
  obtains pg where "class_size 4 i = pg * 2 ^ ps" "1 \<le> pg" "pg \<le> 2 ^ (n - ps)"
proof -
  have "\<exists>pg. class_size 4 i = pg * 2 ^ ps \<and> 1 \<le> pg"
  proof (cases "i = 4 * (ps - 4) + 3")
    case True
    have "class_size 4 i = 4 * 2 ^ ps" using class_size_top [of 4 "ps - 4"] True assms(2) by (simp add: power_add)
    then show ?thesis by (intro exI [of _ 4]) simp
  next
    case False
    define g r where "g = i div 4 - 1" and "r = i mod 4"
    have i: "i = 4 * Suc g + r" "r < 4" "ps \<le> 4 + g" using False assms(1,2) by (auto simp: g_def r_def)
    then have "class_size 4 i = (int r + 5) * 2 ^ (4 + g)" using class_size_group [of r 4 g] by simp
    also have "\<dots> = ((int r + 5) * 2 ^ (4 + g - ps)) * 2 ^ ps" using i(3) by (simp flip: power_add)
    finally have "class_size 4 i = ((int r + 5) * 2 ^ (4 + g - ps)) * 2 ^ ps" .
    moreover have "1 * 1 \<le> (int r + 5) * 2 ^ (4 + g - ps)" by (intro mult_mono) simp_all
    ultimately show ?thesis by auto
  qed
  then obtain pg where pg: "class_size 4 i = pg * 2 ^ ps" "1 \<le> pg" by blast
  have "pg * 2 ^ ps \<le> 2 ^ (n - ps) * 2 ^ ps" using pg(1) assms(3,4) by (simp flip: power_add)
  then have "pg \<le> 2 ^ (n - ps)" by simp
  then show ?thesis using that pg by blast
qed

subsection \<open>The invariant\<close>

definition chunk_ok :: "nat \<Rightarrow> nat \<Rightarrow> SizeClasses \<Rightarrow> nat \<Rightarrow> memory \<Rightarrow> PoolChunk \<Rightarrow> int list \<Rightarrow> bool" where
  "chunk_ok ps n sc this mem c Hs \<longleftrightarrow> runs_inv ps n sc c Hs \<and> pc_arena c = this \<and> \<not> pc_unpooled c \<and>
     pc_cachedBuffers c = [] \<and> (\<exists>m bs. pc_memory c = Some m \<and> mem m = Some bs \<and> length bs = 2 ^ n)"

lemma runs_inv_unlinked [simp]: "runs_inv ps n sc (unlinked c) Hs \<longleftrightarrow> runs_inv ps n sc c Hs"
  by (simp add: runs_inv_def chunk_inv_def avail_inv_def unlinked_def)

lemma unlinkedD:
  assumes "unlinked d = unlinked c"
  shows "pc_freeBytes d = pc_freeBytes c" "pc_memory d = pc_memory c" "pc_arena d = pc_arena c"
    "pc_chunkSize d = pc_chunkSize c" "pc_subpages d = pc_subpages c"
  using assms by (cases c; cases d; simp add: unlinked_def)+

lemma chunk_ok_unlinked:
  assumes "unlinked d = unlinked c"
  shows "chunk_ok ps n sc this mem d Hs \<longleftrightarrow> chunk_ok ps n sc this mem c Hs"
proof -
  have "chunk_ok ps n sc this mem (unlinked c) Hs \<longleftrightarrow> chunk_ok ps n sc this mem c Hs" for c
    by (simp add: chunk_ok_def) (simp add: unlinked_def)
  then show ?thesis using assms by metis
qed

lemma chunk_ok_frame:
  assumes "chunk_ok ps n sc this mem c Hs" "frame c d" "runs_inv ps n sc d Gs"
  shows "chunk_ok ps n sc this mem d Gs"
  using assms frameD [OF assms(2)] by (simp add: chunk_ok_def)

lemma runs_inv_size: "runs_inv ps n sc c Hs \<Longrightarrow> pc_chunkSize c = 2 ^ n"
  "runs_inv ps n sc c Hs \<Longrightarrow> pc_pageShifts c = int ps"
  "runs_inv ps n sc c Hs \<Longrightarrow> 0 \<le> pc_freeBytes c \<and> pc_freeBytes c \<le> 2 ^ n"
  using avail_invD(3,4) [OF chunk_invD(1)] chunk_invD(3,4) by (fastforce simp: runs_inv_def)+

text \<open>Chunks are below the next address, and no two of them have the same memory.\<close>

definition fresh_ok :: "Pool \<Rightarrow> bool" where
  "fresh_ok p \<longleftrightarrow> (\<forall>x c. po_chunks p x = Some c \<longrightarrow> x < po_next p \<and> (\<exists>m<po_next p. pc_memory c = Some m)) \<and>
     (\<forall>x y c d. po_chunks p x = Some c \<and> po_chunks p y = Some d \<and> pc_memory c = pc_memory d \<longrightarrow> x = y)"

lemma fresh_ok_mono:
  assumes "fresh_ok p" "po_next p \<le> po_next p'"
    and "\<And>x c. po_chunks p' x = Some c \<Longrightarrow> \<exists>d. po_chunks p x = Some d \<and> pc_memory c = pc_memory d"
  shows "fresh_ok p'"
proof -
  have "x < po_next p' \<and> (\<exists>m<po_next p'. pc_memory c = Some m)" if c: "po_chunks p' x = Some c" for x c
  proof -
    obtain d m where "po_chunks p x = Some d" "pc_memory c = pc_memory d" "x < po_next p" "m < po_next p" "pc_memory d = Some m"
      using assms(3) [OF c] assms(1) unfolding fresh_ok_def by blast
    then show ?thesis using assms(2) by auto
  qed
  moreover have "x = y" if c: "po_chunks p' x = Some c" "po_chunks p' y = Some d" "pc_memory c = pc_memory d" for x y c d
    using assms(3) [OF c(1)] assms(3) [OF c(2)] c(3) assms(1) unfolding fresh_ok_def by auto
  ultimately show ?thesis unfolding fresh_ok_def by blast
qed

text \<open>
  \<open>L\<close> gives the chunks of every list, \<open>V\<close> the live runs of every chunk. The conversion of the
  threshold of \<open>qInit\<close> to \<open>int\<close> is defined for chunks of at most \<open>2 ^ 24\<close> bytes, the default size.
\<close>

definition stocked :: "nat \<Rightarrow> nat \<Rightarrow> Pool \<Rightarrow> nat \<Rightarrow> PoolArena \<Rightarrow> (nat \<Rightarrow> nat list) \<Rightarrow> (nat \<Rightarrow> int list) \<Rightarrow> nat \<Rightarrow> nat \<Rightarrow> bool" where
  "stocked ps n p this r L V k x \<longleftrightarrow> (\<exists>c. po_chunks p x = Some c \<and>
     chunk_ok ps n (pa_sizes r) this (po_memory p) c (V x) \<and> lo (2 ^ n) k < pc_freeBytes c \<and> pc_freeBytes c \<le> hi (2 ^ n) k)"

definition arena_inv :: "nat \<Rightarrow> nat \<Rightarrow> Pool \<Rightarrow> nat \<Rightarrow> PoolArena \<Rightarrow> (nat \<Rightarrow> nat list) \<Rightarrow> (nat \<Rightarrow> int list) \<Rightarrow> bool" where
  "arena_inv ps n p this r L V \<longleftrightarrow>
     sc_ok ps n (pa_sizes r) \<and> n - ps \<le> 14 \<and> n \<le> 24 \<and> m_smallMaxSizeIdx (pa_sizes r) = 4 * (int ps - 3) - 2 \<and>
     po_arenas p this = Some r \<and> six_lists p this r (2 ^ n) \<and> lists_ok p L \<and> 6 \<le> po_next p \<and> fresh_ok p \<and>
     (\<forall>k<6. \<forall>x\<in>set (L (q_at r k)). stocked ps n p this r L V k x) \<and>
     (\<forall>x. V x \<noteq> [] \<longrightarrow> (\<exists>k<6. x \<in> set (L (q_at r k))))"

lemma arena_invD:
  assumes "arena_inv ps n p this r L V"
  shows "sc_ok ps n (pa_sizes r)" "n - ps \<le> 14" "n \<le> 24" "m_smallMaxSizeIdx (pa_sizes r) = 4 * (int ps - 3) - 2"
    "po_arenas p this = Some r" "six_lists p this r (2 ^ n)" "lists_ok p L" "6 \<le> po_next p" "fresh_ok p"
    "k < 6 \<Longrightarrow> x \<in> set (L (q_at r k)) \<Longrightarrow> stocked ps n p this r L V k x"
    "V x \<noteq> [] \<Longrightarrow> \<exists>k<6. x \<in> set (L (q_at r k))" "(4096::int) \<le> 2 ^ n" "(2::int) ^ n \<le> 1000000000"
proof -
  show "(4096::int) \<le> 2 ^ n" "(2::int) ^ n \<le> 1000000000"
    using assms power_increasing [of 12 n "2::int"] power_increasing [of n 24 "2::int"] sc_okD(1,2) [of ps n "pa_sizes r"]
    by (simp_all add: arena_inv_def)
qed (use assms in \<open>simp_all add: arena_inv_def\<close>)

lemma stockedD:
  assumes "stocked ps n p this r L V k x"
  obtains c where "po_chunks p x = Some c" "chunk_ok ps n (pa_sizes r) this (po_memory p) c (V x)"
    "runs_inv ps n (pa_sizes r) c (V x)" "lo (2 ^ n) k < pc_freeBytes c" "pc_freeBytes c \<le> hi (2 ^ n) k" "pc_arena c = this"
  using assms by (auto simp: stocked_def chunk_ok_def)

text \<open>A step that touches one chunk: the other chunks keep their lists up to links.\<close>

lemma arena_inv_change:
  assumes inv: "arena_inv ps n p this r L V"
    and p': "po_arenas p' this = Some r'" "pa_sizes r' = pa_sizes r" "q_at r' = q_at r" "six_lists p' this r' (2 ^ n)"
      "lists_ok p' L'" "po_next p \<le> po_next p'" "fresh_ok p'"
    and others: "\<And>y c. y \<noteq> x \<Longrightarrow> po_chunks p y = Some c \<Longrightarrow> \<exists>d. po_chunks p' y = Some d \<and> unlinked d = unlinked c"
    and mem: "\<And>y c m. y \<noteq> x \<Longrightarrow> po_chunks p y = Some c \<Longrightarrow> pc_memory c = Some m \<Longrightarrow> po_memory p' m = po_memory p m"
    and files: "\<And>k y. k < 6 \<Longrightarrow> y \<noteq> x \<Longrightarrow> y \<in> set (L' (q_at r k)) \<longleftrightarrow> y \<in> set (L (q_at r k))"
    and V: "\<And>y. y \<noteq> x \<Longrightarrow> V' y = V y"
    and x: "\<And>k. k < 6 \<Longrightarrow> x \<in> set (L' (q_at r k)) \<Longrightarrow> stocked ps n p' this r L' V' k x"
      "V' x \<noteq> [] \<Longrightarrow> \<exists>k<6. x \<in> set (L' (q_at r k))"
  shows "arena_inv ps n p' this r' L' V'"
proof -
  note D = arena_invD [OF inv]
  have "stocked ps n p' this r' L' V' k y" if k: "k < 6" "y \<in> set (L' (q_at r k))" for k y
  proof (cases "y = x")
    case True
    then show ?thesis using x(1) [of k] k p'(2) by (simp add: stocked_def)
  next
    case False
    then obtain c where c: "po_chunks p y = Some c" "chunk_ok ps n (pa_sizes r) this (po_memory p) c (V y)"
      "lo (2 ^ n) k < pc_freeBytes c" "pc_freeBytes c \<le> hi (2 ^ n) k"
      using stockedD [OF D(10) [OF k(1)]] files [OF k(1) False] k(2) by metis
    obtain d where d: "po_chunks p' y = Some d" "unlinked d = unlinked c" using others [OF False c(1)] by blast
    have "chunk_ok ps n (pa_sizes r) this (po_memory p') c (V y)"
      using c(2) mem [OF False c(1)] by (auto simp: chunk_ok_def)
    then show ?thesis
      using d unlinkedD(1) [OF d(2)] c(3,4) V [OF False] p'(2) by (simp add: stocked_def chunk_ok_unlinked [OF d(2)])
  qed
  moreover have "\<exists>k<6. y \<in> set (L' (q_at r k))" if "V' y \<noteq> []" for y
    using that x(2) V [of y] D(11) [of y] files [of _ y] by (cases "y = x") auto
  ultimately show ?thesis using D p' by (simp add: arena_inv_def)
qed

subsection \<open>Allocating from a chunk\<close>

text \<open>The buffer that \<open>initBuf\<close> makes of a run.\<close>

definition run_buf ::
  "nat \<Rightarrow> Pool \<Rightarrow> PoolArena \<Rightarrow> nat \<Rightarrow> PoolChunk \<Rightarrow> PooledByteBuf \<Rightarrow> int \<Rightarrow> int \<Rightarrow> PooledByteBuf" where
  "run_buf ps p r x c buf H req = buf\<lparr>pb_chunk := Some x, pb_memory := pc_memory c, pb_allocator := pa_parent r,
     pb_cache := po_threadCache p, pb_handle := H, pb_offset := calculateRunOffset H * 2 ^ ps, pb_length := req,
     pb_maxLength := calculateRunPages H * 2 ^ ps,
     pb_tmpBuf := map_option (\<lambda>m. (m, calculateRunOffset H * 2 ^ ps)) (pc_memory c)\<rparr>"

lemma offset_bytes:
  assumes "sc_ok ps n sc" "valid_handle (2 ^ (n - ps)) H"
  shows "shl (calculateRunOffset H) (int ps) = calculateRunOffset H * 2 ^ ps"
    "calculateRunOffset H * 2 ^ ps + calculateRunPages H * 2 ^ ps \<le> 2 ^ n"
    "calculateRunSize (int ps) H = calculateRunPages H * 2 ^ ps"
proof -
  note V = valid_handleD [OF assms(2)]
  have "(calculateRunOffset H + calculateRunPages H) * 2 ^ ps \<le> 2 ^ (n - ps) * 2 ^ ps" using V(3) by (intro mult_right_mono) simp_all
  also have "(2::int) ^ (n - ps) * 2 ^ ps = 2 ^ n" using sc_okD(2) [OF assms(1)] by (simp flip: power_add)
  finally show le: "calculateRunOffset H * 2 ^ ps + calculateRunPages H * 2 ^ ps \<le> 2 ^ n" by (simp add: distrib_right)
  have "0 \<le> calculateRunPages H * 2 ^ ps" using V(2) by simp
  then have "calculateRunOffset H * 2 ^ ps \<le> INT_MAX" using le chunk_bound [OF assms(1)] by linarith
  then show "shl (calculateRunOffset H) (int ps) = calculateRunOffset H * 2 ^ ps" using V(1) by (simp add: shl_eq)
  show "calculateRunSize (int ps) H = calculateRunPages H * 2 ^ ps"
    using run_bytes(1) [OF assms(1)] V by (simp add: calculateRunSize_def)
qed

lemma runs_inv_valid: "runs_inv ps n sc c Hs \<Longrightarrow> H \<in> set Hs \<Longrightarrow> valid_handle (2 ^ (n - ps)) H"
  by (simp add: runs_inv_def)

lemma runs_inv_less:
  assumes "runs_inv ps n sc c Hs" "runs_inv ps n sc d (H # Hs)" "sc_ok ps n sc"
  shows "pc_freeBytes d < pc_freeBytes c"
proof -
  have H: "valid_handle (2 ^ (n - ps)) H" using assms(2) by (simp add: runs_inv_def)
  have "0 < calculateRunPages H * 2 ^ ps" using valid_handleD(2) [OF H] by simp
  then show ?thesis
    using runs_inv_bytes [OF assms(1,3)] runs_inv_bytes [OF assms(2,3)] offset_bytes(3) [OF assms(3) H] by simp
qed

lemma chunk_allocate_run:
  assumes c: "po_chunks p x = Some c" "chunk_ok ps n (pa_sizes r) this mem c Hs" "po_arenas p this = Some r"
    and ok: "sc_ok ps n (pa_sizes r)" and i: "m_smallMaxSizeIdx (pa_sizes r) < int i" "i < 4 * (n - 5)"
    and pg: "class_size 4 i = pg * 2 ^ ps"
    and a: "allocateRun (pa_sizes r) c (pg * 2 ^ ps) = Inr (H, d)" and d: "runs_inv ps n (pa_sizes r) d (H # Hs)"
    and H: "0 \<le> H" "\<not> isSubpage H"
  shows "chunk_allocate p x buf req (int i) tc =
        Inr (True, run_buf ps p r x d buf H req, (put_chunk p x d)\<lparr>po_next := Suc (po_next p)\<rparr>)"
    "chunk_ok ps n (pa_sizes r) this mem d (H # Hs)" "frame c d"
proof -
  let ?sc = "pa_sizes r"
  have C: "pc_arena c = this" "pc_cachedBuffers c = []" using c(2) by (simp_all add: chunk_ok_def)
  have size: "sizeIdx2size ?sc (int i) = Inr (pg * 2 ^ ps)" using sizeIdx2size_ok [OF ok i(2)] pg by simp
  show f: "frame c d" by (rule allocateRun_frame [OF a])
  have e: "d\<lparr>pc_cachedBuffers := []\<rparr> = d" using frameD(2) [OF f] C(2) by (cases d) simp
  have V: "valid_handle (2 ^ (n - ps)) H" using runs_inv_valid [OF d] by simp
  note B = offset_bytes [OF ok V] and S = runs_inv_size(2) [OF d]
  show "chunk_allocate p x buf req (int i) tc =
      Inr (True, run_buf ps p r x d buf H req, (put_chunk p x d)\<lparr>po_next := Suc (po_next p)\<rparr>)"
    using c C i size a frameD(2) [OF f] H B S
    by (simp add: chunk_allocate_def pc_allocate_def arena_view_def initBuf_def isRun_def init0_def run_buf_def e)
  show "chunk_ok ps n ?sc this mem d (H # Hs)" by (rule chunk_ok_frame [OF c(2) f d])
qed

lemma chunk_allocate_normal:
  assumes c: "po_chunks p x = Some c" "chunk_ok ps n (pa_sizes r) this mem c Hs" "po_arenas p this = Some r"
    and ok: "sc_ok ps n (pa_sizes r)" and i: "m_smallMaxSizeIdx (pa_sizes r) < int i" "i < 4 * (n - 5)"
    and pg: "class_size 4 i = pg * 2 ^ ps" "1 \<le> pg" "pg \<le> 2 ^ (n - ps)"
  shows "chunk_allocate p x buf req (int i) tc = Inl AssertionFailed \<and> Hs = [] \<or>
    chunk_allocate p x buf req (int i) tc = Inr (False, buf, p\<lparr>po_next := Suc (po_next p)\<rparr>) \<or>
    (\<exists>H d. chunk_allocate p x buf req (int i) tc =
        Inr (True, run_buf ps p r x d buf H req, (put_chunk p x d)\<lparr>po_next := Suc (po_next p)\<rparr>) \<and>
      chunk_ok ps n (pa_sizes r) this mem d (H # Hs) \<and> frame c d \<and> \<not> isSubpage H \<and> calculateRunPages H = pg)"
proof -
  let ?sc = "pa_sizes r"
  have C: "runs_inv ps n ?sc c Hs" "pc_arena c = this" "pc_cachedBuffers c = []" using c(2) by (simp_all add: chunk_ok_def)
  have size: "sizeIdx2size ?sc (int i) = Inr (pg * 2 ^ ps)" using sizeIdx2size_ok [OF ok i(2)] pg(1) by simp
  have same: "(po_chunks p)(x \<mapsto> c) = po_chunks p" using c(1) by auto
  from runs_inv_alloc [OF C(1) pg(2,3)] show ?thesis
  proof (elim disjE conjE exE)
    assume "allocateRun ?sc c (pg * 2 ^ ps) = Inl AssertionFailed" "Hs = []"
    then show ?thesis using c C(2) i size by (simp add: chunk_allocate_def pc_allocate_def arena_view_def)
  next
    assume "allocateRun ?sc c (pg * 2 ^ ps) = Inr (- 1, c)"
    then show ?thesis using c C(2) i size same by (simp add: chunk_allocate_def pc_allocate_def arena_view_def)
  next
    fix H d
    assume a: "allocateRun ?sc c (pg * 2 ^ ps) = Inr (H, d)" and d: "runs_inv ps n ?sc d (H # Hs)"
      and H: "0 \<le> H" "isUsed H" "\<not> isSubpage H" "calculateRunPages H = pg"
    then show ?thesis using chunk_allocate_run [OF c ok i pg(1) a d H(1,3)] by blast
  qed
qed

subsection \<open>Allocating from a list of chunks\<close>

lemma lists_ok_cong:
  assumes "lists_ok p L" "po_lists p' = po_lists p"
    and "\<And>a x c. x \<in> set (L a) \<Longrightarrow> po_chunks p x = Some c \<Longrightarrow> \<exists>d. po_chunks p' x = Some d \<and> same_links c d"
  shows "lists_ok p' L"
  unfolding lists_ok_def
proof (intro allI conjI)
  fix a
  show "distinct (L a)" by (rule lists_okD(1) [OF assms(1)])
  show "case po_lists p' a of None \<Rightarrow> L a = [] | Some l \<Rightarrow> chunk_seg (po_chunks p') a None (cl_head l) (L a) None"
    using lists_okD(2,3) [OF assms(1), of a] assms(2) chunk_seg_cong [OF _ assms(3)] by (auto split: option.splits)
qed

lemma six_lists_cong: "po_lists p' = po_lists p \<Longrightarrow> six_lists p' this r C = six_lists p this r C"
  by (simp add: six_lists_def)

text \<open>The answer of a successful request: a new live run, and a buffer whose window is the run.\<close>

definition grants ::
  "nat \<Rightarrow> nat \<Rightarrow> nat \<Rightarrow> PoolArena \<Rightarrow> (nat \<Rightarrow> int list) \<Rightarrow> PooledByteBuf \<Rightarrow> int \<Rightarrow> nat \<Rightarrow> PooledByteBuf \<Rightarrow> Pool \<Rightarrow> bool" where
  "grants ps n this r V buf req i buf' p' \<longleftrightarrow> (\<exists>x H L c. arena_inv ps n p' this r L (V(x := H # V x)) \<and>
     po_chunks p' x = Some c \<and> \<not> isSubpage H \<and> calculateRunPages H * 2 ^ ps = class_size 4 i \<and>
     buf' = run_buf ps p' r x c buf H req)"

lemma run_buf_cong:
  "pc_memory d = pc_memory c \<Longrightarrow> po_threadCache q = po_threadCache p \<Longrightarrow>
   run_buf ps p r x c buf H req = run_buf ps q r x d buf H req"
  by (simp add: run_buf_def)

lemma q_at_inj: "six_lists p this r C \<Longrightarrow> j < 6 \<Longrightarrow> k < 6 \<Longrightarrow> q_at r j = q_at r k \<longleftrightarrow> j = k"
  by (auto simp: six_lists_def dest: inj_onD)

subsection \<open>A step on one chunk\<close>

text \<open>
  The state after the runs of chunk \<open>x\<close> have changed, before it is refiled; \<open>r'\<close> has the counters of
  the arena updated.
\<close>

definition touched :: "Pool \<Rightarrow> nat \<Rightarrow> PoolChunk \<Rightarrow> nat \<Rightarrow> PoolArena \<Rightarrow> PoolArena \<Rightarrow> Pool \<Rightarrow> bool" where
  "touched p x d this r r' p1 \<longleftrightarrow> po_chunks p1 = (po_chunks p)(x \<mapsto> d) \<and> po_lists p1 = po_lists p \<and>
     po_memory p1 = po_memory p \<and> po_next p \<le> po_next p1 \<and> po_arenas p1 this = Some r' \<and>
     po_threadCache p1 = po_threadCache p \<and> q_at r' = q_at r \<and> pa_sizes r' = pa_sizes r"

lemma six_lists_queues: "q_at r' = q_at r \<Longrightarrow> six_lists p this r' C = six_lists p this r C"
  by (simp add: six_lists_def list_at_def prev_at_def next_at_def)

lemma touched_base:
  assumes inv: "arena_inv ps n p this r L V" and c: "po_chunks p x = Some c" "frame c d"
    and t: "touched p x d this r r' p1"
  shows "lists_ok p1 L" "six_lists p1 this r' (2 ^ n)" "fresh_ok p1"
proof -
  note D = arena_invD [OF inv]
  show "lists_ok p1 L"
  proof (rule lists_ok_cong [OF D(7)])
    show "po_lists p1 = po_lists p" using t by (simp add: touched_def)
    show "\<exists>e. po_chunks p1 y = Some e \<and> same_links b e" if "po_chunks p y = Some b" for y b
      using that t c(1) frame_links [OF c(2)] by (auto simp: touched_def)
  qed
  show "six_lists p1 this r' (2 ^ n)" 
    using D(6) six_lists_queues [of r' r] six_lists_cong [of p1 p] t by (simp add: touched_def)
  show "fresh_ok p1"
  proof (rule fresh_ok_mono [OF D(9)])
    show "\<exists>b. po_chunks p y = Some b \<and> pc_memory e = pc_memory b" if "po_chunks p1 y = Some e" for y e
      using that t c(1) frameD(3) [OF c(2)] by (auto simp: touched_def split: if_splits)
  qed (use t in \<open>simp add: touched_def\<close>)
qed

lemma member_index: "arena_inv ps n p this r L V \<Longrightarrow> j < 6 \<Longrightarrow> k < 6 \<Longrightarrow> x \<in> set (L (q_at r j)) \<Longrightarrow>
    x \<in> set (L (q_at r k)) \<Longrightarrow> j = k"
  using lists_ok_unique [OF arena_invD(7)] q_at_inj [OF arena_invD(6)] by metis

lemma touched_stay:
  assumes inv: "arena_inv ps n p this r L V" and k: "k < 6" "x \<in> set (L (q_at r k))"
    and c: "po_chunks p x = Some c" "frame c d" "chunk_ok ps n (pa_sizes r) this (po_memory p) d Hs"
    and w: "lo (2 ^ n) k < pc_freeBytes d" "pc_freeBytes d \<le> hi (2 ^ n) k"
    and t: "touched p x d this r r' p1"
  shows "arena_inv ps n p1 this r' L (V(x := Hs))"
proof (rule arena_inv_change [OF inv, where x = x])
  show "stocked ps n p1 this r L (V(x := Hs)) j x" if "j < 6" "x \<in> set (L (q_at r j))" for j
    using member_index [OF inv that(1) k(1) that(2) k(2)] c(3) w t by (simp add: stocked_def touched_def)
  show "\<exists>k<6. x \<in> set (L (q_at r k))" using k by blast
qed (use touched_base [OF inv c(1,2) t] t in \<open>simp_all add: touched_def\<close>)

lemma relinked_chunk:
  "relinked p p' \<Longrightarrow> po_chunks p x = Some c \<Longrightarrow> \<exists>d. po_chunks p' x = Some d \<and> unlinked d = unlinked c"
  "relinked p p' \<Longrightarrow> po_chunks p' x = Some d \<Longrightarrow> \<exists>c. po_chunks p x = Some c \<and> unlinked d = unlinked c"
  using relinkedD(7) [of p p' x] by (cases "po_chunks p x"; auto)+

lemma fresh_ok_relinked:
  assumes "fresh_ok p" "relinked p p'"
  shows "fresh_ok p'"
proof (rule fresh_ok_mono [OF assms(1)])
  show "\<exists>d. po_chunks p x = Some d \<and> pc_memory c = pc_memory d" if "po_chunks p' x = Some c" for x c
    using relinked_chunk(2) [OF assms(2) that] unlinkedD(2) by blast
qed (simp add: relinkedD(5) [OF assms(2)])

lemma touched_refile:
  assumes inv: "arena_inv ps n p this r L V" and k: "k < 6" "x \<in> set (L (q_at r k))"
    and c: "po_chunks p x = Some c" "frame c d" "chunk_ok ps n (pa_sizes r) this (po_memory p) d Hs"
    and t: "touched p x d this r r' p1"
    and j: "j < 6" "j \<noteq> k" "lo (2 ^ n) j < pc_freeBytes d" "pc_freeBytes d \<le> hi (2 ^ n) j"
    and L': "L' = (let M = L(q_at r k := remove1 x (L (q_at r k))) in M(q_at r j := x # M (q_at r j)))"
    and p2: "lists_ok p2 L'" "relinked p1 p2"
  shows "arena_inv ps n p2 this r' L' (V(x := Hs))"
proof (rule arena_inv_change [OF inv, where x = x])
  note D = arena_invD [OF inv] and R = relinkedD [OF p2(2)] and B = touched_base [OF inv c(1,2) t]
  have jk: "q_at r j \<noteq> q_at r k" using q_at_inj [OF D(6) j(1) k(1)] j(2) by simp
  show "six_lists p2 this r' (2 ^ n)" using six_lists_relinked [OF p2(2)] B(2) by simp
  show "fresh_ok p2" by (rule fresh_ok_relinked [OF B(3) p2(2)])
  show "\<exists>e. po_chunks p2 y = Some e \<and> unlinked e = unlinked b" if "y \<noteq> x" "po_chunks p y = Some b" for y b
    using relinked_chunk(1) [OF p2(2), of y b] that t by (simp add: touched_def)
  show "stocked ps n p2 this r L' (V(x := Hs)) i x" if i: "i < 6" "x \<in> set (L' (q_at r i))" for i
  proof -
    have "x \<notin> set (remove1 x (L (q_at r k)))" using lists_okD(1) [OF D(7)] by simp
    moreover have "x \<in> set (L (q_at r i)) \<longleftrightarrow> i = k" using member_index [OF inv i(1) k(1) _ k(2)] k(2) by blast
    ultimately have "i = j" using i(2) q_at_inj [OF D(6) i(1) j(1)] by (auto simp: L' Let_def split: if_splits)
    obtain e where e: "po_chunks p2 x = Some e" "unlinked e = unlinked d"
      using relinked_chunk(1) [OF p2(2), of x d] t by (auto simp: touched_def)
    then show ?thesis using c(3) j(3,4) R(4) t unlinkedD(1) [OF e(2)] \<open>i = j\<close>
      by (simp add: stocked_def chunk_ok_unlinked [OF e(2)] touched_def)
  qed
  show "\<exists>k<6. x \<in> set (L' (q_at r k))" using j(1) by (intro exI [of _ j]) (simp add: L' Let_def)
  show "y \<in> set (L' (q_at r i)) \<longleftrightarrow> y \<in> set (L (q_at r i))" if "y \<noteq> x" for i y
    using that jk by (auto simp: L' Let_def split: if_splits dest: notin_set_remove1)
qed (use p2(1) t relinkedD [OF p2(2)] in \<open>simp_all add: touched_def\<close>)

text \<open>The chunk that served a request stays in its list or moves up.\<close>

lemma settle_up:
  assumes inv: "arena_inv ps n p this r L V" and k: "k < 5" "x \<in> set (L (q_at r k))"
    and c: "po_chunks p x = Some c" "frame c d" "chunk_ok ps n (pa_sizes r) this (po_memory p) d (H # V x)"
    and t: "touched p x d this r r' p1"
  obtains p2 L' e where
    "(if pc_freeBytes d \<le> lo (2 ^ n) k then bindE (cl_remove p1 (q_at r k) x) (\<lambda>p. add p (q_at r (Suc k)) x) else Inr p1) = Inr p2"
    "arena_inv ps n p2 this r' L' (V(x := H # V x))" "po_chunks p2 x = Some e" "pc_memory e = pc_memory d"
    "po_threadCache p2 = po_threadCache p"
proof -
  note D = arena_invD [OF inv] and B = touched_base [OF inv c(1,2) t]
  have k6: "k < 6" using k(1) by simp
  have q: "q_at r' = q_at r" using t by (simp add: touched_def)
  have rc: "runs_inv ps n (pa_sizes r) c (V x)" "pc_freeBytes c \<le> hi (2 ^ n) k"
    using c(1) by (auto intro: stockedD [OF D(10) [OF k6 k(2)]])
  have rd: "runs_inv ps n (pa_sizes r) d (H # V x)" using c(3) by (simp add: chunk_ok_def)
  note less = runs_inv_less [OF rc(1) rd D(1)] and pos = runs_inv_size(3) [OF rd]
  show ?thesis
  proof (cases "pc_freeBytes d \<le> lo (2 ^ n) k")
    case False
    have "arena_inv ps n p1 this r' L (V(x := H # V x))"
      by (rule touched_stay [OF inv k6 k(2) c _ _ t]) (use False less rc(2) in simp_all)
    then show ?thesis using that [of p1 L d] False t by (simp add: touched_def)
  next
    case True
    let ?M = "L(q_at r k := remove1 x (L (q_at r k)))"
    obtain p2 where p2: "cl_remove p1 (q_at r k) x = Inr p2" "lists_ok p2 ?M" "relinked p1 p2"
      by (rule cl_remove_ok [OF B(1) k(2)])
    obtain e where e: "po_chunks p2 x = Some e" "unlinked e = unlinked d"
      using relinked_chunk(1) [OF p2(3), of x d] t by (auto simp: touched_def)
    have new: "\<not> filed ?M x"
      using lists_ok_unique [OF D(7) k(2)] lists_okD(1) [OF D(7)] by (auto simp: filed_def)
    have six2: "six_lists p2 this r' (2 ^ n)" using six_lists_relinked [OF p2(3)] B(2) by simp
    have f: "0 \<le> pc_freeBytes e" using unlinkedD(1) [OF e(2)] pos by simp
    have fuel: "Suc k < 6" "5 < Suc k + Suc (po_next p2)"
      using k(1) D(8) relinkedD(5) [OF p2(3)] t by (simp_all add: touched_def)
    obtain j p3 where j: "add_from (Suc (po_next p2)) p2 (q_at r (Suc k)) x = Inr p3" "Suc k \<le> j" "j < 6"
      "lo (2 ^ n) j < pc_freeBytes e" "\<forall>i. Suc k \<le> i \<and> i < j \<longrightarrow> pc_freeBytes e \<le> lo (2 ^ n) i"
      "lists_ok p3 (?M(q_at r j := x # ?M (q_at r j)))" "relinked p2 p3"
      using add_from_ok [OF p2(2) six2 D(12,13) e(1) new f fuel] unfolding filed_in_def q by blast
    have fe: "pc_freeBytes e = pc_freeBytes d" by (rule unlinkedD(1) [OF e(2)])
    have "pc_freeBytes d \<le> lo (2 ^ n) (j - 1)" using j(2,5) True fe by (cases "j = Suc k") auto
    also have "\<dots> \<le> hi (2 ^ n) j" using windows(1) [OF D(12,13), of "j - 1"] j(2,3) by simp
    finally have "arena_inv ps n p3 this r' (?M(q_at r j := x # ?M (q_at r j))) (V(x := H # V x))"
      by (intro touched_refile [OF inv k6 k(2) c t j(3) _ _ _ _ j(6) relinked_trans [OF p2(3) j(7)]])
        (use j(2,4) fe in \<open>simp_all add: Let_def\<close>)
    moreover obtain g where "po_chunks p3 x = Some g" "unlinked g = unlinked e"
      using relinked_chunk(1) [OF j(7) e(1)] by blast
    ultimately show ?thesis
      using that [of p3 "?M(q_at r j := x # ?M (q_at r j))" g] True p2(1) j(1) unlinkedD(2) [of g e] unlinkedD(2) [OF e(2)]
        relinkedD(6) [OF p2(3)] relinkedD(6) [OF j(7)] t
      by (simp add: add_def touched_def)
  qed
qed

lemma arena_inv_next: "arena_inv ps n p this r L V \<Longrightarrow> arena_inv ps n (p\<lparr>po_next := Suc (po_next p)\<rparr>) this r L V"
  using fresh_ok_mono [of p "p\<lparr>po_next := Suc (po_next p)\<rparr>"] lists_ok_cong [of p L "p\<lparr>po_next := Suc (po_next p)\<rparr>"]
  by (simp add: arena_inv_def six_lists_def stocked_def)

definition normal_idx :: "nat \<Rightarrow> nat \<Rightarrow> nat \<Rightarrow> bool" where
  "normal_idx ps n i \<longleftrightarrow> 4 * (ps - 3) - 1 \<le> i \<and> i < 4 * (n - 5)"

lemma normal_idxD:
  assumes "arena_inv ps n p this r L V" "normal_idx ps n i"
  obtains pg where "m_smallMaxSizeIdx (pa_sizes r) < int i" "i < 4 * (n - 5)" "class_size 4 i = pg * 2 ^ ps" "1 \<le> pg" "pg \<le> 2 ^ (n - ps)"
proof -
  note D = arena_invD [OF assms(1)] and S = sc_okD [OF arena_invD(1) [OF assms(1)]]
  have i: "4 * (ps - 3) - 1 \<le> i" "i < 4 * (n - 5)" using assms(2) by (simp_all add: normal_idx_def)
  have "i \<le> 4 * (n - 5) - 1" using i(2) by simp
  then have "class_size 4 i \<le> 2 ^ n" using size_tab_last [OF D(1)] class_size_le_iff [of 4 i] by metis
  moreover have "m_smallMaxSizeIdx (pa_sizes r) < int i" unfolding D(4) using i(1) S(1) by arith
  moreover have "ps \<le> n" using S(2) by simp
  ultimately show ?thesis using that i(2) normal_class_pages [OF i(1) S(1)] by blast
qed

text \<open>
  The three outcomes of asking the lists: a chunk without live runs fails its assertion, no chunk has
  a fitting run, or a run is granted.
\<close>

definition outcome ::
  "nat \<Rightarrow> nat \<Rightarrow> nat \<Rightarrow> PoolArena \<Rightarrow> (nat \<Rightarrow> nat list) \<Rightarrow> (nat \<Rightarrow> int list) \<Rightarrow> Pool \<Rightarrow> PooledByteBuf \<Rightarrow> int \<Rightarrow> nat \<Rightarrow>
   (bool \<times> PooledByteBuf \<times> Pool) result \<Rightarrow> bool" where
  "outcome ps n this r L V p buf req i res \<longleftrightarrow>
     res = Inl AssertionFailed \<and> (\<exists>k<6. \<exists>x\<in>set (L (q_at r k)). V x = []) \<or>
     (\<exists>z. res = Inr (False, buf, p\<lparr>po_next := z\<rparr>) \<and> arena_inv ps n (p\<lparr>po_next := z\<rparr>) this r L V) \<or>
     (\<exists>buf' p'. res = Inr (True, buf', p') \<and> grants ps n this r V buf req i buf' p')"

lemma outcome_none: "arena_inv ps n p this r L V \<Longrightarrow> outcome ps n this r L V p buf req i (Inr (False, buf, p))"
  unfolding outcome_def by (intro disjI2 disjI1 exI [of _ "po_next p"]) simp

lemma cl_allocate_from_ok:
  assumes "arena_inv ps n p this r L V" "normal_idx ps n i" "k < 5"
    and "chunk_seg (po_chunks p) (q_at r k) prev cur ys None" "set ys \<subseteq> set (L (q_at r k))" "length ys < fuel"
  shows "outcome ps n this r L V p buf req i (cl_allocate_from fuel p (q_at r k) cur buf req (int i) tc)"
  using assms
proof (induction ys arbitrary: fuel p prev cur)
  case Nil
  then obtain f where "fuel = Suc f" by (cases fuel) auto
  then show ?case using Nil.prems(4) outcome_none [OF Nil.prems(1)] by simp
next
  case (Cons x ys)
  note inv = Cons.prems(1) and k = Cons.prems(3)
  note D = arena_invD [OF inv]
  obtain f where fuel: "fuel = Suc f" "length ys < f" using Cons.prems(6) by (cases fuel) auto
  have k6: "k < 6" and x: "x \<in> set (L (q_at r k))" using k Cons.prems(5) by auto
  obtain c where c: "po_chunks p x = Some c" "chunk_ok ps n (pa_sizes r) this (po_memory p) c (V x)" 
    by (rule stockedD [OF D(10) [OF k6 x]])
  obtain pg where pg: "m_smallMaxSizeIdx (pa_sizes r) < int i" "i < 4 * (n - 5)" "class_size 4 i = pg * 2 ^ ps"
    "1 \<le> pg" "pg \<le> 2 ^ (n - ps)" by (rule normal_idxD [OF inv Cons.prems(2)])
  obtain l where l: "po_lists p (q_at r k) = Some l" "cl_nextList l = Some (q_at r (Suc k))" "cl_freeMinThreshold l = lo (2 ^ n) k"
    using six_listsD [OF D(6) k6] k by (metis next_at_def nat_neq_iff)
  have cur: "cur = Some x" "chunk_seg (po_chunks p) (q_at r k) (Some x) (pc_next c) ys None" using Cons.prems(4) c(1) by auto
  let ?a = "chunk_allocate p x buf req (int i) tc"
  from chunk_allocate_normal [OF c D(5,1) pg, of buf req tc] show ?case
  proof (elim disjE conjE exE)
    assume "?a = Inl AssertionFailed" "V x = []"
    then show ?thesis using fuel(1) cur(1) k6 x by (auto simp: outcome_def)
  next
    let ?p = "p\<lparr>po_next := Suc (po_next p)\<rparr>"
    assume a: "?a = Inr (False, buf, ?p)"
    have "outcome ps n this r L V ?p buf req i (cl_allocate_from f ?p (q_at r k) (pc_next c) buf req (int i) tc)"
      by (rule Cons.IH [OF arena_inv_next [OF inv] Cons.prems(2) k _ _ fuel(2)]) (use cur(2) Cons.prems(5) in simp_all)
    then show ?thesis using a fuel(1) cur(1) c(1) l(1) by (simp add: outcome_def)
  next
    fix H d
    let ?p = "(put_chunk p x d)\<lparr>po_next := Suc (po_next p)\<rparr>"
    assume a: "?a = Inr (True, run_buf ps p r x d buf H req, ?p)" and d: "frame c d"
        "chunk_ok ps n (pa_sizes r) this (po_memory p) d (H # V x)" "\<not> isSubpage H" "calculateRunPages H = pg"
    have t: "touched p x d this r r ?p" using D(5) by (simp add: touched_def)
    obtain p2 L' e where s: "(if pc_freeBytes d \<le> lo (2 ^ n) k
        then bindE (cl_remove ?p (q_at r k) x) (\<lambda>p. add p (q_at r (Suc k)) x) else Inr ?p) = Inr p2"
      "arena_inv ps n p2 this r L' (V(x := H # V x))" "po_chunks p2 x = Some e" "pc_memory e = pc_memory d"
      "po_threadCache p2 = po_threadCache p"
      by (rule settle_up [OF inv k x c(1) d(1,2) t])
    have "cl_allocate_from fuel p (q_at r k) cur buf req (int i) tc = bindE (if pc_freeBytes d \<le> lo (2 ^ n) k
        then bindE (cl_remove ?p (q_at r k) x) (\<lambda>p. add p (q_at r (Suc k)) x) else Inr ?p)
        (\<lambda>q. Inr (True, run_buf ps p r x d buf H req, q))"
      using a fuel(1) cur(1) l by simp
    then have "cl_allocate_from fuel p (q_at r k) cur buf req (int i) tc = Inr (True, run_buf ps p r x d buf H req, p2)"
      unfolding s(1) by simp
    moreover have "grants ps n this r V buf req i (run_buf ps p r x d buf H req) p2"
      unfolding grants_def using s(2-5) d(3,4) pg(3) run_buf_cong [OF s(4,5)] by metis
    ultimately show ?thesis by (simp add: outcome_def)
  qed
qed

lemma length_le_next:
  assumes "arena_inv ps n p this r L V"
  shows "length (L a) \<le> po_next p"
proof -
  note D = arena_invD [OF assms]
  have "set (L a) \<subseteq> {..<po_next p}" using lists_ok_member [OF D(7)] D(9) unfolding fresh_ok_def by blast
  then have "card (set (L a)) \<le> card {..<po_next p}" by (intro card_mono) simp_all
  then show ?thesis using distinct_card [OF lists_okD(1) [OF D(7)]] by simp
qed

lemma cl_allocate_ok:
  assumes inv: "arena_inv ps n p this r L V" and i: "normal_idx ps n i" and k: "k < 5"
  shows "outcome ps n this r L V p buf req i (cl_allocate p (q_at r k) buf req (int i) tc)"
proof -
  note D = arena_invD [OF inv]
  have "k < 6" using k by simp
  then obtain l where l: "po_lists p (q_at r k) = Some l" "cl_arena l = this" using six_listsD [OF D(6)] by metis
  have size: "sizeIdx2size (pa_sizes r) (int i) = Inr (class_size 4 i)"
    using sizeIdx2size_ok [OF D(1)] i by (simp add: normal_idx_def)
  have "outcome ps n this r L V p buf req i
      (cl_allocate_from (Suc (po_next p)) p (q_at r k) (cl_head l) buf req (int i) tc)"
    by (rule cl_allocate_from_ok [OF inv i k lists_okD(2) [OF D(7) l(1)] subset_refl])
      (use length_le_next [OF inv] in \<open>simp add: le_imp_less_Suc\<close>)
  then show ?thesis using outcome_none [OF inv] l D(5) size by (simp add: cl_allocate_def)
qed

lemma try_lists_ok:
  assumes "arena_inv ps n p this r L V" "normal_idx ps n i" "\<forall>k\<in>set ks. k < 5"
  shows "outcome ps n this r L V p buf req i (try_lists (map (q_at r) ks) p buf req (int i) tc)"
  using assms
proof (induction ks arbitrary: p)
  case Nil
  then show ?case by (simp add: outcome_none)
next
  case (Cons k ks)
  have k: "k < 5" using Cons.prems(3) by simp
  from cl_allocate_ok [OF Cons.prems(1,2) k, of buf req tc] show ?case unfolding outcome_def [of _ _ _ _ _ _ _ _ _ _ "cl_allocate _ _ _ _ _ _"]
  proof (elim disjE conjE exE)
    fix z
    assume a: "cl_allocate p (q_at r k) buf req (int i) tc = Inr (False, buf, p\<lparr>po_next := z\<rparr>)"
      and inv: "arena_inv ps n (p\<lparr>po_next := z\<rparr>) this r L V"
    have "outcome ps n this r L V (p\<lparr>po_next := z\<rparr>) buf req i (try_lists (map (q_at r) ks) (p\<lparr>po_next := z\<rparr>) buf req (int i) tc)"
      by (rule Cons.IH [OF inv Cons.prems(2)]) (use Cons.prems(3) in simp)
    then show ?thesis using a by (simp add: outcome_def)
  qed (auto simp: outcome_def)
qed

subsection \<open>A new chunk\<close>

definition with_new_chunk :: "Pool \<Rightarrow> int \<Rightarrow> PoolChunk \<Rightarrow> Pool" where
  "with_new_chunk p C c = p\<lparr>po_memory := (po_memory p)(po_next p \<mapsto> replicate (nat C) (CHR 0x00)),
     po_chunks := (po_chunks p)(Suc (po_next p) \<mapsto> c), po_next := Suc (Suc (po_next p))\<rparr>"

lemma newChunk_ok:
  assumes ok: "sc_ok ps n (pa_sizes r)" "n - ps \<le> 14" and pg: "1 \<le> pg" "pg \<le> 2 ^ (n - ps)"
  obtains c H d where
    "newChunk p this r (m_pageSize (pa_sizes r)) (m_nPSizes (pa_sizes r)) (m_pageShifts (pa_sizes r)) (m_chunkSize (pa_sizes r)) =
       Inr (Suc (po_next p), with_new_chunk p (2 ^ n) c)"
    "chunk_ok ps n (pa_sizes r) this (po_memory (with_new_chunk p (2 ^ n) c)) c []"
    "allocateRun (pa_sizes r) c (pg * 2 ^ ps) = Inr (H, d)" "runs_inv ps n (pa_sizes r) d [H]"
    "0 \<le> H" "\<not> isSubpage H" "calculateRunPages H = pg" "pc_memory c = Some (po_next p)"
proof -
  let ?sc = "pa_sizes r"
  obtain c where c: "PoolChunk_new ?sc this (Some (po_next p)) (2 ^ ps) (int ps) (2 ^ n) (m_nPSizes ?sc) = Inr c"
    "runs_inv ps n ?sc c []" by (rule runs_inv_new [OF ok])
  obtain H d where H: "allocateRun ?sc c (pg * 2 ^ ps) = Inr (H, d)" "runs_inv ps n ?sc d [H]" "0 \<le> H"
    "\<not> isSubpage H" "calculateRunPages H = pg" by (rule runs_inv_first [OF ok pg c(1)])
  have "newChunk p this r (m_pageSize ?sc) (m_nPSizes ?sc) (m_pageShifts ?sc) (m_chunkSize ?sc) =
      Inr (Suc (po_next p), with_new_chunk p (2 ^ n) c)"
    using c(1) sc_okD(5,6,13) [OF ok(1)] by (simp add: newChunk_def defaultAllocate_def with_new_chunk_def)
  moreover note F = frameD [OF insertAvailRun_frame [OF c(1) [unfolded PoolChunk_new_def Let_def]]]
  have "chunk_ok ps n ?sc this (po_memory (with_new_chunk p (2 ^ n) c)) c []"
    using c(2) F by (simp add: chunk_ok_def with_new_chunk_def nat_power_eq)
  ultimately show ?thesis using that H F(3) by simp
qed

lemma arena_inv_fresh:
  assumes "arena_inv ps n p this r L V"
  shows "po_chunks p (Suc (po_next p)) = None" "\<not> filed L (Suc (po_next p))" "V (Suc (po_next p)) = []"
proof -
  note D = arena_invD [OF assms]
  show n: "po_chunks p (Suc (po_next p)) = None"
    using D(9) unfolding fresh_ok_def by (metis not_less_eq less_SucI option.exhaust not_less_iff_gr_or_eq)
  show f: "\<not> filed L (Suc (po_next p))" using lists_ok_member [OF D(7)] n by (fastforce simp: filed_def)
  show "V (Suc (po_next p)) = []" using D(11) f by (auto simp: filed_def)
qed

lemma fresh_ok_new:
  assumes p: "fresh_ok p" and p1: "po_chunks p1 = (po_chunks p)(x \<mapsto> d)" "pc_memory d = Some (po_next p)"
    "x = Suc (po_next p)" "x < po_next p1"
  shows "fresh_ok p1"
  unfolding fresh_ok_def
proof (intro conjI allI impI)
  have below: "y < po_next p" "\<exists>m<po_next p. pc_memory b = Some m" if "po_chunks p y = Some b" for y b
    using p that unfolding fresh_ok_def by blast+
  have inj: "y = z" if "po_chunks p y = Some b" "po_chunks p z = Some b'" "pc_memory b = pc_memory b'" for y z b b'
    using p that unfolding fresh_ok_def by blast
  {
    fix y b
    assume "po_chunks p1 y = Some b"
    then show "y < po_next p1" "\<exists>m<po_next p1. pc_memory b = Some m"
      using below [of y b] p1 by (cases "y = x"; fastforce)+
  next
    fix y z b b'
    assume "po_chunks p1 y = Some b \<and> po_chunks p1 z = Some b' \<and> pc_memory b = pc_memory b'"
    then show "y = z"
      using below [of y b] below [of z b'] p1 inj [of y b z b'] by (cases "y = x"; cases "z = x") auto
  }
qed

text \<open>The new chunk, after its first run, is filed from \<open>qInit\<close> upwards.\<close>

lemma settle_new:
  assumes inv: "arena_inv ps n p this r L V" and d: "chunk_ok ps n (pa_sizes r) this (po_memory p1) d [H]"
      "pc_memory d = Some (po_next p)"
    and x: "x = Suc (po_next p)"
    and p1: "p1 = (put_chunk (with_new_chunk p (2 ^ n) c) x d)\<lparr>po_next := Suc (Suc x)\<rparr>"
  obtains p2 L' e where "add p1 (q_at r 0) x = Inr p2" "arena_inv ps n p2 this r L' (V(x := [H]))"
    "po_chunks p2 x = Some e" "pc_memory e = pc_memory d" "po_threadCache p2 = po_threadCache p"
proof -
  note D = arena_invD [OF inv] and N = arena_inv_fresh [OF inv, folded x]
  have rd: "runs_inv ps n (pa_sizes r) d [H]" using d(1) by (simp add: chunk_ok_def)
  note pos = runs_inv_size(3) [OF rd]
  have ok1: "lists_ok p1 L"
    by (rule lists_ok_cong [OF D(7)]) (use N(1) in \<open>auto simp: p1 x with_new_chunk_def\<close>)
  have six1: "six_lists p1 this r (2 ^ n)" using D(6) six_lists_cong [of p1 p] by (simp add: p1 with_new_chunk_def)
  have x1: "po_chunks p1 x = Some d" by (simp add: p1)
  have fuel: "0 < (6::nat)" "5 < 0 + Suc (po_next p1)" using D(8) by (simp_all add: p1 x)
  obtain j p2 where j: "add_from (Suc (po_next p1)) p1 (q_at r 0) x = Inr p2" "j < 6" "lo (2 ^ n) j < pc_freeBytes d"
    "\<forall>i. 0 \<le> i \<and> i < j \<longrightarrow> pc_freeBytes d \<le> lo (2 ^ n) i" "lists_ok p2 (L(q_at r j := x # L (q_at r j)))" "relinked p1 p2"
    using add_from_ok [OF ok1 six1 D(12,13) x1 N(2) _ fuel] pos unfolding filed_in_def by blast
  note R = relinkedD [OF j(6)]
  let ?L = "L(q_at r j := x # L (q_at r j))"
  have hi: "pc_freeBytes d \<le> hi (2 ^ n) j"
  proof (cases j)
    case 0
    then show ?thesis using pos windows(3) [OF D(12,13)] by simp
  next
    case (Suc m)
    then have "pc_freeBytes d \<le> lo (2 ^ n) m" "lo (2 ^ n) m \<le> hi (2 ^ n) j" using j(2,4) windows(1) [OF D(12,13), of m] by simp_all
    then show ?thesis by simp
  qed
  obtain e where e: "po_chunks p2 x = Some e" "unlinked e = unlinked d" using relinked_chunk(1) [OF j(6) x1] by blast
  have old: "po_chunks p1 y = po_chunks p y" if "y \<noteq> x" for y using that by (simp add: p1 x with_new_chunk_def)
  have fresh1: "fresh_ok p1"
    by (rule fresh_ok_new [OF D(9) _ d(2) x]) (simp_all add: p1 x with_new_chunk_def)
  have "arena_inv ps n p2 this r ?L (V(x := [H]))"
  proof (rule arena_inv_change [OF inv, where x = x])
    show "six_lists p2 this r (2 ^ n)" using six_lists_relinked [OF j(6)] six1 by simp
    show "fresh_ok p2" by (rule fresh_ok_relinked [OF fresh1 j(6)])
    show "\<exists>b'. po_chunks p2 y = Some b' \<and> unlinked b' = unlinked b" if "y \<noteq> x" "po_chunks p y = Some b" for y b
      using relinked_chunk(1) [OF j(6), of y b] old that by simp
    show "po_memory p2 m = po_memory p m" if "po_chunks p y = Some b" "pc_memory b = Some m" for y b m
      using D(9) that R(4) unfolding fresh_ok_def by (fastforce simp: p1 with_new_chunk_def)
    show "stocked ps n p2 this r ?L (V(x := [H])) k x" if "k < 6" "x \<in> set (?L (q_at r k))" for k
    proof -
      have "k = j" using that N(2) q_at_inj [OF D(6) that(1) j(2)] by (auto simp: filed_def split: if_splits)
      then show ?thesis using e d(1) j(3) hi R(4) unlinkedD(1) [OF e(2)] by (simp add: stocked_def chunk_ok_unlinked [OF e(2)])
    qed
    show "\<exists>k<6. x \<in> set (?L (q_at r k))" using j(2) by (intro exI [of _ j]) simp
  qed (use D R j(5) in \<open>auto simp: p1 x with_new_chunk_def\<close>)
  then show ?thesis using that [of p2 ?L e] j(1) e unlinkedD(2) [OF e(2)] R(6) by (simp add: add_def p1 with_new_chunk_def)
qed

lemma allocateNormal_ok:
  assumes inv: "arena_inv ps n p this r L V" and i: "normal_idx ps n i"
  shows "allocateNormal p this buf req (int i) tc = Inl AssertionFailed \<and> (\<exists>k<6. \<exists>x\<in>set (L (q_at r k)). V x = []) \<or>
    (\<exists>buf' p'. allocateNormal p this buf req (int i) tc = Inr (buf', p') \<and> grants ps n this r V buf req i buf' p')"
proof -
  note D = arena_invD [OF inv]
  define ks :: "nat list" where "ks = [3, 2, 1, 0, 4]"
  have qs: "[pa_q050 r, pa_q025 r, pa_q000 r, pa_qInit r, pa_q075 r] = map (q_at r) ks"
    by (simp add: q_at_def ks_def)
  have init: "pa_qInit r = q_at r 0" by (simp add: q_at_def)
  note start = allocateNormal_def [of p this, unfolded load_Some [of "po_arenas p", OF D(5)] bindE.simps(2) qs, unfolded init]
  have "outcome ps n this r L V p buf req i (try_lists (map (q_at r) ks) p buf req (int i) tc)" (is "outcome _ _ _ _ _ _ _ _ _ _ ?t")
    by (rule try_lists_ok [OF inv i]) (simp add: ks_def)
  then consider "?t = Inl AssertionFailed" "\<exists>k<6. \<exists>x\<in>set (L (q_at r k)). V x = []"
    | (none) z where "?t = Inr (False, buf, p\<lparr>po_next := z\<rparr>)" "arena_inv ps n (p\<lparr>po_next := z\<rparr>) this r L V"
    | (some) buf' p' where "?t = Inr (True, buf', p')" "grants ps n this r V buf req i buf' p'"
    unfolding outcome_def by blast
  then show ?thesis
  proof cases
    case none
    let ?p = "p\<lparr>po_next := z\<rparr>"
    let ?x = "Suc (po_next ?p)"
    obtain pg where pg: "m_smallMaxSizeIdx (pa_sizes r) < int i" "i < 4 * (n - 5)" "class_size 4 i = pg * 2 ^ ps"
      "1 \<le> pg" "pg \<le> 2 ^ (n - ps)" by (rule normal_idxD [OF inv i])
    obtain c H d where c: "newChunk ?p this r (m_pageSize (pa_sizes r)) (m_nPSizes (pa_sizes r)) (m_pageShifts (pa_sizes r))
        (m_chunkSize (pa_sizes r)) = Inr (?x, with_new_chunk ?p (2 ^ n) c)"
      "chunk_ok ps n (pa_sizes r) this (po_memory (with_new_chunk ?p (2 ^ n) c)) c []"
      "allocateRun (pa_sizes r) c (pg * 2 ^ ps) = Inr (H, d)" "runs_inv ps n (pa_sizes r) d [H]"
      "0 \<le> H" "\<not> isSubpage H" "calculateRunPages H = pg" "pc_memory c = Some (po_next ?p)"
      by (rule newChunk_ok [OF D(1,2) pg(4,5)])
    let ?q = "with_new_chunk ?p (2 ^ n) c"
    let ?p1 = "(put_chunk ?q ?x d)\<lparr>po_next := Suc (Suc ?x)\<rparr>"
    have loads: "po_chunks ?q ?x = Some c" "po_arenas ?q this = Some r" "po_next ?q = Suc ?x" "po_threadCache ?q = po_threadCache ?p"
      using D(5) by (simp_all add: with_new_chunk_def)
    note A = chunk_allocate_run [OF loads(1) c(2) loads(2) D(1) pg(1-3) c(3,4,5,6)]
    have d: "chunk_ok ps n (pa_sizes r) this (po_memory ?p1) d [H]" "pc_memory d = Some (po_next ?p)"
      using A(2) frameD(3) [OF A(3)] c(8) by simp_all
    obtain p2 L' e where s: "add ?p1 (q_at r 0) ?x = Inr p2" "arena_inv ps n p2 this r L' (V(?x := [H]))"
      "po_chunks p2 ?x = Some e" "pc_memory e = pc_memory d" "po_threadCache p2 = po_threadCache ?p"
      by (rule settle_new [OF none(2) d refl refl])
    have "grants ps n this r V buf req i (run_buf ps ?q r ?x d buf H req) p2"
      unfolding grants_def
      using s c(6,7) pg(3) arena_inv_fresh(3) [OF none(2)] run_buf_cong [OF s(4), of p2 ?q] loads(4)
      by (intro exI [of _ ?x] exI [of _ H] exI [of _ L'] exI [of _ e]) simp
    moreover have "allocateNormal p this buf req (int i) tc = Inr (run_buf ps ?q r ?x d buf H req, p2)"
      using none(1) c(1) A(1) s(1) loads(3) unfolding start by (simp add: Let_def)
    ultimately show ?thesis by blast
  qed (simp_all add: start)
qed

subsection \<open>Giving a run back\<close>

lemma chunk_free_run:
  assumes c: "po_chunks p x = Some c" "chunk_ok ps n (pa_sizes r) this mem c (A @ H # B)"
    and r: "po_arenas p this = Some r'" "pa_sizes r' = pa_sizes r" and H: "\<not> isSubpage H"
  obtains d where "chunk_free p x H nc b = Inr (put_chunk p x d)" "chunk_ok ps n (pa_sizes r) this mem d (A @ B)"
    "frame c d" "pc_freeBytes c < pc_freeBytes d"
proof -
  have C: "runs_inv ps n (pa_sizes r) c (A @ H # B)" "pc_arena c = this" "pc_cachedBuffers c = []"
    using c(2) by (simp_all add: chunk_ok_def)
  obtain d where d: "freeRun (pa_sizes r) c H = Inr d" "runs_inv ps n (pa_sizes r) d (A @ B)"
    "pc_freeBytes d = pc_freeBytes c + calculateRunPages H * 2 ^ ps"
    by (rule runs_inv_free [OF C(1)])
  note f = freeRun_frame [OF d(1)]
  have "chunk_free p x H nc b = Inr (put_chunk p x d)"
    using c(1) C(2,3) r H d(1) frameD(2) [OF f]
    by (simp add: chunk_free_def pc_free_def arena_view_def Let_def split: option.splits)
  moreover have "valid_handle (2 ^ (n - ps)) H" using runs_inv_valid [OF C(1)] by simp
  then have "0 < calculateRunPages H * 2 ^ ps" using valid_handleD(2) by fastforce
  ultimately show ?thesis using that chunk_ok_frame [OF c(2) f d(2)] f d(3) by simp
qed

lemma no_live_iff:
  assumes "runs_inv ps n sc c Hs" "sc_ok ps n sc"
  shows "Hs = [] \<longleftrightarrow> pc_freeBytes c = 2 ^ n"
proof -
  have "0 < calculateRunSize (int ps) H" if "H \<in> set Hs" for H
    using offset_bytes(3) [OF assms(2) runs_inv_valid [OF assms(1) that]] valid_handleD(2) [OF runs_inv_valid [OF assms(1) that]]
    by simp
  then have "if Hs = [] then (\<Sum>H\<leftarrow>Hs. calculateRunSize (int ps) H) = 0 else 0 < (\<Sum>H\<leftarrow>Hs. calculateRunSize (int ps) H)"
    by (induction Hs) (fastforce split: if_splits)+
  then show ?thesis using runs_inv_bytes [OF assms] by (auto split: if_splits)
qed

text \<open>A chunk that has become too empty for its list moves down, or leaves the arena when all of it is free.\<close>

lemma move0_ok:
  assumes ok: "lists_ok p L" "six_lists p this r C" and C: "4096 \<le> C" "C \<le> 1000000000" "6 \<le> po_next p"
    and x: "po_chunks p x = Some c" "\<not> filed L x" "pc_chunkSize c = C" "pc_freeBytes c \<le> C"
    and k: "k < 6" "hi C k < pc_freeBytes c"
  shows "\<exists>p'. move0 p (q_at r k) x = Inr (pc_freeBytes c < C, p') \<and>
    (if pc_freeBytes c < C then \<exists>j. j < k \<and> lo C j < pc_freeBytes c \<and> pc_freeBytes c \<le> hi C j \<and> filed_in p L r x j p'
     else p' = p)"
proof -
  have k0: "1 \<le> k" using k(2) x(4) windows(3) [OF C(1,2)] by (cases k) auto
  obtain l where l: "po_lists p (q_at r k) = Some l" "cl_prevList l = prev_at r k"
    using six_listsD [OF ok(2) k(1)] by metis
  show ?thesis
  proof (cases "k = 1")
    case True
    then have full: "pc_freeBytes c = C" using k(2) x(4) windows(4) [OF C(1,2)] by simp
    then have "usage c = 0" using usage_bound(3) [OF C(1,2) x(3)] x(4) C(1) by simp
    then show ?thesis using True full l x(1) by (simp add: move0_def prev_at_def)
  next
    case False
    define m where "m = k - 1"
    have m: "1 \<le> m" "m < 5" "k = Suc m" "m \<le> Suc (po_next p)" using False k0 k(1) C(3) by (simp_all add: m_def)
    have "move0 p (q_at r k) x = move_from (Suc (po_next p)) p (q_at r m) x"
      using l x(1) m by (simp add: move0_def move_def prev_at_def)
    moreover obtain p' where p': "move_from (Suc (po_next p)) p (q_at r m) x = Inr (pc_freeBytes c < C, p')"
      "if pc_freeBytes c < C
       then \<exists>j. 1 \<le> j \<and> j \<le> m \<and> pc_freeBytes c \<le> hi C j \<and> (\<forall>i. j < i \<and> i \<le> Suc m \<longrightarrow> hi C i < pc_freeBytes c) \<and> filed_in p L r x j p'
       else p' = p"
      using move_from_ok [OF ok C(1,2) x m(1,2,4)] k(2) m(3) by blast
    moreover have "j < k \<and> lo C j < pc_freeBytes c" if j: "j \<le> m" "\<forall>i. j < i \<and> i \<le> Suc m \<longrightarrow> hi C i < pc_freeBytes c" for j
    proof -
      have "hi C (Suc j) < pc_freeBytes c" using j by simp
      then show ?thesis using windows(1) [OF C(1,2), of j] j(1) m by simp
    qed
    ultimately show ?thesis by (cases "pc_freeBytes c < C") auto
  qed
qed

lemma destroyChunk_ok:
  assumes inv: "arena_inv ps n p this r L V" and k: "k < 6" "x \<in> set (L (q_at r k))"
    and c: "po_chunks p x = Some c" "frame c d" and t: "touched p x d this r r' p1"
    and p2: "lists_ok p2 (L(q_at r k := remove1 x (L (q_at r k))))" "relinked p1 p2"
  obtains p3 where "destroyChunk p2 x = Inr p3" "po_chunks p3 x = None"
    "arena_inv ps n p3 this r' (L(q_at r k := remove1 x (L (q_at r k)))) (V(x := []))"
proof -
  note D = arena_invD [OF inv] and R = relinkedD [OF p2(2)] and B = touched_base [OF inv c t]
  let ?M = "L(q_at r k := remove1 x (L (q_at r k)))"
  have gone: "x \<notin> set (?M a)" for a
    using lists_ok_unique [OF D(7) k(2)] lists_okD(1) [OF D(7)] by (cases "a = q_at r k") auto
  obtain e where e: "po_chunks p2 x = Some e" "unlinked e = unlinked d"
    using relinked_chunk(1) [OF p2(2), of x d] t by (auto simp: touched_def)
  obtain m where m: "pc_memory c = Some m" using D(9) c(1) unfolding fresh_ok_def by blast
  have em: "pc_memory e = Some m" using unlinkedD(2) [OF e(2)] frameD(3) [OF c(2)] m by simp
  obtain p3 where p3: "destroyChunk p2 x = Inr p3" "po_chunks p3 = (po_chunks p2)(x := None)" "po_memory p3 = (po_memory p2)(m := None)"
      "po_lists p3 = po_lists p2" "po_arenas p3 = po_arenas p2" "po_next p3 = po_next p2"
    using e(1) em by (simp add: destroyChunk_def Let_def)
  have ok3: "lists_ok p3 ?M"
    by (rule lists_ok_cong [OF p2(1) p3(4)]) (use gone p3(2) in auto)
  have "arena_inv ps n p3 this r' ?M (V(x := []))"
  proof (rule arena_inv_change [OF inv, where x = x])
    show "six_lists p3 this r' (2 ^ n)" using six_lists_cong [OF p3(4)] six_lists_relinked [OF p2(2)] B(2) by simp
    show "fresh_ok p3"
      by (rule fresh_ok_mono [OF fresh_ok_relinked [OF B(3) p2(2)]]) (use p3(2,6) in \<open>auto split: if_splits\<close>)
    show "\<exists>b'. po_chunks p3 y = Some b' \<and> unlinked b' = unlinked b" if "y \<noteq> x" "po_chunks p y = Some b" for y b
      using relinked_chunk(1) [OF p2(2), of y b] that t p3(2) by (simp add: touched_def)
    show "po_memory p3 m' = po_memory p m'" if y: "y \<noteq> x" "po_chunks p y = Some b" "pc_memory b = Some m'" for y b m'
    proof -
      have "m' \<noteq> m" using D(9) c(1) m y unfolding fresh_ok_def by metis
      then show ?thesis using p3(3) R(4) t by (simp add: touched_def)
    qed
    show "y \<in> set (?M (q_at r i)) \<longleftrightarrow> y \<in> set (L (q_at r i))" if "y \<noteq> x" for i y
      using that by (auto dest: notin_set_remove1)
    show "stocked ps n p3 this r ?M (V(x := [])) i x" if "x \<in> set (?M (q_at r i))" for i
      using gone that by blast
  qed (use ok3 R t p3(5,6) in \<open>simp_all add: touched_def\<close>)
  then show ?thesis using that p3(1,2) by simp
qed

lemma settle_down:
  assumes inv: "arena_inv ps n p this r L V" and k: "k < 6" "x \<in> set (L (q_at r k))"
    and c: "po_chunks p x = Some c" "frame c d" "chunk_ok ps n (pa_sizes r) this (po_memory p) d Gs"
    and t: "touched p x d this r r' p1" and hi: "hi (2 ^ n) k < pc_freeBytes d"
  obtains p' L' where
    "bindE (bindE (cl_remove p1 (q_at r k) x) (\<lambda>p. move0 p (q_at r k) x)) (\<lambda>(kept, p). if \<not> kept then destroyChunk p x else Inr p) = Inr p'"
    "arena_inv ps n p' this r' L' (V(x := Gs))" "po_chunks p' x = None \<longleftrightarrow> Gs = []"
proof -
  note D = arena_invD [OF inv] and B = touched_base [OF inv c(1,2) t]
  let ?M = "L(q_at r k := remove1 x (L (q_at r k)))"
  have rd: "runs_inv ps n (pa_sizes r) d Gs" using c(3) by (simp add: chunk_ok_def)
  note size = runs_inv_size(1,3) [OF rd] and empty = no_live_iff [OF rd D(1)]
  obtain p2 where p2: "cl_remove p1 (q_at r k) x = Inr p2" "lists_ok p2 ?M" "relinked p1 p2"
    by (rule cl_remove_ok [OF B(1) k(2)])
  obtain e where e: "po_chunks p2 x = Some e" "unlinked e = unlinked d"
    using relinked_chunk(1) [OF p2(3), of x d] t by (auto simp: touched_def)
  have new: "\<not> filed ?M x" using lists_ok_unique [OF D(7) k(2)] lists_okD(1) [OF D(7)] by (auto simp: filed_def)
  have six2: "six_lists p2 this r (2 ^ n)" "6 \<le> po_next p2"
    using six_lists_relinked [OF p2(3)] six_lists_queues [of r' r] B(2) D(8) relinkedD(5) [OF p2(3)] t by (simp_all add: touched_def)
  have fe: "pc_freeBytes e = pc_freeBytes d" "pc_chunkSize e = 2 ^ n" "pc_freeBytes e \<le> 2 ^ n"
    using unlinkedD(1,4) [OF e(2)] size by simp_all
  obtain p3 where p3: "move0 p2 (q_at r k) x = Inr (pc_freeBytes d < 2 ^ n, p3)"
    "if pc_freeBytes d < 2 ^ n then \<exists>j. j < k \<and> lo (2 ^ n) j < pc_freeBytes d \<and> pc_freeBytes d \<le> hi (2 ^ n) j \<and> filed_in p2 ?M r x j p3
     else p3 = p2"
    using move0_ok [OF p2(2) six2(1) D(12,13) six2(2) e(1) new fe(2,3) k(1), unfolded fe(1), OF hi] by blast
  show ?thesis
  proof (cases "pc_freeBytes d < 2 ^ n")
    case True
    then obtain j where j: "j < k" "lo (2 ^ n) j < pc_freeBytes d" "pc_freeBytes d \<le> hi (2 ^ n) j"
      "lists_ok p3 (?M(q_at r j := x # ?M (q_at r j)))" "relinked p2 p3"
      using p3(2) by (auto simp: filed_in_def)
    have "arena_inv ps n p3 this r' (?M(q_at r j := x # ?M (q_at r j))) (V(x := Gs))"
      by (rule touched_refile [OF inv k c t _ _ j(2,3) _ j(4) relinked_trans [OF p2(3) j(5)]])
        (use j(1) k(1) in \<open>simp_all add: Let_def\<close>)
    moreover have "po_chunks p3 x \<noteq> None" "Gs \<noteq> []" using relinked_chunk(1) [OF j(5) e(1)] empty True by auto
    ultimately show ?thesis using that p2(1) p3(1) True by auto
  next
    case False
    obtain p4 where "destroyChunk p2 x = Inr p4" "po_chunks p4 x = None" "arena_inv ps n p4 this r' ?M (V(x := []))"
      by (rule destroyChunk_ok [OF inv k c(1,2) t p2(2,3)])
    moreover have "Gs = []" using empty False size(2) by auto
    ultimately show ?thesis using that [of p4 ?M] p2(1) p3 False by auto
  qed
qed

lemma freeChunk_ok:
  assumes inv: "arena_inv ps n p this r L V" and k: "k < 6" "x \<in> set (L (q_at r k))"
    and H: "V x = A @ H # B" "\<not> isSubpage H"
    and r': "r' = r\<lparr>pa_deallocationsNormal := i64 (pa_deallocationsNormal r + 1)\<rparr>"
  obtains p' L' where "freeChunk p this x H nc NORMAL b False = Inr p'" "arena_inv ps n p' this r' L' (V(x := A @ B))"
    "po_chunks p' x = None \<longleftrightarrow> A @ B = [] \<and> k \<noteq> 0" "po_chunks p' x \<noteq> None \<longrightarrow> (\<exists>j<6. x \<in> set (L' (q_at r j)))"
proof -
  note D = arena_invD [OF inv]
  obtain c where c: "po_chunks p x = Some c" "chunk_ok ps n (pa_sizes r) this (po_memory p) c (A @ H # B)"
    "lo (2 ^ n) k < pc_freeBytes c"
    by (rule stockedD [OF D(10) [OF k]]) (use H(1) in auto)
  have parent: "pc_parent c = Some (q_at r k)" using lists_ok_member [OF D(7) k(2)] c(1) by auto
  let ?p = "put_arena p this r'"
  have same: "pa_sizes r' = pa_sizes r" "q_at r' = q_at r" by (simp_all add: r' q_at_def fun_eq_iff)
  have loads: "po_chunks ?p x = Some c" "po_arenas ?p this = Some r'" using c(1) by simp_all
  obtain d where d: "chunk_free ?p x H nc b = Inr (put_chunk ?p x d)" "chunk_ok ps n (pa_sizes r) this (po_memory p) d (A @ B)"
    "frame c d" "pc_freeBytes c < pc_freeBytes d"
    by (rule chunk_free_run [OF loads(1) c(2) loads(2) same(1) H(2)])
  let ?p1 = "put_chunk ?p x d"
  have t: "touched p x d this r r' ?p1" by (simp add: touched_def same)
  note B = touched_base [OF inv c(1) d(3) t]
  have rd: "runs_inv ps n (pa_sizes r) d (A @ B)" using d(2) by (simp add: chunk_ok_def)
  note size = runs_inv_size(1,3) [OF rd] and empty = no_live_iff [OF rd D(1)]
  obtain l where l: "po_lists ?p1 (q_at r k) = Some l" "cl_freeMaxThreshold l = hi (2 ^ n) k"
    using six_listsD [OF B(2) k(1)] same(2) by metis
  have run: "freeChunk p this x H nc NORMAL b False = bindE (if pc_freeBytes d > hi (2 ^ n) k
      then bindE (cl_remove ?p1 (q_at r k) x) (\<lambda>p. move0 p (q_at r k) x) else Inr (True, ?p1))
      (\<lambda>(kept, p). if \<not> kept then destroyChunk p x else Inr p)"
    using D(5) c(1) parent d(1) l by (simp add: freeChunk_def cl_free_def r' Let_def)
  show ?thesis
  proof (cases "pc_freeBytes d > hi (2 ^ n) k")
    case False
    have "arena_inv ps n ?p1 this r' L (V(x := A @ B))"
      by (rule touched_stay [OF inv k c(1) d(3,2) _ _ t]) (use False c(3) d(4) in simp_all)
    moreover have "A @ B \<noteq> [] \<or> k = 0" using windows(6) [OF D(12,13), of k] k(1) empty False by (cases k) auto
    ultimately show ?thesis using that [of ?p1 L] run False k by auto
  next
    case True
    have "hi (2 ^ n) 0 \<ge> pc_freeBytes d" using windows(3) [OF D(12,13)] size(2) by simp
    then have "k \<noteq> 0" using True by (metis not_le)
    obtain p' L' where "bindE (bindE (cl_remove ?p1 (q_at r k) x) (\<lambda>p. move0 p (q_at r k) x))
        (\<lambda>(kept, p). if \<not> kept then destroyChunk p x else Inr p) = Inr p'"
      "arena_inv ps n p' this r' L' (V(x := A @ B))" "po_chunks p' x = None \<longleftrightarrow> A @ B = []"
      by (rule settle_down [OF inv k c(1) d(3,2) t True])
    moreover from this have "po_chunks p' x \<noteq> None \<longrightarrow> (\<exists>j<6. x \<in> set (L' (q_at r j)))"
      using arena_invD(11) [of ps n p' this r' L' "V(x := A @ B)" x] same(2) by auto
    ultimately show ?thesis using that [of p' L'] run True \<open>k \<noteq> 0\<close> by simp
  qed
qed

subsection \<open>A new arena\<close>

definition pool_empty :: "Pool \<Rightarrow> bool" where
  "pool_empty p \<longleftrightarrow> po_arenas p = Map.empty \<and> po_lists p = Map.empty \<and> po_chunks p = Map.empty"

lemma less_6_iff: "k < 6 \<longleftrightarrow> k \<in> {0, 1, 2, 3, 4, 5::nat}"
  by auto

lemma PoolArena_new_ok:
  assumes p: "pool_empty p" and ps: "12 \<le> ps" "ps + 2 \<le> n" "n - ps \<le> 14" "n \<le> 24"
  obtains p' r where "PoolArena_new p parent (2 ^ ps) (int ps) (2 ^ n) = Inr (po_next p, p')"
    "arena_inv ps n p' (po_next p) r (\<lambda>_. []) (\<lambda>_. [])" "po_chunks p' = Map.empty" "po_memory p' = po_memory p"
    "po_threadCache p' = po_threadCache p"
proof -
  have "n \<le> 29" using ps(4) by simp
  then obtain sc where sc: "SizeClasses_new (2 ^ ps) (int ps) (2 ^ n) = Inr sc" "sc_ok ps n sc"
    "m_smallMaxSizeIdx sc = 4 * (int ps - 3) - 2"
    using SizeClasses_new_ok [OF ps(1,2)] by metis
  define m where "m = nat (m_nSubpages sc)"
  define r where "r = \<lparr>pa_sizes = sc, pa_smallSubpagePools = [po_next p + 1..<po_next p + 1 + m],
      pa_q050 = po_next p + 1 + m + 2, pa_q025 = po_next p + 1 + m + 3, pa_q000 = po_next p + 1 + m + 4,
      pa_qInit = po_next p + 1 + m + 5, pa_q075 = po_next p + 1 + m + 1, pa_q100 = po_next p + 1 + m,
      pa_allocationsNormal = 0, pa_allocationsSmall = 0, pa_allocationsHuge = 0,
      pa_activeBytesHuge = 0, pa_deallocationsSmall = 0, pa_deallocationsNormal = 0,
      pa_deallocationsHuge = 0, pa_numSmallSubpagePools = m_nSubpages sc, pa_parent = parent,
      pa_numThreadCaches = 0\<rparr>"
  let ?ls = "\<lambda>k. list_at (po_next p) r (2 ^ n) k"
  define p' where "p' = p\<lparr>po_arenas := (po_arenas p)(po_next p \<mapsto> r),
      po_subpages := newHeads m (po_next p + 1) (po_subpages p),
      po_lists := (po_lists p)(q_at r 5 \<mapsto> ?ls 5, q_at r 4 \<mapsto> ?ls 4, q_at r 3 \<mapsto> ?ls 3, q_at r 2 \<mapsto> ?ls 2,
        q_at r 1 \<mapsto> ?ls 1, q_at r 0 \<mapsto> ?ls 0), po_next := po_next p + 1 + m + 6\<rparr>"
  have "PoolArena_new p parent (2 ^ ps) (int ps) (2 ^ n) = Inr (po_next p, p')"
    using sc(1) by (simp add: PoolArena_new_def PoolChunkList_new_def prevList_def Let_def p'_def r_def m_def q_at_def
        list_at_def prev_at_def next_at_def lo_def hi_def min_at_def max_at_def)
  moreover have q: "q_at r k = po_next p + 1 + m + (5 - k)" if "k < 6" for k
    using that by (auto simp: q_at_def r_def less_6_iff)
  then have inj: "inj_on (q_at r) {..<6}" by (intro inj_onI) simp
  have "po_lists p' (q_at r 0) = Some (?ls 0)" "po_lists p' (q_at r 1) = Some (?ls 1)" "po_lists p' (q_at r 2) = Some (?ls 2)"
    "po_lists p' (q_at r 3) = Some (?ls 3)" "po_lists p' (q_at r 4) = Some (?ls 4)" "po_lists p' (q_at r 5) = Some (?ls 5)"
    by (simp_all add: p'_def q)
  then have lists: "po_lists p' (q_at r k) = Some (?ls k)" if "k < 6" for k
    using that unfolding less_6_iff by blast
  have "headless (?ls k) = ?ls k" for k by (simp add: headless_def list_at_def)
  then have "six_lists p' (po_next p) r (2 ^ n)" using inj lists by (simp add: six_lists_def)
  moreover have "lists_ok p' (\<lambda>_. [])"
    using p by (auto simp: lists_ok_def p'_def pool_empty_def list_at_def split: option.splits)
  moreover have "fresh_ok p'" using p by (simp add: fresh_ok_def p'_def pool_empty_def)
  ultimately show ?thesis using that [of p' r] p sc ps by (simp add: arena_inv_def p'_def r_def pool_empty_def)
qed

end
