(* ===== verification/Pool_Arena_Runs.thy ===== *)
theory Pool_Arena_Runs
  imports Pool_Arena_Laws
begin

section \<open>PoolArena: histories of regions\<close>

text \<open>
  The behaviour of an arena of \<open>buffer/PoolArena.cpp\<close> over sequences of allocations of normal size and
  releases: the memory regions of live buffers never overlap, a request is served unless a chunk
  without a live region stops at its assertion, and a release files the chunk by its usage or
  destroys it.
\<close>

subsection \<open>Histories of an arena\<close>

text \<open>
  \<open>live\<close> lists the regions that buffers hold, as the chunk and the handle of the buffer. The arena is
  the first object of its pool; requests are of the classes above \<open>m_smallMaxSizeIdx\<close>.
\<close>

inductive arena_history :: "nat \<Rightarrow> nat \<Rightarrow> nat \<Rightarrow> Pool \<Rightarrow> (nat \<times> int) list \<Rightarrow> bool" for ps n this where
  start: "pool_empty p \<Longrightarrow> PoolArena_new p parent (2 ^ ps) (int ps) (2 ^ n) = Inr (this, p') \<Longrightarrow>
    arena_history ps n this p' []"
| alloc: "arena_history ps n this p live \<Longrightarrow> normal_idx ps n i \<Longrightarrow>
    allocateNormal p this buf req (int i) tc = Inr (buf', p') \<Longrightarrow> pb_chunk buf' = Some x \<Longrightarrow>
    arena_history ps n this p' ((x, pb_handle buf') # live)"
| free: "arena_history ps n this p (A @ (x, H) # B) \<Longrightarrow> freeChunk p this x H nc NORMAL b False = Inr p' \<Longrightarrow>
    arena_history ps n this p' (A @ B)"

definition runs_of :: "(nat \<times> int) list \<Rightarrow> nat \<Rightarrow> int list" where
  "runs_of live x = map snd (filter (\<lambda>e. fst e = x) live)"

lemma runs_of_simps [simp]:
  "runs_of [] = (\<lambda>_. [])" "runs_of ((x, H) # live) = (runs_of live)(x := H # runs_of live x)"
  by (auto simp: runs_of_def)

lemma runs_of_append: "runs_of (A @ B) x = runs_of A x @ runs_of B x"
  by (simp add: runs_of_def)

lemma runs_of_remove: "runs_of (A @ B) = (runs_of (A @ (x, H) # B))(x := runs_of A x @ runs_of B x)"
  by (auto simp: fun_eq_iff runs_of_append)

lemma runs_of_iff: "H \<in> set (runs_of live x) \<longleftrightarrow> (x, H) \<in> set live"
  by (force simp: runs_of_def)

lemma runs_of_Nil: "runs_of live x = [] \<longleftrightarrow> x \<notin> fst ` set live"
  by (auto simp: runs_of_def filter_empty_conv)

lemma grants_run:
  assumes "grants ps n this r V buf req i buf' p'" "pb_chunk buf' = Some x"
  obtains L c where "arena_inv ps n p' this r L (V(x := pb_handle buf' # V x))" "po_chunks p' x = Some c"
    "\<not> isSubpage (pb_handle buf')" "calculateRunPages (pb_handle buf') * 2 ^ ps = class_size 4 i"
    "buf' = run_buf ps p' r x c buf (pb_handle buf') req"
proof -
  obtain y H L c where g: "arena_inv ps n p' this r L (V(y := H # V y))" "po_chunks p' y = Some c" "\<not> isSubpage H"
    "calculateRunPages H * 2 ^ ps = class_size 4 i" "buf' = run_buf ps p' r y c buf H req"
    using assms(1) by (auto simp: grants_def)
  then have "y = x" "pb_handle buf' = H" using assms(2) by (simp_all add: run_buf_def)
  then show ?thesis using that [of L c] g by simp
qed

lemma arena_history_inv:
  assumes "arena_history ps n this p live" and ps: "12 \<le> ps" "ps + 2 \<le> n" "n - ps \<le> 14" "n \<le> 24"
  shows "\<exists>r L. arena_inv ps n p this r L (runs_of live) \<and> (\<forall>e\<in>set live. \<not> isSubpage (snd e))"
  using assms(1)
proof induction
  case (start p parent p')
  obtain q r where "PoolArena_new p parent (2 ^ ps) (int ps) (2 ^ n) = Inr (po_next p, q)"
    "arena_inv ps n q (po_next p) r (\<lambda>_. []) (\<lambda>_. [])"
    by (rule PoolArena_new_ok [OF start(1) ps])
  then show ?case using start(2) by auto
next
  case (alloc p live i buf req tc buf' p' x)
  then obtain r L where inv: "arena_inv ps n p this r L (runs_of live)" and sub: "\<forall>e\<in>set live. \<not> isSubpage (snd e)" by blast
  have "grants ps n this r (runs_of live) buf req i buf' p'"
    using allocateNormal_ok [OF inv alloc.hyps(2), of buf req tc] alloc.hyps(3) by auto
  then obtain L' where "arena_inv ps n p' this r L' ((runs_of live)(x := pb_handle buf' # runs_of live x))" "\<not> isSubpage (pb_handle buf')"
    using alloc.hyps(4) by (auto elim!: grants_run)
  then show ?case unfolding runs_of_simps(2) using sub by (intro exI conjI) (assumption, simp)
next
  case (free p A x H B nc b p')
  then obtain r L where inv: "arena_inv ps n p this r L (runs_of (A @ (x, H) # B))"
    and sub: "\<forall>e\<in>set (A @ (x, H) # B). \<not> isSubpage (snd e)" by blast
  have V: "runs_of (A @ (x, H) # B) x = runs_of A x @ H # runs_of B x" by (simp add: runs_of_append)
  obtain k where k: "k < 6" "x \<in> set (L (q_at r k))" using arena_invD(11) [OF inv, of x] V by auto
  have "\<not> isSubpage H" using sub by simp
  obtain q L' where "freeChunk p this x H nc NORMAL b False = Inr q"
    "arena_inv ps n q this (r\<lparr>pa_deallocationsNormal := i64 (pa_deallocationsNormal r + 1)\<rparr>) L'
      ((runs_of (A @ (x, H) # B))(x := runs_of A x @ runs_of B x))"
    by (rule freeChunk_ok [OF inv k V \<open>\<not> isSubpage H\<close> refl])
  then have "arena_inv ps n p' this (r\<lparr>pa_deallocationsNormal := i64 (pa_deallocationsNormal r + 1)\<rparr>) L'
      ((runs_of (A @ (x, H) # B))(x := runs_of A x @ runs_of B x))" using free.hyps(2) by simp
  then show ?case unfolding runs_of_remove [of A B x H] using sub by (intro exI conjI) (assumption, simp)
qed

subsection \<open>The memory of a region\<close>

text \<open>The bytes of a region, as pairs of a memory block and an offset.\<close>

definition bytes_of :: "nat \<Rightarrow> Pool \<Rightarrow> nat \<times> int \<Rightarrow> (nat \<times> int) set" where
  "bytes_of ps p e = (case po_chunks p (fst e) of
       None \<Rightarrow> {}
     | Some c \<Rightarrow> (case pc_memory c of
           None \<Rightarrow> {}
         | Some m \<Rightarrow> {m} \<times> {calculateRunOffset (snd e) * 2 ^ ps..<(calculateRunOffset (snd e) + calculateRunPages (snd e)) * 2 ^ ps}))"

definition regions_apart :: "nat \<Rightarrow> Pool \<Rightarrow> nat \<times> int \<Rightarrow> nat \<times> int \<Rightarrow> bool" where
  "regions_apart ps p e f \<longleftrightarrow> bytes_of ps p e \<inter> bytes_of ps p f = {}"

lemma page_le_iff: "a * 2 ^ ps \<le> j \<longleftrightarrow> a \<le> j div 2 ^ ps" for a j :: int
proof
  assume "a * 2 ^ ps \<le> j"
  then have "a * 2 ^ ps div 2 ^ ps \<le> j div 2 ^ ps" by (rule zdiv_mono1) simp
  then show "a \<le> j div 2 ^ ps" by simp
next
  assume "a \<le> j div 2 ^ ps"
  then have "a * 2 ^ ps \<le> j div 2 ^ ps * 2 ^ ps" by (rule mult_right_mono) simp
  also have "\<dots> \<le> j" by (rule div_window(1)) simp
  finally show "a * 2 ^ ps \<le> j" .
qed

lemma page_of_byte: "j \<in> {a * 2 ^ ps..<b * 2 ^ ps} \<longleftrightarrow> j div 2 ^ ps \<in> {a..<b}" for a b j :: int
  using page_le_iff [of a ps j] page_le_iff [of b ps j] by auto

lemma stocked_region:
  assumes inv: "arena_inv ps n p this r L V" and H: "H \<in> set (V x)"
  obtains c m bs where "po_chunks p x = Some c" "runs_inv ps n (pa_sizes r) c (V x)" "pc_memory c = Some m"
    "po_memory p m = Some bs" "length bs = 2 ^ n" "valid_handle (2 ^ (n - ps)) H"
    "bytes_of ps p (x, H) = {b. fst b = m \<and> snd b div 2 ^ ps \<in> rset H}"
proof -
  have "V x \<noteq> []" using H by auto
  then obtain k where k: "k < 6" "x \<in> set (L (q_at r k))" using arena_invD(11) [OF inv] by blast
  obtain c where c: "po_chunks p x = Some c" "chunk_ok ps n (pa_sizes r) this (po_memory p) c (V x)"
    "runs_inv ps n (pa_sizes r) c (V x)"
    by (rule stockedD [OF arena_invD(10) [OF inv k]])
  then obtain m bs where m: "pc_memory c = Some m" "po_memory p m = Some bs" "length bs = 2 ^ n" by (auto simp: chunk_ok_def)
  have "bytes_of ps p (x, H) = {b. fst b = m \<and> snd b div 2 ^ ps \<in> rset H}"
    using c(1) m(1) page_of_byte by (auto simp: bytes_of_def rset_def)
  then show ?thesis using that c m runs_inv_valid [OF c(3) H] by blast
qed

lemma regions_apart_sym: "regions_apart ps p e f = regions_apart ps p f e"
  by (auto simp: regions_apart_def)

lemma sorted_wrt_splitI: "(\<And>A B e f. xs = A @ e # B \<Longrightarrow> f \<in> set B \<Longrightarrow> P e f) \<Longrightarrow> sorted_wrt P xs"
proof (induction xs)
  case (Cons x xs)
  have "sorted_wrt P xs" by (rule Cons.IH) (use Cons.prems [of "x # _"] in simp)
  then show ?case using Cons.prems [of "[]" x xs] by simp
qed simp

text \<open>Two live runs of one chunk are apart by its invariant, runs of two chunks by their memory.\<close>

lemma arena_apart:
  assumes inv: "arena_inv ps n p this r L (runs_of live)"
  shows "sorted_wrt (regions_apart ps p) live"
proof -
  have "regions_apart ps p e f" if live: "live = A @ e # B" and f: "f \<in> set B" for A B e f
  proof -
    obtain x H y G where e: "e = (x, H)" "f = (y, G)" by (cases e, cases f)
    have "H \<in> set (runs_of live x)" "G \<in> set (runs_of live y)" using live f e by (auto simp only: runs_of_iff set_append list.set Un_iff)
    obtain c m where c: "po_chunks p x = Some c" "runs_inv ps n (pa_sizes r) c (runs_of live x)" "pc_memory c = Some m"
      "bytes_of ps p (x, H) = {b. fst b = m \<and> snd b div 2 ^ ps \<in> rset H}"
      by (rule stocked_region [OF inv \<open>H \<in> set (runs_of live x)\<close>])
    obtain d m' where d: "po_chunks p y = Some d" "pc_memory d = Some m'"
      "bytes_of ps p (y, G) = {b. fst b = m' \<and> snd b div 2 ^ ps \<in> rset G}"
      by (rule stocked_region [OF inv \<open>G \<in> set (runs_of live y)\<close>])
    show ?thesis
    proof (cases "x = y")
      case True
      have "sorted_wrt run_apart (runs_of live x)" using c(2) by (simp add: runs_inv_def)
      moreover have "G \<in> set (runs_of B x)" using f e True by (simp add: runs_of_iff)
      ultimately have "rset H \<inter> rset G = {}" by (auto simp: live e runs_of_append sorted_wrt_append run_apart_def)
      then show ?thesis using c d by (auto simp: regions_apart_def e)
    next
      case False
      then have "m \<noteq> m'" using arena_invD(9) [OF inv] c(1,3) d(1,2) unfolding fresh_ok_def by metis
      then show ?thesis using c(4) d(3) by (auto simp: regions_apart_def e)
    qed
  qed
  then show ?thesis by (rule sorted_wrt_splitI)
qed

subsection \<open>A first allocation\<close>

definition no_pool :: Pool where
  "no_pool = \<lparr>po_arenas = Map.empty, po_lists = Map.empty, po_chunks = Map.empty, po_subpages = Map.empty,
     po_caches = Map.empty, po_memory = Map.empty, po_next = 1, po_threadCache = None\<rparr>"

lemma history_start:
  assumes "12 \<le> ps" "ps + 2 \<le> n" "n - ps \<le> 14" "n \<le> 24"
  obtains p where "PoolArena_new no_pool None (2 ^ ps) (int ps) (2 ^ n) = Inr (1, p)" "arena_history ps n 1 p []" "po_chunks p = Map.empty"
proof -
  have e: "pool_empty no_pool" "po_next no_pool = 1" by (simp_all add: pool_empty_def no_pool_def)
  obtain p where "PoolArena_new no_pool None (2 ^ ps) (int ps) (2 ^ n) = Inr (po_next no_pool, p)" "po_chunks p = Map.empty"
    by (rule PoolArena_new_ok [OF e(1) assms])
  then show ?thesis using that arena_history.start [OF e(1)] e(2) by metis
qed

lemma history_alloc:
  assumes h: "arena_history ps n this p live" and ps: "12 \<le> ps" "ps + 2 \<le> n" "n - ps \<le> 14" "n \<le> 24"
    and i: "normal_idx ps n i" and used: "\<And>x c. po_chunks p x = Some c \<Longrightarrow> x \<in> fst ` set live"
  obtains r L c buf' p' x where "allocateNormal p this buf req (int i) tc = Inr (buf', p')" "pb_chunk buf' = Some x"
    "arena_history ps n this p' ((x, pb_handle buf') # live)" "po_chunks p' x = Some c"
    "arena_inv ps n p' this r L (runs_of ((x, pb_handle buf') # live))"
    "calculateRunPages (pb_handle buf') * 2 ^ ps = class_size 4 i" "buf' = run_buf ps p' r x c buf (pb_handle buf') req"
proof -
  obtain r L where inv: "arena_inv ps n p this r L (runs_of live)" using arena_history_inv [OF h ps] by blast
  have "runs_of live x \<noteq> []" if "x \<in> set (L (q_at r k))" for k x
    using lists_ok_member [OF arena_invD(7) [OF inv] that] used by (auto simp: runs_of_Nil)
  then obtain buf' p' where a: "allocateNormal p this buf req (int i) tc = Inr (buf', p')" "grants ps n this r (runs_of live) buf req i buf' p'"
    using allocateNormal_ok [OF inv i, of buf req tc] by blast
  then obtain x where x: "pb_chunk buf' = Some x" by (auto simp: grants_def run_buf_def)
  obtain L' c where g: "arena_inv ps n p' this r L' ((runs_of live)(x := pb_handle buf' # runs_of live x))" "po_chunks p' x = Some c"
    "calculateRunPages (pb_handle buf') * 2 ^ ps = class_size 4 i" "buf' = run_buf ps p' r x c buf (pb_handle buf') req"
    by (rule grants_run [OF a(2) x])
  show ?thesis
    by (rule that [OF a(1) x arena_history.alloc [OF h i a(1) x] g(2) _ g(3,4)]) (use g(1) in simp)
qed

subsection \<open>Properties\<close>

text \<open>
  C4: Buffers of an arena never share memory: after any sequence of allocations of normal size and
  releases, the regions of the live buffers are pairwise disjoint, each lies inside the memory block of
  its chunk, and the free bytes of a chunk are its size less the sizes of its live regions.
\<close>

theorem arena_regions_never_overlap:
  assumes "12 \<le> ps" "ps + 2 \<le> n" "n - ps \<le> 14" "n \<le> 24" "arena_history ps n this p live"
  shows "sorted_wrt (regions_apart ps p) live \<and>
    (\<forall>(x, H)\<in>set live. \<exists>c m bs. po_chunks p x = Some c \<and> pc_memory c = Some m \<and> po_memory p m = Some bs \<and>
       bytes_of ps p (x, H) \<noteq> {} \<and> bytes_of ps p (x, H) \<subseteq> {m} \<times> {0..<int (length bs)} \<and>
       pc_freeBytes c = 2 ^ n - (\<Sum>G\<leftarrow>runs_of live x. calculateRunSize (int ps) G))"
proof -
  obtain r L where inv: "arena_inv ps n p this r L (runs_of live)" using arena_history_inv [OF assms(5,1-4)] by blast
  note D = arena_invD [OF inv]
  have "\<exists>c m bs. po_chunks p x = Some c \<and> pc_memory c = Some m \<and> po_memory p m = Some bs \<and>
      bytes_of ps p (x, H) \<noteq> {} \<and> bytes_of ps p (x, H) \<subseteq> {m} \<times> {0..<int (length bs)} \<and>
      pc_freeBytes c = 2 ^ n - (\<Sum>G\<leftarrow>runs_of live x. calculateRunSize (int ps) G)"
    if "(x, H) \<in> set live" for x H
  proof -
    have "H \<in> set (runs_of live x)" using that by (simp only: runs_of_iff)
    then obtain c m bs where c: "po_chunks p x = Some c" "runs_inv ps n (pa_sizes r) c (runs_of live x)" "pc_memory c = Some m"
      "po_memory p m = Some bs" "length bs = 2 ^ n" "valid_handle (2 ^ (n - ps)) H"
      by (rule stocked_region [OF inv])
    note V = valid_handleD [OF c(6)] and O = offset_bytes(2) [OF D(1) c(6)]
    have "bytes_of ps p (x, H) = {m} \<times> {calculateRunOffset H * 2 ^ ps..<calculateRunOffset H * 2 ^ ps + calculateRunPages H * 2 ^ ps}"
      using c(1,3) by (simp add: bytes_of_def distrib_right)
    moreover have "0 \<le> calculateRunOffset H * 2 ^ ps" "0 < calculateRunPages H * 2 ^ ps" using V(1,2) by simp_all
    ultimately have "bytes_of ps p (x, H) \<noteq> {}" "bytes_of ps p (x, H) \<subseteq> {m} \<times> {0..<int (length bs)}"
      using O c(5) by auto
    then show ?thesis using c runs_inv_bytes [OF c(2) D(1)] by blast
  qed
  then show ?thesis using arena_apart [OF inv] by auto
qed

text \<open>C4 at 8 KiB pages and 16 MiB chunks, after the allocation of a buffer of class 40.\<close>

theorem arena_regions_never_overlap_witness:
  "\<exists>p e. arena_history 13 24 1 p [e] \<and> sorted_wrt (regions_apart 13 p) [e] \<and>
    (\<forall>(x, H)\<in>set [e]. \<exists>c m bs. po_chunks p x = Some c \<and> pc_memory c = Some m \<and> po_memory p m = Some bs \<and>
       bytes_of 13 p (x, H) \<noteq> {} \<and> bytes_of 13 p (x, H) \<subseteq> {m} \<times> {0..<int (length bs)} \<and>
       pc_freeBytes c = 2 ^ 24 - (\<Sum>G\<leftarrow>runs_of [e] x. calculateRunSize (int 13) G))"
proof -
  have n: "12 \<le> (13::nat)" "13 + 2 \<le> (24::nat)" "24 - 13 \<le> (14::nat)" "24 \<le> (24::nat)" "normal_idx 13 24 40"
    by (simp_all add: normal_idx_def)
  obtain p where p: "arena_history 13 24 1 p []" "po_chunks p = Map.empty" by (rule history_start [OF n(1-4)])
  obtain p' x H where h: "arena_history 13 24 1 p' [(x, H)]"
    by (rule history_alloc [OF p(1) n]) (use p(2) in auto)
  show ?thesis using arena_regions_never_overlap [OF n(1-4) h] h by blast
qed



text \<open>
  C6: Giving a live region back always succeeds and files its chunk by its usage: the chunk is destroyed
  exactly when no live region is left in it and it is not in \<open>qInit\<close>; otherwise it has the bytes back
  and is in a list whose thresholds hold its free bytes. No assertion on the usage fails.
\<close>

theorem arena_release_refiles:
  assumes "12 \<le> ps" "ps + 2 \<le> n" "n - ps \<le> 14" "n \<le> 24" "arena_history ps n this p (A @ (x, H) # B)"
    and "po_arenas p this = Some r" "po_chunks p x = Some c"
  shows "\<exists>p'. freeChunk p this x H nc NORMAL b False = Inr p' \<and>
    (po_chunks p' x = None \<longleftrightarrow> x \<notin> fst ` set (A @ B) \<and> pc_parent c \<noteq> Some (pa_qInit r)) \<and>
    (\<forall>d. po_chunks p' x = Some d \<longrightarrow> pc_freeBytes d = pc_freeBytes c + calculateRunSize (int ps) H \<and>
       (\<exists>q l. pc_parent d = Some q \<and> po_lists p' q = Some l \<and>
          cl_freeMinThreshold l < pc_freeBytes d \<and> pc_freeBytes d \<le> cl_freeMaxThreshold l))"
proof -
  let ?V = "runs_of (A @ (x, H) # B)" and ?r = "r\<lparr>pa_deallocationsNormal := i64 (pa_deallocationsNormal r + 1)\<rparr>"
  obtain r0 L where inv: "arena_inv ps n p this r0 L ?V" and sub: "\<not> isSubpage H"
    using arena_history_inv [OF assms(5,1-4)] by auto
  have r0: "r0 = r" using arena_invD(5) [OF inv] assms(6) by simp
  note inv = inv [unfolded r0]
  note D = arena_invD [OF inv]
  have V: "?V x = runs_of A x @ H # runs_of B x" by (simp add: runs_of_append)
  obtain k where k: "k < 6" "x \<in> set (L (q_at r k))" using D(11) [of x] V by auto
  have parent: "pc_parent c = Some (q_at r k)" using lists_ok_member [OF D(7) k(2)] assms(7) by auto
  have rc: "runs_inv ps n (pa_sizes r) c (?V x)" by (rule stockedD [OF D(10) [OF k]]) (use assms(7) in simp)
  obtain p' L' where p': "freeChunk p this x H nc NORMAL b False = Inr p'"
    "arena_inv ps n p' this ?r L' (?V(x := runs_of A x @ runs_of B x))"
    "po_chunks p' x = None \<longleftrightarrow> runs_of A x @ runs_of B x = [] \<and> k \<noteq> 0" "po_chunks p' x \<noteq> None \<longrightarrow> (\<exists>j<6. x \<in> set (L' (q_at r j)))"
    by (rule freeChunk_ok [OF inv k V sub refl])
  have "q_at r k = pa_qInit r \<longleftrightarrow> k = 0" using q_at_inj [OF D(6) k(1), of 0] by (simp add: q_at_def)
  then have a: "po_chunks p' x = None \<longleftrightarrow> x \<notin> fst ` set (A @ B) \<and> pc_parent c \<noteq> Some (pa_qInit r)"
    using p'(3) parent runs_of_Nil [of A x] runs_of_Nil [of B x] by auto
  have b: "pc_freeBytes d = pc_freeBytes c + calculateRunSize (int ps) H \<and>
       (\<exists>q l. pc_parent d = Some q \<and> po_lists p' q = Some l \<and>
          cl_freeMinThreshold l < pc_freeBytes d \<and> pc_freeBytes d \<le> cl_freeMaxThreshold l)"
    if d: "po_chunks p' x = Some d" for d
  proof -
    note D' = arena_invD [OF p'(2)]
    obtain j where j: "j < 6" "x \<in> set (L' (q_at ?r j))" using p'(4) d by (auto simp: q_at_def)
    have rd: "runs_inv ps n (pa_sizes r) d (runs_of A x @ runs_of B x)" "lo (2 ^ n) j < pc_freeBytes d" "pc_freeBytes d \<le> hi (2 ^ n) j"
      using d by (auto intro: stockedD [OF D'(10) [OF j]])
    have "pc_freeBytes d = pc_freeBytes c + calculateRunSize (int ps) H"
      using runs_inv_bytes [OF rc D(1)] runs_inv_bytes [OF rd(1) D(1)] V by simp
    moreover obtain l where "po_lists p' (q_at ?r j) = Some l" "cl_freeMinThreshold l = lo (2 ^ n) j" "cl_freeMaxThreshold l = hi (2 ^ n) j"
      by (rule six_listsD [OF D'(6) j(1)])
    moreover have "pc_parent d = Some (q_at ?r j)" using lists_ok_member [OF D'(7) j(2)] d by auto
    ultimately show ?thesis using rd(2,3) by auto
  qed
  show ?thesis
    by (rule exI [of _ p'], rule conjI [OF p'(1)], rule conjI [OF a]) (intro allI impI, rule b)
qed

text \<open>C6 at the same configuration: the release of the first buffer of a new arena.\<close>

theorem arena_release_refiles_witness:
  "\<exists>p x H r c. arena_history 13 24 1 p ([] @ (x, H) # []) \<and> po_arenas p 1 = Some r \<and> po_chunks p x = Some c \<and>
    (\<exists>p'. freeChunk p 1 x H 40960 NORMAL None False = Inr p' \<and>
    (po_chunks p' x = None \<longleftrightarrow> x \<notin> fst ` set ([] @ ([] :: (nat \<times> int) list)) \<and> pc_parent c \<noteq> Some (pa_qInit r)) \<and>
    (\<forall>d. po_chunks p' x = Some d \<longrightarrow> pc_freeBytes d = pc_freeBytes c + calculateRunSize (int 13) H \<and>
       (\<exists>q l. pc_parent d = Some q \<and> po_lists p' q = Some l \<and>
          cl_freeMinThreshold l < pc_freeBytes d \<and> pc_freeBytes d \<le> cl_freeMaxThreshold l)))"
proof -
  have n: "12 \<le> (13::nat)" "13 + 2 \<le> (24::nat)" "24 - 13 \<le> (14::nat)" "24 \<le> (24::nat)" "normal_idx 13 24 40"
    by (simp_all add: normal_idx_def)
  obtain p where p: "arena_history 13 24 1 p []" "po_chunks p = Map.empty" by (rule history_start [OF n(1-4)])
  obtain r L c p' x H where h: "arena_history 13 24 1 p' [(x, H)]" "po_chunks p' x = Some c"
    "arena_inv 13 24 p' 1 r L (runs_of [(x, H)])"
    by (rule history_alloc [OF p(1) n]) (use p(2) in auto)
  have h0: "arena_history 13 24 1 p' ([] @ (x, H) # [])" using h(1) by simp
  show ?thesis
    by (rule exI [of _ p'], rule exI [of _ x], rule exI [of _ H], rule exI [of _ r], rule exI [of _ c], rule conjI [OF h0],
        rule conjI [OF arena_invD(5) [OF h(3)]], rule conjI [OF h(2)],
        rule arena_release_refiles [OF n(1-4) h0 arena_invD(5) [OF h(3)] h(2)])
qed

end
