(* ===== verification/Pool_Allocator.thy ===== *)
theory Pool_Allocator
  imports Pool_Arena
begin

section \<open>PooledByteBufAllocator and the growth of buffers\<close>

text \<open>
  \<open>buffer/PooledByteBufAllocator.h\<close> and \<open>buffer/PooledByteBufAllocator.cpp\<close>, and the operations of
  \<open>buffer/PooledByteBuf.cpp\<close> that reach the arena: growing to a new capacity, writing, and
  deallocation.
\<close>

subsection \<open>The capacity policy\<close>

definition MIN_PAGE_SIZE :: int where "MIN_PAGE_SIZE = 4096"
definition MAX_CHUNK_SIZE :: int where "MAX_CHUNK_SIZE = 1073741824"
definition DEFAULT_PAGE_SIZE :: int where "DEFAULT_PAGE_SIZE = 8192"
definition DEFAULT_MAX_ORDER :: int where "DEFAULT_MAX_ORDER = 11"
definition DEFAULT_SMALL_CACHE_SIZE :: int where "DEFAULT_SMALL_CACHE_SIZE = 256"
definition DEFAULT_NORMAL_CACHE_SIZE :: int where "DEFAULT_NORMAL_CACHE_SIZE = 64"
definition DEFAULT_MAX_CACHED_BUFFER_CAPACITY :: int where "DEFAULT_MAX_CACHED_BUFFER_CAPACITY = 32 * 1024"
definition DEFAULT_CACHE_TRIM_INTERVAL :: int where "DEFAULT_CACHE_TRIM_INTERVAL = 8192"
definition DEFAULT_INITIAL_CAPACITY :: int where "DEFAULT_INITIAL_CAPACITY = 256"
definition DEFAULT_MAX_CAPACITY :: int where "DEFAULT_MAX_CAPACITY = INT_MAX"
definition CALCULATE_THRESHOLD :: int where "CALCULATE_THRESHOLD = 1048576 * 4"

text \<open>The doubling loop; 32 rounds exceed every request below the threshold.\<close>

primrec double_until :: "nat \<Rightarrow> int \<Rightarrow> int \<Rightarrow> int result" where
  "double_until 0 newCapacity minNewCapacity = Inl Diverges"
| "double_until (Suc fuel) newCapacity minNewCapacity =
     (if newCapacity < minNewCapacity then double_until fuel (shl newCapacity 1) minNewCapacity
      else Inr newCapacity)"

definition calculateNewCapacity :: "int \<Rightarrow> int \<Rightarrow> int result" where
  "calculateNewCapacity minNewCapacity maxCapacity =
     bindE (assertE (minNewCapacity \<ge> 0)) (\<lambda>_.
     if minNewCapacity > maxCapacity then Inl StdException
     else
       let threshold = CALCULATE_THRESHOLD
       in if minNewCapacity = threshold then Inr threshold
          else if minNewCapacity > threshold then
            let newCapacity = i32 (minNewCapacity sdiv threshold * threshold)
            in if newCapacity > i32 (maxCapacity - threshold) then Inr maxCapacity
               else Inr (i32 (newCapacity + threshold))
          else bindE (double_until 32 64 minNewCapacity) (\<lambda>newCapacity. Inr (min newCapacity maxCapacity)))"

subsection \<open>Growing, writing and deallocating a buffer\<close>

definition set_capacity :: "Pool \<Rightarrow> PooledByteBuf \<Rightarrow> int \<Rightarrow> (PooledByteBuf \<times> Pool) result" where
  "set_capacity p buf newCapacity =
     (if newCapacity = pb_length buf then Inr (buf, p)
      else
        bindE (checkNewCapacity buf newCapacity) (\<lambda>_.
        if newCapacity > pb_length buf \<and> newCapacity \<le> pb_maxLength buf then
          Inr (buf\<lparr>pb_length := newCapacity\<rparr>, p)
        else if \<not> newCapacity > pb_length buf \<and> newCapacity > shr (pb_maxLength buf) 1 \<and>
                (pb_maxLength buf > 512 \<or> newCapacity > i32 (pb_maxLength buf - 16)) then
          Inr (trimIndicesToCapacity (buf\<lparr>pb_length := newCapacity\<rparr>) newCapacity, p)
        else
          bindE (deref (pb_chunk buf)) (\<lambda>chunk.
          bindE (load (po_chunks p) chunk) (\<lambda>c. reallocate p (pc_arena c) buf newCapacity True))))"

definition ensureWritable :: "Pool \<Rightarrow> PooledByteBuf \<Rightarrow> int \<Rightarrow> (PooledByteBuf \<times> Pool) result" where
  "ensureWritable p buf minWritableBytes =
     bindE (assertE (minWritableBytes \<ge> 0)) (\<lambda>_.
     let targetCapacity = i32 (pb_writerIndex buf + minWritableBytes)
     in bindE (assertE (targetCapacity \<ge> 0 \<and> targetCapacity \<le> pb_maxCapacity buf)) (\<lambda>_.
        if targetCapacity > pb_length buf then
          let writable = writableBytes buf
          in bindE (if writable \<ge> minWritableBytes then Inr (i32 (pb_writerIndex buf + writable))
                    else bindE (deref (pb_allocator buf)) (\<lambda>_.
                         calculateNewCapacity targetCapacity (pb_maxCapacity buf))) (\<lambda>newCapacity.
               set_capacity p buf newCapacity)
        else Inr (buf, p)))"

text \<open>\<open>writeBytes(src, srcIndex, length)\<close>; \<open>src\<close> is the array behind the pointer.\<close>

definition pb_writeBytes ::
  "Pool \<Rightarrow> PooledByteBuf \<Rightarrow> char list \<Rightarrow> nat \<Rightarrow> nat \<Rightarrow> (PooledByteBuf \<times> Pool) result" where
  "pb_writeBytes p buf src srcIndex length' =
     bindE (ensureWritable p buf (int length')) (\<lambda>(buf, p).
     bindE (setBytes (po_memory p) buf (pb_writerIndex buf) src srcIndex length') (\<lambda>m.
       Inr (buf\<lparr>pb_writerIndex := i32 (pb_writerIndex buf + int length')\<rparr>, p\<lparr>po_memory := m\<rparr>)))"

definition deallocate :: "Pool \<Rightarrow> PooledByteBuf \<Rightarrow> (PooledByteBuf \<times> Pool) result" where
  "deallocate p buf =
     (if pb_handle buf \<ge> 0 then
        bindE (deref (pb_chunk buf)) (\<lambda>chunk.
        bindE (load (po_chunks p) chunk) (\<lambda>c.
        bindE (arena_free p (pc_arena c) chunk (pb_tmpBuf buf) (pb_handle buf) (pb_maxLength buf) (pb_cache buf)) (\<lambda>p.
          Inr (buf\<lparr>pb_handle := - 1, pb_memory := None, pb_tmpBuf := None, pb_chunk := None\<rparr>, p))))
      else Inr (buf, p))"

subsection \<open>The allocator\<close>

record Allocator =
  al_arenas :: "nat list"
  al_smallCacheSize :: int
  al_normalCacheSize :: int
  al_chunkSize :: int

definition validateAndCalculatePageShifts :: "int \<Rightarrow> int result" where
  "validateAndCalculatePageShifts pageSize' =
     (if pageSize' < MIN_PAGE_SIZE then Inl StdException
      else if pageSize' AND i32 (pageSize' - 1) \<noteq> 0 then Inl StdException
      else Inr (log2 pageSize'))"

primrec chunkSize_loop :: "nat \<Rightarrow> int \<Rightarrow> int result" where
  "chunkSize_loop 0 chunkSize = Inr chunkSize"
| "chunkSize_loop (Suc i) chunkSize =
     (if chunkSize > MAX_CHUNK_SIZE sdiv 2 then Inl StdException else chunkSize_loop i (shl chunkSize 1))"

definition validateAndCalculateChunkSize :: "int \<Rightarrow> int \<Rightarrow> int result" where
  "validateAndCalculateChunkSize pageSize' maxOrder =
     bindE (assertE (maxOrder < 14)) (\<lambda>_. chunkSize_loop (nat maxOrder) pageSize')"

primrec newArenas :: "nat \<Rightarrow> Pool \<Rightarrow> nat \<Rightarrow> int \<Rightarrow> int \<Rightarrow> int \<Rightarrow> (nat list \<times> Pool) result" where
  "newArenas 0 p this pageSize' pageShifts chunkSize = Inr ([], p)"
| "newArenas (Suc n) p this pageSize' pageShifts chunkSize =
     bindE (PoolArena_new p (Some this) pageSize' pageShifts chunkSize) (\<lambda>(a, p).
     bindE (newArenas n p this pageSize' pageShifts chunkSize) (\<lambda>(as, p). Inr (a # as, p)))"

definition PooledByteBufAllocatorInit ::
  "Pool \<Rightarrow> nat \<Rightarrow> int \<Rightarrow> int \<Rightarrow> int \<Rightarrow> int \<Rightarrow> int \<Rightarrow> (Allocator \<times> Pool) result" where
  "PooledByteBufAllocatorInit p this nArena pageSize' maxOrder smallCacheSize normalCacheSize =
     bindE (validateAndCalculateChunkSize pageSize' maxOrder) (\<lambda>chunkSize.
     bindE (validateAndCalculatePageShifts pageSize') (\<lambda>pageShifts.
     bindE (newArenas (nat nArena) p this pageSize' pageShifts chunkSize) (\<lambda>(as, p).
       Inr (\<lparr>al_arenas = as, al_smallCacheSize = smallCacheSize, al_normalCacheSize = normalCacheSize,
             al_chunkSize = chunkSize\<rparr>, p))))"

text \<open>The constructor; \<open>DEFAULT_NUM_ARENA\<close> is the number of processors online.\<close>

definition PooledByteBufAllocator_new :: "Pool \<Rightarrow> int \<Rightarrow> (nat \<times> Allocator \<times> Pool) result" where
  "PooledByteBufAllocator_new p DEFAULT_NUM_ARENA =
     (let this = po_next p; p = p\<lparr>po_next := Suc this\<rparr>
      in bindE (assertE (DEFAULT_NUM_ARENA > 0)) (\<lambda>_.
         bindE (PooledByteBufAllocatorInit p this DEFAULT_NUM_ARENA DEFAULT_PAGE_SIZE DEFAULT_MAX_ORDER
                  DEFAULT_SMALL_CACHE_SIZE DEFAULT_NORMAL_CACHE_SIZE) (\<lambda>(al, p). Inr (this, al, p))))"

primrec least_from :: "Pool \<Rightarrow> nat list \<Rightarrow> nat \<Rightarrow> nat result" where
  "least_from p [] minArena = Inr minArena"
| "least_from p (a # as) minArena =
     bindE (load (po_arenas p) a) (\<lambda>r.
     bindE (load (po_arenas p) minArena) (\<lambda>rm.
       least_from p as (if pa_numThreadCaches r < pa_numThreadCaches rm then a else minArena)))"

definition leastUsedArena :: "Pool \<Rightarrow> nat list \<Rightarrow> nat option result" where
  "leastUsedArena p arenas =
     (case arenas of [] \<Rightarrow> Inr None | a # as \<Rightarrow> bindE (least_from p as a) (\<lambda>m. Inr (Some m)))"

definition initialValue :: "Pool \<Rightarrow> Allocator \<Rightarrow> (nat \<times> Pool) result" where
  "initialValue p al =
     bindE (leastUsedArena p (al_arenas al)) (\<lambda>leastArena.
     bindE (PoolThreadCache_new p leastArena (al_smallCacheSize al) (al_normalCacheSize al)
              DEFAULT_MAX_CACHED_BUFFER_CAPACITY DEFAULT_CACHE_TRIM_INTERVAL) (\<lambda>(t, p).
     let a = po_next p in Inr (a, (put_cache p a t)\<lparr>po_next := Suc a\<rparr>)))"

text \<open>\<open>ALLOCATOR()\<close>: the singleton and the cache of the thread are made on first use.\<close>

definition ALLOCATOR :: "Pool \<Rightarrow> (nat \<times> Allocator) option \<Rightarrow> int \<Rightarrow> ((nat \<times> Allocator) \<times> Pool) result" where
  "ALLOCATOR p DEFAULT_ALLOC nproc =
     bindE (case DEFAULT_ALLOC of
              Some al \<Rightarrow> Inr (al, p)
            | None \<Rightarrow> bindE (PooledByteBufAllocator_new p nproc) (\<lambda>(this, al, p). Inr ((this, al), p)))
       (\<lambda>(al, p).
          case po_threadCache p of
            Some _ \<Rightarrow> Inr (al, p)
          | None \<Rightarrow> bindE (initialValue p (snd al)) (\<lambda>(t, p). Inr (al, p\<lparr>po_threadCache := Some t\<rparr>)))"

definition threadCache :: "Pool \<Rightarrow> nat result" where
  "threadCache p = bindE (assertE (po_threadCache p \<noteq> None)) (\<lambda>_. deref (po_threadCache p))"

definition newPoolBuffer :: "Pool \<Rightarrow> PooledByteBuf \<Rightarrow> int \<Rightarrow> int \<Rightarrow> (PooledByteBuf \<times> Pool) result" where
  "newPoolBuffer p obj initialCapacity maxCapacity =
     bindE (deref (po_threadCache p)) (\<lambda>tc.
     bindE (load (po_caches p) tc) (\<lambda>t.
     case tc_arena t of
       None \<Rightarrow> Inl StdException
     | Some a \<Rightarrow> arena_allocate_new p a tc obj initialCapacity maxCapacity))"

definition validate :: "int \<Rightarrow> int \<Rightarrow> unit result" where
  "validate initialCapacity maxCapacity =
     bindE (assertE (initialCapacity \<ge> 0)) (\<lambda>_.
     if initialCapacity > maxCapacity then Inl StdException else Inr ())"

definition buffer_default :: "Pool \<Rightarrow> PooledByteBuf \<Rightarrow> (PooledByteBuf \<times> Pool) result" where
  "buffer_default p obj = newPoolBuffer p obj DEFAULT_INITIAL_CAPACITY DEFAULT_MAX_CAPACITY"

definition buffer_initial :: "Pool \<Rightarrow> PooledByteBuf \<Rightarrow> int \<Rightarrow> (PooledByteBuf \<times> Pool) result" where
  "buffer_initial p obj initialCapacity = newPoolBuffer p obj initialCapacity DEFAULT_MAX_CAPACITY"

definition buffer_bounded ::
  "Pool \<Rightarrow> PooledByteBuf \<Rightarrow> int \<Rightarrow> int \<Rightarrow> (PooledByteBuf option \<times> Pool) result" where
  "buffer_bounded p obj initialCapacity maxCapacity =
     (if initialCapacity = 0 \<and> maxCapacity = 0 then Inr (None, p)
      else bindE (validate initialCapacity maxCapacity) (\<lambda>_.
           bindE (newPoolBuffer p obj initialCapacity maxCapacity) (\<lambda>(buf, p). Inr (Some buf, p))))"

end
