(* ===== verification/Byte_Buffer.thy ===== *)
theory Byte_Buffer
  imports Pool_Allocator
begin

section \<open>Buffer: the buffer of a connection\<close>

text \<open>
  \<open>buffer/Buffer.h\<close> and \<open>buffer/Buffer.cpp\<close>: a wrapper around one pooled buffer that connections read
  into and that the HTTP parser scans. A \<open>Buffer\<close> is its pointer \<open>m_internalByteBuf\<close>; \<open>None\<close> is
  \<open>nullptr\<close>.
\<close>

subsection \<open>Operations\<close>

type_synonym Buffer = "PooledByteBuf option"

definition internal :: "Buffer \<Rightarrow> PooledByteBuf result" where
  "internal b = (case b of None \<Rightarrow> Inl NullPointer | Some buf \<Rightarrow> Inr buf)"

definition Buffer_default :: Buffer where
  "Buffer_default = None"

definition Buffer_new :: "Pool \<Rightarrow> PooledByteBuf \<Rightarrow> int \<Rightarrow> (Buffer \<times> Pool) result" where
  "Buffer_new p obj size' =
     bindE (assertE (size' \<ge> 0)) (\<lambda>_.
     bindE (buffer_initial p obj size') (\<lambda>(buf, p). Inr (Some buf, p)))"

definition Buffer_destroy :: "Pool \<Rightarrow> Buffer \<Rightarrow> Pool result" where
  "Buffer_destroy p b =
     (case b of None \<Rightarrow> Inr p | Some buf \<Rightarrow> bindE (deallocate p buf) (\<lambda>(_, p). Inr p))"

definition buf_swap :: "Buffer \<Rightarrow> Buffer \<Rightarrow> Buffer \<times> Buffer" where
  "buf_swap a b = (b, a)"

definition buf_readableBytes :: "Buffer \<Rightarrow> int result" where
  "buf_readableBytes b = bindE (internal b) (\<lambda>buf. Inr (readableBytes buf))"

definition buf_writableBytes :: "Buffer \<Rightarrow> int result" where
  "buf_writableBytes b = bindE (internal b) (\<lambda>buf. Inr (writableBytes buf))"

definition buf_peek :: "Buffer \<Rightarrow> (nat \<times> int) result" where
  "buf_peek b = bindE (internal b) pb_peek"

definition buf_begin :: "Buffer \<Rightarrow> (nat \<times> int) result" where
  "buf_begin b = bindE (internal b) (\<lambda>buf.
     case pb_tmpBuf buf of None \<Rightarrow> Inl NullPointer | Some q \<Rightarrow> Inr q)"

definition buf_capacity :: "Buffer \<Rightarrow> int result" where
  "buf_capacity b = bindE (internal b) (\<lambda>buf. Inr (pb_length buf))"

definition buf_retrieve :: "Buffer \<Rightarrow> nat \<Rightarrow> Buffer result" where
  "buf_retrieve b len = bindE (internal b) (\<lambda>buf. bindE (retrieve buf len) (\<lambda>buf. Inr (Some buf)))"

definition buf_retrieveAll :: "Buffer \<Rightarrow> Buffer result" where
  "buf_retrieveAll b = bindE (internal b) (\<lambda>buf. Inr (Some (retrieveAll buf)))"

definition buf_retrieveAsString :: "memory \<Rightarrow> Buffer \<Rightarrow> nat \<Rightarrow> (char list \<times> Buffer) result" where
  "buf_retrieveAsString m b len =
     bindE (internal b) (\<lambda>buf. bindE (retrieveAsString m buf len) (\<lambda>(s, buf). Inr (s, Some buf)))"

definition buf_retrieveAllAsString :: "memory \<Rightarrow> Buffer \<Rightarrow> (char list \<times> Buffer) result" where
  "buf_retrieveAllAsString m b =
     bindE (internal b) (\<lambda>buf. bindE (retrieveAllAsString m buf) (\<lambda>(s, buf). Inr (s, Some buf)))"

definition buf_writeBytes :: "Pool \<Rightarrow> Buffer \<Rightarrow> char list \<Rightarrow> nat \<Rightarrow> (Buffer \<times> Pool) result" where
  "buf_writeBytes p b data length' =
     bindE (internal b) (\<lambda>buf. bindE (pb_writeBytes p buf data 0 length') (\<lambda>(buf, p). Inr (Some buf, p)))"

definition buf_writeString :: "Pool \<Rightarrow> Buffer \<Rightarrow> char list \<Rightarrow> (Buffer \<times> Pool) result" where
  "buf_writeString p b str = buf_writeBytes p b str (length str)"

definition buf_beginWrite :: "Buffer \<Rightarrow> (nat \<times> int) result" where
  "buf_beginWrite b =
     bindE (buf_begin b) (\<lambda>(blk, off). bindE (internal b) (\<lambda>buf. Inr (blk, off + pb_writerIndex buf)))"

text \<open>\<open>std::search\<close> for the two characters CR and LF.\<close>

abbreviation CR :: char where "CR \<equiv> CHR 0x0D"
abbreviation LF :: char where "LF \<equiv> CHR 0x0A"

fun search_crlf :: "char list \<Rightarrow> nat option" where
  "search_crlf (x # y # xs) =
     (if x = CR \<and> y = LF then Some 0 else map_option Suc (search_crlf (y # xs)))"
| "search_crlf xs = None"

text \<open>The bytes from a pointer to \<open>beginWrite()\<close>; a pointer behind it is outside the range.\<close>

definition bytes_from :: "memory \<Rightarrow> Buffer \<Rightarrow> nat \<times> int \<Rightarrow> char list result" where
  "bytes_from m b start =
     bindE (buf_beginWrite b) (\<lambda>(blk, e).
     if snd start \<le> e then read_block m blk (snd start) (nat (e - snd start)) else Inl OutOfBounds)"

definition findCRLF_at :: "memory \<Rightarrow> Buffer \<Rightarrow> nat \<times> int \<Rightarrow> (nat \<times> int) option result" where
  "findCRLF_at m b start =
     bindE (bytes_from m b start) (\<lambda>bs.
       Inr (map_option (\<lambda>i. (fst start, snd start + int i)) (search_crlf bs)))"

definition findCRLF :: "memory \<Rightarrow> Buffer \<Rightarrow> (nat \<times> int) option result" where
  "findCRLF m b = bindE (buf_peek b) (findCRLF_at m b)"

definition findCRLF_from :: "memory \<Rightarrow> Buffer \<Rightarrow> nat \<times> int \<Rightarrow> (nat \<times> int) option result" where
  "findCRLF_from m b start =
     bindE (buf_peek b) (\<lambda>pk.
     bindE (assertE (snd pk \<le> snd start)) (\<lambda>_.
     bindE (buf_beginWrite b) (\<lambda>e.
     bindE (assertE (snd start \<le> snd e)) (\<lambda>_. findCRLF_at m b start))))"

definition retrieveUntil :: "Buffer \<Rightarrow> nat \<times> int \<Rightarrow> Buffer result" where
  "retrieveUntil b e =
     bindE (buf_peek b) (\<lambda>pk.
     bindE (assertE (snd pk \<le> snd e)) (\<lambda>_.
     bindE (buf_beginWrite b) (\<lambda>w.
     bindE (assertE (snd e \<le> snd w)) (\<lambda>_. buf_retrieve b (nat (snd e - snd pk))))))"

subsection \<open>Reading from a descriptor\<close>

text \<open>
  \<open>readv\<close> is a parameter: given the sizes of the two vectors it answers an error number or the bytes
  it read. They fill the writable part first and \<open>extrabuf\<close> behind it.
\<close>

definition EXTRABUF :: nat where "EXTRABUF = 65536"

definition readFd ::
  "Pool \<Rightarrow> Buffer \<Rightarrow> (nat list \<Rightarrow> int + char list) \<Rightarrow> (int option \<times> int \<times> Buffer \<times> Pool) result" where
  "readFd p b readv =
     bindE (internal b) (\<lambda>buf.
     bindE (buf_begin b) (\<lambda>(blk, off).
     let writable = nat (as_size_t (writableBytes buf))
     in case readv (if writable < EXTRABUF then [writable, EXTRABUF] else [writable]) of
          Inl errno \<Rightarrow> Inr (Some errno, - 1, b, p)
        | Inr bs \<Rightarrow>
            bindE (write_block (po_memory p) blk (off + pb_writerIndex buf) (take writable bs)) (\<lambda>m.
            let p = p\<lparr>po_memory := m\<rparr>
            in if length bs \<le> writable then
                 Inr (None, int (length bs),
                      Some (buf\<lparr>pb_writerIndex := i32 (pb_writerIndex buf + int (length bs))\<rparr>), p)
               else
                 bindE (buf_writeBytes p (Some (buf\<lparr>pb_writerIndex := pb_length buf\<rparr>)) (drop writable bs)
                          (length bs - writable)) (\<lambda>(b, p).
                   Inr (None, int (length bs), b, p)))))"

subsection \<open>The readable bytes\<close>

text \<open>
  A buffer in use: its temporary pointer is the start of its window, the window is inside its
  block, and the indices are ordered. \<open>readable\<close> is the string between the indices.
\<close>

definition buf_ok :: "memory \<Rightarrow> PooledByteBuf \<Rightarrow> bool" where
  "buf_ok m buf \<longleftrightarrow> (\<exists>blk bs. pb_memory buf = Some blk \<and> m blk = Some bs \<and>
     pb_tmpBuf buf = Some (blk, pb_offset buf) \<and> 0 \<le> pb_offset buf \<and>
     0 \<le> pb_readerIndex buf \<and> pb_readerIndex buf \<le> pb_writerIndex buf \<and> pb_writerIndex buf \<le> pb_length buf \<and>
     pb_length buf \<le> pb_maxLength buf \<and> pb_offset buf + pb_maxLength buf \<le> int (length bs) \<and>
     int (length bs) \<le> INT_MAX)"

definition readable :: "memory \<Rightarrow> PooledByteBuf \<Rightarrow> char list" where
  "readable m buf = (case pb_memory buf of None \<Rightarrow> [] | Some blk \<Rightarrow> (case m blk of None \<Rightarrow> [] | Some bs \<Rightarrow>
     take (nat (pb_writerIndex buf - pb_readerIndex buf)) (drop (nat (pb_offset buf + pb_readerIndex buf)) bs)))"

lemma buf_okE:
  assumes "buf_ok m buf"
  obtains blk bs where "pb_memory buf = Some blk" "m blk = Some bs"
    "pb_tmpBuf buf = Some (blk, pb_offset buf)" "0 \<le> pb_offset buf"
    "0 \<le> pb_readerIndex buf" "pb_readerIndex buf \<le> pb_writerIndex buf" "pb_writerIndex buf \<le> pb_length buf"
    "pb_length buf \<le> pb_maxLength buf" "pb_offset buf + pb_maxLength buf \<le> int (length bs)"
    "int (length bs) \<le> INT_MAX"
  using assms by (auto simp: buf_ok_def)

lemma readable_length:
  assumes "buf_ok m buf"
  shows "int (length (readable m buf)) = pb_writerIndex buf - pb_readerIndex buf"
    "readableBytes buf = int (length (readable m buf))"
    "as_size_t (readableBytes buf) = int (length (readable m buf))"
proof -
  obtain blk bs where b: "pb_memory buf = Some blk" "m blk = Some bs" "0 \<le> pb_offset buf"
    "0 \<le> pb_readerIndex buf" "pb_readerIndex buf \<le> pb_writerIndex buf" "pb_writerIndex buf \<le> pb_length buf"
    "pb_length buf \<le> pb_maxLength buf" "pb_offset buf + pb_maxLength buf \<le> int (length bs)"
    "int (length bs) \<le> INT_MAX" by (rule buf_okE [OF assms])
  have "nat (pb_writerIndex buf - pb_readerIndex buf) \<le> length bs - nat (pb_offset buf + pb_readerIndex buf)"
    using b(3-8) by linarith
  then show len: "int (length (readable m buf)) = pb_writerIndex buf - pb_readerIndex buf"
    using b(1,2,5) by (simp add: readable_def)
  have "pb_writerIndex buf - pb_readerIndex buf \<le> INT_MAX" using b(3-9) by linarith
  then show r: "readableBytes buf = int (length (readable m buf))" 
    unfolding readableBytes_def len [symmetric] by (intro i32_id) linarith+
  have "int (length (readable m buf)) < 2 ^ 64" using len b(3-9) by simp
  then show "as_size_t (readableBytes buf) = int (length (readable m buf))"
    unfolding r by (simp add: as_size_t_def take_bit_int_eq_self)
qed

lemma peek_ok:
  assumes "buf_ok m buf"
  obtains blk bs where "pb_memory buf = Some blk" "m blk = Some bs"
    "buf_peek (Some buf) = Inr (blk, pb_offset buf + pb_readerIndex buf)"
    "buf_beginWrite (Some buf) = Inr (blk, pb_offset buf + pb_writerIndex buf)"
    "\<And>k n. int (k + n) \<le> pb_writerIndex buf - pb_readerIndex buf \<Longrightarrow>
       read_block m blk (pb_offset buf + pb_readerIndex buf + int k) n = Inr (take n (drop k (readable m buf)))"
proof -
  obtain blk bs where b: "pb_memory buf = Some blk" "m blk = Some bs" "pb_tmpBuf buf = Some (blk, pb_offset buf)"
    "0 \<le> pb_offset buf" "0 \<le> pb_readerIndex buf" "pb_readerIndex buf \<le> pb_writerIndex buf"
    "pb_writerIndex buf \<le> pb_length buf" "pb_length buf \<le> pb_maxLength buf"
    "pb_offset buf + pb_maxLength buf \<le> int (length bs)" by (rule buf_okE [OF assms])
  have "read_block m blk (pb_offset buf + pb_readerIndex buf + int k) n = Inr (take n (drop k (readable m buf)))"
    if kn: "int (k + n) \<le> pb_writerIndex buf - pb_readerIndex buf" for k n
  proof -
    let ?o = "nat (pb_offset buf + pb_readerIndex buf)"
    have "nat (pb_offset buf + pb_readerIndex buf + int k) = k + ?o" using b(4,5) by simp
    moreover have "min n (nat (pb_writerIndex buf - pb_readerIndex buf) - k) = n" using kn by linarith
    then have "take n (drop k (readable m buf)) = take n (drop (k + ?o) bs)"
      using b(1,2) by (simp add: readable_def drop_take)
    moreover have "pb_offset buf + pb_readerIndex buf + int k + int n \<le> int (length bs)" using b(4-9) kn by linarith
    ultimately show ?thesis using b(2,4,5) by (simp add: read_block_def)
  qed
  then show ?thesis
    using that b(1,2,3) by (simp add: buf_peek_def buf_beginWrite_def buf_begin_def internal_def pb_peek_def)
qed

lemma findCRLF_ok:
  assumes "buf_ok m buf"
  shows "\<exists>blk. buf_peek (Some buf) = Inr (blk, pb_offset buf + pb_readerIndex buf) \<and>
    findCRLF m (Some buf) =
      Inr (map_option (\<lambda>i. (blk, pb_offset buf + pb_readerIndex buf + int i)) (search_crlf (readable m buf)))"
proof -
  obtain blk bs where p: "buf_peek (Some buf) = Inr (blk, pb_offset buf + pb_readerIndex buf)"
    "buf_beginWrite (Some buf) = Inr (blk, pb_offset buf + pb_writerIndex buf)"
    "\<And>k n. int (k + n) \<le> pb_writerIndex buf - pb_readerIndex buf \<Longrightarrow>
       read_block m blk (pb_offset buf + pb_readerIndex buf + int k) n = Inr (take n (drop k (readable m buf)))"
    by (rule peek_ok [OF assms]) blast
  note len = readable_length(1) [OF assms]
  let ?n = "nat (pb_writerIndex buf - pb_readerIndex buf)"
  have "?n = length (readable m buf)" "int ?n = pb_writerIndex buf - pb_readerIndex buf" using len by linarith+
  then have "read_block m blk (pb_offset buf + pb_readerIndex buf) ?n = Inr (readable m buf)"
    using p(3) [of 0 ?n] by simp
  moreover have "pb_readerIndex buf \<le> pb_writerIndex buf" using len by linarith
  ultimately have "bytes_from m (Some buf) (blk, pb_offset buf + pb_readerIndex buf) = Inr (readable m buf)"
    using p(2) by (simp add: bytes_from_def)
  then show ?thesis using p(1) by (simp add: findCRLF_def findCRLF_at_def)
qed

lemma retrieve_ok:
  assumes ok: "buf_ok m buf" and n: "n \<le> length (readable m buf)"
  obtains buf' where "retrieve buf n = Inr buf'" "buf_ok m buf'" "readable m buf' = drop n (readable m buf)"
proof -
  note len = readable_length [OF ok]
  obtain blk bs where b: "pb_memory buf = Some blk" "m blk = Some bs" "pb_tmpBuf buf = Some (blk, pb_offset buf)"
    "0 \<le> pb_offset buf" "0 \<le> pb_readerIndex buf" "pb_readerIndex buf \<le> pb_writerIndex buf"
    "pb_writerIndex buf \<le> pb_length buf" "pb_length buf \<le> pb_maxLength buf"
    "pb_offset buf + pb_maxLength buf \<le> int (length bs)" "int (length bs) \<le> INT_MAX" by (rule buf_okE [OF ok])
  show ?thesis
  proof (cases "n < length (readable m buf)")
    case True
    let ?b = "buf\<lparr>pb_readerIndex := pb_readerIndex buf + int n\<rparr>"
    have le: "pb_readerIndex buf + int n \<le> pb_writerIndex buf" using True len(1) by linarith
    then have "i32 (pb_readerIndex buf + int n) = pb_readerIndex buf + int n"
      using b(4-10) by (intro i32_id) linarith+
    then have "retrieve buf n = Inr ?b" using True len(3) by (simp add: retrieve_def)
    moreover have "buf_ok m ?b" using b le by (simp add: buf_ok_def)
    moreover have "nat (pb_offset buf + (pb_readerIndex buf + int n)) = n + nat (pb_offset buf + pb_readerIndex buf)"
      "nat (pb_writerIndex buf - (pb_readerIndex buf + int n)) = nat (pb_writerIndex buf - pb_readerIndex buf) - n"
      using b(4,5) by linarith+
    then have "readable m ?b = drop n (readable m buf)" using b(1,2) by (simp add: readable_def drop_take)
    ultimately show ?thesis using that by blast
  next
    case False
    with n have n_eq: "n = length (readable m buf)" by simp
    have "retrieve buf n = Inr (retrieveAll buf)" using n_eq len(3) by (simp add: retrieve_def)
    moreover have "buf_ok m (retrieveAll buf)" using b by (simp add: buf_ok_def retrieveAll_def)
    moreover have "readable m (retrieveAll buf) = drop n (readable m buf)"
      using b n_eq by (simp add: readable_def retrieveAll_def)
    ultimately show ?thesis using that by blast
  qed
qed

lemma retrieveUntil_ok:
  assumes ok: "buf_ok m buf" and n: "n \<le> length (readable m buf)"
    and pk: "buf_peek (Some buf) = Inr (blk, pb_offset buf + pb_readerIndex buf)"
  obtains buf' where "retrieveUntil (Some buf) (blk, pb_offset buf + pb_readerIndex buf + int n) = Inr (Some buf')"
    "buf_ok m buf'" "readable m buf' = drop n (readable m buf)"
proof -
  obtain buf' where r: "retrieve buf n = Inr buf'" "buf_ok m buf'" "readable m buf' = drop n (readable m buf)"
    by (rule retrieve_ok [OF ok n])
  obtain c bs where w: "buf_beginWrite (Some buf) = Inr (c, pb_offset buf + pb_writerIndex buf)"
    by (rule peek_ok [OF ok])
  have "int n \<le> pb_writerIndex buf - pb_readerIndex buf" using n readable_length(1) [OF ok] by linarith
  then have "retrieveUntil (Some buf) (blk, pb_offset buf + pb_readerIndex buf + int n) = Inr (Some buf')"
    using pk w r(1) by (simp add: retrieveUntil_def buf_retrieve_def internal_def)
  then show ?thesis using that r by blast
qed

lemma retrieveAsString_ok:
  assumes ok: "buf_ok m buf" and n: "n \<le> length (readable m buf)"
  obtains buf' where "retrieveAsString m buf n = Inr (take n (readable m buf), buf')" "buf_ok m buf'"
    "readable m buf' = drop n (readable m buf)"
proof -
  obtain buf' where r: "retrieve buf n = Inr buf'" "buf_ok m buf'" "readable m buf' = drop n (readable m buf)"
    by (rule retrieve_ok [OF ok n])
  obtain blk bs where p: "buf_peek (Some buf) = Inr (blk, pb_offset buf + pb_readerIndex buf)"
    "\<And>k n. int (k + n) \<le> pb_writerIndex buf - pb_readerIndex buf \<Longrightarrow>
       read_block m blk (pb_offset buf + pb_readerIndex buf + int k) n = Inr (take n (drop k (readable m buf)))"
    by (rule peek_ok [OF ok]) blast
  have "int (0 + n) \<le> pb_writerIndex buf - pb_readerIndex buf" using n readable_length(1) [OF ok] by linarith
  from p(2) [OF this] have "read_block m blk (pb_offset buf + pb_readerIndex buf) n = Inr (take n (readable m buf))"
    by simp
  then have "retrieveAsString m buf n = Inr (take n (readable m buf), buf')"
    using p(1) r(1) n readable_length(3) [OF ok]
    by (simp add: retrieveAsString_def buf_peek_def internal_def)
  then show ?thesis using that r by blast
qed

lemma splice_window:
  "r + k \<le> length bs \<Longrightarrow>
   take (k + length d) (drop r (take (r + k) bs @ d @ rest)) = take k (drop r bs) @ d"
  by (simp add: drop_take)

text \<open>A write that fits appends to the readable bytes and changes no byte outside its window.\<close>

lemma write_fits:
  assumes ok: "buf_ok (po_memory p) buf" and fits: "pb_writerIndex buf + int (length data) \<le> pb_length buf"
    and cap: "pb_length buf \<le> pb_maxCapacity buf"
  obtains buf' m' where "pb_writeBytes p buf data 0 (length data) = Inr (buf', p\<lparr>po_memory := m'\<rparr>)" "buf_ok m' buf'"
    "readable m' buf' = readable (po_memory p) buf @ data" "pb_length buf' = pb_length buf"
    "pb_maxCapacity buf' = pb_maxCapacity buf" "pb_writerIndex buf' = pb_writerIndex buf + int (length data)"
    "\<forall>b. pb_memory buf \<noteq> Some b \<longrightarrow> m' b = po_memory p b"
    "\<forall>b bs. pb_memory buf = Some b \<and> po_memory p b = Some bs \<longrightarrow> (\<exists>bs'. m' b = Some bs' \<and> length bs' = length bs \<and>
       (\<forall>i. (i < nat (pb_offset buf + pb_writerIndex buf) \<or>
             nat (pb_offset buf + pb_writerIndex buf) + length data \<le> i) \<longrightarrow> bs' ! i = bs ! i))"
    "buf' = buf\<lparr>pb_writerIndex := pb_writerIndex buf + int (length data)\<rparr>"
proof -
  let ?m = "po_memory p"
  obtain blk bs where b: "pb_memory buf = Some blk" "?m blk = Some bs" "pb_tmpBuf buf = Some (blk, pb_offset buf)"
    "0 \<le> pb_offset buf" "0 \<le> pb_readerIndex buf" "pb_readerIndex buf \<le> pb_writerIndex buf"
    "pb_writerIndex buf \<le> pb_length buf" "pb_length buf \<le> pb_maxLength buf"
    "pb_offset buf + pb_maxLength buf \<le> int (length bs)" "int (length bs) \<le> INT_MAX" by (rule buf_okE [OF ok])
  let ?w = "pb_writerIndex buf + int (length data)"
  let ?b = "buf\<lparr>pb_writerIndex := ?w\<rparr>"
  let ?at = "nat (pb_offset buf + pb_writerIndex buf)"
  let ?bs = "take ?at bs @ data @ drop (?at + length data) bs"
  let ?m' = "?m(blk \<mapsto> ?bs)"
  have i: "i32 ?w = ?w" "i32 (pb_offset buf + pb_writerIndex buf) = pb_offset buf + pb_writerIndex buf"
    using b(4-10) fits by (intro i32_id; linarith)+
  have le: "?at + length data \<le> length bs" using b(4-9) fits by linarith
  then have len: "length ?bs = length bs" by simp
  have "ensureWritable p buf (int (length data)) = Inr (buf, p)"
    using fits cap b(4-7) i(1) by (simp add: ensureWritable_def Let_def)
  moreover have "write_block ?m blk (pb_offset buf + pb_writerIndex buf) data = Inr ?m'"
    using b(2,4-9) fits by (simp add: write_block_def)
  ultimately have w: "pb_writeBytes p buf data 0 (length data) = Inr (?b, p\<lparr>po_memory := ?m'\<rparr>)"
    using fits i b(1) by (simp add: pb_writeBytes_def setBytes_def idx_def)
  have ok': "buf_ok ?m' ?b"
    unfolding buf_ok_def using b fits len by (intro exI [of _ blk] exI [of _ ?bs]) auto
  have n: "nat (?w - pb_readerIndex buf) = nat (pb_writerIndex buf - pb_readerIndex buf) + length data"
    "nat (pb_offset buf + pb_readerIndex buf) + nat (pb_writerIndex buf - pb_readerIndex buf) = ?at"
    using b(4-6) by linarith+
  have rd: "readable ?m' ?b = readable ?m buf @ data"
  proof -
    let ?r = "nat (pb_offset buf + pb_readerIndex buf)" and ?k = "nat (pb_writerIndex buf - pb_readerIndex buf)"
    have "take (?k + length data) (drop ?r ?bs) = take ?k (drop ?r bs) @ data"
      unfolding n(2) [symmetric] by (rule splice_window) (use n(2) le in linarith)
    then show ?thesis using b(1,2) n(1) by (simp add: readable_def)
  qed
  have keep: "?bs ! j = bs ! j" if "j < ?at \<or> ?at + length data \<le> j" for j
    using that le by (auto simp: nth_append)
  have frame: "\<exists>bs'. ?m' c = Some bs' \<and> length bs' = length cs \<and>
      (\<forall>j. (j < ?at \<or> ?at + length data \<le> j) \<longrightarrow> bs' ! j = cs ! j)"
    if "pb_memory buf = Some c" "?m c = Some cs" for c cs
  proof -
    have "c = blk" "cs = bs" using that b(1,2) by simp_all
    then show ?thesis using len keep by (intro exI [of _ ?bs]) simp
  qed
  have others: "\<forall>c. pb_memory buf \<noteq> Some c \<longrightarrow> ?m' c = ?m c" using b(1) by simp
  show ?thesis
  proof (rule that [OF w ok' rd])
    show "pb_length ?b = pb_length buf" "pb_maxCapacity ?b = pb_maxCapacity buf" "pb_writerIndex ?b = ?w" "?b = ?b" by simp_all
    show "\<forall>c. pb_memory buf \<noteq> Some c \<longrightarrow> ?m' c = ?m c" by (rule others)
    show "\<forall>c cs. pb_memory buf = Some c \<and> ?m c = Some cs \<longrightarrow> (\<exists>bs'. ?m' c = Some bs' \<and> length bs' = length cs \<and>
        (\<forall>j. (j < ?at \<or> ?at + length data \<le> j) \<longrightarrow> bs' ! j = cs ! j))"
      by (intro allI impI frame) simp_all
  qed
qed

subsection \<open>Properties\<close>


definition windows_apart :: "PooledByteBuf \<Rightarrow> PooledByteBuf \<Rightarrow> bool" where
  "windows_apart a b \<longleftrightarrow> pb_memory a \<noteq> pb_memory b \<or> pb_offset a + pb_maxLength a \<le> pb_offset b \<or>
     pb_offset b + pb_maxLength b \<le> pb_offset a"

lemma readable_cong:
  assumes ok: "buf_ok m buf" and b: "pb_memory buf = Some blk" "m blk = Some bs" "m' blk = Some bs'" "length bs' = length bs"
    and same: "\<forall>i. nat (pb_offset buf) \<le> i \<and> i < nat (pb_offset buf + pb_maxLength buf) \<longrightarrow> bs' ! i = bs ! i"
  shows "readable m' buf = readable m buf" "buf_ok m' buf"
proof -
  obtain c cs where o: "pb_memory buf = Some c" "m c = Some cs"
    "pb_tmpBuf buf = Some (c, pb_offset buf)" "0 \<le> pb_offset buf"
    "0 \<le> pb_readerIndex buf" "pb_readerIndex buf \<le> pb_writerIndex buf" "pb_writerIndex buf \<le> pb_length buf"
    "pb_length buf \<le> pb_maxLength buf" "pb_offset buf + pb_maxLength buf \<le> int (length cs)"
    "int (length cs) \<le> INT_MAX" by (rule buf_okE [OF ok])
  have eq: "c = blk" "cs = bs" using b o(1,2) by simp_all
  show "buf_ok m' buf" using o b(3,4) eq by (auto simp: buf_ok_def)
  let ?r = "nat (pb_offset buf + pb_readerIndex buf)" and ?k = "nat (pb_writerIndex buf - pb_readerIndex buf)"
  have "take ?k (drop ?r bs') = take ?k (drop ?r bs)"
  proof (rule nth_equalityI)
    show "length (take ?k (drop ?r bs')) = length (take ?k (drop ?r bs))" using b(4) by simp
    fix i assume "i < length (take ?k (drop ?r bs'))"
    then have i: "i < ?k" "?r + i < length bs" using b(4) by (simp_all add: less_diff_conv add.commute)
    have "nat (pb_offset buf) \<le> ?r + i" "?r + i < nat (pb_offset buf + pb_maxLength buf)"
      using i(1) o(4-8) by linarith+
    with same have "bs' ! (?r + i) = bs ! (?r + i)" by blast
    then show "take ?k (drop ?r bs') ! i = take ?k (drop ?r bs) ! i" using i b(4) by simp
  qed
  then show "readable m' buf = readable m buf" using b by (simp add: readable_def)
qed

text \<open>A change of the memory inside the window of a buffer: every buffer apart from it reads what it read before.\<close>

definition writes_in :: "PooledByteBuf \<Rightarrow> memory \<Rightarrow> memory \<Rightarrow> bool" where
  "writes_in buf m m' \<longleftrightarrow>
     (\<forall>other. buf_ok m other \<and> windows_apart buf other \<longrightarrow> readable m' other = readable m other \<and> buf_ok m' other)"

lemma writes_inD: "writes_in buf m m' \<Longrightarrow> buf_ok m b \<Longrightarrow> windows_apart buf b \<Longrightarrow> readable m' b = readable m b \<and> buf_ok m' b"
  by (simp add: writes_in_def)

lemma writes_in_refl [simp]: "writes_in buf m m"
  by (simp add: writes_in_def)

lemma writes_in_trans: "writes_in buf m m' \<Longrightarrow> writes_in buf m' m'' \<Longrightarrow> writes_in buf m m''"
  by (simp add: writes_in_def)

lemma writes_in_update [simp]:
  "writes_in (buf\<lparr>pb_writerIndex := w\<rparr>) m m' = writes_in buf m m'"
  "windows_apart (buf\<lparr>pb_writerIndex := w\<rparr>) b = windows_apart buf b" "windows_apart b (buf\<lparr>pb_writerIndex := w\<rparr>) = windows_apart b buf"
  by (simp_all add: writes_in_def windows_apart_def)

lemma windows_apart_sym: "windows_apart a b = windows_apart b a"
  by (auto simp: windows_apart_def)

lemma write_frame:
  assumes "buf_ok (po_memory p) buf" "pb_writerIndex buf + int (length data) \<le> pb_length buf" "pb_length buf \<le> pb_maxCapacity buf"
  obtains m where "pb_writeBytes p buf data 0 (length data) =
      Inr (buf\<lparr>pb_writerIndex := pb_writerIndex buf + int (length data)\<rparr>, p\<lparr>po_memory := m\<rparr>)"
    "buf_ok m (buf\<lparr>pb_writerIndex := pb_writerIndex buf + int (length data)\<rparr>)"
    "readable m (buf\<lparr>pb_writerIndex := pb_writerIndex buf + int (length data)\<rparr>) = readable (po_memory p) buf @ data"
    "writes_in buf (po_memory p) m"
proof -
  obtain buf1 m1 where w: "pb_writeBytes p buf data 0 (length data) = Inr (buf1, p\<lparr>po_memory := m1\<rparr>)" "buf_ok m1 buf1"
      "readable m1 buf1 = readable (po_memory p) buf @ data" "buf1 = buf\<lparr>pb_writerIndex := pb_writerIndex buf + int (length data)\<rparr>"
    and ot: "\<forall>b. pb_memory buf \<noteq> Some b \<longrightarrow> m1 b = po_memory p b"
    and fr: "\<forall>b bs. pb_memory buf = Some b \<and> po_memory p b = Some bs \<longrightarrow> (\<exists>bs'. m1 b = Some bs' \<and> length bs' = length bs \<and>
       (\<forall>i. (i < nat (pb_offset buf + pb_writerIndex buf) \<or>
             nat (pb_offset buf + pb_writerIndex buf) + length data \<le> i) \<longrightarrow> bs' ! i = bs ! i))"
    by (rule write_fits [OF assms(1-3)])
  have b: "0 \<le> pb_offset buf" "0 \<le> pb_writerIndex buf" "pb_length buf \<le> pb_maxLength buf"
    using assms(1) by (auto simp: buf_ok_def)
  have "readable m1 other = readable (po_memory p) other \<and> buf_ok m1 other"
    if ok: "buf_ok (po_memory p) other" and apart: "windows_apart buf other" for other
  proof -
    obtain c cs where o: "pb_memory other = Some c" "po_memory p c = Some cs" "0 \<le> pb_offset other" by (rule buf_okE [OF ok])
    show ?thesis
    proof (cases "pb_memory buf = Some c")
      case True
      then obtain bs' where bs': "m1 c = Some bs'" "length bs' = length cs"
        "\<forall>i. (i < nat (pb_offset buf + pb_writerIndex buf) \<or>
               nat (pb_offset buf + pb_writerIndex buf) + length data \<le> i) \<longrightarrow> bs' ! i = cs ! i"
        using fr o(2) by blast
      have ap: "pb_offset buf + pb_maxLength buf \<le> pb_offset other \<or> pb_offset other + pb_maxLength other \<le> pb_offset buf"
        using apart True o(1) by (simp add: windows_apart_def)
      have "bs' ! i = cs ! i" if "nat (pb_offset other) \<le> i" "i < nat (pb_offset other + pb_maxLength other)" for i
      proof -
        have "i < nat (pb_offset buf + pb_writerIndex buf) \<or> nat (pb_offset buf + pb_writerIndex buf) + length data \<le> i"
          using ap that b o(3) assms(2) by linarith
        then show ?thesis using bs'(3) by blast
      qed
      then have "\<forall>i. nat (pb_offset other) \<le> i \<and> i < nat (pb_offset other + pb_maxLength other) \<longrightarrow> bs' ! i = cs ! i"
        by blast
      from readable_cong [where m' = m1, OF ok o(1,2) bs'(1,2) this] show ?thesis by simp
    next
      case False
      then have "m1 c = Some cs" using ot o(2) by simp
      from readable_cong [where m' = m1, OF ok o(1,2) this refl] show ?thesis by simp
    qed
  qed
  then have "writes_in buf (po_memory p) m1" by (simp add: writes_in_def)
  then show ?thesis using that [of m1] w by simp
qed


subsection \<open>Witnesses\<close>

text \<open>Two buffers of eight bytes in one block, the first with two readable bytes.\<close>

definition sample_pool :: Pool where
  "sample_pool = \<lparr>po_arenas = Map.empty, po_lists = Map.empty, po_chunks = Map.empty, po_subpages = Map.empty,
     po_caches = Map.empty, po_memory = [0 \<mapsto> ''abcdefghijklmnop''], po_next = 1, po_threadCache = None\<rparr>"

definition sample_buf :: "int \<Rightarrow> PooledByteBuf" where
  "sample_buf off = \<lparr>pb_allocator = Some 0, pb_maxCapacity = 8, pb_chunk = Some 0, pb_handle = 0, pb_memory = Some 0,
     pb_offset = off, pb_length = 8, pb_maxLength = 8, pb_cache = None, pb_tmpBuf = Some (0, off),
     pb_readerIndex = 0, pb_writerIndex = 2\<rparr>"

lemma sample_ok: "buf_ok (po_memory sample_pool) (sample_buf 0)" "buf_ok (po_memory sample_pool) (sample_buf 8)"
  "readable (po_memory sample_pool) (sample_buf 0) = ''ab''" "readable (po_memory sample_pool) (sample_buf 8) = ''ij''"
  by (simp_all add: buf_ok_def sample_pool_def sample_buf_def readable_def)



end
