(* ===== verification/Decimal.thy ===== *)
theory Decimal
  imports Prelude
begin

section \<open>Decimal numbers\<close>

text \<open>
  The decimal conversion of \<open>snprintf\<close>, which status lines, content lengths, ports and connection names use:
  a number can be read back from its digits, so different numbers have different texts.
\<close>

definition digit :: "nat \<Rightarrow> char" where
  "digit d = char_of (48 + d)"

fun show_nat :: "nat \<Rightarrow> string" where
  "show_nat n = (if n < 10 then [digit n] else show_nat (n div 10) @ [digit (n mod 10)])"

declare show_nat.simps [simp del]

definition show_int :: "int \<Rightarrow> string" where
  "show_int i = (if i < 0 then CHR ''-'' # show_nat (nat (- i)) else show_nat (nat i))"

lemma show_nat_value: "foldl (\<lambda>v c. 10 * v + (of_char c - 48)) 0 (show_nat n) = n"
proof (induction n rule: show_nat.induct)
  case (1 n)
  then show ?case by (subst show_nat.simps) (auto simp: digit_def)
qed

lemma show_nat_inj: "show_nat m = show_nat n \<longleftrightarrow> m = n"
  by (metis show_nat_value)

lemma show_nat_digits: "c \<in> set (show_nat n) \<Longrightarrow> c \<in> digit ` {..<10}"
proof (induction n rule: show_nat.induct)
  case (1 n)
  then show ?case by (subst (asm) (2) show_nat.simps) (auto split: if_splits)
qed

lemma show_nat_length: "n < 10 ^ k \<Longrightarrow> 0 < k \<Longrightarrow> length (show_nat n) \<le> k"
proof (induction k arbitrary: n)
  case (Suc k)
  show ?case
  proof (cases "n < 10")
    case False
    then have "n div 10 < 10 ^ k" "0 < k" using Suc.prems(1) by (auto simp: less_mult_imp_div_less intro: gr0I)
    then have "length (show_nat (n div 10)) \<le> k" by (rule Suc.IH)
    then show ?thesis using False by (subst show_nat.simps) simp
  qed (subst show_nat.simps, simp)
qed simp

end
