(* ===== verification/Ordered_Map.thy ===== *)
theory Ordered_Map
  imports Prelude "HOL-Library.Char_ord" "HOL-Library.List_Lexorder"
begin

section \<open>Ordered maps\<close>

text \<open>
  \<open>std::map\<close> as an association list sorted by key, which is the order in which it is traversed: the headers of requests and
  responses, and the connections of a server.
\<close>

fun map_put :: "'k :: linorder \<Rightarrow> 'v \<Rightarrow> ('k \<times> 'v) list \<Rightarrow> ('k \<times> 'v) list" where
  "map_put k v [] = [(k, v)]"
| "map_put k v ((k', v') # m) =
     (if k = k' then (k, v) # m else if k < k' then (k, v) # (k', v') # m else (k', v') # map_put k v m)"

definition map_delete :: "'k \<Rightarrow> ('k \<times> 'v) list \<Rightarrow> ('k \<times> 'v) list" where
  "map_delete k m = filter (\<lambda>kv. fst kv \<noteq> k) m"

lemma map_put_of: "map_of (map_put k v m) = (map_of m)(k \<mapsto> v)"
  by (induction k v m rule: map_put.induct) (auto simp: fun_eq_iff)

lemma map_put_keys: "set (map fst (map_put k v m)) = insert k (set (map fst m))"
  by (induction k v m rule: map_put.induct) auto

lemma map_put_sorted: "sorted_wrt (<) (map fst m) \<Longrightarrow> sorted_wrt (<) (map fst (map_put k v m))"
proof (induction k v m rule: map_put.induct)
  case (2 k v k' v' m)
  then show ?case using map_put_keys [of k v m] by fastforce
qed simp

lemma map_delete_of: "map_of (map_delete k m) = (map_of m)(k := None)"
  by (induction m) (auto simp: map_delete_def fun_eq_iff)

lemma map_delete_sorted: "sorted_wrt (<) (map fst m) \<Longrightarrow> sorted_wrt (<) (map fst (map_delete k m))"
  by (induction m) (auto simp: map_delete_def)

end
