(* ===== verification/Http_Message.thy ===== *)
theory Http_Message
  imports Byte_Buffer Decimal Ordered_Map
begin

section \<open>HttpRequest and HttpResponse\<close>

text \<open>
  \<open>http/HttpRequest.h\<close>, \<open>http/HttpResponse.h\<close> and \<open>http/HttpResponse.cc\<close>: a parsed request with its
  method, version, path, query and headers, and the rendering of a response into a buffer. Both
  keep their headers in a \<open>std::map\<close>, modelled as an association list sorted by key, which is the
  order the rendering iterates in.
\<close>

subsection \<open>Sorted headers\<close>

type_synonym headers = "(string \<times> string) list"

subsection \<open>Requests\<close>

datatype Method = kInvalid | kGet | kPost | kHead | kPut | kDelete
datatype Version = kUnknown | kHttp10 | kHttp11

record HttpRequest =
  rq_method :: Method
  rq_version :: Version
  rq_path :: string
  rq_query :: string
  rq_headers :: headers

definition HttpRequest_new :: HttpRequest where
  "HttpRequest_new = \<lparr>rq_method = kInvalid, rq_version = kUnknown, rq_path = [], rq_query = [], rq_headers = []\<rparr>"

definition setVersion :: "HttpRequest \<Rightarrow> Version \<Rightarrow> HttpRequest" where
  "setVersion r v = r\<lparr>rq_version := v\<rparr>"

definition method_of :: "string \<Rightarrow> Method" where
  "method_of m =
     (if m = ''GET'' then kGet else if m = ''POST'' then kPost else if m = ''HEAD'' then kHead
      else if m = ''PUT'' then kPut else if m = ''DELETE'' then kDelete else kInvalid)"

definition setMethod :: "HttpRequest \<Rightarrow> string \<Rightarrow> (bool \<times> HttpRequest) result" where
  "setMethod r m =
     bindE (assertE (rq_method r = kInvalid)) (\<lambda>_.
     let r = r\<lparr>rq_method := method_of m\<rparr> in Inr (rq_method r \<noteq> kInvalid, r))"

definition methodString :: "HttpRequest \<Rightarrow> string" where
  "methodString r = (case rq_method r of
       kGet \<Rightarrow> ''GET'' | kPost \<Rightarrow> ''POST'' | kHead \<Rightarrow> ''HEAD'' | kPut \<Rightarrow> ''PUT'' | kDelete \<Rightarrow> ''DELETE''
     | kInvalid \<Rightarrow> ''UNKNOWN'')"

definition setPath :: "HttpRequest \<Rightarrow> string \<Rightarrow> HttpRequest" where
  "setPath r s = r\<lparr>rq_path := s\<rparr>"

definition setQuery :: "HttpRequest \<Rightarrow> string \<Rightarrow> HttpRequest" where
  "setQuery r s = r\<lparr>rq_query := s\<rparr>"

text \<open>\<open>isspace\<close> of the C locale.\<close>

definition isspace :: "char \<Rightarrow> bool" where
  "isspace c \<longleftrightarrow> c = CHR '' '' \<or> c = CHR 0x09 \<or> c = CHR 0x0A \<or> c = CHR 0x0B \<or> c = CHR 0x0C \<or> c = CHR 0x0D"

text \<open>\<open>addHeader(start, colon, end)\<close>: \<open>field\<close> is the text before the colon, \<open>after\<close> the text behind it.\<close>

definition trim_value :: "string \<Rightarrow> string" where
  "trim_value after = rev (dropWhile isspace (rev (dropWhile isspace after)))"

definition addHeader :: "HttpRequest \<Rightarrow> string \<Rightarrow> string \<Rightarrow> HttpRequest" where
  "addHeader r field after = r\<lparr>rq_headers := map_put field (trim_value after) (rq_headers r)\<rparr>"

definition getHeader :: "HttpRequest \<Rightarrow> string \<Rightarrow> string" where
  "getHeader r field = (case map_of (rq_headers r) field of Some v \<Rightarrow> v | None \<Rightarrow> [])"

definition rq_swap :: "HttpRequest \<Rightarrow> HttpRequest \<Rightarrow> HttpRequest \<times> HttpRequest" where
  "rq_swap a b = (b, a)"

subsection \<open>Responses\<close>

text \<open>The status codes are the values of the enumeration.\<close>

record HttpResponse =
  rs_headers :: headers
  rs_statusCode :: int
  rs_statusMessage :: string
  rs_closeConnection :: bool
  rs_body :: string

definition HttpResponse_new :: "bool \<Rightarrow> HttpResponse" where
  "HttpResponse_new close' = \<lparr>rs_headers = [], rs_statusCode = 0, rs_statusMessage = [],
     rs_closeConnection = close', rs_body = []\<rparr>"

definition setStatusCode :: "HttpResponse \<Rightarrow> int \<Rightarrow> HttpResponse" where
  "setStatusCode r code = r\<lparr>rs_statusCode := code\<rparr>"

definition setStatusMessage :: "HttpResponse \<Rightarrow> string \<Rightarrow> HttpResponse" where
  "setStatusMessage r message = r\<lparr>rs_statusMessage := message\<rparr>"

definition setCloseConnection :: "HttpResponse \<Rightarrow> bool \<Rightarrow> HttpResponse" where
  "setCloseConnection r on = r\<lparr>rs_closeConnection := on\<rparr>"

definition rs_addHeader :: "HttpResponse \<Rightarrow> string \<Rightarrow> string \<Rightarrow> HttpResponse" where
  "rs_addHeader r key value = r\<lparr>rs_headers := map_put key value (rs_headers r)\<rparr>"

definition setContentType :: "HttpResponse \<Rightarrow> string \<Rightarrow> HttpResponse" where
  "setContentType r contentType = rs_addHeader r ''Content-Type'' contentType"

definition setBody :: "HttpResponse \<Rightarrow> string \<Rightarrow> HttpResponse" where
  "setBody r body = r\<lparr>rs_body := body\<rparr>"

text \<open>\<open>snprintf\<close> stores at most 31 characters in a \<open>char[32]\<close>.\<close>

definition snprintf32 :: "string \<Rightarrow> string" where
  "snprintf32 s = take 31 s"

abbreviation CRLF :: string where "CRLF \<equiv> [CR, LF]"

text \<open>The strings that \<open>appendToBuffer\<close> writes, in their order.\<close>

definition response_parts :: "HttpResponse \<Rightarrow> string list" where
  "response_parts r =
     [snprintf32 (''HTTP/1.1 '' @ show_int (rs_statusCode r) @ '' ''), rs_statusMessage r, CRLF] @
     (if rs_closeConnection r then [''Connection: close'' @ CRLF]
      else [snprintf32 (''Content-Length: '' @ show_nat (length (rs_body r)) @ CRLF),
            ''Connection: Keep-Alive'' @ CRLF]) @
     concat (map (\<lambda>(k, v). [k, '': '', v, CRLF]) (rs_headers r)) @
     [CRLF, rs_body r]"

primrec write_strings :: "string list \<Rightarrow> Pool \<Rightarrow> Buffer \<Rightarrow> (Buffer \<times> Pool) result" where
  "write_strings [] p b = Inr (b, p)"
| "write_strings (s # ss) p b = bindE (buf_writeString p b s) (\<lambda>(b, p). write_strings ss p b)"

definition appendToBuffer :: "HttpResponse \<Rightarrow> Pool \<Rightarrow> Buffer \<Rightarrow> (Buffer \<times> Pool) result" where
  "appendToBuffer r p output = write_strings (response_parts r) p output"

definition render_response :: "HttpResponse \<Rightarrow> string" where
  "render_response r = concat (response_parts r)"

end
