(* ===== verification/Http_Context.thy ===== *)
theory Http_Context
  imports Http_Message
begin

section \<open>HttpContext: the request parser\<close>

text \<open>
  \<open>http/HttpContext.h\<close> and \<open>http/HttpContext.cc\<close>: a state machine that takes lines from the connection's
  buffer as they arrive. \<open>parseRequest\<close> is modelled twice: on the pooled buffer, with the calls of
  the source, and on the readable text; the first refines the second.
\<close>

subsection \<open>State\<close>

datatype HttpRequestParseState = kExpectRequestLine | kExpectHeaders | kExpectBody | kGotAll

record HttpContext =
  hc_state :: HttpRequestParseState
  hc_request :: HttpRequest

definition HttpContext_new :: HttpContext where
  "HttpContext_new = \<lparr>hc_state = kExpectRequestLine, hc_request = HttpRequest_new\<rparr>"

definition gotAll :: "HttpContext \<Rightarrow> bool" where
  "gotAll c \<longleftrightarrow> hc_state c = kGotAll"

definition reset :: "HttpContext \<Rightarrow> HttpContext" where
  "reset c = (let (r, dummy) = rq_swap (hc_request c) HttpRequest_new
              in c\<lparr>hc_state := kExpectRequestLine, hc_request := r\<rparr>)"

subsection \<open>The request line\<close>

text \<open>\<open>std::find(start, end, c)\<close> splits a range into the part before \<open>c\<close> and the part from \<open>c\<close>.\<close>

definition before :: "char \<Rightarrow> string \<Rightarrow> string" where
  "before c s = takeWhile (\<lambda>x. x \<noteq> c) s"

definition from_char :: "char \<Rightarrow> string \<Rightarrow> string" where
  "from_char c s = dropWhile (\<lambda>x. x \<noteq> c) s"

definition set_target :: "HttpRequest \<Rightarrow> string \<Rightarrow> HttpRequest" where
  "set_target r target =
     (if from_char (CHR ''?'') target \<noteq> []
      then setQuery (setPath r (before (CHR ''?'') target)) (from_char (CHR ''?'') target)
      else setPath r target)"

definition set_version_text :: "HttpRequest \<Rightarrow> string \<Rightarrow> bool \<times> HttpRequest" where
  "set_version_text r v =
     (if length v = 8 \<and> take 7 v = ''HTTP/1.'' then
        if last v = CHR ''1'' then (True, setVersion r kHttp11)
        else if last v = CHR ''0'' then (True, setVersion r kHttp10)
        else (False, r)
      else (False, r))"

definition processRequestLine :: "HttpRequest \<Rightarrow> string \<Rightarrow> (bool \<times> HttpRequest) result" where
  "processRequestLine r line =
     (let space = from_char (CHR '' '') line
      in if space = [] then Inr (False, r)
         else
           bindE (setMethod r (before (CHR '' '') line)) (\<lambda>(ok, r).
           if \<not> ok then Inr (False, r)
           else
             let start = tl space;
                 space = from_char (CHR '' '') start
             in if space = [] then Inr (False, r)
                else Inr (set_version_text (set_target r (before (CHR '' '') start)) (tl space))))"

subsection \<open>The parser on the pooled buffer\<close>

text \<open>
  One round of the loop for the two states that read lines; the result says whether the loop goes
  on. In the other two states a round does nothing and the loop goes on for ever.
\<close>

definition parse_round ::
  "memory \<Rightarrow> HttpContext \<Rightarrow> Buffer \<Rightarrow> bool \<Rightarrow> (bool \<times> bool \<times> HttpContext \<times> Buffer) result" where
  "parse_round m c buf ok =
     (case hc_state c of
        kExpectRequestLine \<Rightarrow>
          bindE (findCRLF m buf) (\<lambda>crlf.
          case crlf of
            None \<Rightarrow> Inr (False, ok, c, buf)
          | Some e \<Rightarrow>
              bindE (buf_peek buf) (\<lambda>pk.
              bindE (read_block m (fst pk) (snd pk) (nat (snd e - snd pk))) (\<lambda>line.
              bindE (processRequestLine (hc_request c) line) (\<lambda>(ok, r).
              let c = c\<lparr>hc_request := r\<rparr>
              in if ok then
                   bindE (retrieveUntil buf (fst e, snd e + 2)) (\<lambda>buf.
                     Inr (True, True, c\<lparr>hc_state := kExpectHeaders\<rparr>, buf))
                 else Inr (False, False, c, buf)))))
      | kExpectHeaders \<Rightarrow>
          bindE (findCRLF m buf) (\<lambda>crlf.
          case crlf of
            None \<Rightarrow> Inr (False, ok, c, buf)
          | Some e \<Rightarrow>
              bindE (buf_peek buf) (\<lambda>pk.
              bindE (read_block m (fst pk) (snd pk) (nat (snd e - snd pk))) (\<lambda>line.
              let colon = from_char (CHR '':'') line
              in bindE (retrieveUntil buf (fst e, snd e + 2)) (\<lambda>buf.
                 if colon \<noteq> [] then
                   Inr (True, ok, c\<lparr>hc_request := addHeader (hc_request c) (before (CHR '':'') line) (tl colon)\<rparr>, buf)
                 else Inr (False, ok, c\<lparr>hc_state := kGotAll\<rparr>, buf)))))
      | kExpectBody \<Rightarrow> Inr (True, ok, c, buf)
      | kGotAll \<Rightarrow> Inr (True, ok, c, buf))"

primrec parse_loop :: "nat \<Rightarrow> memory \<Rightarrow> HttpContext \<Rightarrow> Buffer \<Rightarrow> bool \<Rightarrow> (bool \<times> HttpContext \<times> Buffer) result" where
  "parse_loop 0 m c buf ok = Inl Diverges"
| "parse_loop (Suc fuel) m c buf ok =
     bindE (parse_round m c buf ok) (\<lambda>(hasMore, ok, c, buf).
       if hasMore then parse_loop fuel m c buf ok else Inr (ok, c, buf))"

text \<open>Every round that goes on takes a line, so there are fewer rounds than readable bytes, and one more.\<close>

definition parseRequest :: "memory \<Rightarrow> HttpContext \<Rightarrow> Buffer \<Rightarrow> (bool \<times> HttpContext \<times> Buffer) result" where
  "parseRequest m c buf =
     bindE (buf_readableBytes buf) (\<lambda>n. parse_loop (Suc (nat n)) m c buf True)"

subsection \<open>The parser on text\<close>

text \<open>The first line of a text and what follows its line end.\<close>

definition next_line :: "string \<Rightarrow> (string \<times> string) option" where
  "next_line s = map_option (\<lambda>i. (take i s, drop (i + 2) s)) (search_crlf s)"

lemma search_crlf_bound: "search_crlf s = Some i \<Longrightarrow> i + 2 \<le> length s"
  by (induction s arbitrary: i rule: search_crlf.induct) (auto split: if_splits)

lemma next_line_length: "next_line s = Some (l, t) \<Longrightarrow> length t < length s"
  using search_crlf_bound [of s] by (fastforce simp: next_line_def)

text \<open>\<open>Diverges\<close> is the value for the states in which the loop never ends.\<close>

function parse_text :: "HttpContext \<Rightarrow> string \<Rightarrow> (bool \<times> HttpContext \<times> string) result" where
  "parse_text c s =
     (case hc_state c of
        kExpectRequestLine \<Rightarrow>
          (case next_line s of
             None \<Rightarrow> Inr (True, c, s)
           | Some (line, t) \<Rightarrow>
               bindE (processRequestLine (hc_request c) line) (\<lambda>(ok, r).
                 if ok then parse_text (c\<lparr>hc_request := r, hc_state := kExpectHeaders\<rparr>) t
                 else Inr (False, c\<lparr>hc_request := r\<rparr>, s)))
      | kExpectHeaders \<Rightarrow>
          (case next_line s of
             None \<Rightarrow> Inr (True, c, s)
           | Some (line, t) \<Rightarrow>
               if from_char (CHR '':'') line \<noteq> [] then
                 parse_text (c\<lparr>hc_request := addHeader (hc_request c) (before (CHR '':'') line)
                   (tl (from_char (CHR '':'') line))\<rparr>) t
               else Inr (True, c\<lparr>hc_state := kGotAll\<rparr>, t))
      | kExpectBody \<Rightarrow> Inl Diverges
      | kGotAll \<Rightarrow> Inl Diverges)"
  by pat_completeness auto
termination
  by (relation "measure (\<lambda>(c, s). length s)") (auto dest: next_line_length)

declare parse_text.simps [simp del]

subsection \<open>Refinement\<close>

lemma line_ok:
  assumes ok: "buf_ok m buf"
  shows "next_line (readable m buf) = None \<Longrightarrow> findCRLF m (Some buf) = Inr None"
    "next_line (readable m buf) = Some (line, t) \<Longrightarrow> \<exists>e pk buf'. findCRLF m (Some buf) = Inr (Some e) \<and>
       buf_peek (Some buf) = Inr pk \<and> read_block m (fst pk) (snd pk) (nat (snd e - snd pk)) = Inr line \<and>
       retrieveUntil (Some buf) (fst e, snd e + 2) = Inr (Some buf') \<and> buf_ok m buf' \<and> readable m buf' = t"
proof -
  obtain blk where pk: "buf_peek (Some buf) = Inr (blk, pb_offset buf + pb_readerIndex buf)"
    and f: "findCRLF m (Some buf) =
      Inr (map_option (\<lambda>i. (blk, pb_offset buf + pb_readerIndex buf + int i)) (search_crlf (readable m buf)))"
    using findCRLF_ok [OF ok] by blast
  show "next_line (readable m buf) = None \<Longrightarrow> findCRLF m (Some buf) = Inr None"
    using f by (simp add: next_line_def)
  assume "next_line (readable m buf) = Some (line, t)"
  then obtain i where i: "search_crlf (readable m buf) = Some i" "line = take i (readable m buf)"
    "t = drop (i + 2) (readable m buf)" by (auto simp: next_line_def)
  note b = search_crlf_bound [OF i(1)]
  obtain buf' where r: "retrieveUntil (Some buf) (blk, pb_offset buf + pb_readerIndex buf + int (i + 2)) = Inr (Some buf')"
    "buf_ok m buf'" "readable m buf' = drop (i + 2) (readable m buf)"
    by (rule retrieveUntil_ok [OF ok b pk])
  obtain blk' bs where q: "buf_peek (Some buf) = Inr (blk', pb_offset buf + pb_readerIndex buf)"
    "\<And>k n. int (k + n) \<le> pb_writerIndex buf - pb_readerIndex buf \<Longrightarrow>
       read_block m blk' (pb_offset buf + pb_readerIndex buf + int k) n = Inr (take n (drop k (readable m buf)))"
    by (rule peek_ok [OF ok]) blast
  have "int (0 + i) \<le> pb_writerIndex buf - pb_readerIndex buf" using b readable_length(1) [OF ok] by linarith
  from q(2) [OF this] have l: "read_block m blk (pb_offset buf + pb_readerIndex buf) i = Inr line"
    using pk q(1) i(2) by simp
  let ?s = "pb_offset buf + pb_readerIndex buf"
  have "nat (?s + int i - ?s) = i" "?s + int (i + 2) = ?s + int i + 2" by simp_all
  then show "\<exists>e pk buf'. findCRLF m (Some buf) = Inr (Some e) \<and>
       buf_peek (Some buf) = Inr pk \<and> read_block m (fst pk) (snd pk) (nat (snd e - snd pk)) = Inr line \<and>
       retrieveUntil (Some buf) (fst e, snd e + 2) = Inr (Some buf') \<and> buf_ok m buf' \<and> readable m buf' = t"
    using f i(1,3) pk r l
    by (intro exI [of _ "(blk, ?s + int i)"] exI [of _ "(blk, ?s)"] exI [of _ buf']) (simp only: fst_conv snd_conv option.map simp_thms)
qed

definition parse_refines :: "memory \<Rightarrow> (bool \<times> HttpContext \<times> Buffer) result \<Rightarrow> (bool \<times> HttpContext \<times> string) result \<Rightarrow> bool" where
  "parse_refines m conc text_run =
     (case text_run of
        Inl e \<Rightarrow> conc = Inl e
      | Inr (ok, c, s) \<Rightarrow> \<exists>buf. conc = Inr (ok, c, Some buf) \<and> buf_ok m buf \<and> readable m buf = s)"

lemma parse_loop_stuck:
  "hc_state c = kGotAll \<or> hc_state c = kExpectBody \<Longrightarrow> parse_loop fuel m c buf ok = Inl Diverges"
  by (induction fuel) (auto simp: parse_round_def)

lemma parse_loop_refines:
  assumes "buf_ok m buf" "length (readable m buf) < fuel"
  shows "parse_refines m (parse_loop fuel m c (Some buf) True) (parse_text c (readable m buf))"
  using assms
proof (induction fuel arbitrary: c buf)
  case (Suc fuel)
  note line = line_ok [OF Suc.prems(1)] and unfold = parse_text.simps [of c "readable m buf"]
  have go: "parse_refines m (parse_loop fuel m d (Some buf') True) (parse_text d (readable m buf'))"
    if "next_line (readable m buf) = Some (l, t)" "buf_ok m buf'" "readable m buf' = t" for d buf' l t
    using Suc.IH [OF that(2)] next_line_length [OF that(1)] Suc.prems(2) that(3) by simp
  show ?case
  proof (cases "next_line (readable m buf)")
    case None
    with line(1) show ?thesis using Suc.prems(1) parse_loop_stuck [of c "Suc fuel" m]
      by (cases "hc_state c") (simp_all add: unfold parse_refines_def parse_round_def)
  next
    case (Some lt)
    then obtain l t where lt: "next_line (readable m buf) = Some (l, t)" by (cases lt) auto
    obtain e pk buf' where r: "findCRLF m (Some buf) = Inr (Some e)" "buf_peek (Some buf) = Inr pk"
      "read_block m (fst pk) (snd pk) (nat (snd e - snd pk)) = Inr l"
      "retrieveUntil (Some buf) (fst e, snd e + 2) = Inr (Some buf')" "buf_ok m buf'" "readable m buf' = t"
      using line(2) [OF lt] by blast
    note go = go [OF lt r(5,6)]
    show ?thesis
    proof (cases "hc_state c")
      case kExpectRequestLine
      show ?thesis
      proof (cases "processRequestLine (hc_request c) l")
        case (Inl err)
        then show ?thesis using kExpectRequestLine lt r by (simp add: unfold parse_refines_def parse_round_def)
      next
        case (Inr okr)
        obtain ok q where okr: "okr = (ok, q)" by (cases okr)
        show ?thesis
        proof (cases ok)
          case True
          then show ?thesis
            using go [of "c\<lparr>hc_request := q, hc_state := kExpectHeaders\<rparr>"] kExpectRequestLine lt r Inr okr
            by (simp add: unfold parse_round_def)
        next
          case False
          then show ?thesis
            using kExpectRequestLine lt r Inr okr Suc.prems(1) by (simp add: unfold parse_refines_def parse_round_def)
        qed
      qed
    next
      case kExpectHeaders
      show ?thesis
      proof (cases "from_char (CHR '':'') l = []")
        case True
        then show ?thesis using kExpectHeaders lt r by (simp add: unfold parse_refines_def parse_round_def)
      next
        case False
        then show ?thesis
          using go [of "c\<lparr>hc_request := addHeader (hc_request c) (before (CHR '':'') l)
            (tl (from_char (CHR '':'') l))\<rparr>"] kExpectHeaders lt r
          by (simp add: unfold parse_round_def)
      qed
    next
      case kExpectBody
      then show ?thesis using parse_loop_stuck [of c "Suc fuel" m] by (simp add: unfold parse_refines_def)
    next
      case kGotAll
      then show ?thesis using parse_loop_stuck [of c "Suc fuel" m] by (simp add: unfold parse_refines_def)
    qed
  qed
qed simp

lemma parseRequest_refines:
  assumes "buf_ok m buf"
  shows "parse_refines m (parseRequest m c (Some buf)) (parse_text c (readable m buf))"
  using parse_loop_refines [OF assms, of "Suc (length (readable m buf))" c] readable_length(2) [OF assms]
  by (simp add: parseRequest_def buf_readableBytes_def internal_def del: parse_loop.simps)

subsection \<open>Text that arrives in pieces\<close>

lemma search_crlf_append: "search_crlf s = Some i \<Longrightarrow> search_crlf (s @ u) = Some i"
  by (induction s arbitrary: i rule: search_crlf.induct) (auto split: if_splits)

lemma next_line_append: "next_line s = Some (l, t) \<Longrightarrow> next_line (s @ u) = Some (l, t @ u)"
  using search_crlf_bound [of s] by (auto simp: next_line_def dest: search_crlf_append)

lemma parse_text_append:
  "parse_text c s = Inr (True, d, t) \<Longrightarrow> hc_state d \<noteq> kGotAll \<Longrightarrow> parse_text c (s @ u) = parse_text d (t @ u)"
proof (induction c s rule: parse_text.induct)
  case (1 c s)
  show ?case
  proof (cases "hc_state c = kExpectRequestLine \<or> hc_state c = kExpectHeaders")
    case False
    then show ?thesis using "1.prems"(1) by (cases "hc_state c") (simp_all add: parse_text.simps [of c s])
  next
    case True
    show ?thesis
    proof (cases "next_line s")
      case None
      then show ?thesis using "1.prems"(1) True by (auto simp: parse_text.simps [of c s])
    next
      case (Some lt)
      then obtain l v where lv: "next_line s = Some (l, v)" by (cases lt) auto
      note app = next_line_append [OF lv, of u]
      show ?thesis
      proof (cases "hc_state c")
        case kExpectRequestLine
        then obtain r where r: "processRequestLine (hc_request c) l = Inr (True, r)"
          "parse_text (c\<lparr>hc_request := r, hc_state := kExpectHeaders\<rparr>) v = Inr (True, d, t)"
          using "1.prems"(1) lv by (auto simp: parse_text.simps [of c s] result_simps split: if_splits)
        then show ?thesis
          using "1.IH"(1) [OF kExpectRequestLine lv refl r(1)] "1.prems"(2) kExpectRequestLine app
          by (simp add: parse_text.simps [of c "s @ u"])
      next
        case kExpectHeaders
        then show ?thesis
          using "1.IH"(2) [OF kExpectHeaders lv refl] "1.prems" lv app
          by (auto simp: parse_text.simps [of c s] parse_text.simps [of c "s @ u"] split: if_splits)
      qed (use True in simp_all)
    qed
  qed
qed

subsection \<open>Printing requests\<close>

definition version_text :: "Version \<Rightarrow> string" where
  "version_text v = (if v = kHttp11 then ''HTTP/1.1'' else ''HTTP/1.0'')"

definition print_headers :: "headers \<Rightarrow> string" where
  "print_headers hs = concat (map (\<lambda>(k, v). k @ '': '' @ v @ CRLF) hs)"

definition print_request :: "HttpRequest \<Rightarrow> string" where
  "print_request r =
     methodString r @ '' '' @ rq_path r @ rq_query r @ '' '' @ version_text (rq_version r) @ CRLF @
     print_headers (rq_headers r) @ CRLF"

text \<open>The requests that have a printed form: tokens free of the characters that delimit them.\<close>

definition plain :: "string \<Rightarrow> bool" where
  "plain s \<longleftrightarrow> CR \<notin> set s \<and> LF \<notin> set s"

definition header_ok :: "string \<times> string \<Rightarrow> bool" where
  "header_ok kv \<longleftrightarrow> plain (fst kv) \<and> CHR '':'' \<notin> set (fst kv) \<and> plain (snd kv) \<and>
     (snd kv = [] \<or> \<not> isspace (hd (snd kv)) \<and> \<not> isspace (last (snd kv)))"

definition request_ok :: "HttpRequest \<Rightarrow> bool" where
  "request_ok r \<longleftrightarrow> rq_method r \<noteq> kInvalid \<and> rq_version r \<noteq> kUnknown \<and>
     plain (rq_path r) \<and> plain (rq_query r) \<and> CHR '' '' \<notin> set (rq_path r @ rq_query r) \<and>
     CHR ''?'' \<notin> set (rq_path r) \<and> (rq_query r = [] \<or> hd (rq_query r) = CHR ''?'') \<and>
     list_all header_ok (rq_headers r) \<and> sorted_wrt (<) (map fst (rq_headers r))"

lemma search_crlf_plain: "plain l \<Longrightarrow> search_crlf (l @ CR # LF # t) = Some (length l)"
proof (induction l)
  case (Cons x l)
  then show ?case by (cases l) (auto simp: plain_def)
qed simp

lemma next_line_plain: "plain l \<Longrightarrow> next_line (l @ CR # LF # t) = Some (l, t)"
  by (simp add: next_line_def search_crlf_plain)

lemma split_at: "c \<notin> set a \<Longrightarrow> before c (a @ c # b) = a" "c \<notin> set a \<Longrightarrow> from_char c (a @ c # b) = c # b"
  "c \<notin> set a \<Longrightarrow> before c a = a" "c \<notin> set a \<Longrightarrow> from_char c a = []"
  by (induction a) (auto simp: before_def from_char_def)

lemma trim_value_id:
  assumes "v = [] \<or> \<not> isspace (hd v) \<and> \<not> isspace (last v)"
  shows "trim_value (CHR '' '' # v) = v"
proof -
  have sp: "isspace (CHR '' '')" by (simp add: isspace_def)
  have "dropWhile isspace v = v" using assms by (cases v) auto
  moreover have "dropWhile isspace (rev v) = rev v" using assms by (cases v rule: rev_cases) auto
  ultimately show ?thesis using sp by (simp add: trim_value_def)
qed

lemma map_put_last:
  "sorted_wrt (<) (map fst (m @ [(k, v)])) \<Longrightarrow> map_put k v m = m @ [(k, v)]"
  by (induction k v m rule: map_put.induct) (auto dest: less_imp_not_less)

lemma parse_headers:
  assumes "list_all header_ok hs" "sorted_wrt (<) (map fst (rq_headers r @ hs))"
  shows "parse_text \<lparr>hc_state = kExpectHeaders, hc_request = r\<rparr> (print_headers hs @ CRLF @ rest) =
    Inr (True, \<lparr>hc_state = kGotAll, hc_request = r\<lparr>rq_headers := rq_headers r @ hs\<rparr>\<rparr>, rest)"
  using assms
proof (induction hs arbitrary: r)
  case Nil
  have "next_line (CR # LF # rest) = Some ([], rest)" using next_line_plain [of "[]"] by (simp add: plain_def)
  then show ?case
    by (simp add: parse_text.simps [of "\<lparr>hc_state = kExpectHeaders, hc_request = r\<rparr>"] print_headers_def from_char_def)
next
  case (Cons kv hs)
  obtain k v where kv: "kv = (k, v)" by (cases kv)
  let ?t = "print_headers hs @ CRLF @ rest"
  let ?r = "addHeader r k (CHR '' '' # v)"
  have h: "plain k" "CHR '':'' \<notin> set k" "plain v" "v = [] \<or> \<not> isspace (hd v) \<and> \<not> isspace (last v)"
    using Cons.prems(1) kv by (simp_all add: header_ok_def)
  then have "plain (k @ '': '' @ v)" by (auto simp: plain_def)
  from next_line_plain [OF this, of ?t]
  have nl: "next_line (print_headers (kv # hs) @ CRLF @ rest) = Some (k @ CHR '':'' # CHR '' '' # v, ?t)"
    using kv by (simp add: print_headers_def)
  have "sorted_wrt (<) (map fst (rq_headers r @ [(k, v)]))" using Cons.prems(2) kv by (auto simp: sorted_wrt_append)
  from map_put_last [OF this]
  have hr: "rq_headers ?r = rq_headers r @ [kv]" "?r\<lparr>rq_headers := x\<rparr> = r\<lparr>rq_headers := x\<rparr>" for x
    using trim_value_id [OF h(4)] kv by (simp_all add: addHeader_def)
  have "sorted_wrt (<) (map fst (rq_headers ?r @ hs))" using Cons.prems(2) by (simp add: hr)
  from Cons.IH [OF _ this]
  have "parse_text \<lparr>hc_state = kExpectHeaders, hc_request = ?r\<rparr> ?t =
    Inr (True, \<lparr>hc_state = kGotAll, hc_request = r\<lparr>rq_headers := rq_headers r @ kv # hs\<rparr>\<rparr>, rest)"
    using Cons.prems(1) by (simp add: hr)
  then show ?case
    using nl split_at(1,2) [OF h(2), of "CHR '' '' # v"]
    by (simp add: parse_text.simps [of "\<lparr>hc_state = kExpectHeaders, hc_request = r\<rparr>"])
qed

lemma method_of_methodString: "rq_method r \<noteq> kInvalid \<Longrightarrow> method_of (methodString r) = rq_method r"
  by (cases "rq_method r") (simp_all add: methodString_def method_of_def)

lemma methodString_chars: "CHR '' '' \<notin> set (methodString r)" "plain (methodString r)"
  by (cases "rq_method r"; simp add: methodString_def plain_def)+

lemma set_version_text_ok: "v \<noteq> kUnknown \<Longrightarrow> set_version_text r (version_text v) = (True, setVersion r v)"
  by (cases v) (simp_all add: set_version_text_def version_text_def)

lemma set_target_ok:
  assumes "CHR ''?'' \<notin> set path" "query = [] \<or> hd query = CHR ''?''"
  shows "set_target r (path @ query) = (if query = [] then setPath r path else setQuery (setPath r path) query)"
  using assms split_at(1,2) [of "CHR ''?''" path "tl query"] split_at(3,4) [of "CHR ''?''" path] by (cases query) (simp_all add: set_target_def)

lemma processRequestLine_ok:
  assumes ok: "request_ok r"
  shows "processRequestLine HttpRequest_new
      (methodString r @ '' '' @ rq_path r @ rq_query r @ '' '' @ version_text (rq_version r)) =
    Inr (True, r\<lparr>rq_headers := []\<rparr>)"
proof -
  let ?t = "rq_path r @ rq_query r"
  have o: "rq_method r \<noteq> kInvalid" "rq_version r \<noteq> kUnknown" "CHR '' '' \<notin> set ?t"
    "CHR ''?'' \<notin> set (rq_path r)" "rq_query r = [] \<or> hd (rq_query r) = CHR ''?''"
    using ok by (simp_all add: request_ok_def)
  note m = split_at(1,2) [OF methodString_chars(1) [of r], of "?t @ CHR '' '' # version_text (rq_version r)"]
    and t = split_at(1,2) [OF o(3), of "version_text (rq_version r)"]
  let ?r = "HttpRequest_new\<lparr>rq_method := rq_method r\<rparr>"
  have "setMethod HttpRequest_new (methodString r) = Inr (True, ?r)"
    using method_of_methodString [OF o(1)] o(1) by (simp add: setMethod_def HttpRequest_new_def)
  then have "processRequestLine HttpRequest_new
      (methodString r @ '' '' @ rq_path r @ rq_query r @ '' '' @ version_text (rq_version r)) =
      Inr (set_version_text (set_target ?r ?t) (version_text (rq_version r)))"
    using m t by (simp add: processRequestLine_def Let_def)
  then show ?thesis
    using o(2) set_target_ok [OF o(4,5), of ?r]
    by (cases r) (simp add: set_version_text_ok setVersion_def setQuery_def setPath_def HttpRequest_new_def)
qed

lemma parse_print_request:
  assumes ok: "request_ok r"
  shows "parse_text HttpContext_new (print_request r @ rest) =
    Inr (True, \<lparr>hc_state = kGotAll, hc_request = r\<rparr>, rest)"
proof -
  let ?l = "methodString r @ '' '' @ rq_path r @ rq_query r @ '' '' @ version_text (rq_version r)"
  let ?t = "print_headers (rq_headers r) @ CRLF @ rest"
  have "plain ?l" using ok methodString_chars(2) [of r] by (auto simp: request_ok_def plain_def version_text_def)
  from next_line_plain [OF this, of ?t] have nl: "next_line (print_request r @ rest) = Some (?l, ?t)"
    by (simp add: print_request_def)
  have "parse_text \<lparr>hc_state = kExpectHeaders, hc_request = r\<lparr>rq_headers := []\<rparr>\<rparr> ?t =
    Inr (True, \<lparr>hc_state = kGotAll, hc_request = r\<rparr>, rest)"
    using parse_headers [of "rq_headers r" "r\<lparr>rq_headers := []\<rparr>" rest] ok by (simp add: request_ok_def)
  then show ?thesis
    using nl processRequestLine_ok [OF ok]
    by (simp add: parse_text.simps [of HttpContext_new]) (simp add: HttpContext_new_def)
qed

subsection \<open>Properties\<close>

text \<open>
  C9: The parser on pooled memory does what the parser on text does: run on a buffer in use,
  \<open>parseRequest\<close> ends with the same verdict and the same context as \<open>parse_text\<close> on the readable
  bytes, leaves exactly the text the latter leaves, and fails or runs for ever when that one does.
\<close>

theorem parseRequest_refines_text:
  assumes "buf_ok m buf"
  shows "(\<forall>e. parse_text c (readable m buf) = Inl e \<longrightarrow> parseRequest m c (Some buf) = Inl e) \<and>
    (\<forall>ok d t. parse_text c (readable m buf) = Inr (ok, d, t) \<longrightarrow>
      (\<exists>buf'. parseRequest m c (Some buf) = Inr (ok, d, Some buf') \<and> buf_ok m buf' \<and> readable m buf' = t))"
  using parseRequest_refines [OF assms, of c] by (auto simp: parse_refines_def)

text \<open>
  C10: It does not matter how the text is cut into messages: if the parser has taken a first piece and
  waits for more, going on with what it left and the next piece is the same as one run on both.
\<close>

theorem parse_pieces:
  assumes "buf_ok m buf" "parseRequest m c (Some buf) = Inr (True, d, Some buf1)" "\<not> gotAll d"
    and "buf_ok m2 buf2" "readable m2 buf2 = readable m buf1 @ u"
    and "buf_ok m3 buf3" "readable m3 buf3 = readable m buf @ u"
  shows "(\<forall>e. parseRequest m2 d (Some buf2) = Inl e \<longleftrightarrow> parseRequest m3 c (Some buf3) = Inl e) \<and>
    (\<forall>ok f t. (\<exists>b. parseRequest m2 d (Some buf2) = Inr (ok, f, Some b) \<and> readable m2 b = t) \<longleftrightarrow>
      (\<exists>b. parseRequest m3 c (Some buf3) = Inr (ok, f, Some b) \<and> readable m3 b = t))"
proof -
  have "parse_text c (readable m buf) = Inr (True, d, readable m buf1)"
    using parseRequest_refines [OF assms(1), of c] assms(2) by (auto simp: parse_refines_def split: sum.splits)
  from parse_text_append [OF this, of u]
  have eq: "parse_text c (readable m3 buf3) = parse_text d (readable m2 buf2)"
    using assms(3,5,7) by (simp add: gotAll_def)
  note two = parseRequest_refines [OF assms(4), of d] and three = parseRequest_refines [OF assms(6), of c]
  show ?thesis
  proof (cases "parse_text d (readable m2 buf2)")
    case (Inl e)
    then show ?thesis using two three eq by (simp add: parse_refines_def)
  next
    case (Inr r)
    obtain ok f t where "r = (ok, f, t)" by (cases r)
    then show ?thesis using two three eq Inr by (auto simp: parse_refines_def)
  qed
qed

text \<open>
  C11: Parsing inverts printing: the parser reads a printed request back to the same request, with its
  method, path, query, version and headers, and leaves the text behind it.
\<close>

theorem parse_inverts_print:
  assumes "request_ok r" "buf_ok m buf" "readable m buf = print_request r @ rest"
  shows "\<exists>buf'. parseRequest m HttpContext_new (Some buf) =
    Inr (True, \<lparr>hc_state = kGotAll, hc_request = r\<rparr>, Some buf') \<and> buf_ok m buf' \<and> readable m buf' = rest"
  using parseRequest_refines [OF assms(2), of HttpContext_new] parse_print_request [OF assms(1), of rest] assms(3)
  by (simp add: parse_refines_def)

lemma setMethod_result: "setMethod r m = Inl e \<Longrightarrow> e = AssertionFailed"
  by (auto simp: setMethod_def result_simps assertE_def Let_def split: if_splits)

lemma processRequestLine_result: "processRequestLine r l = Inl e \<Longrightarrow> e = AssertionFailed"
  by (auto simp: processRequestLine_def result_simps Let_def dest: setMethod_result split: if_splits)

lemma parse_text_result:
  "hc_state c = kExpectRequestLine \<or> hc_state c = kExpectHeaders \<Longrightarrow> parse_text c s \<noteq> Inl Diverges"
proof (induction c s rule: parse_text.induct)
  case (1 c s)
  show ?case
  proof (cases "next_line s")
    case None
    then show ?thesis using "1.prems" by (auto simp: parse_text.simps [of c s])
  next
    case (Some lt)
    then obtain l t where lt: "next_line s = Some (l, t)" by (cases lt) auto
    from "1.prems" show ?thesis
    proof
      assume st: "hc_state c = kExpectRequestLine"
      show ?thesis
      proof (cases "processRequestLine (hc_request c) l")
        case (Inl e)
        then show ?thesis using processRequestLine_result [OF Inl] st lt by (simp add: parse_text.simps [of c s])
      next
        case (Inr okr)
        then show ?thesis using "1.IH"(1) [OF st lt refl Inr] st lt
          by (auto simp: parse_text.simps [of c s] split: prod.splits)
      qed
    next
      assume st: "hc_state c = kExpectHeaders"
      then show ?thesis using "1.IH"(2) [OF st lt refl] lt by (auto simp: parse_text.simps [of c s])
    qed
  qed
qed

text \<open>
  C12: In the two states that expect lines the parser always returns (it may fail the assertion on the
  method, but it never runs for ever); in the other two it never does, however long it runs.
\<close>

theorem parser_returns:
  assumes "buf_ok m buf"
  shows "(parseRequest m c (Some buf) = Inl Diverges \<longleftrightarrow> hc_state c = kExpectBody \<or> hc_state c = kGotAll) \<and>
    (hc_state c = kExpectBody \<or> hc_state c = kGotAll \<longrightarrow> (\<forall>fuel. parse_loop fuel m c (Some buf) True = Inl Diverges))"
proof -
  note r = parseRequest_refines [OF assms, of c]
  have "parseRequest m c (Some buf) \<noteq> Inl Diverges" if "\<not> (hc_state c = kExpectBody \<or> hc_state c = kGotAll)"
  proof -
    have "hc_state c = kExpectRequestLine \<or> hc_state c = kExpectHeaders" using that by (cases "hc_state c") simp_all
    from parse_text_result [OF this, of "readable m buf"] r show ?thesis
      by (auto simp: parse_refines_def split: sum.splits)
  qed
  moreover have "parse_loop fuel m c (Some buf) True = Inl Diverges"
    if "hc_state c = kExpectBody \<or> hc_state c = kGotAll" for fuel
    using parse_loop_stuck that by blast
  moreover from this have "parseRequest m c (Some buf) = Inl Diverges"
    if "hc_state c = kExpectBody \<or> hc_state c = kGotAll"
    using that by (simp add: parseRequest_def buf_readableBytes_def internal_def del: parse_loop.simps)
  ultimately show ?thesis by blast
qed

subsection \<open>Witnesses\<close>

text \<open>A block that holds exactly the readable text.\<close>

definition text_memory :: "string \<Rightarrow> memory" where
  "text_memory s = [0 \<mapsto> s]"

definition text_buf :: "string \<Rightarrow> PooledByteBuf" where
  "text_buf s = \<lparr>pb_allocator = Some 0, pb_maxCapacity = INT_MAX, pb_chunk = Some 0, pb_handle = 0, pb_memory = Some 0,
     pb_offset = 0, pb_length = int (length s), pb_maxLength = int (length s), pb_cache = None, pb_tmpBuf = Some (0, 0),
     pb_readerIndex = 0, pb_writerIndex = int (length s)\<rparr>"

lemma text_buf_ok: "int (length s) \<le> INT_MAX \<Longrightarrow> buf_ok (text_memory s) (text_buf s)"
  "readable (text_memory s) (text_buf s) = s"
  by (simp_all add: buf_ok_def text_memory_def text_buf_def readable_def)

definition sample_request :: HttpRequest where
  "sample_request = \<lparr>rq_method = kGet, rq_version = kHttp11, rq_path = ''/a'', rq_query = ''?x=1'',
     rq_headers = [(''Accept'', ''*''), (''Host'', ''h'')]\<rparr>"

lemma sample_request_ok: "request_ok sample_request"
  by (simp add: request_ok_def sample_request_def plain_def header_ok_def isspace_def)

text \<open>C9 at a buffer that holds a printed request.\<close>

theorem parseRequest_refines_text_witness:
  "\<exists>buf'. parseRequest (text_memory (print_request sample_request)) HttpContext_new
      (Some (text_buf (print_request sample_request))) =
    Inr (True, \<lparr>hc_state = kGotAll, hc_request = sample_request\<rparr>, Some buf') \<and>
    readable (text_memory (print_request sample_request)) buf' = []"
proof -
  let ?s = "print_request sample_request"
  have "length ?s \<le> 100"
    by (simp add: print_request_def sample_request_def methodString_def version_text_def print_headers_def)
  then have ok: "buf_ok (text_memory ?s) (text_buf ?s)" by (intro text_buf_ok) linarith
  show ?thesis
    using parseRequest_refines_text [OF ok, of HttpContext_new] parse_print_request [OF sample_request_ok, of "[]"]
    by (auto simp: text_buf_ok)
qed

text \<open>C10 at a request line that arrives in two pieces.\<close>

theorem parse_pieces_witness:
  "\<exists>d buf1. parseRequest (text_memory (''GET /a HTTP/1.0'' @ CRLF @ ''Ho'')) HttpContext_new
      (Some (text_buf (''GET /a HTTP/1.0'' @ CRLF @ ''Ho''))) = Inr (True, d, Some buf1) \<and>
    (\<forall>ok f t. (\<exists>b. parseRequest (text_memory ''Host: h'') d (Some (text_buf ''Host: h'')) = Inr (ok, f, Some b) \<and>
        readable (text_memory ''Host: h'') b = t) \<longleftrightarrow>
      (\<exists>b. parseRequest (text_memory ((''GET /a HTTP/1.0'' @ CRLF @ ''Ho'') @ ''st: h'')) HttpContext_new
        (Some (text_buf ((''GET /a HTTP/1.0'' @ CRLF @ ''Ho'') @ ''st: h''))) = Inr (ok, f, Some b) \<and>
        readable (text_memory ((''GET /a HTTP/1.0'' @ CRLF @ ''Ho'') @ ''st: h'')) b = t))"
proof -
  let ?s = "''GET /a HTTP/1.0'' @ CRLF @ ''Ho''"
  let ?d = "\<lparr>hc_state = kExpectHeaders, hc_request = \<lparr>rq_method = kGet, rq_version = kHttp10, rq_path = ''/a'',
    rq_query = [], rq_headers = []\<rparr>\<rparr>"
  have ok: "buf_ok (text_memory ?s) (text_buf ?s)" "buf_ok (text_memory ''Host: h'') (text_buf ''Host: h'')"
    "buf_ok (text_memory (?s @ ''st: h'')) (text_buf (?s @ ''st: h''))"
    by (rule text_buf_ok; simp)+
  have "parse_text HttpContext_new ?s = Inr (True, ?d, ''Ho'')" by code_simp
  then obtain b where b: "parseRequest (text_memory ?s) HttpContext_new (Some (text_buf ?s)) = Inr (True, ?d, Some b)"
    "readable (text_memory ?s) b = ''Ho''"
    using parseRequest_refines [OF ok(1), of HttpContext_new] by (auto simp: parse_refines_def text_buf_ok)
  have r: "readable (text_memory ''Host: h'') (text_buf ''Host: h'') = readable (text_memory ?s) b @ ''st: h''"
    "readable (text_memory (?s @ ''st: h'')) (text_buf (?s @ ''st: h'')) = readable (text_memory ?s) (text_buf ?s) @ ''st: h''"
    using b(2) by (simp_all add: text_buf_ok)
  have "\<not> gotAll ?d" by (simp add: gotAll_def)
  from parse_pieces [OF ok(1) b(1) this ok(2) r(1) ok(3) r(2)] b(1) show ?thesis by blast
qed

text \<open>C11 at a request with a query and two headers.\<close>

theorem parse_inverts_print_witness:
  "\<exists>buf'. parseRequest (text_memory (print_request sample_request @ ''GET'')) HttpContext_new
      (Some (text_buf (print_request sample_request @ ''GET''))) =
    Inr (True, \<lparr>hc_state = kGotAll, hc_request = sample_request\<rparr>, Some buf') \<and>
    readable (text_memory (print_request sample_request @ ''GET'')) buf' = ''GET''"
proof -
  let ?s = "print_request sample_request @ ''GET''"
  have "length ?s \<le> 100"
    by (simp add: print_request_def sample_request_def methodString_def version_text_def print_headers_def)
  then have "buf_ok (text_memory ?s) (text_buf ?s)" by (intro text_buf_ok) linarith
  from parse_inverts_print [OF sample_request_ok this text_buf_ok(2)] show ?thesis by blast
qed

text \<open>C12 at a context that has a complete request.\<close>

theorem parser_returns_witness:
  "parseRequest (text_memory ''x'') \<lparr>hc_state = kGotAll, hc_request = sample_request\<rparr> (Some (text_buf ''x'')) = Inl Diverges"
proof -
  have "buf_ok (text_memory ''x'') (text_buf ''x'')" by (rule text_buf_ok) simp
  from parser_returns [OF this, of "\<lparr>hc_state = kGotAll, hc_request = sample_request\<rparr>"] show ?thesis by simp
qed

end
