(* ===== verification/Http_Server.thy ===== *)
theory Http_Server
  imports Http_Context
begin

section \<open>HttpServer\<close>

text \<open>
  \<open>http/HttpServer.h\<close> and \<open>http/HttpServer.cpp\<close>: the callbacks of a connection. What the server does to
  the connection is a list of calls: \<open>Send\<close> for \<open>conn->send\<close> with the bytes sent, \<open>Shutdown\<close> for
  \<open>conn->shutdown\<close>. The user's callback is a parameter.
\<close>

subsection \<open>Operations\<close>

datatype conn_call = Send string | Shutdown

type_synonym http_callback = "HttpRequest \<Rightarrow> HttpResponse \<Rightarrow> HttpResponse"

definition defaultHttpCallback :: http_callback where
  "defaultHttpCallback req resp =
     setCloseConnection (setStatusMessage (setStatusCode resp 404) ''Not Found'') True"

definition onConnection :: "bool \<Rightarrow> HttpContext option \<Rightarrow> HttpContext option" where
  "onConnection connected context = (if connected then Some HttpContext_new else context)"

definition close_requested :: "HttpRequest \<Rightarrow> bool" where
  "close_requested req =
     (let connection = getHeader req ''Connection''
      in connection = ''close'' \<or> (rq_version req = kHttp10 \<and> connection \<noteq> ''Keep-Alive''))"

text \<open>\<open>obj\<close> is the buffer object that the recycler hands out for the local \<open>Buffer buf(16384)\<close>.\<close>

definition onRequest :: "http_callback \<Rightarrow> Pool \<Rightarrow> PooledByteBuf \<Rightarrow> HttpRequest \<Rightarrow> (conn_call list \<times> Pool) result" where
  "onRequest httpCallback p obj req =
     (let response = httpCallback req (HttpResponse_new (close_requested req))
      in bindE (Buffer_new p obj 16384) (\<lambda>(buf, p).
         bindE (appendToBuffer response p buf) (\<lambda>(buf, p).
         bindE (buf_retrieveAllAsString (po_memory p) buf) (\<lambda>(s, buf).
         bindE (Buffer_destroy p buf) (\<lambda>p.
           Inr (Send s # (if rs_closeConnection response then [Shutdown] else []), p))))))"

definition bad_request :: string where
  "bad_request = ''HTTP/1.1 400 Bad Request'' @ CRLF @ CRLF"

definition onMessage ::
  "http_callback \<Rightarrow> Pool \<Rightarrow> PooledByteBuf \<Rightarrow> HttpContext \<Rightarrow> Buffer
   \<Rightarrow> (conn_call list \<times> HttpContext \<times> Buffer \<times> Pool) result" where
  "onMessage httpCallback p obj context buf =
     bindE (parseRequest (po_memory p) context buf) (\<lambda>(ok, context, buf).
     let calls = (if ok then [] else [Send bad_request, Shutdown])
     in if gotAll context then
          bindE (onRequest httpCallback p obj (hc_request context)) (\<lambda>(more, p).
            Inr (calls @ more, reset context, buf, p))
        else Inr (calls, context, buf, p))"

subsection \<open>Rendering a response\<close>

text \<open>Consecutive writes that fit append their concatenation.\<close>

lemma write_strings_ok:
  assumes "buf_ok (po_memory p) buf" "pb_writerIndex buf + int (length (concat ss)) \<le> pb_length buf"
    and "pb_length buf \<le> pb_maxCapacity buf"
  shows "\<exists>buf' p'. write_strings ss p (Some buf) = Inr (Some buf', p') \<and> buf_ok (po_memory p') buf' \<and>
    readable (po_memory p') buf' = readable (po_memory p) buf @ concat ss"
  using assms
proof (induction ss arbitrary: p buf)
  case (Cons s ss)
  have fit: "pb_writerIndex buf + int (length s) \<le> pb_length buf" using Cons.prems(2) by simp
  obtain b m where w: "pb_writeBytes p buf s 0 (length s) = Inr (b, p\<lparr>po_memory := m\<rparr>)" "buf_ok m b"
    "readable m b = readable (po_memory p) buf @ s" "pb_length b = pb_length buf"
    "pb_maxCapacity b = pb_maxCapacity buf" "pb_writerIndex b = pb_writerIndex buf + int (length s)"
    by (rule write_fits [OF Cons.prems(1) fit Cons.prems(3)])
  have "pb_writerIndex b + int (length (concat ss)) \<le> pb_length b" using Cons.prems(2) w(4,6) by simp
  with Cons.IH [of "p\<lparr>po_memory := m\<rparr>" b] w Cons.prems(3) show ?case
    by (simp add: buf_writeString_def buf_writeBytes_def internal_def)
qed simp

subsection \<open>Properties\<close>


lemma parse_text_rejected:
  assumes "parse_text c s = Inr (False, d, t)"
  shows "t = s \<and> hc_state c = kExpectRequestLine \<and> hc_state d = kExpectRequestLine \<and>
    (\<exists>l u. next_line s = Some (l, u) \<and> processRequestLine (hc_request c) l = Inr (False, hc_request d))"
proof -
  have hd: "parse_text c s \<noteq> Inr (False, d, t)" if "hc_state c = kExpectHeaders" for c s
    using that
  proof (induction c s rule: parse_text.induct)
    case (1 c s)
    then show ?case
      by (cases "next_line s") (auto simp: parse_text.simps [of c s] split: if_splits)
  qed
  have st: "hc_state c = kExpectRequestLine"
    using assms hd [of c s] by (cases "hc_state c") (auto simp: parse_text.simps [of c s])
  then obtain l u where lu: "next_line s = Some (l, u)"
    using assms by (auto simp: parse_text.simps [of c s] split: option.splits)
  then obtain ok r where r: "processRequestLine (hc_request c) l = Inr (ok, r)"
    using assms st by (auto simp: parse_text.simps [of c s] result_simps)
  have "\<not> ok" using assms st lu r hd by (auto simp: parse_text.simps [of c s] split: if_splits)
  with assms st lu r show ?thesis by (auto simp: parse_text.simps [of c s])
qed

lemma parse_text_poisoned:
  assumes "parse_text c s = Inr (False, d, t)" "rq_method (hc_request c) = kInvalid" "rq_method (hc_request d) \<noteq> kInvalid"
  shows "parse_text d (t @ u) = Inl AssertionFailed"
proof -
  note r = parse_text_rejected [OF assms(1)]
  then obtain l v where l: "next_line s = Some (l, v)" "processRequestLine (hc_request c) l = Inr (False, hc_request d)"
    by blast
  have "from_char (CHR '' '') l \<noteq> []"
  proof
    assume "from_char (CHR '' '') l = []"
    then have "hc_request d = hc_request c" using l(2) by (simp add: processRequestLine_def)
    with assms(2,3) show False by simp
  qed
  then have "processRequestLine (hc_request d) l = Inl AssertionFailed"
    using assms(3) by (simp add: processRequestLine_def setMethod_def Let_def)
  then show ?thesis using r next_line_append [OF l(1), of u] by (simp add: parse_text.simps [of d])
qed

text \<open>
  C16: A rejected request line poisons the connection: when the method was recognised but the rest of
  the line is not a request, the method stays set and the line stays in the buffer, so the next
  message, whatever it brings, fails the assertion in \<open>setMethod\<close> instead of being answered.
\<close>

theorem rejected_request_poisons_connection:
  assumes "buf_ok m buf" "rq_method (hc_request c) = kInvalid"
    and "parseRequest m c (Some buf) = Inr (False, d, b)" "rq_method (hc_request d) \<noteq> kInvalid"
    and "buf_ok (po_memory p) buf2" "readable (po_memory p) buf2 = readable m buf @ u"
  shows "onMessage cb p obj d (Some buf2) = Inl AssertionFailed"
proof -
  obtain t where t: "parse_text c (readable m buf) = Inr (False, d, t)"
    using parseRequest_refines [OF assms(1), of c] assms(3)
    by (auto simp: parse_refines_def split: sum.splits)
  have "t = readable m buf" using parse_text_rejected [OF t] by simp
  then have "parse_text d (readable (po_memory p) buf2) = Inl AssertionFailed"
    using parse_text_poisoned [OF t assms(2,4), of u] assms(6) by simp
  then have "parseRequest (po_memory p) d (Some buf2) = Inl AssertionFailed"
    using parseRequest_refines [OF assms(5), of d] by (simp add: parse_refines_def)
  then show ?thesis by (simp add: onMessage_def)
qed

definition sample_response :: HttpResponse where
  "sample_response = setBody (setStatusMessage (setStatusCode (HttpResponse_new True) 200) ''OK'') ''hi''"

definition empty_pool :: Pool where
  "empty_pool = sample_pool\<lparr>po_memory := [0 \<mapsto> replicate 64 (CHR ''.'')]\<rparr>"

definition empty_buf :: PooledByteBuf where
  "empty_buf = (sample_buf 0)\<lparr>pb_maxCapacity := 64, pb_length := 64, pb_maxLength := 64, pb_writerIndex := 0\<rparr>"

lemma empty_buf_ok: "buf_ok (po_memory empty_pool) empty_buf" "readable (po_memory empty_pool) empty_buf = []"
  by (simp_all add: buf_ok_def empty_pool_def empty_buf_def sample_pool_def sample_buf_def readable_def)


text \<open>C16 at the line \<open>GET x\<close>, which has no version.\<close>

theorem rejected_request_poisons_connection_witness:
  "\<exists>d b. parseRequest (text_memory (''GET x'' @ CRLF)) HttpContext_new (Some (text_buf (''GET x'' @ CRLF))) = Inr (False, d, b) \<and>
    onMessage defaultHttpCallback (empty_pool\<lparr>po_memory := text_memory ((''GET x'' @ CRLF) @ ''more'')\<rparr>) empty_buf d
      (Some (text_buf ((''GET x'' @ CRLF) @ ''more''))) = Inl AssertionFailed"
proof -
  let ?s = "''GET x'' @ CRLF"
  let ?d = "\<lparr>hc_state = kExpectRequestLine, hc_request = HttpRequest_new\<lparr>rq_method := kGet\<rparr>\<rparr>"
  have ok: "buf_ok (text_memory ?s) (text_buf ?s)" "buf_ok (text_memory (?s @ ''more'')) (text_buf (?s @ ''more''))"
    by (rule text_buf_ok; simp)+
  have "parse_text HttpContext_new ?s = Inr (False, ?d, ?s)" by code_simp
  then obtain b where b: "parseRequest (text_memory ?s) HttpContext_new (Some (text_buf ?s)) = Inr (False, ?d, b)"
    using parseRequest_refines [OF ok(1), of HttpContext_new] by (auto simp: parse_refines_def text_buf_ok)
  have "onMessage defaultHttpCallback (empty_pool\<lparr>po_memory := text_memory (?s @ ''more'')\<rparr>) empty_buf ?d
      (Some (text_buf (?s @ ''more''))) = Inl AssertionFailed"
    by (rule rejected_request_poisons_connection [OF ok(1) _ b, where u = "''more''"])
      (use ok(2) in \<open>simp_all add: HttpContext_new_def HttpRequest_new_def text_buf_ok\<close>)
  with b show ?thesis by blast
qed

end
