(* ===== verification/Poller.thy ===== *)
theory Poller
  imports Prelude "HOL-Library.Word"
begin

section \<open>Channels and the epoll poller\<close>

text \<open>
  \<open>Channel.h\<close>, \<open>Channel.cpp\<close>, \<open>Poller.h\<close>, \<open>Poller.cpp\<close>, \<open>base/EPollPoller.h\<close> and \<open>base/EPollPoller.cpp\<close>: a channel
  binds a file descriptor to callbacks, the poller registers channels with the kernel. Channels are
  in a store. The kernel is a parameter: \<open>epoll_ctl\<close> acts on a kernel state of any type, and \<open>epoll_ok\<close>
  states what its manual page promises of a call that adds, changes or removes a descriptor.
\<close>

unbundle bit_operations_syntax

subsection \<open>Channel\<close>

definition POLLIN :: int where "POLLIN = 1"
definition POLLPRI :: int where "POLLPRI = 2"
definition POLLOUT :: int where "POLLOUT = 4"
definition POLLERR :: int where "POLLERR = 8"
definition POLLHUP :: int where "POLLHUP = 16"
definition POLLNVAL :: int where "POLLNVAL = 32"
definition POLLRDHUP :: int where "POLLRDHUP = 8192"

definition kNoneEvent :: int where "kNoneEvent = 0"
definition kReadEvent :: int where "kReadEvent = (POLLIN OR POLLPRI)"
definition kWriteEvent :: int where "kWriteEvent = POLLOUT"

lemmas poll_bits = POLLIN_def POLLPRI_def POLLOUT_def POLLERR_def POLLHUP_def POLLNVAL_def POLLRDHUP_def
  kNoneEvent_def kReadEvent_def kWriteEvent_def

text \<open>\<open>ch_tie\<close> is the object whose life the events of the channel depend on.\<close>

record Channel =
  ch_fd :: int
  ch_events :: int
  ch_revents :: int
  ch_index :: int
  ch_tied :: bool
  ch_tie :: "nat option"
  ch_readCallback :: "nat option"
  ch_writeCallback :: "nat option"
  ch_closeCallback :: "nat option"
  ch_errorCallback :: "nat option"

definition Channel_new :: "int \<Rightarrow> Channel" where
  "Channel_new fd = \<lparr>ch_fd = fd, ch_events = 0, ch_revents = 0, ch_index = - 1, ch_tied = False, ch_tie = None,
     ch_readCallback = None, ch_writeCallback = None, ch_closeCallback = None, ch_errorCallback = None\<rparr>"

definition isNoneEvent :: "Channel \<Rightarrow> bool" where
  "isNoneEvent ch \<longleftrightarrow> ch_events ch = kNoneEvent"

definition isWriting :: "Channel \<Rightarrow> bool" where
  "isWriting ch \<longleftrightarrow> ch_events ch AND kWriteEvent \<noteq> 0"

definition isReading :: "Channel \<Rightarrow> bool" where
  "isReading ch \<longleftrightarrow> ch_events ch AND kReadEvent \<noteq> 0"

definition tie :: "nat \<Rightarrow> Channel \<Rightarrow> Channel" where
  "tie obj ch = ch\<lparr>ch_tie := Some obj, ch_tied := True\<rparr>"

text \<open>The callbacks a round of \<open>handleEvent\<close> makes, in order; \<open>alive\<close> are the objects not yet destroyed.\<close>

definition handleEventWithGuard :: "Channel \<Rightarrow> nat list" where
  "handleEventWithGuard ch =
     (let r = ch_revents ch;
          call = (\<lambda>cb. case cb of None \<Rightarrow> [] | Some f \<Rightarrow> [f])
      in (if r AND POLLHUP \<noteq> 0 \<and> r AND POLLIN = 0 then call (ch_closeCallback ch) else []) @
         (if r AND (POLLERR OR POLLNVAL) \<noteq> 0 then call (ch_errorCallback ch) else []) @
         (if r AND (POLLIN OR POLLPRI OR POLLRDHUP) \<noteq> 0 then call (ch_readCallback ch) else []) @
         (if r AND POLLOUT \<noteq> 0 then call (ch_writeCallback ch) else []))"

definition handleEvent :: "nat set \<Rightarrow> Channel \<Rightarrow> nat list" where
  "handleEvent alive ch =
     (if ch_tied ch then
        (case ch_tie ch of
           Some obj \<Rightarrow> if obj \<in> alive then handleEventWithGuard ch else []
         | None \<Rightarrow> [])
      else handleEventWithGuard ch)"

subsection \<open>EPollPoller\<close>

definition kNew :: int where "kNew = - 1"
definition kAdded :: int where "kAdded = 1"
definition kDeleted :: int where "kDeleted = 2"

lemmas index_defs = kNew_def kAdded_def kDeleted_def

datatype epoll_op = EPOLL_CTL_ADD | EPOLL_CTL_MOD | EPOLL_CTL_DEL

type_synonym 'k epoll_ctl = "'k \<Rightarrow> epoll_op \<Rightarrow> int \<Rightarrow> int \<times> nat \<Rightarrow> 'k"

record 'k EPollPoller =
  ep_channels :: "int \<rightharpoonup> nat"
  ep_kernel :: 'k
  ep_eventsSize :: nat

definition kInitEventListSize :: nat where "kInitEventListSize = 16"

definition EPollPoller_new :: "'k \<Rightarrow> 'k EPollPoller" where
  "EPollPoller_new k = \<lparr>ep_channels = Map.empty, ep_kernel = k, ep_eventsSize = kInitEventListSize\<rparr>"

text \<open>The result of \<open>epoll_ctl\<close> is ignored, as in the source.\<close>

definition ep_update :: "'k epoll_ctl \<Rightarrow> 'k EPollPoller \<Rightarrow> epoll_op \<Rightarrow> nat \<Rightarrow> Channel \<Rightarrow> 'k EPollPoller" where
  "ep_update ctl p operation c ch = p\<lparr>ep_kernel := ctl (ep_kernel p) operation (ch_fd ch) (ch_events ch, c)\<rparr>"

definition updateChannel ::
  "'k epoll_ctl \<Rightarrow> Channel store \<Rightarrow> 'k EPollPoller \<Rightarrow> nat \<Rightarrow> (Channel store \<times> 'k EPollPoller) result" where
  "updateChannel ctl hp p c =
     bindE (load hp c) (\<lambda>ch.
     let index = ch_index ch; fd = ch_fd ch
     in if index = kNew \<or> index = kDeleted then
          bindE (if index = kNew then
                   bindE (assertE (ep_channels p fd = None)) (\<lambda>_. Inr (p\<lparr>ep_channels := (ep_channels p)(fd \<mapsto> c)\<rparr>))
                 else
                   bindE (assertE (ep_channels p fd \<noteq> None)) (\<lambda>_.
                   bindE (assertE (ep_channels p fd = Some c)) (\<lambda>_. Inr p))) (\<lambda>p.
          let ch = ch\<lparr>ch_index := kAdded\<rparr>
          in Inr (hp(c \<mapsto> ch), ep_update ctl p EPOLL_CTL_ADD c ch))
        else
          bindE (assertE (ep_channels p fd \<noteq> None)) (\<lambda>_.
          bindE (assertE (ep_channels p fd = Some c)) (\<lambda>_.
          bindE (assertE (index = kAdded)) (\<lambda>_.
          if isNoneEvent ch then
            Inr (hp(c \<mapsto> ch\<lparr>ch_index := kDeleted\<rparr>), ep_update ctl p EPOLL_CTL_DEL c ch)
          else Inr (hp, ep_update ctl p EPOLL_CTL_MOD c ch)))))"

definition ep_removeChannel ::
  "'k epoll_ctl \<Rightarrow> Channel store \<Rightarrow> 'k EPollPoller \<Rightarrow> nat \<Rightarrow> (Channel store \<times> 'k EPollPoller) result" where
  "ep_removeChannel ctl hp p c =
     bindE (load hp c) (\<lambda>ch.
     let fd = ch_fd ch; index = ch_index ch
     in bindE (assertE (ep_channels p fd \<noteq> None)) (\<lambda>_.
        bindE (assertE (ep_channels p fd = Some c)) (\<lambda>_.
        bindE (assertE (isNoneEvent ch)) (\<lambda>_.
        bindE (assertE (index = kAdded \<or> index = kDeleted)) (\<lambda>_.
        let p = p\<lparr>ep_channels := (ep_channels p)(fd := None)\<rparr>;
            p = (if index = kAdded then ep_update ctl p EPOLL_CTL_DEL c ch else p)
        in Inr (hp(c \<mapsto> ch\<lparr>ch_index := kNew\<rparr>), p))))))"

definition ep_hasChannel :: "'k EPollPoller \<Rightarrow> nat \<Rightarrow> Channel \<Rightarrow> bool" where
  "ep_hasChannel p c ch \<longleftrightarrow> ep_channels p (ch_fd ch) = Some c"

text \<open>The loop over the events that \<open>epoll_wait\<close> returned, pairs of an event mask and the registered pointer.\<close>

primrec fillActiveChannels ::
  "Channel store \<Rightarrow> 'k EPollPoller \<Rightarrow> (int \<times> nat) list \<Rightarrow> nat list \<Rightarrow> (Channel store \<times> nat list) result" where
  "fillActiveChannels hp p [] act = Inr (hp, act)"
| "fillActiveChannels hp p (e # es) act =
     bindE (load hp (snd e)) (\<lambda>ch.
     bindE (assertE (ep_channels p (ch_fd ch) \<noteq> None)) (\<lambda>_.
     bindE (assertE (ep_channels p (ch_fd ch) = Some (snd e))) (\<lambda>_.
       fillActiveChannels (hp(snd e \<mapsto> ch\<lparr>ch_revents := fst e\<rparr>)) p es (act @ [snd e]))))"

text \<open>\<open>poll\<close> on the events \<open>es\<close> of a wait that did not fail; a full list of events doubles.\<close>

definition ep_poll ::
  "Channel store \<Rightarrow> 'k EPollPoller \<Rightarrow> (int \<times> nat) list \<Rightarrow> nat list \<Rightarrow> (Channel store \<times> 'k EPollPoller \<times> nat list) result" where
  "ep_poll hp p es act =
     (if es \<noteq> [] then
        bindE (assertE (length es \<le> ep_eventsSize p)) (\<lambda>_.
        bindE (fillActiveChannels hp p es act) (\<lambda>(hp, act).
          Inr (hp, if length es = ep_eventsSize p then p\<lparr>ep_eventsSize := ep_eventsSize p * 2\<rparr> else p, act)))
      else Inr (hp, p, act))"

subsection \<open>The operations of a channel that reach the poller\<close>

definition set_events ::
  "'k epoll_ctl \<Rightarrow> (int \<Rightarrow> int) \<Rightarrow> Channel store \<Rightarrow> 'k EPollPoller \<Rightarrow> nat \<Rightarrow> (Channel store \<times> 'k EPollPoller) result" where
  "set_events ctl f hp p c =
     bindE (load hp c) (\<lambda>ch. updateChannel ctl (hp(c \<mapsto> ch\<lparr>ch_events := f (ch_events ch)\<rparr>)) p c)"

definition disableAll where "disableAll ctl = set_events ctl (\<lambda>_. kNoneEvent)"
definition enableReading where "enableReading ctl = set_events ctl (\<lambda>e. e OR kReadEvent)"
definition disableReading where "disableReading ctl = set_events ctl (\<lambda>e. e AND NOT kReadEvent)"
definition enableWriting where "enableWriting ctl = set_events ctl (\<lambda>e. e OR kWriteEvent)"
definition disableWriting where "disableWriting ctl = set_events ctl (\<lambda>e. e AND NOT kWriteEvent)"

definition channel_remove ::
  "'k epoll_ctl \<Rightarrow> Channel store \<Rightarrow> 'k EPollPoller \<Rightarrow> nat \<Rightarrow> (Channel store \<times> 'k EPollPoller) result" where
  "channel_remove ctl hp p c =
     bindE (load hp c) (\<lambda>ch. bindE (assertE (isNoneEvent ch)) (\<lambda>_. ep_removeChannel ctl hp p c))"

subsection \<open>Laws\<close>

definition epoll_ok :: "'k epoll_ctl \<Rightarrow> ('k \<Rightarrow> int \<rightharpoonup> int \<times> nat) \<Rightarrow> bool" where
  "epoll_ok ctl interest \<longleftrightarrow> (\<forall>k fd e.
     (interest k fd = None \<longrightarrow> interest (ctl k EPOLL_CTL_ADD fd e) = (interest k)(fd \<mapsto> e)) \<and>
     (interest k fd \<noteq> None \<longrightarrow> interest (ctl k EPOLL_CTL_MOD fd e) = (interest k)(fd \<mapsto> e)) \<and>
     (interest k fd \<noteq> None \<longrightarrow> interest (ctl k EPOLL_CTL_DEL fd e) = (interest k)(fd := None)))"

text \<open>
  The poller's map holds the channels that are not new, and the kernel's interest list exactly the
  added ones with their events.
\<close>

definition poller_inv :: "('k \<Rightarrow> int \<rightharpoonup> int \<times> nat) \<Rightarrow> Channel store \<Rightarrow> 'k EPollPoller \<Rightarrow> bool" where
  "poller_inv interest hp p \<longleftrightarrow>
     (\<forall>c ch. hp c = Some ch \<longrightarrow> ch_index ch \<in> {kNew, kAdded, kDeleted}) \<and>
     (\<forall>fd c. ep_channels p fd = Some c \<longleftrightarrow> (\<exists>ch. hp c = Some ch \<and> ch_fd ch = fd \<and> ch_index ch \<noteq> kNew)) \<and>
     (\<forall>fd e c. interest (ep_kernel p) fd = Some (e, c) \<longleftrightarrow>
        (\<exists>ch. hp c = Some ch \<and> ch_fd ch = fd \<and> ch_index ch = kAdded \<and> ch_events ch = e))"

lemma poller_invD:
  assumes "poller_inv interest hp p"
  shows "hp c = Some ch \<Longrightarrow> ch_index ch \<in> {kNew, kAdded, kDeleted}"
    "ep_channels p fd = Some c \<longleftrightarrow> (\<exists>ch. hp c = Some ch \<and> ch_fd ch = fd \<and> ch_index ch \<noteq> kNew)"
    "interest (ep_kernel p) fd = Some (e, c) \<longleftrightarrow>
       (\<exists>ch. hp c = Some ch \<and> ch_fd ch = fd \<and> ch_index ch = kAdded \<and> ch_events ch = e)"
  using assms unfolding poller_inv_def by blast+

text \<open>Replacing one channel: the map and the interest list change at its descriptor only.\<close>

lemma poller_inv_replace:
  assumes inv: "poller_inv interest hp p" and c: "hp c = Some ch" and fd: "ch_fd ch' = ch_fd ch"
    and own: "\<And>d dh. d \<noteq> c \<Longrightarrow> hp d = Some dh \<Longrightarrow> ch_index dh \<noteq> kNew \<Longrightarrow> ch_fd dh \<noteq> ch_fd ch"
    and idx: "ch_index ch' \<in> {kNew, kAdded, kDeleted}"
    and map: "ep_channels p' = (ep_channels p)(ch_fd ch := if ch_index ch' = kNew then None else Some c)"
    and int: "interest (ep_kernel p') = (interest (ep_kernel p))(ch_fd ch := if ch_index ch' = kAdded then Some (ch_events ch', c) else None)"
  shows "poller_inv interest (hp(c \<mapsto> ch')) p'"
proof -
  note I = poller_invD [OF inv]
  have "ep_channels p' f = Some d \<longleftrightarrow> (\<exists>x. (hp(c \<mapsto> ch')) d = Some x \<and> ch_fd x = f \<and> ch_index x \<noteq> kNew)" for f d
    using I(2) own fd c unfolding map by (cases "d = c"; cases "f = ch_fd ch") auto
  moreover have "interest (ep_kernel p') f = Some (e, d) \<longleftrightarrow>
      (\<exists>x. (hp(c \<mapsto> ch')) d = Some x \<and> ch_fd x = f \<and> ch_index x = kAdded \<and> ch_events x = e)" for f e d
    using I(3) own fd c unfolding int by (cases "d = c"; cases "f = ch_fd ch") (auto simp: index_defs)
  ultimately show ?thesis using I(1) idx unfolding poller_inv_def by (auto split: if_splits)
qed

text \<open>A channel that is not registered comes and goes without a trace.\<close>

lemma poller_inv_new:
  "poller_inv interest hp p \<Longrightarrow> hp c = None \<Longrightarrow> ch_index ch = kNew \<Longrightarrow> poller_inv interest (hp(c \<mapsto> ch)) p"
  unfolding poller_inv_def by (auto simp: index_defs)

lemma poller_inv_delete:
  "poller_inv interest hp p \<Longrightarrow> hp c = Some ch \<Longrightarrow> ch_index ch = kNew \<Longrightarrow> poller_inv interest (hp(c := None)) p"
  unfolding poller_inv_def by (auto simp: index_defs)

lemma own_fd:
  assumes inv: "poller_inv interest hp p" and c: "hp c = Some ch"
    and new: "ch_index ch = kNew \<Longrightarrow> ep_channels p (ch_fd ch) = None"
    and d: "d \<noteq> c" "hp d = Some dh" "ch_index dh \<noteq> kNew"
  shows "ch_fd dh \<noteq> ch_fd ch"
proof
  assume eq: "ch_fd dh = ch_fd ch"
  then have "ep_channels p (ch_fd ch) = Some d" using poller_invD(2) [OF inv] d by blast
  moreover from this have "ch_index ch \<noteq> kNew" using new by auto
  then have "ep_channels p (ch_fd ch) = Some c" using poller_invD(2) [OF inv] c by blast
  ultimately show False using d(1) by simp
qed

lemma registered: "poller_inv interest hp p \<Longrightarrow> hp c = Some ch \<Longrightarrow> ch_index ch \<noteq> kNew \<Longrightarrow> ep_channels p (ch_fd ch) = Some c"
  using poller_invD(2) by blast

lemma watched: "poller_inv interest hp p \<Longrightarrow> hp c = Some ch \<Longrightarrow> ch_index ch = kAdded \<Longrightarrow> interest (ep_kernel p) (ch_fd ch) \<noteq> None"
  using poller_invD(3) [of interest hp p "ch_fd ch" "ch_events ch" c] by auto

lemma unwatched:
  assumes inv: "poller_inv interest hp p" and c: "hp c = Some ch"
    and new: "ch_index ch = kNew \<Longrightarrow> ep_channels p (ch_fd ch) = None" and n: "ch_index ch \<noteq> kAdded"
  shows "interest (ep_kernel p) (ch_fd ch) = None"
proof (rule ccontr)
  assume "interest (ep_kernel p) (ch_fd ch) \<noteq> None"
  then obtain e d where "interest (ep_kernel p) (ch_fd ch) = Some (e, d)" by auto
  then obtain dh where "hp d = Some dh" "ch_fd dh = ch_fd ch" "ch_index dh = kAdded" using poller_invD(3) [OF inv] by blast
  then show False using own_fd [OF inv c new, of d dh] c n by (cases "d = c") (auto simp: index_defs)
qed

lemma epoll_okD:
  assumes "epoll_ok ctl interest"
  shows "interest k fd = None \<Longrightarrow> interest (ctl k EPOLL_CTL_ADD fd e) = (interest k)(fd \<mapsto> e)"
    "interest k fd \<noteq> None \<Longrightarrow> interest (ctl k EPOLL_CTL_MOD fd e) = (interest k)(fd \<mapsto> e)"
    "interest k fd \<noteq> None \<Longrightarrow> interest (ctl k EPOLL_CTL_DEL fd e) = (interest k)(fd := None)"
  using assms unfolding epoll_ok_def by blast+

text \<open>What a change of events does to the channel, the poller and the kernel.\<close>

lemma set_events_ok:
  assumes k: "epoll_ok ctl interest" and inv: "poller_inv interest hp p" and c: "hp c = Some ch"
    and new: "ch_index ch = kNew \<Longrightarrow> ep_channels p (ch_fd ch) = None"
  shows "\<exists>hp' p'. set_events ctl f hp p c = Inr (hp', p') \<and> poller_inv interest hp' p' \<and>
    hp' = hp(c \<mapsto> ch\<lparr>ch_events := f (ch_events ch),
      ch_index := if f (ch_events ch) = 0 \<and> ch_index ch = kAdded then kDeleted else kAdded\<rparr>) \<and>
    ep_channels p' = (ep_channels p)(ch_fd ch \<mapsto> c) \<and>
    interest (ep_kernel p') (ch_fd ch) =
      (if f (ch_events ch) = 0 \<and> ch_index ch = kAdded then None else Some (f (ch_events ch), c))"
proof -
  let ?ch = "ch\<lparr>ch_events := f (ch_events ch)\<rparr>" and ?fd = "ch_fd ch"
  note I = poller_invD [OF inv] and own = own_fd [OF inv c new]
  note reg = registered [OF inv c] and none = unwatched [OF inv c new] and some = watched [OF inv c] and K = epoll_okD [OF k]
  consider (add) "ch_index ch \<noteq> kAdded" | (del) "ch_index ch = kAdded" "f (ch_events ch) = 0"
    | (upd) "ch_index ch = kAdded" "f (ch_events ch) \<noteq> 0" by blast
  then show ?thesis
  proof cases
    case add
    let ?ch' = "?ch\<lparr>ch_index := kAdded\<rparr>" and ?p = "p\<lparr>ep_channels := (ep_channels p)(?fd \<mapsto> c)\<rparr>"
    let ?p' = "ep_update ctl ?p EPOLL_CTL_ADD c ?ch'"
    have "p\<lparr>ep_channels := ep_channels p\<rparr> = p" by simp
    then have same: "?p = p" if "ch_index ch \<noteq> kNew" using reg [OF that] by (simp add: fun_upd_idem)
    have "ch_index ch \<in> {kNew, kDeleted}" using I(1) [OF c] add by auto
    then have "set_events ctl f hp p c = Inr (hp(c \<mapsto> ?ch'), ?p')"
      using c new reg same by (auto simp: set_events_def updateChannel_def Let_def index_defs)
    moreover have "interest (ep_kernel p) ?fd = None" by (rule none [OF _ add])
    then have "interest (ep_kernel ?p') = (interest (ep_kernel p))(?fd \<mapsto> (f (ch_events ch), c))"
      using K(1) by (simp add: ep_update_def)
    moreover from this have "poller_inv interest (hp(c \<mapsto> ?ch')) ?p'"
      by (intro poller_inv_replace [OF inv c _ own]) (auto simp: ep_update_def index_defs)
    ultimately show ?thesis using add by (simp add: ep_update_def)
  next
    case del
    let ?ch' = "?ch\<lparr>ch_index := kDeleted\<rparr>" and ?p' = "ep_update ctl p EPOLL_CTL_DEL c ?ch"
    have "set_events ctl f hp p c = Inr (hp(c \<mapsto> ?ch'), ?p')"
      using c reg del by (simp add: set_events_def updateChannel_def Let_def index_defs isNoneEvent_def kNoneEvent_def)
    moreover have "interest (ep_kernel ?p') = (interest (ep_kernel p))(?fd := None)"
      using K(3) [OF some [OF del(1)]] by (simp add: ep_update_def)
    moreover from this have "poller_inv interest (hp(c \<mapsto> ?ch')) ?p'"
      using reg del by (intro poller_inv_replace [OF inv c _ own]) (auto simp: ep_update_def index_defs fun_upd_idem)
    ultimately show ?thesis using del reg by (simp add: ep_update_def index_defs fun_upd_idem)
  next
    case upd
    let ?p' = "ep_update ctl p EPOLL_CTL_MOD c ?ch"
    have "set_events ctl f hp p c = Inr (hp(c \<mapsto> ?ch), ?p')"
      using c reg upd by (simp add: set_events_def updateChannel_def Let_def index_defs isNoneEvent_def kNoneEvent_def)
    moreover have "interest (ep_kernel ?p') = (interest (ep_kernel p))(?fd \<mapsto> (f (ch_events ch), c))"
      using K(2) [OF some [OF upd(1)]] by (simp add: ep_update_def)
    moreover from this have "poller_inv interest (hp(c \<mapsto> ?ch)) ?p'"
      using reg upd by (intro poller_inv_replace [OF inv c _ own]) (auto simp: ep_update_def index_defs fun_upd_idem)
    moreover have "?ch\<lparr>ch_index := kAdded\<rparr> = ?ch" using upd(1) by (cases ch) simp
    moreover have "ep_channels p ?fd = Some c" using reg upd(1) by (simp add: index_defs)
    ultimately show ?thesis using upd(2) by (simp add: ep_update_def fun_upd_idem)
  qed
qed

text \<open>
  C32: Whatever events a channel asks for, the poller accepts the change: no assertion fails, the channel
  is in the poller's map, and the kernel watches its descriptor for exactly these events, or not at
  all when an added channel asks for none. The bookkeeping of all other channels stays in step.
\<close>

theorem set_events_registers:
  assumes k: "epoll_ok ctl interest" and inv: "poller_inv interest hp p" and c: "hp c = Some ch"
    and new: "ch_index ch = kNew \<Longrightarrow> ep_channels p (ch_fd ch) = None"
  shows "\<exists>hp' p'. set_events ctl f hp p c = Inr (hp', p') \<and> poller_inv interest hp' p' \<and>
    ep_channels p' = (ep_channels p)(ch_fd ch \<mapsto> c) \<and>
    interest (ep_kernel p') (ch_fd ch) =
      (if f (ch_events ch) = 0 \<and> ch_index ch = kAdded then None else Some (f (ch_events ch), c))"
  using set_events_ok [OF assms] by blast

text \<open>A kernel whose state is the interest list.\<close>

definition map_ctl :: "(int \<rightharpoonup> int \<times> nat) epoll_ctl" where
  "map_ctl k op fd e =
     (case op of
        EPOLL_CTL_ADD \<Rightarrow> if k fd = None then k(fd \<mapsto> e) else k
      | EPOLL_CTL_MOD \<Rightarrow> if k fd = None then k else k(fd \<mapsto> e)
      | EPOLL_CTL_DEL \<Rightarrow> k(fd := None))"

lemma map_ctl_ok: "epoll_ok map_ctl (\<lambda>k. k)"
  by (auto simp: epoll_ok_def map_ctl_def)

lemma new_channel_inv: "poller_inv (\<lambda>k. k) [5 \<mapsto> Channel_new fd] (EPollPoller_new Map.empty)"
  by (auto simp: poller_inv_def EPollPoller_new_def Channel_new_def index_defs)

text \<open>Witness for C32: a new channel enables reading.\<close>

theorem set_events_registers_witness:
  "\<exists>hp p. enableReading map_ctl [5 \<mapsto> Channel_new 9] (EPollPoller_new Map.empty) 5 = Inr (hp, p) \<and>
     ep_kernel p 9 = Some (kReadEvent, 5)"
  using set_events_registers [OF map_ctl_ok new_channel_inv [of 9], of 5 "Channel_new 9" "\<lambda>e. e OR kReadEvent"]
  by (auto simp: enableReading_def Channel_new_def EPollPoller_new_def poll_bits index_defs)

text \<open>
  A channel that was registered and asks for no events can be removed: no assertion fails, and neither the poller
  nor the kernel knows its descriptor afterwards.
\<close>

lemma channel_remove_ok:
  assumes k: "epoll_ok ctl interest" and inv: "poller_inv interest hp p" and c: "hp c = Some ch"
    and idx: "ch_index ch \<noteq> kNew" and ev: "ch_events ch = 0"
  shows "\<exists>hp' p'. channel_remove ctl hp p c = Inr (hp', p') \<and> poller_inv interest hp' p' \<and> hp' = hp(c \<mapsto> ch\<lparr>ch_index := kNew\<rparr>) \<and>
    ep_channels p' = (ep_channels p)(ch_fd ch := None) \<and> interest (ep_kernel p') (ch_fd ch) = None"
proof -
  let ?ch = "ch\<lparr>ch_index := kNew\<rparr>" and ?p = "p\<lparr>ep_channels := (ep_channels p)(ch_fd ch := None)\<rparr>"
  let ?p' = "if ch_index ch = kAdded then ep_update ctl ?p EPOLL_CTL_DEL c ch else ?p"
  have run: "channel_remove ctl hp p c = Inr (hp(c \<mapsto> ?ch), ?p')"
    using c ev idx registered [OF inv c idx] poller_invD(1) [OF inv c]
    by (auto simp: channel_remove_def ep_removeChannel_def Let_def isNoneEvent_def kNoneEvent_def)
  have int: "interest (ep_kernel ?p') = (interest (ep_kernel p))(ch_fd ch := None)"
    using epoll_okD(3) [OF k watched [OF inv c]] unwatched [OF inv c] idx
    by (auto simp: ep_update_def fun_upd_idem)
  have "poller_inv interest (hp(c \<mapsto> ?ch)) ?p'"
    using int idx by (intro poller_inv_replace [OF inv c _ own_fd [OF inv c]]) (auto simp: ep_update_def index_defs)
  with run int show ?thesis by (simp add: ep_update_def)
qed

text \<open>How an added channel leaves: it drops its events, then it is removed.\<close>

lemma disable_then_remove:
  assumes k: "epoll_ok ctl interest" and inv: "poller_inv interest hp p" and c: "hp c = Some ch" "ch_index ch = kAdded"
  obtains p1 p2 where "disableAll ctl hp p c = Inr (hp(c \<mapsto> ch\<lparr>ch_events := 0, ch_index := kDeleted\<rparr>), p1)"
    "channel_remove ctl (hp(c \<mapsto> ch\<lparr>ch_events := 0, ch_index := kDeleted\<rparr>)) p1 c = Inr (hp(c \<mapsto> ch\<lparr>ch_events := 0, ch_index := kNew\<rparr>), p2)"
    "poller_inv interest (hp(c \<mapsto> ch\<lparr>ch_events := 0, ch_index := kNew\<rparr>)) p2" "ep_channels p2 = (ep_channels p)(ch_fd ch := None)"
    "interest (ep_kernel p1) (ch_fd ch) = None" "interest (ep_kernel p2) (ch_fd ch) = None"
proof -
  let ?d = "ch\<lparr>ch_events := 0, ch_index := kDeleted\<rparr>"
  obtain p1 where 1: "disableAll ctl hp p c = Inr (hp(c \<mapsto> ?d), p1)" "poller_inv interest (hp(c \<mapsto> ?d)) p1"
    "ep_channels p1 = (ep_channels p)(ch_fd ch \<mapsto> c)" "interest (ep_kernel p1) (ch_fd ch) = None"
    using set_events_ok [OF k inv c(1), of "\<lambda>_. kNoneEvent"] c(2) by (auto simp: disableAll_def kNoneEvent_def index_defs)
  obtain p2 where "channel_remove ctl (hp(c \<mapsto> ?d)) p1 c = Inr (hp(c \<mapsto> ch\<lparr>ch_events := 0, ch_index := kNew\<rparr>), p2)"
    "poller_inv interest (hp(c \<mapsto> ch\<lparr>ch_events := 0, ch_index := kNew\<rparr>)) p2" "ep_channels p2 = (ep_channels p)(ch_fd ch := None)"
    "interest (ep_kernel p2) (ch_fd ch) = None"
    using channel_remove_ok [OF k 1(2), of c ?d] 1(3) by (auto simp: index_defs)
  with 1 show ?thesis using that by blast
qed

text \<open>
  Handling the events that the kernel reports for descriptors it watches fails no assertion and
  makes exactly the reported channels active, in order; the event list keeps its room or doubles.
\<close>

theorem poll_activates:
  assumes inv: "poller_inv interest hp p"
    and es: "\<forall>(r, c) \<in> set es. \<exists>fd e. interest (ep_kernel p) fd = Some (e, c)" "length es \<le> ep_eventsSize p"
  shows "\<exists>hp' p'. ep_poll hp p es [] = Inr (hp', p', map snd es) \<and> poller_inv interest hp' p' \<and>
    ep_eventsSize p' \<in> {ep_eventsSize p, ep_eventsSize p * 2}"
proof -
  have fill: "\<exists>hp'. fillActiveChannels hp p es act = Inr (hp', act @ map snd es) \<and> poller_inv interest hp' p" for act
    using inv es(1)
  proof (induction es arbitrary: hp act)
    case (Cons e es)
    obtain r c where e: "e = (r, c)" by fastforce
    obtain fd v where "interest (ep_kernel p) fd = Some (v, c)" using Cons.prems(2) e by auto
    then obtain ch where ch: "hp c = Some ch" "ch_index ch = kAdded" using poller_invD(3) [OF Cons.prems(1)] by blast
    then have reg: "ep_channels p (ch_fd ch) = Some c" using registered [OF Cons.prems(1) ch(1)] by (simp add: index_defs)
    have "poller_inv interest (hp(c \<mapsto> ch\<lparr>ch_revents := r\<rparr>)) p"
      using Cons.prems(1) ch unfolding poller_inv_def by (auto split: if_splits)
    from Cons.IH [OF this, of "act @ [c]"] Cons.prems(2) show ?case using ch reg e by (simp del: fun_upd_apply)
  qed simp
  obtain hp' where "fillActiveChannels hp p es [] = Inr (hp', map snd es)" "poller_inv interest hp' p"
    using fill [of "[]"] by auto
  then show ?thesis using inv es(2) by (cases "es = []") (auto simp: ep_poll_def poller_inv_def)
qed

end
