(* ===== verification/Tcp_Connection.thy ===== *)
theory Tcp_Connection
  imports Byte_Buffer Poller
begin

section \<open>TcpConnection\<close>

text \<open>
  \<open>TcpConnection.h\<close> and \<open>TcpConnection.cpp\<close>: the life of a connection and its output stream, on the channel
  and the poller of its loop and on pooled buffers. The system calls are parameters: each call of
  \<open>write\<close> has an outcome \<open>w\<close>, \<open>readv\<close> is the one of \<open>readFd\<close>. The callbacks belong to the user and are
  recorded in \<open>tc_calls\<close>; what is queued for the loop is in \<open>tc_functors\<close>; \<open>tc_wire\<close> collects the
  bytes that \<open>write\<close> accepted. An argument \<open>inLoop\<close> says whether the caller is the thread of the loop.
\<close>

unbundle bit_operations_syntax

subsection \<open>State\<close>

datatype StateE = kDisconnected | kConnecting | kConnected | kDisconnecting

datatype write_outcome = Wrote nat | WouldBlock | BrokenPipe | OtherError

datatype tcp_functor = WriteComplete | HighWaterMark nat | SendInLoop "char list" | ShutdownInLoop | ForceCloseInLoop

datatype tcp_call = ConnectionCb | MessageCb | CloseCb

record 'k TcpConnection =
  tc_state :: StateE
  tc_channel :: nat
  tc_channels :: "Channel store"
  tc_poller :: "'k EPollPoller"
  tc_pool :: Pool
  tc_inputBuffer :: Buffer
  tc_outputBuffer :: Buffer
  tc_highWaterMark :: int
  tc_writeCompleteCallback :: bool
  tc_highWaterMarkCallback :: bool
  tc_functors :: "tcp_functor list"
  tc_calls :: "tcp_call list"
  tc_wire :: "char list"
  tc_writeShut :: bool

type_synonym 'k tcp = "'k TcpConnection"

definition queueInLoop :: "tcp_functor \<Rightarrow> 'k tcp \<Rightarrow> 'k tcp" where
  "queueInLoop f t = t\<lparr>tc_functors := tc_functors t @ [f]\<rparr>"

definition callback :: "tcp_call \<Rightarrow> 'k tcp \<Rightarrow> 'k tcp" where
  "callback cb t = t\<lparr>tc_calls := tc_calls t @ [cb]\<rparr>"

text \<open>An operation of the channel, such as \<open>enableReading\<close>, on the connection.\<close>

definition on_channel ::
  "(Channel store \<Rightarrow> 'k EPollPoller \<Rightarrow> nat \<Rightarrow> (Channel store \<times> 'k EPollPoller) result) \<Rightarrow> 'k tcp \<Rightarrow> 'k tcp result" where
  "on_channel f t =
     bindE (f (tc_channels t) (tc_poller t) (tc_channel t)) (\<lambda>(hp, p). Inr (t\<lparr>tc_channels := hp, tc_poller := p\<rparr>))"

text \<open>The constructor: \<open>obj\<close> and \<open>obj'\<close> are the buffer objects that the recycler hands out.\<close>

definition TcpConnection_new ::
  "Pool \<Rightarrow> PooledByteBuf \<Rightarrow> PooledByteBuf \<Rightarrow> Channel store \<Rightarrow> 'k EPollPoller \<Rightarrow> nat \<Rightarrow> int \<Rightarrow> 'k tcp result" where
  "TcpConnection_new pool obj obj' hp p c sockfd =
     bindE (Buffer_new pool obj 16384) (\<lambda>(input, pool).
     bindE (Buffer_new pool obj' 16384) (\<lambda>(output, pool).
       Inr \<lparr>tc_state = kConnecting, tc_channel = c,
            tc_channels = hp(c \<mapsto> (Channel_new sockfd)\<lparr>ch_readCallback := Some 0, ch_writeCallback := Some 1,
                                                         ch_closeCallback := Some 2, ch_errorCallback := Some 3\<rparr>),
            tc_poller = p, tc_pool = pool, tc_inputBuffer = input, tc_outputBuffer = output,
            tc_highWaterMark = 64 * 1024 * 1024, tc_writeCompleteCallback = False, tc_highWaterMarkCallback = False,
            tc_functors = [], tc_calls = [], tc_wire = [], tc_writeShut = False\<rparr>))"

subsection \<open>Sending\<close>

text \<open>The direct write, when nothing waits for output: the bytes written, the bytes left, and whether the peer is gone.\<close>

definition write_now :: "'k tcp \<Rightarrow> char list \<Rightarrow> write_outcome \<Rightarrow> nat \<times> int \<times> bool \<times> 'k tcp" where
  "write_now t data w =
     (case w of
        Wrote n \<Rightarrow>
          let remaining = (int (length data) - int n) mod 2 ^ 64;
              t = t\<lparr>tc_wire := tc_wire t @ take n data\<rparr>
          in (n, remaining, False, if remaining = 0 \<and> tc_writeCompleteCallback t then queueInLoop WriteComplete t else t)
      | WouldBlock \<Rightarrow> (0, int (length data), False, t)
      | BrokenPipe \<Rightarrow> (0, int (length data), True, t)
      | OtherError \<Rightarrow> (0, int (length data), False, t))"

text \<open>The report that the output buffer passes the high water mark.\<close>

definition report_highWaterMark :: "'k tcp \<Rightarrow> int \<Rightarrow> int \<Rightarrow> 'k tcp" where
  "report_highWaterMark t oldLen remaining =
     (if (oldLen + remaining) mod 2 ^ 64 \<ge> tc_highWaterMark t \<and> oldLen < tc_highWaterMark t \<and> tc_highWaterMarkCallback t
      then queueInLoop (HighWaterMark (nat ((oldLen + remaining) mod 2 ^ 64))) t else t)"

definition sendInLoop :: "'k epoll_ctl \<Rightarrow> 'k tcp \<Rightarrow> char list \<Rightarrow> write_outcome \<Rightarrow> 'k tcp result" where
  "sendInLoop ctl t data w =
     (if tc_state t = kDisconnected then Inr t
      else
        bindE (load (tc_channels t) (tc_channel t)) (\<lambda>ch.
        bindE (buf_readableBytes (tc_outputBuffer t)) (\<lambda>oldLen.
        let (nwrote, remaining, faultError, t) =
              (if \<not> isWriting ch \<and> oldLen = 0 then write_now t data w else (0, int (length data), False, t))
        in bindE (assertE (remaining \<le> int (length data))) (\<lambda>_.
           if \<not> faultError \<and> remaining > 0 then
             let t = report_highWaterMark t (as_size_t oldLen) remaining
             in bindE (buf_writeBytes (tc_pool t) (tc_outputBuffer t) (drop nwrote data) (nat remaining)) (\<lambda>(out, p).
                let t = t\<lparr>tc_outputBuffer := out, tc_pool := p\<rparr>
                in if \<not> isWriting ch then on_channel (enableWriting ctl) t else Inr t)
           else Inr t))))"

definition tcp_send :: "'k epoll_ctl \<Rightarrow> bool \<Rightarrow> 'k tcp \<Rightarrow> char list \<Rightarrow> write_outcome \<Rightarrow> 'k tcp result" where
  "tcp_send ctl inLoop t message w =
     (if tc_state t = kConnected then
        if inLoop then sendInLoop ctl t message w else Inr (queueInLoop (SendInLoop message) t)
      else Inr t)"

subsection \<open>Closing\<close>

definition shutdownInLoop :: "'k tcp \<Rightarrow> 'k tcp result" where
  "shutdownInLoop t =
     bindE (load (tc_channels t) (tc_channel t)) (\<lambda>ch.
       Inr (if \<not> isWriting ch then t\<lparr>tc_writeShut := True\<rparr> else t))"

definition tcp_shutdown :: "bool \<Rightarrow> 'k tcp \<Rightarrow> 'k tcp result" where
  "tcp_shutdown inLoop t =
     (if tc_state t = kConnected then
        let t = t\<lparr>tc_state := kDisconnecting\<rparr>
        in if inLoop then shutdownInLoop t else Inr (queueInLoop ShutdownInLoop t)
      else Inr t)"

definition handleClose :: "'k epoll_ctl \<Rightarrow> 'k tcp \<Rightarrow> 'k tcp result" where
  "handleClose ctl t =
     bindE (assertE (tc_state t = kConnected \<or> tc_state t = kDisconnecting)) (\<lambda>_.
     bindE (on_channel (disableAll ctl) (t\<lparr>tc_state := kDisconnected\<rparr>)) (\<lambda>t.
       Inr (callback CloseCb (callback ConnectionCb t))))"

definition forceClose :: "'k tcp \<Rightarrow> 'k tcp" where
  "forceClose t =
     (if tc_state t = kConnected \<or> tc_state t = kDisconnecting
      then queueInLoop ForceCloseInLoop (t\<lparr>tc_state := kDisconnecting\<rparr>) else t)"

definition forceCloseInLoop :: "'k epoll_ctl \<Rightarrow> 'k tcp \<Rightarrow> 'k tcp result" where
  "forceCloseInLoop ctl t =
     (if tc_state t = kConnected \<or> tc_state t = kDisconnecting then handleClose ctl t else Inr t)"

definition connectEstablished :: "'k epoll_ctl \<Rightarrow> nat \<Rightarrow> 'k tcp \<Rightarrow> 'k tcp result" where
  "connectEstablished ctl this t =
     bindE (assertE (tc_state t = kConnecting)) (\<lambda>_.
     bindE (load (tc_channels t) (tc_channel t)) (\<lambda>ch.
     let t = t\<lparr>tc_state := kConnected, tc_channels := (tc_channels t)(tc_channel t \<mapsto> tie this ch)\<rparr>
     in bindE (on_channel (enableReading ctl) t) (\<lambda>t. Inr (callback ConnectionCb t))))"

definition connectDestroyed :: "'k epoll_ctl \<Rightarrow> 'k tcp \<Rightarrow> 'k tcp result" where
  "connectDestroyed ctl t =
     bindE (if tc_state t = kConnected then
              bindE (on_channel (disableAll ctl) (t\<lparr>tc_state := kDisconnected\<rparr>)) (\<lambda>t. Inr (callback ConnectionCb t))
            else Inr t) (\<lambda>t. on_channel (channel_remove ctl) t)"

definition TcpConnection_destroy :: "'k tcp \<Rightarrow> unit result" where
  "TcpConnection_destroy t = assertE (tc_state t = kDisconnected)"

subsection \<open>Events\<close>

text \<open>\<open>handleError\<close> only logs.\<close>

definition tcp_handleRead ::
  "'k epoll_ctl \<Rightarrow> 'k tcp \<Rightarrow> (nat list \<Rightarrow> int + char list) \<Rightarrow> 'k tcp result" where
  "tcp_handleRead ctl t readv =
     bindE (readFd (tc_pool t) (tc_inputBuffer t) readv) (\<lambda>(savedErrno, n, buf, p).
     let t = t\<lparr>tc_inputBuffer := buf, tc_pool := p\<rparr>
     in if n > 0 then Inr (callback MessageCb t)
        else if n = 0 then handleClose ctl t
        else Inr t)"

definition handleWrite :: "'k epoll_ctl \<Rightarrow> 'k tcp \<Rightarrow> write_outcome \<Rightarrow> 'k tcp result" where
  "handleWrite ctl t w =
     bindE (load (tc_channels t) (tc_channel t)) (\<lambda>ch.
     if isWriting ch then
       bindE (buf_peek (tc_outputBuffer t)) (\<lambda>(blk, off).
       bindE (buf_readableBytes (tc_outputBuffer t)) (\<lambda>len.
       bindE (read_block (po_memory (tc_pool t)) blk off (nat len)) (\<lambda>data.
       case w of
         Wrote n \<Rightarrow>
           if n > 0 then
             bindE (buf_retrieve (tc_outputBuffer t) n) (\<lambda>out.
             let t = t\<lparr>tc_outputBuffer := out, tc_wire := tc_wire t @ take n data\<rparr>
             in bindE (buf_readableBytes out) (\<lambda>left.
                if left = 0 then
                  bindE (on_channel (disableWriting ctl) t) (\<lambda>t.
                  let t = (if tc_writeCompleteCallback t then queueInLoop WriteComplete t else t)
                  in if tc_state t = kDisconnecting then shutdownInLoop t else Inr t)
                else Inr t))
           else Inr t
       | _ \<Rightarrow> Inr t)))
     else Inr t)"

subsection \<open>Laws of the channel bits\<close>

lemma event_bits:
  "((e :: int) OR kWriteEvent) AND kWriteEvent \<noteq> 0" "(e AND NOT kWriteEvent) AND kWriteEvent = 0"
  "(e OR kWriteEvent) AND kReadEvent = e AND kReadEvent" "(e AND NOT kWriteEvent) AND kReadEvent = e AND kReadEvent"
  "(0 OR kReadEvent) AND kReadEvent \<noteq> 0" "(0 OR kReadEvent) AND kWriteEvent = 0"
proof -
  have "(e OR 4) AND 4 = 4" by (simp add: bit_eq_iff bit_simps) auto
  then show "(e OR kWriteEvent) AND kWriteEvent \<noteq> 0" by (simp add: poll_bits)
  show "(e AND NOT kWriteEvent) AND kWriteEvent = 0" by (simp add: poll_bits and.assoc)
  have "(4 :: int) AND 3 = 0" "NOT 4 AND (3 :: int) = 3" "(1 :: int) OR 2 = 3" by code_simp+
  then show "(e OR kWriteEvent) AND kReadEvent = e AND kReadEvent" "(e AND NOT kWriteEvent) AND kReadEvent = e AND kReadEvent"
    by (simp_all add: poll_bits bit.conj_disj_distrib2 and.assoc)
  show "(0 OR kReadEvent) AND kReadEvent \<noteq> 0" "(0 OR kReadEvent) AND kWriteEvent = 0" by (simp_all add: poll_bits)
qed

text \<open>
  An established connection: its channel is added and reads, and it asks for writability exactly while
  bytes wait in the output buffer.
\<close>

definition output_of :: "'k tcp \<Rightarrow> char list" where
  "output_of t = (case tc_outputBuffer t of None \<Rightarrow> [] | Some buf \<Rightarrow> readable (po_memory (tc_pool t)) buf)"

definition conn_ok :: "('k \<Rightarrow> int \<rightharpoonup> int \<times> nat) \<Rightarrow> 'k tcp \<Rightarrow> bool" where
  "conn_ok interest t \<longleftrightarrow> poller_inv interest (tc_channels t) (tc_poller t) \<and>
     (\<exists>ch. tc_channels t (tc_channel t) = Some ch \<and> ch_index ch = kAdded \<and> isReading ch \<and>
        (isWriting ch \<longleftrightarrow> output_of t \<noteq> [])) \<and>
     (\<exists>buf. tc_outputBuffer t = Some buf \<and> buf_ok (po_memory (tc_pool t)) buf \<and> pb_length buf \<le> pb_maxCapacity buf)"

text \<open>A change of the events of an added channel that keeps it reading.\<close>

lemma on_channel_events:
  assumes k: "epoll_ok ctl interest" and inv: "poller_inv interest (tc_channels t) (tc_poller t)"
    and ch: "tc_channels t (tc_channel t) = Some ch" "ch_index ch = kAdded" and f: "f (ch_events ch) \<noteq> 0"
  shows "\<exists>hp p ch'. on_channel (set_events ctl f) t = Inr (t\<lparr>tc_channels := hp, tc_poller := p\<rparr>) \<and>
    poller_inv interest hp p \<and> hp (tc_channel t) = Some ch' \<and> ch_index ch' = kAdded \<and> ch_events ch' = f (ch_events ch)"
proof -
  obtain hp p where hp: "set_events ctl f (tc_channels t) (tc_poller t) (tc_channel t) = Inr (hp, p)" "poller_inv interest hp p"
    "interest (ep_kernel p) (ch_fd ch) = Some (f (ch_events ch), tc_channel t)"
    using set_events_ok [OF k inv ch(1), of f] ch(2) f by (auto simp: index_defs)
  then obtain ch' where "hp (tc_channel t) = Some ch'" "ch_fd ch' = ch_fd ch" "ch_index ch' = kAdded" "ch_events ch' = f (ch_events ch)"
    using poller_invD(3) [OF hp(2)] by blast
  with hp show ?thesis by (intro exI [of _ hp] exI [of _ p] exI [of _ ch']) (simp add: on_channel_def)
qed

lemma conn_okE:
  assumes "conn_ok interest t"
  obtains ch buf where "poller_inv interest (tc_channels t) (tc_poller t)" "tc_channels t (tc_channel t) = Some ch"
    "ch_index ch = kAdded" "isReading ch" "isWriting ch \<longleftrightarrow> output_of t \<noteq> []" "tc_outputBuffer t = Some buf"
    "buf_ok (po_memory (tc_pool t)) buf" "pb_length buf \<le> pb_maxCapacity buf"
    "output_of t = readable (po_memory (tc_pool t)) buf" "buf_readableBytes (tc_outputBuffer t) = Inr (int (length (output_of t)))"
    "as_size_t (int (length (output_of t))) = int (length (output_of t))"
proof -
  obtain ch buf where c: "poller_inv interest (tc_channels t) (tc_poller t)" "tc_channels t (tc_channel t) = Some ch"
    "ch_index ch = kAdded" "isReading ch" "isWriting ch \<longleftrightarrow> output_of t \<noteq> []" and b: "tc_outputBuffer t = Some buf"
    "buf_ok (po_memory (tc_pool t)) buf" "pb_length buf \<le> pb_maxCapacity buf" using assms by (auto simp: conn_ok_def)
  have o: "output_of t = readable (po_memory (tc_pool t)) buf" using b(1) by (simp add: output_of_def)
  show ?thesis using that [OF c b o] readable_length(2,3) [OF b(2)] b(1) o by (simp add: buf_readableBytes_def internal_def)
qed

text \<open>The bytes that still fit into the output buffer as it is.\<close>

definition room :: "'k tcp \<Rightarrow> int" where
  "room t = (case tc_outputBuffer t of None \<Rightarrow> 0 | Some buf \<Rightarrow> pb_length buf - pb_writerIndex buf)"

text \<open>
  What sending does not touch: the state, the input buffer, and of the pool everything outside the window of
  the output buffer, which stays where it is.
\<close>

definition send_frame :: "'k tcp \<Rightarrow> 'k tcp \<Rightarrow> bool" where
  "send_frame t t' \<longleftrightarrow> tc_state t' = tc_state t \<and> tc_inputBuffer t' = tc_inputBuffer t \<and> (\<forall>buf. tc_outputBuffer t = Some buf \<longrightarrow>
     (\<exists>m n. tc_pool t' = (tc_pool t)\<lparr>po_memory := m\<rparr> \<and> writes_in buf (po_memory (tc_pool t)) m \<and>
        tc_outputBuffer t' = Some (buf\<lparr>pb_writerIndex := n\<rparr>)))"

lemma send_frame_cong:
  "tc_state t1 = tc_state t \<Longrightarrow> tc_inputBuffer t1 = tc_inputBuffer t \<Longrightarrow> tc_outputBuffer t1 = tc_outputBuffer t \<Longrightarrow>
   tc_pool t1 = tc_pool t \<Longrightarrow> send_frame t1 t' = send_frame t t'"
  by (simp add: send_frame_def)

lemma send_frame_same:
  "tc_state t1 = tc_state t \<Longrightarrow> tc_inputBuffer t1 = tc_inputBuffer t \<Longrightarrow> tc_outputBuffer t1 = tc_outputBuffer t \<Longrightarrow>
   tc_pool t1 = tc_pool t \<Longrightarrow> send_frame t t1"
proof -
  have "tc_pool t = (tc_pool t)\<lparr>po_memory := po_memory (tc_pool t)\<rparr>" "buf = buf\<lparr>pb_writerIndex := pb_writerIndex buf\<rparr>" for buf
    by simp_all
  moreover assume "tc_state t1 = tc_state t" "tc_inputBuffer t1 = tc_inputBuffer t" "tc_outputBuffer t1 = tc_outputBuffer t"
    "tc_pool t1 = tc_pool t"
  ultimately show ?thesis unfolding send_frame_def by (metis writes_in_refl)
qed

text \<open>The end of \<open>sendInLoop\<close>: the rest of the message goes into the output buffer.\<close>

lemma buffer_rest:
  assumes k: "epoll_ok ctl interest" and ok: "conn_ok interest t" and rest: "rest \<noteq> []" "int (length rest) \<le> room t"
    and ch: "tc_channels t (tc_channel t) = Some ch"
  obtains out p where "buf_writeBytes (tc_pool t) (tc_outputBuffer t) rest (length rest) = Inr (out, p)"
    "\<exists>t'. (if \<not> isWriting ch then on_channel (enableWriting ctl) (t\<lparr>tc_outputBuffer := out, tc_pool := p\<rparr>)
           else Inr (t\<lparr>tc_outputBuffer := out, tc_pool := p\<rparr>)) = Inr t' \<and> conn_ok interest t' \<and>
       output_of t' = output_of t @ rest \<and> tc_wire t' = tc_wire t \<and> send_frame t t'"
proof -
  obtain buf where inv: "poller_inv interest (tc_channels t) (tc_poller t)" and c: "ch_index ch = kAdded" "isReading ch"
      "isWriting ch \<longleftrightarrow> output_of t \<noteq> []" and b: "tc_outputBuffer t = Some buf" "buf_ok (po_memory (tc_pool t)) buf"
      "pb_length buf \<le> pb_maxCapacity buf" "output_of t = readable (po_memory (tc_pool t)) buf"
    using conn_okE [OF ok] ch by (metis option.inject)
  have "pb_writerIndex buf + int (length rest) \<le> pb_length buf" using rest(2) b(1) by (simp add: room_def)
  then obtain m' where w': "pb_writeBytes (tc_pool t) buf rest 0 (length rest) =
      Inr (buf\<lparr>pb_writerIndex := pb_writerIndex buf + int (length rest)\<rparr>, (tc_pool t)\<lparr>po_memory := m'\<rparr>)"
    "buf_ok m' (buf\<lparr>pb_writerIndex := pb_writerIndex buf + int (length rest)\<rparr>)"
    "readable m' (buf\<lparr>pb_writerIndex := pb_writerIndex buf + int (length rest)\<rparr>) = readable (po_memory (tc_pool t)) buf @ rest"
    "writes_in buf (po_memory (tc_pool t)) m'" by (rule write_frame [OF b(2) _ b(3)])
  define buf' where "buf' = buf\<lparr>pb_writerIndex := pb_writerIndex buf + int (length rest)\<rparr>"
  note w = w'(1-3) [folded buf'_def] and same = buf'_def [THEN arg_cong, of pb_length] buf'_def [THEN arg_cong, of pb_maxCapacity]
  let ?p = "(tc_pool t)\<lparr>po_memory := m'\<rparr>" and ?t = "t\<lparr>tc_outputBuffer := Some buf', tc_pool := (tc_pool t)\<lparr>po_memory := m'\<rparr>\<rparr>"
  have wr: "buf_writeBytes (tc_pool t) (tc_outputBuffer t) rest (length rest) = Inr (Some buf', ?p)"
    using w(1) b(1) by (simp add: buf_writeBytes_def internal_def)
  have out: "output_of ?t = output_of t @ rest" using w(3) b(4) by (simp add: output_of_def)
  have frame: "send_frame t (?t\<lparr>tc_channels := hp, tc_poller := p\<rparr>)" "send_frame t ?t" for hp p
    using b(1) w'(4) by (auto simp: send_frame_def buf'_def)
  have "\<exists>t'. (if \<not> isWriting ch then on_channel (enableWriting ctl) ?t else Inr ?t) = Inr t' \<and> conn_ok interest t' \<and>
       output_of t' = output_of t @ rest \<and> tc_wire t' = tc_wire t \<and> send_frame t t'"
  proof (cases "isWriting ch")
    case True
    have "conn_ok interest ?t" using inv c ch out True rest(1) w(2) same b(3) by (simp add: conn_ok_def)
    then show ?thesis using True out frame(2) by simp
  next
    case False
    have "ch_events ch OR kWriteEvent \<noteq> 0" using event_bits(1) [of "ch_events ch"] by auto
    with inv ch c obtain hp p ch' where o: "on_channel (enableWriting ctl) ?t = Inr (?t\<lparr>tc_channels := hp, tc_poller := p\<rparr>)"
      "poller_inv interest hp p" "hp (tc_channel t) = Some ch'" "ch_index ch' = kAdded" "ch_events ch' = ch_events ch OR kWriteEvent"
      using on_channel_events [OF k, of ?t ch "\<lambda>e. e OR kWriteEvent"] unfolding enableWriting_def by auto
    have "output_of (?t\<lparr>tc_channels := hp, tc_poller := p\<rparr>) = output_of t @ rest" using out by (simp add: output_of_def)
    moreover from this have "conn_ok interest (?t\<lparr>tc_channels := hp, tc_poller := p\<rparr>)"
      using o c(2) w(2) same b(3) rest(1) event_bits by (simp add: conn_ok_def isReading_def isWriting_def)
    ultimately show ?thesis using False o(1) frame(1) by simp
  qed
  then show ?thesis by (rule that [OF wr])
qed

lemma queueInLoop_ok [simp]:
  "conn_ok interest (queueInLoop f t) = conn_ok interest t" "output_of (queueInLoop f t) = output_of t"
  "room (queueInLoop f t) = room t" "tc_wire (queueInLoop f t) = tc_wire t" "tc_state (queueInLoop f t) = tc_state t"
  "tc_channels (queueInLoop f t) = tc_channels t" "tc_channel (queueInLoop f t) = tc_channel t"
  "tc_outputBuffer (queueInLoop f t) = tc_outputBuffer t" "tc_pool (queueInLoop f t) = tc_pool t"
  "tc_writeShut (queueInLoop f t) = tc_writeShut t" "tc_inputBuffer (queueInLoop f t) = tc_inputBuffer t"
  by (simp_all add: queueInLoop_def conn_ok_def output_of_def room_def cong: option.case_cong)

lemma wire_ok [simp]:
  "conn_ok interest (t\<lparr>tc_wire := v\<rparr>) = conn_ok interest t" "output_of (t\<lparr>tc_wire := v\<rparr>) = output_of t" "room (t\<lparr>tc_wire := v\<rparr>) = room t"
  by (simp_all add: conn_ok_def output_of_def room_def cong: option.case_cong)

lemma shut_ok [simp]:
  "conn_ok interest (t\<lparr>tc_writeShut := v\<rparr>) = conn_ok interest t" "output_of (t\<lparr>tc_writeShut := v\<rparr>) = output_of t"
  by (simp_all add: conn_ok_def output_of_def cong: option.case_cong)

lemma report_ok [simp]:
  "conn_ok interest (report_highWaterMark t a b) = conn_ok interest t" "output_of (report_highWaterMark t a b) = output_of t"
  "room (report_highWaterMark t a b) = room t" "tc_wire (report_highWaterMark t a b) = tc_wire t"
  "tc_channels (report_highWaterMark t a b) = tc_channels t" "tc_channel (report_highWaterMark t a b) = tc_channel t"
  "tc_state (report_highWaterMark t a b) = tc_state t" "tc_inputBuffer (report_highWaterMark t a b) = tc_inputBuffer t"
  "tc_outputBuffer (report_highWaterMark t a b) = tc_outputBuffer t" "tc_pool (report_highWaterMark t a b) = tc_pool t"
  by (simp_all add: report_highWaterMark_def)

text \<open>A connection whose output buffer is unused writes directly.\<close>

lemma write_now_ok:
  assumes "w \<noteq> BrokenPipe" "\<And>n. w = Wrote n \<Longrightarrow> n \<le> length data" "int (length data) < 2 ^ 64"
  obtains n t' where "write_now t data w = (n, int (length data - n), False, t')" "n \<le> length data"
    "conn_ok interest t' = conn_ok interest t" "output_of t' = output_of t" "room t' = room t" "tc_wire t' = tc_wire t @ take n data"
    "tc_state t' = tc_state t" "tc_channels t' = tc_channels t" "tc_channel t' = tc_channel t"
    "tc_outputBuffer t' = tc_outputBuffer t" "tc_pool t' = tc_pool t" "tc_inputBuffer t' = tc_inputBuffer t"
proof (cases w)
  case (Wrote n)
  have n: "n \<le> length data" using assms(2) Wrote by simp
  have "(int (length data) - int n) mod 2 ^ 64 = int (length data - n)" using n assms(3) by (simp add: of_nat_diff)
  then show ?thesis using n Wrote
    by (intro that [of n "if n = length data \<and> tc_writeCompleteCallback t
          then queueInLoop WriteComplete (t\<lparr>tc_wire := tc_wire t @ take n data\<rparr>) else t\<lparr>tc_wire := tc_wire t @ take n data\<rparr>"])
      (auto simp: write_now_def Let_def)
next
  case WouldBlock
  then show ?thesis by (intro that [of 0 t]) (simp_all add: write_now_def)
next
  case BrokenPipe
  with assms(1) show ?thesis by simp
next
  case OtherError
  then show ?thesis by (intro that [of 0 t]) (simp_all add: write_now_def)
qed

text \<open>A connection that is being set up: its channel is new and its descriptor unknown to the poller.\<close>

definition conn_new :: "('k \<Rightarrow> int \<rightharpoonup> int \<times> nat) \<Rightarrow> 'k tcp \<Rightarrow> bool" where
  "conn_new interest t \<longleftrightarrow> tc_state t = kConnecting \<and> output_of t = [] \<and>
     poller_inv interest (tc_channels t) (tc_poller t) \<and>
     (\<exists>ch. tc_channels t (tc_channel t) = Some ch \<and> ch_index ch = kNew \<and> ch_events ch = 0 \<and>
        ep_channels (tc_poller t) (ch_fd ch) = None) \<and>
     (\<exists>buf. tc_outputBuffer t = Some buf \<and> buf_ok (po_memory (tc_pool t)) buf \<and> pb_length buf \<le> pb_maxCapacity buf)"

subsection \<open>Sample connections\<close>

text \<open>A connection with two waiting bytes and room for six, and one that is being set up.\<close>

definition sample_conn :: "StateE \<Rightarrow> (int \<rightharpoonup> int \<times> nat) tcp" where
  "sample_conn st = \<lparr>tc_state = st, tc_channel = 5, tc_channels = [5 \<mapsto> (Channel_new 9)\<lparr>ch_index := kAdded, ch_events := 7\<rparr>],
     tc_poller = \<lparr>ep_channels = [9 \<mapsto> 5], ep_kernel = [9 \<mapsto> (7, 5)], ep_eventsSize = 16\<rparr>, tc_pool = sample_pool,
     tc_inputBuffer = Some (sample_buf 8), tc_outputBuffer = Some (sample_buf 0), tc_highWaterMark = 64,
     tc_writeCompleteCallback = True, tc_highWaterMarkCallback = False, tc_functors = [], tc_calls = [], tc_wire = ''x'',
     tc_writeShut = False\<rparr>"

definition sample_new :: "(int \<rightharpoonup> int \<times> nat) tcp" where
  "sample_new = (sample_conn kConnecting)\<lparr>tc_channels := [5 \<mapsto> Channel_new 9], tc_poller := EPollPoller_new Map.empty,
     tc_outputBuffer := Some ((sample_buf 0)\<lparr>pb_writerIndex := 0\<rparr>)\<rparr>"

lemma sample_conn_ok: "conn_ok (\<lambda>k. k) (sample_conn st)" "output_of (sample_conn st) = ''ab''" "room (sample_conn st) = 6"
proof -
  show out: "output_of (sample_conn st) = ''ab''" using sample_ok(3) by (simp add: output_of_def sample_conn_def)
  show "room (sample_conn st) = 6" by (simp add: room_def sample_conn_def sample_buf_def)
  have "poller_inv (\<lambda>k. k) (tc_channels (sample_conn st)) (tc_poller (sample_conn st))"
    by (auto simp: poller_inv_def sample_conn_def Channel_new_def index_defs)
  then show "conn_ok (\<lambda>k. k) (sample_conn st)" unfolding conn_ok_def out using sample_ok(1)
    by (simp add: sample_conn_def Channel_new_def isReading_def isWriting_def poll_bits) (simp add: sample_buf_def)
qed

lemma sample_new_ok: "conn_new (\<lambda>k. k) sample_new"
proof -
  have "poller_inv (\<lambda>k. k) (tc_channels sample_new) (tc_poller sample_new)" using new_channel_inv by (simp add: sample_new_def)
  moreover have "output_of sample_new = []" by (simp add: sample_new_def sample_conn_def output_of_def readable_def sample_pool_def sample_buf_def)
  ultimately show ?thesis unfolding conn_new_def
    by (simp add: sample_new_def sample_conn_def Channel_new_def EPollPoller_new_def index_defs buf_ok_def sample_pool_def sample_buf_def)
qed

lemma sendInLoop_ok:
  assumes k: "epoll_ok ctl interest" and ok: "conn_ok interest t" and st: "tc_state t \<noteq> kDisconnected"
    and w: "w \<noteq> BrokenPipe" "\<And>n. w = Wrote n \<Longrightarrow> n \<le> length data" and fits: "int (length data) \<le> room t"
    and len: "int (length data) < 2 ^ 64"
  shows "\<exists>t'. sendInLoop ctl t data w = Inr t' \<and> conn_ok interest t' \<and>
    tc_wire t' @ output_of t' = tc_wire t @ output_of t @ data \<and> send_frame t t'"
proof -
  obtain ch where ch: "tc_channels t (tc_channel t) = Some ch" "isWriting ch \<longleftrightarrow> output_of t \<noteq> []"
    "buf_readableBytes (tc_outputBuffer t) = Inr (int (length (output_of t)))" using conn_okE [OF ok] by metis
  let ?direct = "if \<not> isWriting ch \<and> int (length (output_of t)) = 0 then write_now t data w else (0, int (length data), False, t)"
  obtain n t1 where t1: "?direct = (n, int (length data - n), False, t1)" "n \<le> length data"
    "conn_ok interest t1" "output_of t1 = output_of t" "room t1 = room t" "tc_wire t1 @ output_of t = tc_wire t @ output_of t @ take n data"
    "tc_channels t1 = tc_channels t" "tc_channel t1 = tc_channel t"
    "tc_state t1 = tc_state t" "tc_inputBuffer t1 = tc_inputBuffer t" "tc_outputBuffer t1 = tc_outputBuffer t" "tc_pool t1 = tc_pool t"
  proof (cases "output_of t = []")
    case True
    obtain n t' where t': "write_now t data w = (n, int (length data - n), False, t')" "n \<le> length data"
      "conn_ok interest t' = conn_ok interest t" "output_of t' = output_of t" "room t' = room t" "tc_wire t' = tc_wire t @ take n data"
      "tc_state t' = tc_state t" "tc_channels t' = tc_channels t" "tc_channel t' = tc_channel t"
      "tc_outputBuffer t' = tc_outputBuffer t" "tc_pool t' = tc_pool t" "tc_inputBuffer t' = tc_inputBuffer t"
      by (rule write_now_ok [OF w len, of t interest])
    then show ?thesis using that [of n t'] True ch(2) ok by simp
  next
    case False
    then show ?thesis using that [of 0 t] ch(2) ok by simp
  qed
  let ?t2 = "report_highWaterMark t1 (as_size_t (int (length (output_of t)))) (int (length data - n))"
  show ?thesis
  proof (cases "n = length data")
    case True
    then have "sendInLoop ctl t data w = Inr t1" using st ch t1(1) by (simp add: sendInLoop_def Let_def)
    then show ?thesis using t1 True send_frame_same [OF t1(9-12)] by simp
  next
    case False
    then have n: "n < length data" "nat (int (length data - n)) = length (drop n data)" "int (length data - n) > 0"
      and rest: "drop n data \<noteq> []" "int (length (drop n data)) \<le> room ?t2" using t1(2,5) fits by simp_all
    have t2: "conn_ok interest ?t2" "tc_channels ?t2 (tc_channel ?t2) = Some ch" using t1 ch(1) by simp_all
    obtain out p where wr: "buf_writeBytes (tc_pool ?t2) (tc_outputBuffer ?t2) (drop n data) (length (drop n data)) = Inr (out, p)"
      and ex: "\<exists>t'. (if \<not> isWriting ch then on_channel (enableWriting ctl) (?t2\<lparr>tc_outputBuffer := out, tc_pool := p\<rparr>)
           else Inr (?t2\<lparr>tc_outputBuffer := out, tc_pool := p\<rparr>)) = Inr t' \<and> conn_ok interest t' \<and>
       output_of t' = output_of ?t2 @ drop n data \<and> tc_wire t' = tc_wire ?t2 \<and> send_frame ?t2 t'"
      by (rule buffer_rest [OF k t2(1) rest t2(2)])
    have "sendInLoop ctl t data w = (if \<not> isWriting ch then on_channel (enableWriting ctl) (?t2\<lparr>tc_outputBuffer := out, tc_pool := p\<rparr>)
           else Inr (?t2\<lparr>tc_outputBuffer := out, tc_pool := p\<rparr>))"
      unfolding sendInLoop_def using st ch(1,3) by (simp only: if_False load_Some bindE.simps t1(1) Let_def split: prod.split) (simp add: n wr [unfolded length_drop report_ok])
    moreover from ex obtain t' where t': "(if \<not> isWriting ch then on_channel (enableWriting ctl) (?t2\<lparr>tc_outputBuffer := out, tc_pool := p\<rparr>)
           else Inr (?t2\<lparr>tc_outputBuffer := out, tc_pool := p\<rparr>)) = Inr t'" "conn_ok interest t'"
       "output_of t' = output_of ?t2 @ drop n data" "tc_wire t' = tc_wire ?t2" "send_frame ?t2 t'" by blast
    moreover have "tc_wire t' @ output_of t' = (tc_wire t1 @ output_of t) @ drop n data" using t'(3,4) t1(4) by simp
    then have "tc_wire t' @ output_of t' = tc_wire t @ output_of t @ data" unfolding t1(6) by simp
    moreover have "send_frame ?t2 t' = send_frame t t'" using t1(9-12) by (intro send_frame_cong) simp_all
    ultimately show ?thesis by auto
  qed
qed



lemma retrieve_capacity: "retrieve buf n = Inr buf' \<Longrightarrow> pb_length buf' = pb_length buf \<and> pb_maxCapacity buf' = pb_maxCapacity buf"
  by (auto simp: retrieve_def retrieveAll_def result_simps split: if_splits)

text \<open>What \<open>handleWrite\<close> hands to the kernel and keeps when the kernel takes \<open>n\<close> bytes.\<close>

lemma output_taken:
  assumes ok: "conn_ok interest t" and n: "n \<le> length (output_of t)"
  obtains blk off out where "buf_peek (tc_outputBuffer t) = Inr (blk, off)"
    "read_block (po_memory (tc_pool t)) blk off (length (output_of t)) = Inr (output_of t)"
    "buf_retrieve (tc_outputBuffer t) n = Inr out" "buf_readableBytes out = Inr (int (length (output_of t) - n))"
    "output_of (t\<lparr>tc_outputBuffer := out\<rparr>) = drop n (output_of t)"
    "\<exists>buf. out = Some buf \<and> buf_ok (po_memory (tc_pool t)) buf \<and> pb_length buf \<le> pb_maxCapacity buf"
proof -
  obtain buf where b: "tc_outputBuffer t = Some buf" "buf_ok (po_memory (tc_pool t)) buf" "pb_length buf \<le> pb_maxCapacity buf"
    "output_of t = readable (po_memory (tc_pool t)) buf" using conn_okE [OF ok] by metis
  let ?m = "po_memory (tc_pool t)"
  obtain blk where p: "buf_peek (Some buf) = Inr (blk, pb_offset buf + pb_readerIndex buf)"
    and rd: "\<forall>k n. int (k + n) \<le> pb_writerIndex buf - pb_readerIndex buf \<longrightarrow>
       read_block ?m blk (pb_offset buf + pb_readerIndex buf + int k) n = Inr (take n (drop k (readable ?m buf)))"
    by (rule peek_ok [OF b(2)]) blast
  have all: "read_block ?m blk (pb_offset buf + pb_readerIndex buf) (length (output_of t)) = Inr (output_of t)"
    using rd [rule_format, of 0 "length (output_of t)"] readable_length(1) [OF b(2)] b(4) by simp
  obtain buf' where r: "retrieve buf n = Inr buf'" "buf_ok ?m buf'" "readable ?m buf' = drop n (readable ?m buf)"
    using retrieve_ok [OF b(2)] n b(4) by metis
  have "buf_retrieve (tc_outputBuffer t) n = Inr (Some buf')" using b(1) r(1) by (simp add: buf_retrieve_def internal_def)
  moreover have "buf_readableBytes (Some buf') = Inr (int (length (output_of t) - n))"
    using readable_length(2) [OF r(2)] r(3) b(4) by (simp add: buf_readableBytes_def internal_def)
  moreover have "output_of (t\<lparr>tc_outputBuffer := Some buf'\<rparr>) = drop n (output_of t)" using r(3) b(4) by (simp add: output_of_def)
  ultimately show ?thesis using that [OF _ all] b r(2) p retrieve_capacity [OF r(1)] by auto
qed

text \<open>
  C34: When the kernel takes \<open>n\<close> waiting bytes, exactly the first \<open>n\<close> go onto the wire and the others keep
  waiting; with the last of them the channel stops asking for writability, and a connection that is
  shutting down then closes its writing side.
\<close>

theorem handleWrite_drains:
  assumes k: "epoll_ok ctl interest" and ok: "conn_ok interest t" and n: "0 < n" "n \<le> length (output_of t)"
  shows "\<exists>t'. handleWrite ctl t (Wrote n) = Inr t' \<and> conn_ok interest t' \<and> tc_state t' = tc_state t \<and>
    tc_wire t' = tc_wire t @ take n (output_of t) \<and> output_of t' = drop n (output_of t) \<and>
    tc_writeShut t' = (tc_writeShut t \<or> n = length (output_of t) \<and> tc_state t = kDisconnecting)"
proof -
  obtain ch where ch: "poller_inv interest (tc_channels t) (tc_poller t)" "tc_channels t (tc_channel t) = Some ch" "ch_index ch = kAdded"
    "isReading ch" "isWriting ch" "buf_readableBytes (tc_outputBuffer t) = Inr (int (length (output_of t)))"
    using conn_okE [OF ok] n by (metis list.size(3) not_less)
  obtain blk off out where o: "buf_peek (tc_outputBuffer t) = Inr (blk, off)"
    "read_block (po_memory (tc_pool t)) blk off (length (output_of t)) = Inr (output_of t)"
    "buf_retrieve (tc_outputBuffer t) n = Inr out" "buf_readableBytes out = Inr (int (length (output_of t) - n))"
    "output_of (t\<lparr>tc_outputBuffer := out\<rparr>) = drop n (output_of t)"
    "\<exists>buf. out = Some buf \<and> buf_ok (po_memory (tc_pool t)) buf \<and> pb_length buf \<le> pb_maxCapacity buf"
    by (rule output_taken [OF ok n(2)])
  let ?t = "t\<lparr>tc_outputBuffer := out, tc_wire := tc_wire t @ take n (output_of t)\<rparr>"
  have out: "output_of ?t = drop n (output_of t)" using o(5) by simp
  show ?thesis
  proof (cases "n = length (output_of t)")
    case False
    then have "drop n (output_of t) \<noteq> []" using n(2) by simp
    then have "conn_ok interest ?t" using ch out o(6) by (simp add: conn_ok_def)
    moreover have "handleWrite ctl t (Wrote n) = Inr ?t" using ch o n False by (simp add: handleWrite_def)
    ultimately show ?thesis using out False by simp
  next
    case True
    have "ch_events ch AND NOT kWriteEvent \<noteq> 0" using ch(4) event_bits(4) [of "ch_events ch"] by (auto simp: isReading_def)
    then obtain hp p ch' where c: "on_channel (disableWriting ctl) ?t = Inr (?t\<lparr>tc_channels := hp, tc_poller := p\<rparr>)"
      "poller_inv interest hp p" "hp (tc_channel t) = Some ch'" "ch_index ch' = kAdded" "ch_events ch' = ch_events ch AND NOT kWriteEvent"
      using on_channel_events [OF k, of ?t ch "\<lambda>e. e AND NOT kWriteEvent"] ch unfolding disableWriting_def by auto
    let ?t1 = "?t\<lparr>tc_channels := hp, tc_poller := p\<rparr>"
    let ?t2 = "if tc_writeCompleteCallback ?t1 then queueInLoop WriteComplete ?t1 else ?t1"
    have out1: "output_of ?t1 = []" using out True by (simp add: output_of_def cong: option.case_cong)
    have nw: "\<not> isWriting ch'" using c(5) event_bits(2) by (simp add: isWriting_def)
    have "conn_ok interest ?t1" using c(2-5) ch(4) o(6) out1 nw event_bits(4) by (simp add: conn_ok_def isReading_def)
    moreover have "shutdownInLoop ?t2 = Inr (?t2\<lparr>tc_writeShut := True\<rparr>)" using c(3) nw by (simp add: shutdownInLoop_def)
    then have "handleWrite ctl t (Wrote n) = Inr (if tc_state t = kDisconnecting then ?t2\<lparr>tc_writeShut := True\<rparr> else ?t2)"
      using ch(2,5,6) o n True c(1) by (cases "tc_writeCompleteCallback t"; cases "tc_state t = kDisconnecting") (simp_all add: handleWrite_def Let_def)
    ultimately show ?thesis using True out1 by (cases "tc_state t = kDisconnecting") auto
  qed
qed

text \<open>Witness for C34: the kernel takes the two waiting bytes of a connection that is shutting down.\<close>

theorem handleWrite_drains_witness:
  "\<exists>t'. handleWrite map_ctl (sample_conn kDisconnecting) (Wrote 2) = Inr t' \<and> tc_wire t' = ''xab'' \<and> tc_writeShut t'"
  using handleWrite_drains [OF map_ctl_ok sample_conn_ok(1), of 2 kDisconnecting] sample_conn_ok(2) [of kDisconnecting]
  by (auto simp: sample_conn_def)

subsection \<open>Opening and closing\<close>

lemma tie_inv:
  assumes "poller_inv interest hp p" "hp c = Some ch"
  shows "poller_inv interest (hp(c \<mapsto> tie obj ch)) p"
  using assms unfolding poller_inv_def tie_def by (auto split: if_splits)

lemma connectEstablished_ok:
  assumes k: "epoll_ok ctl interest" and new: "conn_new interest t"
  obtains t' where "connectEstablished ctl this t = Inr t'" "conn_ok interest t'" "tc_state t' = kConnected" "output_of t' = []"
    "tc_calls t' = tc_calls t @ [ConnectionCb]" "tc_wire t' = tc_wire t"
proof -
  obtain ch where ch: "tc_channels t (tc_channel t) = Some ch" "ch_index ch = kNew" "ch_events ch = 0"
      "ep_channels (tc_poller t) (ch_fd ch) = None"
    and inv: "poller_inv interest (tc_channels t) (tc_poller t)" and st: "tc_state t = kConnecting" and out: "output_of t = []"
    and buf: "\<exists>buf. tc_outputBuffer t = Some buf \<and> buf_ok (po_memory (tc_pool t)) buf \<and> pb_length buf \<le> pb_maxCapacity buf"
    using new by (auto simp: conn_new_def)
  let ?t = "t\<lparr>tc_state := kConnected, tc_channels := (tc_channels t)(tc_channel t \<mapsto> tie this ch)\<rparr>"
  have tied: "tc_channels ?t (tc_channel t) = Some (tie this ch)" by simp
  have inv': "poller_inv interest (tc_channels ?t) (tc_poller ?t)" using tie_inv [OF inv ch(1)] by simp
  have c: "ch_index (tie this ch) = kNew" "ch_events (tie this ch) = 0" "ch_fd (tie this ch) = ch_fd ch" using ch by (simp_all add: tie_def)
  obtain hp p where hp: "set_events ctl (\<lambda>e. e OR kReadEvent) (tc_channels ?t) (tc_poller ?t) (tc_channel ?t) = Inr (hp, p)"
    "poller_inv interest hp p" "interest (ep_kernel p) (ch_fd ch) = Some (0 OR kReadEvent, tc_channel t)"
    using set_events_ok [OF k inv', of "tc_channel t" "tie this ch" "\<lambda>e. e OR kReadEvent"] tied c ch(4)
    by (auto simp: index_defs)
  then obtain ch' where ch': "hp (tc_channel t) = Some ch'" "ch_index ch' = kAdded" "ch_events ch' = 0 OR kReadEvent"
    using poller_invD(3) [OF hp(2)] by blast
  let ?t' = "callback ConnectionCb (?t\<lparr>tc_channels := hp, tc_poller := p\<rparr>)"
  have run: "connectEstablished ctl this t = Inr ?t'"
    using st ch(1) hp(1) by (simp add: connectEstablished_def Let_def on_channel_def enableReading_def)
  have o: "output_of ?t' = []" using out by (simp add: output_of_def callback_def cong: option.case_cong)
  have "isReading ch'" "\<not> isWriting ch'" using ch'(3) event_bits(5,6) by (simp_all only: isReading_def isWriting_def) simp_all
  then have "conn_ok interest ?t'" using hp(2) ch'(1,2) buf o by (simp add: conn_ok_def) (simp add: callback_def)
  with run o show ?thesis using that by (simp add: callback_def)
qed

text \<open>Closing an established connection stops the kernel from watching it, and then it can be removed.\<close>

lemma disable_and_remove:
  assumes k: "epoll_ok ctl interest" and ok: "conn_ok interest t"
  obtains t1 t2 fd where "on_channel (disableAll ctl) t = Inr t1"
    "on_channel (channel_remove ctl) t1 = Inr t2" "t2 = t\<lparr>tc_channels := tc_channels t2, tc_poller := tc_poller t2\<rparr>"
    "t1 = t\<lparr>tc_channels := tc_channels t1, tc_poller := tc_poller t1\<rparr>"
    "ep_channels (tc_poller t) fd = Some (tc_channel t)" "ep_channels (tc_poller t2) fd = None" "interest (ep_kernel (tc_poller t1)) fd = None"
    "interest (ep_kernel (tc_poller t2)) fd = None" "poller_inv interest (tc_channels t2) (tc_poller t2)"
proof -
  obtain ch where inv: "poller_inv interest (tc_channels t) (tc_poller t)" and ch: "tc_channels t (tc_channel t) = Some ch" "ch_index ch = kAdded"
    using conn_okE [OF ok] by metis
  from disable_then_remove [OF k inv ch] obtain p1 p2 where
    "disableAll ctl (tc_channels t) (tc_poller t) (tc_channel t) = Inr ((tc_channels t)(tc_channel t \<mapsto> ch\<lparr>ch_events := 0, ch_index := kDeleted\<rparr>), p1)"
    "channel_remove ctl ((tc_channels t)(tc_channel t \<mapsto> ch\<lparr>ch_events := 0, ch_index := kDeleted\<rparr>)) p1 (tc_channel t) =
      Inr ((tc_channels t)(tc_channel t \<mapsto> ch\<lparr>ch_events := 0, ch_index := kNew\<rparr>), p2)"
    "poller_inv interest ((tc_channels t)(tc_channel t \<mapsto> ch\<lparr>ch_events := 0, ch_index := kNew\<rparr>)) p2"
    "ep_channels p2 = (ep_channels (tc_poller t))(ch_fd ch := None)"
    "interest (ep_kernel p1) (ch_fd ch) = None" "interest (ep_kernel p2) (ch_fd ch) = None" .
  moreover have "ep_channels (tc_poller t) (ch_fd ch) = Some (tc_channel t)" using registered [OF inv ch(1)] ch(2) by (simp add: index_defs)
  ultimately show ?thesis
    using that [of "t\<lparr>tc_channels := (tc_channels t)(tc_channel t \<mapsto> ch\<lparr>ch_events := 0, ch_index := kDeleted\<rparr>), tc_poller := p1\<rparr>"
      "t\<lparr>tc_channels := (tc_channels t)(tc_channel t \<mapsto> ch\<lparr>ch_events := 0, ch_index := kNew\<rparr>), tc_poller := p2\<rparr>" "ch_fd ch"]
    by (simp add: on_channel_def)
qed

lemma state_calls_ok [simp]:
  "conn_ok interest (t\<lparr>tc_state := v\<rparr>) = conn_ok interest t" "conn_ok interest (callback cb t) = conn_ok interest t"
  by (simp_all add: conn_ok_def output_of_def callback_def cong: option.case_cong)

text \<open>
  C35: Establishing a connection makes its channel readable, tells the user once and leaves nothing to
  write; an established connection, connected or shutting down, closes without a failed assertion:
  the user and the server are told once each, the kernel stops watching the descriptor, and after
  \<open>connectDestroyed\<close> the poller has forgotten the channel and the destructor accepts the connection.
\<close>

theorem connection_lifecycle:
  assumes k: "epoll_ok ctl interest"
  shows "(conn_new interest new \<longrightarrow> (\<exists>t. connectEstablished ctl this new = Inr t \<and> conn_ok interest t \<and> tc_state t = kConnected \<and>
      output_of t = [] \<and> tc_calls t = tc_calls new @ [ConnectionCb])) \<and>
    (conn_ok interest t \<and> tc_state t \<in> {kConnected, kDisconnecting} \<longrightarrow>
      (\<exists>t1 t2 fd. handleClose ctl t = Inr t1 \<and> tc_calls t1 = tc_calls t @ [ConnectionCb, CloseCb] \<and>
        ep_channels (tc_poller t) fd = Some (tc_channel t) \<and> interest (ep_kernel (tc_poller t1)) fd = None \<and>
        connectDestroyed ctl t1 = Inr t2 \<and> ep_channels (tc_poller t2) fd = None \<and>
        poller_inv interest (tc_channels t2) (tc_poller t2) \<and> tc_calls t2 = tc_calls t1 \<and> TcpConnection_destroy t2 = Inr ()))"
proof (intro conjI impI)
  assume "conn_new interest new"
  then show "\<exists>t. connectEstablished ctl this new = Inr t \<and> conn_ok interest t \<and> tc_state t = kConnected \<and>
      output_of t = [] \<and> tc_calls t = tc_calls new @ [ConnectionCb]"
    by (rule connectEstablished_ok [OF k, where this = this]) blast
next
  assume t: "conn_ok interest t \<and> tc_state t \<in> {kConnected, kDisconnecting}"
  let ?t = "t\<lparr>tc_state := kDisconnected\<rparr>"
  have "conn_ok interest ?t" using t by simp
  then obtain t1 t2 fd where d: "on_channel (disableAll ctl) ?t = Inr t1"
    "on_channel (channel_remove ctl) t1 = Inr t2" "t2 = ?t\<lparr>tc_channels := tc_channels t2, tc_poller := tc_poller t2\<rparr>"
    "t1 = ?t\<lparr>tc_channels := tc_channels t1, tc_poller := tc_poller t1\<rparr>"
    "ep_channels (tc_poller ?t) fd = Some (tc_channel ?t)" "ep_channels (tc_poller t2) fd = None" "interest (ep_kernel (tc_poller t1)) fd = None"
    "interest (ep_kernel (tc_poller t2)) fd = None" "poller_inv interest (tc_channels t2) (tc_poller t2)"
    by (rule disable_and_remove [OF k])
  let ?t1 = "callback CloseCb (callback ConnectionCb t1)" and ?t2 = "callback CloseCb (callback ConnectionCb t2)"
  have s: "tc_state t1 = kDisconnected" "tc_calls t1 = tc_calls t" by (subst d(4), simp)+
  have s2: "tc_state t2 = kDisconnected" "tc_calls t2 = tc_calls t" by (subst d(3), simp)+
  have close: "handleClose ctl t = Inr ?t1" using t d(1) by (auto simp: handleClose_def)
  have "on_channel (channel_remove ctl) ?t1 = Inr (?t1\<lparr>tc_channels := tc_channels t2, tc_poller := tc_poller t2\<rparr>)"
    using d(2) by (auto simp: on_channel_def callback_def result_simps)
  then have destroyed: "connectDestroyed ctl ?t1 = Inr (?t1\<lparr>tc_channels := tc_channels t2, tc_poller := tc_poller t2\<rparr>)"
    using s(1) by (simp add: connectDestroyed_def callback_def)
  show "\<exists>t1 t2 fd. handleClose ctl t = Inr t1 \<and> tc_calls t1 = tc_calls t @ [ConnectionCb, CloseCb] \<and>
        ep_channels (tc_poller t) fd = Some (tc_channel t) \<and> interest (ep_kernel (tc_poller t1)) fd = None \<and>
        connectDestroyed ctl t1 = Inr t2 \<and> ep_channels (tc_poller t2) fd = None \<and>
        poller_inv interest (tc_channels t2) (tc_poller t2) \<and> tc_calls t2 = tc_calls t1 \<and> TcpConnection_destroy t2 = Inr ()"
    using close destroyed d(5-9) s
    by (intro exI [of _ ?t1] exI [of _ "?t1\<lparr>tc_channels := tc_channels t2, tc_poller := tc_poller t2\<rparr>"] exI [of _ fd])
      (simp add: callback_def TcpConnection_destroy_def)
qed

text \<open>Witness for C35: the sample connection is closed.\<close>

theorem connection_lifecycle_witness:
  "(\<exists>t. connectEstablished map_ctl 0 sample_new = Inr t \<and> tc_state t = kConnected) \<and>
   (\<exists>t1 t2. handleClose map_ctl (sample_conn kDisconnecting) = Inr t1 \<and> connectDestroyed map_ctl t1 = Inr t2 \<and>
     TcpConnection_destroy t2 = Inr ())"
proof -
  have "tc_state (sample_conn kDisconnecting) \<in> {kConnected, kDisconnecting}" by (simp add: sample_conn_def)
  then show ?thesis using connection_lifecycle [OF map_ctl_ok, of sample_new 0 "sample_conn kDisconnecting"] sample_new_ok
    sample_conn_ok(1) [of kDisconnecting] by blast
qed

text \<open>
  Destroying a connection that is shutting down fails an assertion: \<open>connectDestroyed\<close> disables the
  channel only of a connected one, so the channel is still reading when it is removed.
\<close>

theorem destroy_while_disconnecting_asserts:
  assumes "conn_ok interest t" "tc_state t = kDisconnecting"
  shows "connectDestroyed ctl t = Inl AssertionFailed"
proof -
  obtain ch where ch: "tc_channels t (tc_channel t) = Some ch" "isReading ch" using conn_okE [OF assms(1)] by metis
  then have "\<not> isNoneEvent ch" by (auto simp: isReading_def isNoneEvent_def kNoneEvent_def)
  then show ?thesis using assms(2) ch(1) by (simp add: connectDestroyed_def on_channel_def channel_remove_def)
qed

end
