(* ===== verification/Pool_Cache_Laws.thy ===== *)
theory Pool_Cache_Laws
  imports Pool_Arena Size_Class_Laws
begin

section \<open>PoolThreadCache: reuse and destruction\<close>

text \<open>
  The cache of a thread between its arena and its buffers: a region that the thread gives back is the
  one that its next request of the class gets, without a step of the arena. The destructors of
  \<open>buffer/PoolThreadCache.cpp\<close> delete the chunks of the regions that are still cached.
\<close>

subsection \<open>The destructors\<close>

text \<open>\<open>delete[]\<close> of a pointer: defined at the start of a live allocation only.\<close>

definition delete_array :: "memory \<Rightarrow> nat \<times> int \<Rightarrow> memory result" where
  "delete_array mem b =
     bindE (load mem (fst b)) (\<lambda>_. if snd b = 0 then Inr (mem(fst b := None)) else Inl OutOfBounds)"

definition Entry_destroy :: "Pool \<Rightarrow> Entry \<Rightarrow> Pool result" where
  "Entry_destroy p e =
     bindE (destroyChunk p (en_chunk e)) (\<lambda>p.
     case en_buffer e of
       None \<Rightarrow> Inr p
     | Some b \<Rightarrow> bindE (delete_array (po_memory p) b) (\<lambda>m. Inr (p\<lparr>po_memory := m\<rparr>)))"

primrec entries_destroy :: "Entry list \<Rightarrow> Pool \<Rightarrow> Pool result" where
  "entries_destroy [] p = Inr p"
| "entries_destroy (e # es) p = bindE (Entry_destroy p e) (\<lambda>p. entries_destroy es p)"

definition MemoryRegionCache_destroy :: "MemoryRegionCache \<Rightarrow> Pool \<Rightarrow> Pool result" where
  "MemoryRegionCache_destroy m p = entries_destroy (mr_queue m) p"

primrec caches_destroy :: "MemoryRegionCache list \<Rightarrow> Pool \<Rightarrow> Pool result" where
  "caches_destroy [] p = Inr p"
| "caches_destroy (m # ms) p = bindE (MemoryRegionCache_destroy m p) (\<lambda>p. caches_destroy ms p)"

definition PoolThreadCache_destroy :: "PoolThreadCache \<Rightarrow> Pool \<Rightarrow> Pool result" where
  "PoolThreadCache_destroy t p =
     bindE (caches_destroy (tc_smallSubPageCaches t) p) (\<lambda>p. caches_destroy (tc_normalCaches t) p)"

lemma entries_destroy_append:
  "entries_destroy (es @ fs) p = bindE (entries_destroy es p) (\<lambda>p. entries_destroy fs p)"
proof (induction es arbitrary: p)
  case (Cons e es)
  then show ?case by (cases "Entry_destroy p e") simp_all
qed simp

lemma caches_destroy_eq: "caches_destroy ms p = entries_destroy (concat (map mr_queue ms)) p"
  by (induction ms arbitrary: p) (simp_all add: MemoryRegionCache_destroy_def entries_destroy_append)

text \<open>
  A cache without entries is destroyed; with an entry whose buffer points into the memory of its
  chunk, which is where \<open>init0\<close> makes it point, the destructor deletes that memory twice.
\<close>

lemma empty_cache_destroyed:
  "\<forall>m\<in>set (tc_smallSubPageCaches t @ tc_normalCaches t). mr_queue m = [] \<Longrightarrow> PoolThreadCache_destroy t p = Inr p"
proof -
  assume "\<forall>m\<in>set (tc_smallSubPageCaches t @ tc_normalCaches t). mr_queue m = []"
  then have "concat (map mr_queue (tc_smallSubPageCaches t)) = []" "concat (map mr_queue (tc_normalCaches t)) = []"
    by (simp_all only: concat_eq_Nil_conv) auto
  then show ?thesis by (simp only: PoolThreadCache_destroy_def caches_destroy_eq entries_destroy.simps bindE.simps)
qed

theorem cache_destructor_deletes_twice:
  assumes "concat (map mr_queue (tc_smallSubPageCaches t @ tc_normalCaches t)) = e # es"
    and "po_chunks p (en_chunk e) = Some c" "pc_memory c = Some m" "en_buffer e = Some (m, off)"
  shows "PoolThreadCache_destroy t p = Inl NullPointer"
proof -
  have "PoolThreadCache_destroy t p = entries_destroy (e # es) p"
    using assms(1) by (simp add: PoolThreadCache_destroy_def caches_destroy_eq flip: entries_destroy_append)
  also have "Entry_destroy p e = Inl NullPointer"
    using assms(2-4) by (simp add: Entry_destroy_def destroyChunk_def delete_array_def load_def)
  then have "entries_destroy (e # es) p = Inl NullPointer" by simp
  finally show ?thesis .
qed

subsection \<open>Reuse\<close>

text \<open>\<open>add\<close> puts a region behind the others of its class, \<open>allocate\<close> takes the first.\<close>

lemma tc_add_queues:
  assumes "size2SizeIdx (pa_sizes r) nc = Inr i" "po_caches p t = Some tc" "genCache tc r i cls = Some k" "region tc k = Inr m"
  shows "tc_add p t r x b H nc cls =
    Inr (True, put_cache p t (put_region tc k (m\<lparr>mr_queue := mr_queue m @ [newEntry x b H nc]\<rparr>)))"
  using assms by (simp add: tc_add_def mr_add_def)

lemma region_put [simp]: "region tc k = Inr m \<Longrightarrow> region (put_region tc k m') k = Inr m'"
  by (cases k; cases "fst k") (auto simp: region_def put_region_def result_simps)

lemma put_put [simp]: "put_region (put_region tc k m) k m' = put_region tc k m'"
  by (cases k; cases "fst k") (auto simp: put_region_def)

lemma put_region_fields [simp]:
  "tc_allocations (put_region tc k m) = tc_allocations tc"
  "tc_freeSweepAllocationThreshold (put_region tc k m) = tc_freeSweepAllocationThreshold tc"
  "tc_arena (put_region tc k m) = tc_arena tc"
  by (cases k; cases "fst k"; simp add: put_region_def)+

lemma cacheFor_put [simp]: "cacheForNormal (put_region tc k m) r i = cacheForNormal tc r i"
  by (cases k; cases "fst k") (auto simp: put_region_def cacheForNormal_def cache_def)

lemma cacheForNormal_kind: "cacheForNormal tc r i = Some k \<Longrightarrow> fst k = NORMAL"
  by (auto simp: cacheForNormal_def)

lemma region_normal:
  assumes "cacheForNormal tc r i = Some k"
  obtains m where "region tc k = Inr m"
  using assms by (auto simp: cacheForNormal_def cache_def region_def split: if_splits)

lemma tc_allocate_head:
  assumes "po_caches p t = Some tc" "region tc k = Inr m" "mr_queue m = e # es"
    and "mr_initBuf p (mr_sizeClassType m) e buf req (Some t) = Inr buf'"
    and "0 \<le> tc_allocations tc" "tc_allocations tc + 1 < tc_freeSweepAllocationThreshold tc" "tc_allocations tc < INT_MAX"
  shows "tc_allocate p t (Some k) buf req = Inr (True, buf', put_cache p t
    ((put_region tc k (m\<lparr>mr_queue := es, mr_allocations := i32 (mr_allocations m + 1)\<rparr>))\<lparr>tc_allocations := tc_allocations tc + 1\<rparr>))"
proof -
  have "i32 (tc_allocations tc + 1) = tc_allocations tc + 1" using assms(5,7) by (intro i32_id) simp_all
  then show ?thesis using assms by (simp add: tc_allocate_def mr_allocate_def)
qed


text \<open>A thread whose cache has one class, on an arena with one chunk.\<close>

definition sample_arena :: "SizeClasses \<Rightarrow> PoolArena" where
  "sample_arena sc = \<lparr>pa_sizes = sc, pa_smallSubpagePools = [], pa_q050 = 0, pa_q025 = 0, pa_q000 = 0, pa_qInit = 0,
     pa_q075 = 0, pa_q100 = 0, pa_allocationsNormal = 0, pa_allocationsSmall = 0, pa_allocationsHuge = 0,
     pa_activeBytesHuge = 0, pa_deallocationsSmall = 0, pa_deallocationsNormal = 0, pa_deallocationsHuge = 0,
     pa_numSmallSubpagePools = 39, pa_parent = None, pa_numThreadCaches = 1\<rparr>"

definition sample_cache :: PoolThreadCache where
  "sample_cache = \<lparr>tc_smallSubPageCaches = [], tc_normalCaches = [MemoryRegionCache_new 64 NORMAL], tc_toFree = False,
     tc_allocations = 0, tc_freeSweepAllocationThreshold = 8192, tc_arena = Some 0\<rparr>"

definition sample_caching :: "SizeClasses \<Rightarrow> PoolChunk \<Rightarrow> Pool" where
  "sample_caching sc c = \<lparr>po_arenas = [0 \<mapsto> sample_arena sc], po_lists = Map.empty, po_chunks = [0 \<mapsto> c], po_subpages = Map.empty,
     po_caches = [0 \<mapsto> sample_cache], po_memory = Map.empty, po_next = 1, po_threadCache = Some 0\<rparr>"

lemma class_39:
  assumes "sc_ok 13 24 sc"
  shows "size2SizeIdx sc 32768 = Inr 39"
proof -
  obtain i where i: "size2SizeIdx sc 32768 = Inr (int i)" "best_class 4 i 32768" "i < 4 * (24 - 5)"
    by (rule size2SizeIdx_ok [OF assms, of 32768]) simp_all
  have "class_size 4 39 = 32768" "class_size 4 38 < 32768" by (simp_all add: class_size_def)
  then have "\<not> i < 39" "\<not> 39 < i" using i(2) class_size_le_iff [of 4 i 38] unfolding best_class_def by fastforce+
  then show ?thesis using i(1) by simp
qed

definition sample_chunk :: PoolChunk where
  "sample_chunk = \<lparr>pc_runsAvailMap = [], pc_runsAvail = [], pc_subpages = [], pc_cachedBuffers = [], pc_pageSize = 8192,
     pc_pageShifts = 13, pc_chunkSize = 16777216, pc_memory = Some 7, pc_freeBytes = 16744448, pc_unpooled = False,
     pc_prev = None, pc_next = None, pc_parent = None, pc_arena = 0\<rparr>"


end
