(* ===== verification/Buffer_Reuse.thy ===== *)
theory Buffer_Reuse
  imports Byte_Buffer Pool_Cache_Laws
begin

section \<open>Buffers of 16 KiB from the cache of the thread\<close>

text \<open>
  Every response is rendered into a local \<open>Buffer buf(16384)\<close>, which is deleted when it has been sent. Once the
  cache of the thread holds a region of the class, the buffer comes from the cache and goes back to it:
  nothing but the cache changes. A region is described by the window \<open>(block, offset)\<close> of its memory.
\<close>

subsection \<open>Cached regions\<close>

definition same_window :: "PooledByteBuf \<Rightarrow> PooledByteBuf \<Rightarrow> bool" where
  "same_window a b \<longleftrightarrow> pb_memory a = pb_memory b \<and> pb_offset a = pb_offset b \<and> pb_maxLength a = pb_maxLength b"

lemma same_window_apart: "same_window a b \<Longrightarrow> windows_apart a c = windows_apart b c" "same_window a b \<Longrightarrow> windows_apart c a = windows_apart c b"
  by (simp_all add: same_window_def windows_apart_def)

lemma same_window_refl [simp]: "same_window a a"
  by (simp add: same_window_def)

definition spare_buf :: "nat \<times> int \<Rightarrow> PooledByteBuf" where
  "spare_buf w = \<lparr>pb_allocator = None, pb_maxCapacity = 16384, pb_chunk = None, pb_handle = 0, pb_memory = Some (fst w),
     pb_offset = snd w, pb_length = 16384, pb_maxLength = 16384, pb_cache = None, pb_tmpBuf = Some w,
     pb_readerIndex = 0, pb_writerIndex = 0\<rparr>"

text \<open>An entry of the cache that stands for an element of 16 KiB of a live subpage of the arena \<open>a\<close>.\<close>

definition spare :: "Pool \<Rightarrow> nat \<Rightarrow> Entry \<Rightarrow> nat \<times> int \<Rightarrow> bool" where
  "spare p a e w \<longleftrightarrow> (\<exists>c sp s. po_chunks p (en_chunk e) = Some c \<and> \<not> pc_unpooled c \<and> pc_arena c = a \<and> pc_memory c = Some (fst w) \<and>
     0 \<le> en_handle e \<and> isSubpage (en_handle e) \<and> getE (pc_subpages c) (calculateRunOffset (en_handle e)) = Inr (Some sp) \<and>
     po_subpages p sp = Some s \<and> sp_doNotDestroy s \<and> sp_elemSize s = 16384 \<and>
     snd w = i32 (shl (calculateRunOffset (en_handle e)) (pc_pageShifts c) + i32 (calculateBitmapIdx (en_handle e) * 16384)) \<and>
     (en_buffer e = None \<or> en_buffer e = Some w) \<and> buf_ok (po_memory p) (spare_buf w))"

text \<open>
  The cache \<open>t\<close> of the thread works for the arena \<open>a\<close>, has the queue \<open>q\<close> for the class of 16 KiB, and at least
  \<open>k\<close> allocations are left before it is trimmed.
\<close>

definition caching :: "nat \<Rightarrow> Pool \<Rightarrow> nat \<Rightarrow> nat \<Rightarrow> Entry list \<Rightarrow> bool" where
  "caching k p t a q \<longleftrightarrow> (\<exists>tc r i j m. po_threadCache p = Some t \<and> po_caches p t = Some tc \<and> tc_arena tc = Some a \<and>
     po_arenas p a = Some r \<and> size2SizeIdx (pa_sizes r) 16384 = Inr i \<and> i \<le> m_smallMaxSizeIdx (pa_sizes r) \<and>
     cacheForSmall tc i = Some (SMALL, j) \<and> region tc (SMALL, j) = Inr m \<and> mr_sizeClassType m = SMALL \<and> mr_queue m = q \<and>
     0 \<le> tc_allocations tc \<and> tc_allocations tc + int k < tc_freeSweepAllocationThreshold tc \<and>
     tc_freeSweepAllocationThreshold tc \<le> INT_MAX)"

text \<open>The regions of a queue are apart from each other and from the windows of the buffers in use.\<close>

definition spares :: "PooledByteBuf list \<Rightarrow> Pool \<Rightarrow> nat \<Rightarrow> Entry list \<Rightarrow> (nat \<times> int) list \<Rightarrow> bool" where
  "spares used p a q ws \<longleftrightarrow> list_all2 (\<lambda>e w. spare p a e w \<and> list_all (windows_apart (spare_buf w)) used) q ws \<and>
     sorted_wrt (\<lambda>v w. windows_apart (spare_buf v) (spare_buf w)) ws"

definition spare_ready :: "nat \<Rightarrow> PooledByteBuf list \<Rightarrow> Pool \<Rightarrow> bool" where
  "spare_ready k used p \<longleftrightarrow> (\<exists>t a q ws. q \<noteq> [] \<and> caching k p t a q \<and> spares used p a q ws)"

lemma caching_memory [simp]: "caching k (p\<lparr>po_memory := m\<rparr>) t a q = caching k p t a q"
  by (simp add: caching_def)

lemma spare_mono:
  assumes "spare p a e w" "po_chunks p' = po_chunks p" "po_subpages p' = po_subpages p" "buf_ok (po_memory p') (spare_buf w)"
  shows "spare p' a e w"
  using assms unfolding spare_def by (simp only: assms(2-4)) blast

lemma spares_mono:
  assumes "spares used p a q ws" "po_chunks p' = po_chunks p" "po_subpages p' = po_subpages p"
    and "\<And>w. w \<in> set ws \<Longrightarrow> buf_ok (po_memory p) (spare_buf w) \<Longrightarrow> buf_ok (po_memory p') (spare_buf w)"
  shows "spares used p' a q ws"
proof -
  have "spare p' a e w" if "spare p a e w" "w \<in> set ws" for e w
  proof (rule spare_mono [OF that(1) assms(2,3)])
    have "buf_ok (po_memory p) (spare_buf w)" using that(1) unfolding spare_def by blast
    then show "buf_ok (po_memory p') (spare_buf w)" by (rule assms(4) [OF that(2)])
  qed
  then show ?thesis using assms(1) unfolding spares_def by (auto elim!: list.rel_mono_strong)
qed

lemma spares_Cons:
  "spares used p a (e # q) (w # ws) \<longleftrightarrow> spare p a e w \<and> list_all (windows_apart (spare_buf w)) used \<and>
     list_all (\<lambda>v. windows_apart (spare_buf w) (spare_buf v)) ws \<and> spares used p a q ws"
  by (auto simp: spares_def list_all_iff)

lemma spares_snoc:
  "spares used p a q ws \<Longrightarrow> spare p a e w \<Longrightarrow> list_all (windows_apart (spare_buf w)) used \<Longrightarrow>
   list_all (\<lambda>v. windows_apart (spare_buf w) (spare_buf v)) ws \<Longrightarrow> spares used p a (q @ [e]) (ws @ [w])"
  by (auto simp: spares_def list_all_iff sorted_wrt_append windows_apart_sym intro: list_all2_appendI)

lemma spares_apart:
  assumes "spares used p a q ws" "u \<in> set used" "v \<in> set ws"
  shows "windows_apart (spare_buf v) u"
proof -
  obtain i where i: "i < length ws" "v = ws ! i" using assms(3) by (auto simp: in_set_conv_nth)
  then have "list_all (windows_apart (spare_buf v)) used" using assms(1) by (auto simp: spares_def list_all2_conv_all_nth)
  then show ?thesis using assms(2) by (simp add: list_all_iff)
qed

subsection \<open>Lending and taking back\<close>

lemma Buffer_new_spare:
  assumes c: "caching (Suc k) p t a (e # q)" and s: "spare p a e w"
  obtains buf cs where "Buffer_new p obj 16384 = Inr (Some buf, p\<lparr>po_caches := cs\<rparr>)" "caching k (p\<lparr>po_caches := cs\<rparr>) t a q"
    "pb_chunk buf = Some (en_chunk e)" "pb_handle buf = en_handle e" "pb_cache buf = Some t" "pb_maxLength buf = 16384"
    "pb_length buf = 16384" "pb_maxCapacity buf = INT_MAX" "pb_memory buf = Some (fst w)" "pb_offset buf = snd w"
    "pb_tmpBuf buf = Some w" "pb_readerIndex buf = 0" "pb_writerIndex buf = 0"
proof -
  obtain tc r i j m where t: "po_threadCache p = Some t" "po_caches p t = Some tc" "tc_arena tc = Some a" "po_arenas p a = Some r"
    "size2SizeIdx (pa_sizes r) 16384 = Inr i" "i \<le> m_smallMaxSizeIdx (pa_sizes r)" "cacheForSmall tc i = Some (SMALL, j)"
    "region tc (SMALL, j) = Inr m" "mr_sizeClassType m = SMALL" "mr_queue m = e # q" "0 \<le> tc_allocations tc"
    "tc_allocations tc + int (Suc k) < tc_freeSweepAllocationThreshold tc" "tc_freeSweepAllocationThreshold tc \<le> INT_MAX"
    using c unfolding caching_def by blast
  obtain ch sp s where ch: "po_chunks p (en_chunk e) = Some ch" "\<not> pc_unpooled ch" "pc_arena ch = a" "pc_memory ch = Some (fst w)"
     "0 \<le> en_handle e" "isSubpage (en_handle e)" "getE (pc_subpages ch) (calculateRunOffset (en_handle e)) = Inr (Some sp)"
     "po_subpages p sp = Some s" "sp_doNotDestroy s" "sp_elemSize s = 16384"
     "snd w = i32 (shl (calculateRunOffset (en_handle e)) (pc_pageShifts ch) + i32 (calculateBitmapIdx (en_handle e) * 16384))"
     "en_buffer e = None \<or> en_buffer e = Some w" using s unfolding spare_def by blast
  let ?obj = "newInstance obj INT_MAX"
  let ?buf = "?obj\<lparr>pb_chunk := Some (en_chunk e), pb_memory := Some (fst w), pb_allocator := pa_parent r, pb_cache := Some t,
    pb_handle := en_handle e, pb_offset := snd w, pb_length := 16384, pb_maxLength := 16384, pb_tmpBuf := Some w\<rparr>"
  have w: "(fst w, i32 (shl (calculateRunOffset (en_handle e)) (pc_pageShifts ch) + i32 (calculateBitmapIdx (en_handle e) * 16384))) = w"
    using ch(11) by (metis prod.collapse)
  have b: "mr_initBuf p SMALL e ?obj 16384 (Some t) = Inr ?buf"
    using ch(12) ch(1-10) t(4) ch(11) [symmetric] w by (auto simp: mr_initBuf_def chunk_initBufWithSubpage_def initBufWithSubpage_def arena_view_def init0_def Let_def)
  let ?tc = "(put_region tc (SMALL, j) (m\<lparr>mr_queue := q, mr_allocations := i32 (mr_allocations m + 1)\<rparr>))\<lparr>tc_allocations := tc_allocations tc + 1\<rparr>"
  have al: "tc_allocate p t (Some (SMALL, j)) ?obj 16384 = Inr (True, ?buf, put_cache p t ?tc)"
    by (rule tc_allocate_head [OF t(2,8,10)]) (use b t(9,11-13) in simp_all)
  let ?p = "p\<lparr>po_caches := (po_caches p)(t \<mapsto> ?tc)\<rparr>"
  have new: "Buffer_new p obj 16384 = Inr (Some ?buf, ?p)"
    using t(1-7) al by (simp add: Buffer_new_def buffer_initial_def newPoolBuffer_def arena_allocate_new_def arena_allocate_def
        tcacheAllocateSmall_def tc_allocateSmall_def DEFAULT_MAX_CAPACITY_def Let_def)
  have reg: "region ?tc (SMALL, j) = Inr (m\<lparr>mr_queue := q, mr_allocations := i32 (mr_allocations m + 1)\<rparr>)"
    using region_put [OF t(8)] by (simp add: region_def)
  have "cacheForSmall ?tc i = Some (SMALL, j)"
    using t(7) by (simp add: cacheForSmall_def cache_def put_region_def)
  then have "caching k ?p t a q"
    unfolding caching_def using t reg by (intro exI [of _ ?tc] exI [of _ r] exI [of _ i] exI [of _ j] exI) auto
  then show ?thesis by (rule that [OF new]) (simp_all add: newInstance_def reuse_def setIndex0_def setMaxCapacity_def)
qed

lemma Buffer_destroy_spare:
  assumes c: "caching k p t a q" and s: "spare p a e w"
    and b: "pb_chunk buf = Some (en_chunk e)" "pb_handle buf = en_handle e" "pb_cache buf = Some t" "pb_maxLength buf = 16384"
      "pb_tmpBuf buf = Some w"
  obtains cs e' where "Buffer_destroy p (Some buf) = Inr (p\<lparr>po_caches := cs\<rparr>)" "caching k (p\<lparr>po_caches := cs\<rparr>) t a (q @ [e'])"
    "spare p a e' w"
proof -
  obtain tc r i j m where t: "po_threadCache p = Some t" "po_caches p t = Some tc" "tc_arena tc = Some a" "po_arenas p a = Some r"
    "size2SizeIdx (pa_sizes r) 16384 = Inr i" "i \<le> m_smallMaxSizeIdx (pa_sizes r)" "cacheForSmall tc i = Some (SMALL, j)"
    "region tc (SMALL, j) = Inr m" "mr_sizeClassType m = SMALL" "mr_queue m = q" "0 \<le> tc_allocations tc"
    "tc_allocations tc + int k < tc_freeSweepAllocationThreshold tc" "tc_freeSweepAllocationThreshold tc \<le> INT_MAX"
    using c unfolding caching_def by blast
  obtain ch where ch: "po_chunks p (en_chunk e) = Some ch" "\<not> pc_unpooled ch" "pc_arena ch = a" "0 \<le> en_handle e" "isSubpage (en_handle e)"
    using s unfolding spare_def by blast
  let ?e = "newEntry (en_chunk e) (Some w) (en_handle e) 16384"
  let ?tc = "put_region tc (SMALL, j) (m\<lparr>mr_queue := q @ [?e]\<rparr>)"
  let ?p = "p\<lparr>po_caches := (po_caches p)(t \<mapsto> ?tc)\<rparr>"
  have gen: "genCache tc r i SMALL = Some (SMALL, j)" using t(7) by (simp add: genCache_def)
  have "tc_add p t r (en_chunk e) (Some w) (en_handle e) 16384 SMALL = Inr (True, ?p)"
    using tc_add_queues [OF t(5,2) gen t(8)] t(10) by simp
  then have d: "Buffer_destroy p (Some buf) = Inr ?p"
    using b ch t(4) by (simp add: Buffer_destroy_def deallocate_def arena_free_def getSizeClassType_def)
  have "cacheForSmall ?tc i = Some (SMALL, j)" using t(7) by (simp add: cacheForSmall_def cache_def put_region_def)
  then have "caching k ?p t a (q @ [?e])"
    unfolding caching_def using t region_put [OF t(8)] by (intro exI [of _ ?tc] exI [of _ r] exI [of _ i] exI [of _ j] exI) auto
  moreover have "spare p a ?e w" using s unfolding spare_def newEntry_def Entry.simps by blast
  ultimately show ?thesis by (rule that [OF d])
qed

text \<open>
  While the buffer is in use: it has the window of a region that the cache does not hold, and the others of
  the cache are as before.
\<close>

definition lent :: "nat \<Rightarrow> PooledByteBuf list \<Rightarrow> PooledByteBuf \<Rightarrow> Pool \<Rightarrow> bool" where
  "lent k used buf p \<longleftrightarrow> (\<exists>t a e w q ws. caching k p t a q \<and> spares used p a (e # q) (w # ws) \<and> same_window buf (spare_buf w) \<and>
     pb_chunk buf = Some (en_chunk e) \<and> pb_handle buf = en_handle e \<and> pb_cache buf = Some t \<and> pb_maxLength buf = 16384 \<and>
     pb_tmpBuf buf = Some w)"

lemma lentE:
  assumes "lent k used buf p"
  obtains t a e w q ws where "caching k p t a q" "spares used p a (e # q) (w # ws)" "same_window buf (spare_buf w)"
     "pb_chunk buf = Some (en_chunk e)" "pb_handle buf = en_handle e" "pb_cache buf = Some t" "pb_maxLength buf = 16384"
     "pb_tmpBuf buf = Some w"
  using assms unfolding lent_def by blast

lemma lent_index [simp]:
  "lent k used (buf\<lparr>pb_writerIndex := n\<rparr>) p = lent k used buf p" "lent k used (retrieveAll buf) p = lent k used buf p"
  by (simp_all add: lent_def retrieveAll_def same_window_def)

lemma buf_ok_window:
  assumes "buf_ok m buf" "same_window buf (spare_buf w)"
  shows "buf_ok m (spare_buf w)"
  using assms by (auto simp: buf_ok_def same_window_def spare_buf_def)

lemma lend_spare:
  assumes "spare_ready (Suc k) used p"
  obtains buf cs where "Buffer_new p obj 16384 = Inr (Some buf, p\<lparr>po_caches := cs\<rparr>)" "lent k used buf (p\<lparr>po_caches := cs\<rparr>)"
    "buf_ok (po_memory p) buf" "readable (po_memory p) buf = []" "list_all (windows_apart buf) used" "pb_writerIndex buf = 0"
    "pb_length buf = 16384" "pb_maxCapacity buf = INT_MAX"
proof -
  obtain t a q0 ws0 where "q0 \<noteq> []" "caching (Suc k) p t a q0" "spares used p a q0 ws0" using assms unfolding spare_ready_def by blast
  then obtain e q w ws where c: "caching (Suc k) p t a (e # q)" and s: "spares used p a (e # q) (w # ws)"
    by (cases q0; cases ws0) (auto simp: spares_def)
  have sp: "spare p a e w" "list_all (windows_apart (spare_buf w)) used" using s by (simp_all add: spares_Cons)
  obtain buf cs where b: "Buffer_new p obj 16384 = Inr (Some buf, p\<lparr>po_caches := cs\<rparr>)" "caching k (p\<lparr>po_caches := cs\<rparr>) t a q"
    "pb_chunk buf = Some (en_chunk e)" "pb_handle buf = en_handle e" "pb_cache buf = Some t" "pb_maxLength buf = 16384"
    "pb_length buf = 16384" "pb_maxCapacity buf = INT_MAX" "pb_memory buf = Some (fst w)" "pb_offset buf = snd w"
    "pb_tmpBuf buf = Some w" "pb_readerIndex buf = 0" "pb_writerIndex buf = 0" by (rule Buffer_new_spare [OF c sp(1)])
  have win: "same_window buf (spare_buf w)" using b by (simp add: same_window_def spare_buf_def)
  have "spares used (p\<lparr>po_caches := cs\<rparr>) a (e # q) (w # ws)" by (rule spares_mono [OF s]) simp_all
  then have l: "lent k used buf (p\<lparr>po_caches := cs\<rparr>)" unfolding lent_def using b win by blast
  have ok: "buf_ok (po_memory p) buf" using sp(1) b unfolding spare_def by (auto simp: buf_ok_def spare_buf_def)
  moreover have "readable (po_memory p) buf = []" using b readable_length(1) [OF ok] by simp
  moreover have "list_all (windows_apart buf) used" using sp(2) same_window_apart(1) [OF win] by (simp add: list_all_iff)
  ultimately show ?thesis using that [OF b(1) l] b by blast
qed

text \<open>Writing into the buffer, or into one of the buffers in use, leaves it lent.\<close>

lemma lent_write:
  assumes l: "lent k used buf p" and m: "writes_in buf (po_memory p) m" "buf_ok m buf"
  shows "lent k used buf (p\<lparr>po_memory := m\<rparr>)"
proof -
  obtain t a e w q ws where c: "caching k p t a q" "spares used p a (e # q) (w # ws)" "same_window buf (spare_buf w)"
     "pb_chunk buf = Some (en_chunk e)" "pb_handle buf = en_handle e" "pb_cache buf = Some t" "pb_maxLength buf = 16384"
     "pb_tmpBuf buf = Some w" by (rule lentE [OF l])
  have ap: "list_all (\<lambda>v. windows_apart (spare_buf w) (spare_buf v)) ws" using c(2) by (simp add: spares_Cons)
  have "buf_ok m (spare_buf v)" if "v \<in> set (w # ws)" "buf_ok (po_memory p) (spare_buf v)" for v
  proof (cases "v = w")
    case True
    then show ?thesis using buf_ok_window [OF m(2) c(3)] by simp
  next
    case False
    then have "windows_apart buf (spare_buf v)" using ap that(1) same_window_apart(1) [OF c(3)] by (simp add: list_all_iff)
    then show ?thesis using writes_inD [OF m(1) that(2)] by simp
  qed
  then have "spares used (p\<lparr>po_memory := m\<rparr>) a (e # q) (w # ws)" by (intro spares_mono [OF c(2)]) simp_all
  then show ?thesis unfolding lent_def using c by (metis caching_memory)
qed

lemma lent_other:
  assumes l: "lent k used buf p" and u: "u \<in> set used" and m: "writes_in u (po_memory p) m"
  shows "lent k used buf (p\<lparr>po_memory := m\<rparr>)"
proof -
  obtain t a e w q ws where c: "caching k p t a q" "spares used p a (e # q) (w # ws)" "same_window buf (spare_buf w)"
     "pb_chunk buf = Some (en_chunk e)" "pb_handle buf = en_handle e" "pb_cache buf = Some t" "pb_maxLength buf = 16384"
     "pb_tmpBuf buf = Some w" by (rule lentE [OF l])
  have "windows_apart u (spare_buf v)" if "v \<in> set (w # ws)" for v
    using spares_apart [OF c(2) u that] by (simp add: windows_apart_sym)
  then have "spares used (p\<lparr>po_memory := m\<rparr>) a (e # q) (w # ws)"
    using writes_inD [OF m] by (intro spares_mono [OF c(2)]) simp_all
  then show ?thesis unfolding lent_def using c by (metis caching_memory)
qed

lemma return_spare:
  assumes "lent k used buf p"
  obtains cs where "Buffer_destroy p (Some buf) = Inr (p\<lparr>po_caches := cs\<rparr>)" "spare_ready k used (p\<lparr>po_caches := cs\<rparr>)"
proof -
  obtain t a e w q ws where c: "caching k p t a q" "spares used p a (e # q) (w # ws)"
    and b: "pb_chunk buf = Some (en_chunk e)" "pb_handle buf = en_handle e" "pb_cache buf = Some t" "pb_maxLength buf = 16384"
     "pb_tmpBuf buf = Some w" by (rule lentE [OF assms])
  have s: "spare p a e w" "list_all (windows_apart (spare_buf w)) used" "spares used p a q ws"
    "list_all (\<lambda>v. windows_apart (spare_buf w) (spare_buf v)) ws" using c(2) by (simp_all add: spares_Cons)
  obtain cs e' where d: "Buffer_destroy p (Some buf) = Inr (p\<lparr>po_caches := cs\<rparr>)" "caching k (p\<lparr>po_caches := cs\<rparr>) t a (q @ [e'])"
    "spare p a e' w" by (rule Buffer_destroy_spare [OF c(1) s(1) b])
  have "spares used (p\<lparr>po_caches := cs\<rparr>) a (q @ [e']) (ws @ [w])"
    by (rule spares_mono [OF spares_snoc [OF s(3) d(3) s(2,4)]]) simp_all
  then have "spare_ready k used (p\<lparr>po_caches := cs\<rparr>)" unfolding spare_ready_def using d(2) by blast
  then show ?thesis by (rule that [OF d(1)])
qed

end
