(* ===== verification/Http_Connection.thy ===== *)
theory Http_Connection
  imports Http_Server Tcp_Connection Buffer_Reuse
begin

section \<open>HTTP on a connection\<close>

text \<open>
  The callbacks of \<open>http/HttpServer.cpp\<close> on the connection they are registered at: the parser works on the input buffer of
  the connection, answers go through \<open>TcpConnection::send\<close> and \<open>TcpConnection::shutdown\<close>, and the response is rendered into a
  pooled buffer of its own. \<open>w\<close> and \<open>w'\<close> are the outcomes of \<open>write\<close>. The callbacks run on the thread of the loop.
\<close>

subsection \<open>Operations\<close>

text \<open>\<open>send(Buffer*)\<close>: the data that \<open>peek\<close> points at is outside the output buffer, so it is read before the call.\<close>

definition tcp_sendBuffer ::
  "'k epoll_ctl \<Rightarrow> bool \<Rightarrow> 'k tcp \<Rightarrow> Buffer \<Rightarrow> write_outcome \<Rightarrow> (Buffer \<times> 'k tcp) result" where
  "tcp_sendBuffer ctl inLoop t buf w =
     (if tc_state t = kConnected then
        if inLoop then
          bindE (buf_peek buf) (\<lambda>(blk, off).
          bindE (buf_readableBytes buf) (\<lambda>len.
          bindE (read_block (po_memory (tc_pool t)) blk off (nat len)) (\<lambda>data.
          bindE (sendInLoop ctl t data w) (\<lambda>t.
          bindE (buf_retrieveAll buf) (\<lambda>buf. Inr (buf, t))))))
        else
          bindE (buf_retrieveAllAsString (po_memory (tc_pool t)) buf) (\<lambda>(message, buf).
            Inr (buf, queueInLoop (SendInLoop message) t))
      else Inr (buf, t))"

text \<open>The connection with its \<open>context_\<close>, which is empty until \<open>setContext\<close>.\<close>

record 'k HttpConnection =
  hs_conn :: "'k tcp"
  hs_context :: "HttpContext option"

definition hs_onConnection :: "'k HttpConnection \<Rightarrow> 'k HttpConnection" where
  "hs_onConnection h = (if tc_state (hs_conn h) = kConnected then h\<lparr>hs_context := Some HttpContext_new\<rparr> else h)"

definition hs_onRequest ::
  "http_callback \<Rightarrow> 'k epoll_ctl \<Rightarrow> PooledByteBuf \<Rightarrow> write_outcome \<Rightarrow> 'k tcp \<Rightarrow> HttpRequest \<Rightarrow> 'k tcp result" where
  "hs_onRequest httpCallback ctl obj w t req =
     (let response = httpCallback req (HttpResponse_new (close_requested req))
      in bindE (Buffer_new (tc_pool t) obj 16384) (\<lambda>(buf, p).
         bindE (appendToBuffer response p buf) (\<lambda>(buf, p).
         bindE (tcp_sendBuffer ctl True (t\<lparr>tc_pool := p\<rparr>) buf w) (\<lambda>(buf, t).
         bindE (if rs_closeConnection response then tcp_shutdown True t else Inr t) (\<lambda>t.
         bindE (Buffer_destroy (tc_pool t) buf) (\<lambda>p. Inr (t\<lparr>tc_pool := p\<rparr>)))))))"

definition hs_onMessage ::
  "http_callback \<Rightarrow> 'k epoll_ctl \<Rightarrow> PooledByteBuf \<Rightarrow> write_outcome \<Rightarrow> write_outcome \<Rightarrow> 'k HttpConnection \<Rightarrow> 'k HttpConnection result" where
  "hs_onMessage httpCallback ctl obj w w' h =
     (let t = hs_conn h
      in case hs_context h of
           None \<Rightarrow> Inl NullPointer
         | Some context \<Rightarrow>
             bindE (parseRequest (po_memory (tc_pool t)) context (tc_inputBuffer t)) (\<lambda>(ok, context, buf).
             let t = t\<lparr>tc_inputBuffer := buf\<rparr>
             in bindE (if ok then Inr t else bindE (tcp_send ctl True t bad_request w) (\<lambda>t. tcp_shutdown True t)) (\<lambda>t.
                if gotAll context then
                  bindE (hs_onRequest httpCallback ctl obj w' t (hc_request context)) (\<lambda>t.
                    Inr (h\<lparr>hs_conn := t, hs_context := Some (reset context)\<rparr>))
                else Inr (h\<lparr>hs_conn := t, hs_context := Some context\<rparr>))))"

subsection \<open>The parser keeps the window\<close>

text \<open>What taking bytes out of a buffer does to it: only the indices move, and the writer index not forward.\<close>

definition consumed :: "PooledByteBuf \<Rightarrow> PooledByteBuf \<Rightarrow> bool" where
  "consumed buf' buf \<longleftrightarrow> same_window buf' buf \<and> pb_length buf' = pb_length buf \<and> pb_maxCapacity buf' = pb_maxCapacity buf \<and>
     pb_writerIndex buf' \<in> {0, pb_writerIndex buf}"

lemma consumed_refl [simp]: "consumed buf buf"
  by (simp add: consumed_def)

lemma retrieveUntil_window: "retrieveUntil (Some buf) e = Inr b \<Longrightarrow> \<exists>buf'. b = Some buf' \<and> consumed buf' buf"
  by (auto simp: retrieveUntil_def buf_retrieve_def retrieve_def retrieveAll_def internal_def consumed_def same_window_def result_simps split: if_splits)

lemma parse_round_window:
  assumes "parse_round m c (Some buf) ok = Inr (hasMore, ok', c', b)"
  shows "\<exists>buf'. b = Some buf' \<and> consumed buf' buf"
proof -
  have "b = Some buf \<or> (\<exists>e. retrieveUntil (Some buf) e = Inr b)"
  proof (cases "hc_state c")
    case kExpectRequestLine
    with assms show ?thesis
      unfolding parse_round_def by (auto simp: Let_def bindE_eq_Inr simp del: split_paired_Ex split: option.splits prod.splits if_splits)
  next
    case kExpectHeaders
    with assms show ?thesis
      unfolding parse_round_def by (auto simp: Let_def bindE_eq_Inr simp del: split_paired_Ex split: option.splits if_splits)
  qed (use assms in \<open>simp_all add: parse_round_def\<close>)
  then show ?thesis using retrieveUntil_window consumed_refl by blast
qed

lemma parse_loop_window:
  "parse_loop fuel m c (Some buf) ok = Inr (ok', c', b) \<Longrightarrow> \<exists>buf'. b = Some buf' \<and> consumed buf' buf"
proof (induction fuel arbitrary: c buf ok)
  case (Suc fuel)
  obtain hasMore ok1 c1 b1 where r: "parse_round m c (Some buf) ok = Inr (hasMore, ok1, c1, b1)"
    and l: "(if hasMore then parse_loop fuel m c1 b1 ok1 else Inr (ok1, c1, b1)) = Inr (ok', c', b)"
    using Suc.prems by (auto simp: result_simps)
  obtain buf1 where "b1 = Some buf1" "consumed buf1 buf" using parse_round_window [OF r] by blast
  with l Suc.IH [of c1 buf1 ok1] show ?case by (auto simp: consumed_def same_window_def split: if_splits)
qed simp

lemma parseRequest_window:
  "parseRequest m c (Some buf) = Inr (ok, c', b) \<Longrightarrow> \<exists>buf'. b = Some buf' \<and> consumed buf' buf"
  unfolding parseRequest_def bindE_eq_Inr by (blast dest: parse_loop_window)

subsection \<open>Rendering and sending\<close>

lemma write_strings_frame:
  assumes "buf_ok (po_memory p) buf" "pb_writerIndex buf + int (length (concat ss)) \<le> pb_length buf"
    and "pb_length buf \<le> pb_maxCapacity buf"
  shows "\<exists>n m. write_strings ss p (Some buf) = Inr (Some (buf\<lparr>pb_writerIndex := n\<rparr>), p\<lparr>po_memory := m\<rparr>) \<and>
    buf_ok m (buf\<lparr>pb_writerIndex := n\<rparr>) \<and> readable m (buf\<lparr>pb_writerIndex := n\<rparr>) = readable (po_memory p) buf @ concat ss \<and>
    writes_in buf (po_memory p) m"
  using assms
proof (induction ss arbitrary: p buf)
  case Nil
  then show ?case by (intro exI [of _ "pb_writerIndex buf"] exI [of _ "po_memory p"]) simp
next
  case (Cons s ss)
  let ?b = "buf\<lparr>pb_writerIndex := pb_writerIndex buf + int (length s)\<rparr>"
  have fit: "pb_writerIndex buf + int (length s) \<le> pb_length buf" using Cons.prems(2) by simp
  obtain m where w: "pb_writeBytes p buf s 0 (length s) = Inr (?b, p\<lparr>po_memory := m\<rparr>)" "buf_ok m ?b"
    "readable m ?b = readable (po_memory p) buf @ s" "writes_in buf (po_memory p) m"
    by (rule write_frame [OF Cons.prems(1) fit Cons.prems(3)])
  obtain n m' where r: "write_strings ss (p\<lparr>po_memory := m\<rparr>) (Some ?b) = Inr (Some (buf\<lparr>pb_writerIndex := n\<rparr>), p\<lparr>po_memory := m'\<rparr>)"
    "buf_ok m' (buf\<lparr>pb_writerIndex := n\<rparr>)" "readable m' (buf\<lparr>pb_writerIndex := n\<rparr>) = (readable (po_memory p) buf @ s) @ concat ss"
    "writes_in buf m m'"
    using Cons.IH [of "p\<lparr>po_memory := m\<rparr>" ?b] w(2,3) Cons.prems(2,3) by auto
  have "write_strings (s # ss) p (Some buf) = Inr (Some (buf\<lparr>pb_writerIndex := n\<rparr>), p\<lparr>po_memory := m'\<rparr>)"
    using w(1) r(1) by (simp add: buf_writeString_def buf_writeBytes_def internal_def)
  then show ?case using r(2,3) writes_in_trans [OF w(4) r(4)] by auto
qed

lemma conn_pool:
  assumes "conn_ok interest t" "tc_outputBuffer t = Some out" "buf_ok (po_memory p) out"
    "readable (po_memory p) out = readable (po_memory (tc_pool t)) out"
  shows "conn_ok interest (t\<lparr>tc_pool := p\<rparr>)" "output_of (t\<lparr>tc_pool := p\<rparr>) = output_of t" "room (t\<lparr>tc_pool := p\<rparr>) = room t"
  using assms by (simp_all add: conn_ok_def output_of_def room_def)

lemma conn_out: "conn_ok interest t \<Longrightarrow> tc_outputBuffer t = Some out \<Longrightarrow> buf_ok (po_memory (tc_pool t)) out"
  by (auto simp: conn_ok_def)

lemma shutdown_ok:
  assumes "conn_ok interest t" "tc_state t = kConnected"
  obtains s where "tcp_shutdown True t = Inr (t\<lparr>tc_state := kDisconnecting, tc_writeShut := s\<rparr>)"
proof -
  obtain ch where "tc_channels t (tc_channel t) = Some ch" using conn_okE [OF assms(1)] by metis
  then show ?thesis using that [of "tc_writeShut t"] that [of True] assms(2)
    by (cases "isWriting ch") (simp_all add: tcp_shutdown_def shutdownInLoop_def)
qed

lemma maybe_shutdown:
  assumes "conn_ok interest t" "tc_state t = kConnected"
  obtains t' where "(if close' then tcp_shutdown True t else Inr t) = Inr t'" "conn_ok interest t'"
    "tc_state t' = (if close' then kDisconnecting else kConnected)" "tc_pool t' = tc_pool t" "output_of t' = output_of t"
    "tc_wire t' = tc_wire t" "tc_inputBuffer t' = tc_inputBuffer t" "tc_outputBuffer t' = tc_outputBuffer t"
proof -
  obtain s where s: "tcp_shutdown True t = Inr (t\<lparr>tc_state := kDisconnecting, tc_writeShut := s\<rparr>)" by (rule shutdown_ok [OF assms])
  let ?t = "t\<lparr>tc_state := kDisconnecting, tc_writeShut := s\<rparr>"
  have out: "output_of ?t = output_of t" by (simp add: output_of_def cong: option.case_cong)
  then have "conn_ok interest ?t" using assms(1) by (simp add: conn_ok_def)
  then have closed: "close' \<Longrightarrow> thesis" using s out by (intro that [of ?t]) simp_all
  have "\<not> close' \<Longrightarrow> thesis" using assms by (intro that [of t]) simp_all
  then show ?thesis using closed by blast
qed

lemma sendBuffer_ok:
  assumes "epoll_ok ctl interest" "conn_ok interest t" "tc_state t = kConnected"
    and "w \<noteq> BrokenPipe" "\<And>n. w = Wrote n \<Longrightarrow> n \<le> length (readable (po_memory (tc_pool t)) buf)"
    and "int (length (readable (po_memory (tc_pool t)) buf)) \<le> room t" and b: "buf_ok (po_memory (tc_pool t)) buf"
  obtains t' where "tcp_sendBuffer ctl True t (Some buf) w = Inr (Some (retrieveAll buf), t')" "conn_ok interest t'"
    "tc_wire t' @ output_of t' = tc_wire t @ output_of t @ readable (po_memory (tc_pool t)) buf" "send_frame t t'"
proof -
  let ?m = "po_memory (tc_pool t)"
  obtain blk bs where pk: "buf_peek (Some buf) = Inr (blk, pb_offset buf + pb_readerIndex buf)" "?m blk = Some bs"
    and rd: "\<And>k n. int (k + n) \<le> pb_writerIndex buf - pb_readerIndex buf \<Longrightarrow>
       read_block ?m blk (pb_offset buf + pb_readerIndex buf + int k) n = Inr (take n (drop k (readable ?m buf)))"
    by (rule peek_ok [OF b]) blast
  have d: "read_block ?m blk (pb_offset buf + pb_readerIndex buf) (length (readable ?m buf)) = Inr (readable ?m buf)"
    using rd [of 0 "length (readable ?m buf)"] readable_length(1) [OF b] by simp
  have "int (length (readable ?m buf)) < 2 ^ 64" using b readable_length(1) [OF b] by (auto simp: buf_ok_def)
  then obtain t' where "sendInLoop ctl t (readable ?m buf) w = Inr t'" "conn_ok interest t'"
    "tc_wire t' @ output_of t' = tc_wire t @ output_of t @ readable ?m buf" "send_frame t t'"
    using sendInLoop_ok [OF assms(1,2) _ assms(4-6)] assms(3) by auto
  then show ?thesis using that pk(1) d assms(3) readable_length(2) [OF b]
    by (simp add: tcp_sendBuffer_def buf_readableBytes_def internal_def buf_retrieveAll_def)
qed

subsection \<open>The invariant of a connection of the server\<close>

text \<open>
  An established connection whose two buffers do not overlap, on a thread whose cache has a region for the
  response; \<open>k\<close> more responses can be made before the cache is trimmed.
\<close>

definition http_ok :: "('k \<Rightarrow> int \<rightharpoonup> int \<times> nat) \<Rightarrow> nat \<Rightarrow> 'k tcp \<Rightarrow> bool" where
  "http_ok interest k t \<longleftrightarrow> conn_ok interest t \<and> (\<exists>inp out. tc_inputBuffer t = Some inp \<and> tc_outputBuffer t = Some out \<and>
     buf_ok (po_memory (tc_pool t)) inp \<and> windows_apart out inp \<and> spare_ready k [out, inp] (tc_pool t))"

definition input_of :: "'k tcp \<Rightarrow> char list" where
  "input_of t = (case tc_inputBuffer t of None \<Rightarrow> [] | Some buf \<Rightarrow> readable (po_memory (tc_pool t)) buf)"

lemma spare_ready_window:
  "spare_ready k [a, b] p \<Longrightarrow> same_window a' a \<Longrightarrow> same_window b' b \<Longrightarrow> spare_ready k [a', b'] p"
  unfolding spare_ready_def spares_def by (simp add: same_window_apart)

text \<open>The first half of \<open>onRequest\<close>: the response is in a buffer of its own, and nothing else has changed.\<close>

lemma response_rendered:
  assumes ok: "http_ok interest (Suc k) t" and len: "length (render_response r) \<le> 16384"
  obtains inp out buf n cs m where "tc_inputBuffer t = Some inp" "tc_outputBuffer t = Some out" "windows_apart out inp"
    "Buffer_new (tc_pool t) obj 16384 = Inr (Some buf, tc_pool t\<lparr>po_caches := cs\<rparr>)"
    "appendToBuffer r (tc_pool t\<lparr>po_caches := cs\<rparr>) (Some buf) =
      Inr (Some (buf\<lparr>pb_writerIndex := n\<rparr>), tc_pool t\<lparr>po_caches := cs, po_memory := m\<rparr>)"
    "buf_ok m (buf\<lparr>pb_writerIndex := n\<rparr>)" "readable m (buf\<lparr>pb_writerIndex := n\<rparr>) = render_response r"
    "lent k [out, inp] (buf\<lparr>pb_writerIndex := n\<rparr>) (tc_pool t\<lparr>po_caches := cs, po_memory := m\<rparr>)"
    "readable m inp = readable (po_memory (tc_pool t)) inp" "buf_ok m inp"
    "conn_ok interest (t\<lparr>tc_pool := tc_pool t\<lparr>po_caches := cs, po_memory := m\<rparr>\<rparr>)"
    "output_of (t\<lparr>tc_pool := tc_pool t\<lparr>po_caches := cs, po_memory := m\<rparr>\<rparr>) = output_of t"
    "room (t\<lparr>tc_pool := tc_pool t\<lparr>po_caches := cs, po_memory := m\<rparr>\<rparr>) = room t"
proof -
  let ?p = "tc_pool t"
  obtain inp out where c: "conn_ok interest t" "tc_inputBuffer t = Some inp" "tc_outputBuffer t = Some out"
    "buf_ok (po_memory ?p) inp" "windows_apart out inp" "spare_ready (Suc k) [out, inp] ?p" using ok unfolding http_ok_def by blast
  have out: "buf_ok (po_memory ?p) out" by (rule conn_out [OF c(1,3)])
  obtain buf cs where b: "Buffer_new ?p obj 16384 = Inr (Some buf, ?p\<lparr>po_caches := cs\<rparr>)" "lent k [out, inp] buf (?p\<lparr>po_caches := cs\<rparr>)"
    "buf_ok (po_memory ?p) buf" "readable (po_memory ?p) buf = []" "list_all (windows_apart buf) [out, inp]" "pb_writerIndex buf = 0"
    "pb_length buf = 16384" "pb_maxCapacity buf = INT_MAX" by (rule lend_spare [OF c(6)])
  obtain n m where wr: "appendToBuffer r (?p\<lparr>po_caches := cs\<rparr>) (Some buf) =
      Inr (Some (buf\<lparr>pb_writerIndex := n\<rparr>), ?p\<lparr>po_caches := cs, po_memory := m\<rparr>)" "buf_ok m (buf\<lparr>pb_writerIndex := n\<rparr>)"
    "readable m (buf\<lparr>pb_writerIndex := n\<rparr>) = render_response r" "writes_in buf (po_memory ?p) m"
    using write_strings_frame [of "?p\<lparr>po_caches := cs\<rparr>" buf "response_parts r"] b len
    by (auto simp: appendToBuffer_def render_response_def)
  have m: "readable m out = readable (po_memory ?p) out \<and> buf_ok m out" "readable m inp = readable (po_memory ?p) inp \<and> buf_ok m inp"
    using writes_inD [OF wr(4)] out c(4) b(5) by simp_all
  let ?p2 = "?p\<lparr>po_caches := cs, po_memory := m\<rparr>" and ?buf = "buf\<lparr>pb_writerIndex := n\<rparr>"
  let ?t2 = "t\<lparr>tc_pool := ?p2\<rparr>"
  have t2: "conn_ok interest ?t2" "output_of ?t2 = output_of t" "room ?t2 = room t"
    using conn_pool [OF c(1,3), of ?p2] m by simp_all
  have lent2: "lent k [out, inp] ?buf ?p2"
    using lent_write [of k "[out, inp]" ?buf "?p\<lparr>po_caches := cs\<rparr>" m] b(2) wr(2,4) by simp
  show ?thesis by (rule that [OF c(2,3,5) b(1) wr(1-3) lent2]) (use m t2 in simp_all)
qed

lemma onRequest_ok:
  fixes req cb
  defines "r \<equiv> cb req (HttpResponse_new (close_requested req))"
  assumes k: "epoll_ok ctl interest" and ok: "http_ok interest (Suc k) t" and st: "tc_state t = kConnected"
    and len: "length (render_response r) \<le> 16384" "int (length (render_response r)) \<le> room t"
    and w: "w \<noteq> BrokenPipe" "\<And>n. w = Wrote n \<Longrightarrow> n \<le> length (render_response r)"
  shows "\<exists>t'. hs_onRequest cb ctl obj w t req = Inr t' \<and> http_ok interest k t' \<and> input_of t' = input_of t \<and>
    tc_wire t' @ output_of t' = tc_wire t @ output_of t @ render_response r \<and>
    tc_state t' = (if rs_closeConnection r then kDisconnecting else kConnected)"
proof -
  let ?p = "tc_pool t"
  obtain inp out buf n cs m where c: "tc_inputBuffer t = Some inp" "tc_outputBuffer t = Some out" "windows_apart out inp"
    and b: "Buffer_new ?p obj 16384 = Inr (Some buf, ?p\<lparr>po_caches := cs\<rparr>)" "appendToBuffer r (?p\<lparr>po_caches := cs\<rparr>) (Some buf) =
      Inr (Some (buf\<lparr>pb_writerIndex := n\<rparr>), ?p\<lparr>po_caches := cs, po_memory := m\<rparr>)" "buf_ok m (buf\<lparr>pb_writerIndex := n\<rparr>)"
      "readable m (buf\<lparr>pb_writerIndex := n\<rparr>) = render_response r"
    and lent2: "lent k [out, inp] (buf\<lparr>pb_writerIndex := n\<rparr>) (?p\<lparr>po_caches := cs, po_memory := m\<rparr>)"
    and m: "readable m inp = readable (po_memory ?p) inp" "buf_ok m inp"
    and t2: "conn_ok interest (t\<lparr>tc_pool := ?p\<lparr>po_caches := cs, po_memory := m\<rparr>\<rparr>)"
      "output_of (t\<lparr>tc_pool := ?p\<lparr>po_caches := cs, po_memory := m\<rparr>\<rparr>) = output_of t"
      "room (t\<lparr>tc_pool := ?p\<lparr>po_caches := cs, po_memory := m\<rparr>\<rparr>) = room t"
    by (rule response_rendered [OF ok len(1), of obj])
  let ?p2 = "?p\<lparr>po_caches := cs, po_memory := m\<rparr>" and ?buf = "buf\<lparr>pb_writerIndex := n\<rparr>"
  let ?t2 = "t\<lparr>tc_pool := ?p2\<rparr>"
  obtain t3 where t3: "tcp_sendBuffer ctl True ?t2 (Some ?buf) w = Inr (Some (retrieveAll ?buf), t3)" "conn_ok interest t3"
    "tc_wire t3 @ output_of t3 = tc_wire t @ output_of t @ render_response r" "send_frame ?t2 t3"
    using sendBuffer_ok [OF k t2(1), of w ?buf] st w len(2) b(3,4) t2 by auto
  obtain m3 n3 where f: "tc_state t3 = kConnected" "tc_inputBuffer t3 = Some inp" "tc_pool t3 = ?p\<lparr>po_caches := cs, po_memory := m3\<rparr>"
    "writes_in out m m3" "tc_outputBuffer t3 = Some (out\<lparr>pb_writerIndex := n3\<rparr>)"
    using t3(4) c(1,2) st unfolding send_frame_def by auto
  have inp: "readable m3 inp = readable (po_memory ?p) inp \<and> buf_ok m3 inp" using writes_inD [OF f(4)] m c(3) by simp
  have "lent k [out, inp] (retrieveAll ?buf) (?p2\<lparr>po_memory := m3\<rparr>)" using lent_other [OF lent2, of out m3] f(4) by simp
  then obtain cs' where d: "Buffer_destroy (tc_pool t3) (Some (retrieveAll ?buf)) = Inr (tc_pool t3\<lparr>po_caches := cs'\<rparr>)"
    "spare_ready k [out, inp] (tc_pool t3\<lparr>po_caches := cs'\<rparr>)" unfolding f(3) by (rule return_spare) simp_all
  obtain t4 where t4: "(if rs_closeConnection r then tcp_shutdown True t3 else Inr t3) = Inr t4" "conn_ok interest t4"
    "tc_state t4 = (if rs_closeConnection r then kDisconnecting else kConnected)" "tc_pool t4 = tc_pool t3" "output_of t4 = output_of t3"
    "tc_wire t4 = tc_wire t3" "tc_inputBuffer t4 = Some inp" "tc_outputBuffer t4 = Some (out\<lparr>pb_writerIndex := n3\<rparr>)"
    by (rule maybe_shutdown [OF t3(2) f(1), of "rs_closeConnection r"]) (use f in auto)
  let ?t5 = "t4\<lparr>tc_pool := tc_pool t3\<lparr>po_caches := cs'\<rparr>\<rparr>"
  have "hs_onRequest cb ctl obj w t req = Inr ?t5"
    unfolding hs_onRequest_def using b(1,2) t3(1) t4(1,4) d(1) unfolding r_def by (simp add: Let_def)
  moreover have "conn_ok interest ?t5" "output_of ?t5 = output_of t3"
    using conn_pool [OF t4(2,8), of "tc_pool t3\<lparr>po_caches := cs'\<rparr>"] conn_out [OF t4(2,8)] t4(4,5) by simp_all
  moreover have "spare_ready k [out\<lparr>pb_writerIndex := n3\<rparr>, inp] (tc_pool ?t5)"
    using d(2) by (auto intro: spare_ready_window simp: same_window_def)
  ultimately show ?thesis using t3(3) t4 inp f(3) c by (intro exI [of _ ?t5]) (simp add: http_ok_def input_of_def)
qed

subsection \<open>Messages\<close>

text \<open>What the parser leaves of the connection: only the indices of the input buffer have moved.\<close>

lemma parsed_conn:
  assumes ok: "http_ok interest k t" and p: "parse_text c (input_of t) = Inr (b, d, rest)"
  obtains buf where "parseRequest (po_memory (tc_pool t)) c (tc_inputBuffer t) = Inr (b, d, Some buf)"
    "http_ok interest k (t\<lparr>tc_inputBuffer := Some buf\<rparr>)" "input_of (t\<lparr>tc_inputBuffer := Some buf\<rparr>) = rest"
    "output_of (t\<lparr>tc_inputBuffer := Some buf\<rparr>) = output_of t" "room (t\<lparr>tc_inputBuffer := Some buf\<rparr>) = room t"
    "\<forall>inp. tc_inputBuffer t = Some inp \<longrightarrow> consumed buf inp"
proof -
  obtain inp out where c: "conn_ok interest t" "tc_inputBuffer t = Some inp" "tc_outputBuffer t = Some out"
    "buf_ok (po_memory (tc_pool t)) inp" "windows_apart out inp" "spare_ready k [out, inp] (tc_pool t)" using ok unfolding http_ok_def by blast
  obtain buf where b: "parseRequest (po_memory (tc_pool t)) c (Some inp) = Inr (b, d, Some buf)" "buf_ok (po_memory (tc_pool t)) buf"
    "readable (po_memory (tc_pool t)) buf = rest"
    using parseRequest_refines [OF c(4), of c] p c(2) by (auto simp: parse_refines_def input_of_def)
  have con: "consumed buf inp" using parseRequest_window [OF b(1)] by simp
  then have win: "same_window buf inp" by (simp add: consumed_def)
  let ?t = "t\<lparr>tc_inputBuffer := Some buf\<rparr>"
  have o: "output_of ?t = output_of t" "room ?t = room t" by (simp_all add: output_of_def room_def cong: option.case_cong)
  have "conn_ok interest ?t" using c(1) o(1) by (simp add: conn_ok_def)
  moreover have "windows_apart out buf" using c(5) same_window_apart(2) [OF win] by simp
  moreover have "spare_ready k [out, buf] (tc_pool t)" by (rule spare_ready_window [OF c(6) _ win]) simp
  ultimately have "http_ok interest k ?t" using b(2) c(3) by (simp add: http_ok_def)
  then show ?thesis using that [of buf] b c(2) o con by (simp add: input_of_def)
qed

text \<open>A message that completes a request.\<close>

lemma onMessage_complete:
  assumes "epoll_ok ctl interest" "http_ok interest (Suc k) (hs_conn h)" "tc_state (hs_conn h) = kConnected"
    and "hs_context h = Some c" "parse_text c (input_of (hs_conn h)) = Inr (True, \<lparr>hc_state = kGotAll, hc_request = req\<rparr>, rest)"
    and "r = cb req (HttpResponse_new (close_requested req))"
    and "length (render_response r) \<le> 16384" "int (length (render_response r)) \<le> room (hs_conn h)"
    and "w' \<noteq> BrokenPipe" "\<And>n. w' = Wrote n \<Longrightarrow> n \<le> length (render_response r)"
  shows "\<exists>h'. hs_onMessage cb ctl obj w w' h = Inr h' \<and> http_ok interest k (hs_conn h') \<and> hs_context h' = Some HttpContext_new \<and>
    input_of (hs_conn h') = rest \<and>
    tc_wire (hs_conn h') @ output_of (hs_conn h') = tc_wire (hs_conn h) @ output_of (hs_conn h) @ render_response r \<and>
    tc_state (hs_conn h') = (if rs_closeConnection r then kDisconnecting else kConnected)"
proof -
  let ?t = "hs_conn h" and ?d = "\<lparr>hc_state = kGotAll, hc_request = req\<rparr>"
  obtain buf where b: "parseRequest (po_memory (tc_pool ?t)) c (tc_inputBuffer ?t) = Inr (True, ?d, Some buf)"
    "http_ok interest (Suc k) (?t\<lparr>tc_inputBuffer := Some buf\<rparr>)" "input_of (?t\<lparr>tc_inputBuffer := Some buf\<rparr>) = rest"
    "output_of (?t\<lparr>tc_inputBuffer := Some buf\<rparr>) = output_of ?t" "room (?t\<lparr>tc_inputBuffer := Some buf\<rparr>) = room ?t"
    by (rule parsed_conn [OF assms(2,5)])
  obtain t' where t': "hs_onRequest cb ctl obj w' (?t\<lparr>tc_inputBuffer := Some buf\<rparr>) req = Inr t'" "http_ok interest k t'" "input_of t' = rest"
    "tc_wire t' @ output_of t' = tc_wire ?t @ output_of ?t @ render_response r"
    "tc_state t' = (if rs_closeConnection r then kDisconnecting else kConnected)"
    using onRequest_ok [OF assms(1) b(2), of cb req w' obj] assms(3,7-10) b(3-5) unfolding assms(6) by auto
  have "reset ?d = HttpContext_new" by (simp add: reset_def rq_swap_def HttpContext_new_def)
  then have "hs_onMessage cb ctl obj w w' h = Inr (h\<lparr>hs_conn := t', hs_context := Some HttpContext_new\<rparr>)"
    using assms(4) b(1) t'(1) by (simp add: hs_onMessage_def Let_def gotAll_def)
  then show ?thesis using t' by simp
qed

text \<open>
  A request that arrives complete is answered: the parser takes exactly the request from the input buffer, and what goes
  onto the wire or waits behind the bytes already queued is the rendered response of the callback, whatever part of it the
  kernel accepts at once. The connection starts to close exactly when the response says so, the context is ready for the
  next request, and the memory of the response is back in the cache of the thread.
\<close>

theorem http_request_answered:
  assumes "epoll_ok ctl interest" "http_ok interest (Suc k) (hs_conn h)" "tc_state (hs_conn h) = kConnected"
    and "hs_context h = Some HttpContext_new" "request_ok req" "input_of (hs_conn h) = print_request req @ rest"
    and "r = cb req (HttpResponse_new (close_requested req))"
    and "length (render_response r) \<le> 16384" "int (length (render_response r)) \<le> room (hs_conn h)"
    and "w' \<noteq> BrokenPipe" "\<And>n. w' = Wrote n \<Longrightarrow> n \<le> length (render_response r)"
  shows "\<exists>h'. hs_onMessage cb ctl obj w w' h = Inr h' \<and> http_ok interest k (hs_conn h') \<and> hs_context h' = Some HttpContext_new \<and>
    input_of (hs_conn h') = rest \<and>
    tc_wire (hs_conn h') @ output_of (hs_conn h') = tc_wire (hs_conn h) @ output_of (hs_conn h) @ render_response r \<and>
    tc_state (hs_conn h') = (if rs_closeConnection r then kDisconnecting else kConnected)"
proof -
  have "parse_text HttpContext_new (input_of (hs_conn h)) = Inr (True, \<lparr>hc_state = kGotAll, hc_request = req\<rparr>, rest)"
    using parse_print_request [OF assms(5)] assms(6) by simp
  from onMessage_complete [where cb = cb, OF assms(1-4) this assms(7-9) assms(10,11)] show ?thesis .
qed

text \<open>A line that is no request line is answered with the status 400, and the connection starts to close.\<close>

theorem bad_request_answered:
  assumes "epoll_ok ctl interest" "http_ok interest k (hs_conn h)" "tc_state (hs_conn h) = kConnected"
    and "hs_context h = Some c" "parse_text c (input_of (hs_conn h)) = Inr (False, d, rest)"
    and "int (length bad_request) \<le> room (hs_conn h)"
    and "w \<noteq> BrokenPipe" "\<And>n. w = Wrote n \<Longrightarrow> n \<le> length bad_request"
  shows "\<exists>h'. hs_onMessage cb ctl obj w w' h = Inr h' \<and> conn_ok interest (hs_conn h') \<and> hs_context h' = Some d \<and>
    tc_wire (hs_conn h') @ output_of (hs_conn h') = tc_wire (hs_conn h) @ output_of (hs_conn h) @ bad_request \<and>
    tc_state (hs_conn h') = kDisconnecting"
proof -
  let ?t = "hs_conn h"
  obtain buf where b: "parseRequest (po_memory (tc_pool ?t)) c (tc_inputBuffer ?t) = Inr (False, d, Some buf)"
    "http_ok interest k (?t\<lparr>tc_inputBuffer := Some buf\<rparr>)" "output_of (?t\<lparr>tc_inputBuffer := Some buf\<rparr>) = output_of ?t"
    "room (?t\<lparr>tc_inputBuffer := Some buf\<rparr>) = room ?t"
    by (rule parsed_conn [OF assms(2,5)])
  have "conn_ok interest (?t\<lparr>tc_inputBuffer := Some buf\<rparr>)" using b(2) unfolding http_ok_def by blast
  moreover have "length bad_request = 28" by (simp add: bad_request_def)
  ultimately obtain t1 where t1: "sendInLoop ctl (?t\<lparr>tc_inputBuffer := Some buf\<rparr>) bad_request w = Inr t1" "conn_ok interest t1"
    "tc_wire t1 @ output_of t1 = tc_wire ?t @ output_of ?t @ bad_request" "tc_state t1 = kConnected"
    using sendInLoop_ok [OF assms(1), of "?t\<lparr>tc_inputBuffer := Some buf\<rparr>" w bad_request] assms(3,6-8) b(3,4)
    by (auto simp: send_frame_def)
  obtain t2 where t2: "(if True then tcp_shutdown True t1 else Inr t1) = Inr t2" "conn_ok interest t2"
    "tc_state t2 = (if True then kDisconnecting else kConnected)" "output_of t2 = output_of t1" "tc_wire t2 = tc_wire t1"
    by (rule maybe_shutdown [OF t1(2,4)])
  have "\<not> gotAll d" using parse_text_rejected [OF assms(5)] by (simp add: gotAll_def)
  then have "hs_onMessage cb ctl obj w w' h = Inr (h\<lparr>hs_conn := t2, hs_context := Some d\<rparr>)"
    using assms(3,4) b(1) t1(1) t2(1) by (simp add: hs_onMessage_def Let_def tcp_send_def)
  then show ?thesis using t1(3) t2 by simp
qed

subsection \<open>A sample server\<close>

text \<open>
  A thread with one cached region of 16 KiB, in block 7, the input of a connection in block 0 and its output in
  block 1; the region is the first element of the subpage at the first page of its chunk.
\<close>

definition sample_entry :: Entry where
  "sample_entry = newEntry 0 None 47244640256 16384"

definition sample_serving :: "SizeClasses \<Rightarrow> string \<Rightarrow> Pool" where
  "sample_serving sc s = (sample_caching sc (sample_chunk\<lparr>pc_subpages := [Some 0]\<rparr>))\<lparr>
     po_subpages := [0 \<mapsto> \<lparr>sp_pageShifts = 13, sp_runOffset = 0, sp_runSize = 16384, sp_bitmap = [1], sp_maxNumElems = 1,
       sp_bitmapLength = 1, sp_nextAvail = - 1, sp_numAvail = 0, sp_prev = None, sp_next = None, sp_doNotDestroy = True,
       sp_elemSize = 16384, sp_chunk = Some 0\<rparr>],
     po_caches := [0 \<mapsto> sample_cache\<lparr>tc_smallSubPageCaches := replicate 35 (MemoryRegionCache_new 256 SMALL) @
       [(MemoryRegionCache_new 256 SMALL)\<lparr>mr_queue := [sample_entry]\<rparr>]\<rparr>],
     po_memory := [0 \<mapsto> s, 1 \<mapsto> replicate 64 (CHR ''.''), 7 \<mapsto> replicate 16384 (CHR ''.'')]\<rparr>"

definition sample_out :: PooledByteBuf where
  "sample_out = empty_buf\<lparr>pb_memory := Some 1, pb_tmpBuf := Some (1, 0)\<rparr>"

definition sample_http :: "SizeClasses \<Rightarrow> string \<Rightarrow> (int \<rightharpoonup> int \<times> nat) HttpConnection" where
  "sample_http sc s = \<lparr>hs_conn = (sample_conn kConnected)\<lparr>tc_channels := [5 \<mapsto> (Channel_new 9)\<lparr>ch_index := kAdded, ch_events := 3\<rparr>],
     tc_poller := \<lparr>ep_channels = [9 \<mapsto> 5], ep_kernel = [9 \<mapsto> (3, 5)], ep_eventsSize = 16\<rparr>, tc_pool := sample_serving sc s,
     tc_inputBuffer := Some (text_buf s), tc_outputBuffer := Some sample_out, tc_wire := []\<rparr>, hs_context = Some HttpContext_new\<rparr>"

lemma class_35:
  assumes "sc_ok 13 24 sc"
  shows "size2SizeIdx sc 16384 = Inr 35"
proof -
  obtain i where i: "size2SizeIdx sc 16384 = Inr (int i)" "best_class 4 i 16384" "i < 4 * (24 - 5)"
    by (rule size2SizeIdx_ok [OF assms, of 16384]) simp_all
  have "class_size 4 35 = 16384" "class_size 4 34 < 16384" by (simp_all add: class_size_def)
  then have "\<not> i < 35" "\<not> 35 < i" using i(2) class_size_le_iff [of 4 i 34] unfolding best_class_def by fastforce+
  then show ?thesis using i(1) by simp
qed

lemma sample_spare: "spare (sample_serving sc s) 0 sample_entry (7, 0)"
proof -
  have h: "isSubpage 47244640256" "calculateRunOffset 47244640256 = 0"
    "calculateBitmapIdx 47244640256 = 0" "shl 0 13 = 0" "i32 0 = 0" by code_simp+
  have "buf_ok (po_memory (sample_serving sc s)) (spare_buf (7, 0))" by (simp add: buf_ok_def spare_buf_def sample_serving_def)
  then show ?thesis
    unfolding spare_def sample_entry_def newEntry_def Entry.simps h
    by (intro exI [of _ "sample_chunk\<lparr>pc_subpages := [Some 0]\<rparr>"] exI [of _ 0] exI [of _ "the (po_subpages (sample_serving sc s) 0)"])
      (simp add: sample_serving_def sample_caching_def sample_chunk_def h getE_def)
qed

lemma sample_caching_ok:
  assumes "sc_ok 13 24 sc" "m_smallMaxSizeIdx sc = 38"
  shows "caching 8000 (sample_serving sc s) 0 0 [sample_entry]"
  unfolding caching_def using class_35 [OF assms(1)] assms(2)
  by (intro exI [of _ "the (po_caches (sample_serving sc s) 0)"] exI [of _ "sample_arena sc"] exI [of _ 35]
      exI [of _ "(MemoryRegionCache_new 256 SMALL)\<lparr>mr_queue := [sample_entry]\<rparr>"])
    (simp add: sample_serving_def sample_caching_def sample_cache_def sample_arena_def cacheForSmall_def cache_def region_def getN_def
      nth_append MemoryRegionCache_new_def)

lemma sample_http_ok:
  assumes "sc_ok 13 24 sc" "m_smallMaxSizeIdx sc = 38" "int (length s) \<le> INT_MAX"
  shows "http_ok (\<lambda>k. k) 8000 (hs_conn (sample_http sc s))" "input_of (hs_conn (sample_http sc s)) = s"
    "output_of (hs_conn (sample_http sc s)) = []" "room (hs_conn (sample_http sc s)) = 64"
proof -
  let ?t = "hs_conn (sample_http sc s)"
  show out: "output_of ?t = []"
    by (simp add: sample_http_def output_of_def readable_def sample_out_def empty_buf_def sample_buf_def sample_serving_def)
  show "room ?t = 64" by (simp add: room_def sample_http_def sample_out_def empty_buf_def)
  show "input_of ?t = s" by (simp add: input_of_def sample_http_def readable_def text_buf_def sample_serving_def)
  have "poller_inv (\<lambda>k. k) (tc_channels ?t) (tc_poller ?t)"
    by (auto simp: poller_inv_def sample_http_def Channel_new_def index_defs)
  then have conn: "conn_ok (\<lambda>k. k) ?t" unfolding conn_ok_def out
    by (simp add: sample_http_def sample_conn_def Channel_new_def isReading_def isWriting_def poll_bits)
      (simp add: buf_ok_def sample_out_def empty_buf_def sample_buf_def sample_serving_def)
  have ap: "windows_apart sample_out (text_buf s)" "windows_apart (spare_buf (7, 0)) sample_out" "windows_apart (spare_buf (7, 0)) (text_buf s)"
    by (simp_all add: windows_apart_def sample_out_def text_buf_def spare_buf_def empty_buf_def)
  have "spares [sample_out, text_buf s] (sample_serving sc s) 0 [sample_entry] [(7, 0)]" using sample_spare ap by (simp add: spares_def)
  then have "spare_ready 8000 [sample_out, text_buf s] (sample_serving sc s)"
    unfolding spare_ready_def using sample_caching_ok [OF assms(1,2)] by blast
  moreover have "buf_ok (po_memory (sample_serving sc s)) (text_buf s)" using assms(3) by (simp add: buf_ok_def text_buf_def sample_serving_def)
  ultimately show "http_ok (\<lambda>k. k) 8000 ?t" using conn ap(1) by (simp add: http_ok_def sample_http_def)
qed

end
