(* ===== verification/Http_Receive.thy ===== *)
theory Http_Receive
  imports Http_Connection
begin

section \<open>From the socket to the answer\<close>

text \<open>
  \<open>TcpConnection::handleRead\<close> with the callback of the HTTP server: what \<open>readv\<close> delivers goes into the input buffer and to the
  parser. A request is answered when its last piece arrives, however it was cut.
\<close>

subsection \<open>Operations\<close>

definition hs_handleRead ::
  "http_callback \<Rightarrow> 'k epoll_ctl \<Rightarrow> PooledByteBuf \<Rightarrow> write_outcome \<Rightarrow> write_outcome \<Rightarrow> (nat list \<Rightarrow> int + char list)
   \<Rightarrow> 'k HttpConnection \<Rightarrow> 'k HttpConnection result" where
  "hs_handleRead cb ctl obj w w' readv h =
     (let t = hs_conn h
      in bindE (readFd (tc_pool t) (tc_inputBuffer t) readv) (\<lambda>(savedErrno, n, buf, p).
         let h = h\<lparr>hs_conn := t\<lparr>tc_inputBuffer := buf, tc_pool := p\<rparr>\<rparr>
         in if n > 0 then hs_onMessage cb ctl obj w w' h
            else if n = 0 then bindE (handleClose ctl (hs_conn h)) (\<lambda>t. Inr (hs_onConnection (h\<lparr>hs_conn := t\<rparr>)))
            else Inr h))"

text \<open>Readable events one after the other, each with the bytes that it brings.\<close>

primrec hs_receive ::
  "http_callback \<Rightarrow> 'k epoll_ctl \<Rightarrow> PooledByteBuf \<Rightarrow> write_outcome \<Rightarrow> write_outcome \<Rightarrow> char list list
   \<Rightarrow> 'k HttpConnection \<Rightarrow> 'k HttpConnection result" where
  "hs_receive cb ctl obj w w' [] h = Inr h"
| "hs_receive cb ctl obj w w' (bs # bss) h =
     bindE (hs_handleRead cb ctl obj w w' (\<lambda>_. Inr bs) h) (\<lambda>h. hs_receive cb ctl obj w w' bss h)"

lemma hs_receive_append:
  "hs_receive cb ctl obj w w' (as @ bs) h = bindE (hs_receive cb ctl obj w w' as h) (\<lambda>h. hs_receive cb ctl obj w w' bs h)"
proof (induction as arbitrary: h)
  case (Cons a as)
  then show ?case by (cases "hs_handleRead cb ctl obj w w' (\<lambda>_. Inr a) h") simp_all
qed simp

subsection \<open>Reading\<close>

text \<open>Bytes that fit are appended, as a write would append them.\<close>

lemma readFd_fits:
  assumes ok: "buf_ok (po_memory p) buf" and fits: "int (length bs) \<le> pb_length buf - pb_writerIndex buf"
    and cap: "pb_length buf \<le> pb_maxCapacity buf" and rv: "\<And>ns. readv ns = Inr bs"
  obtains m where "readFd p (Some buf) readv =
      Inr (None, int (length bs), Some (buf\<lparr>pb_writerIndex := pb_writerIndex buf + int (length bs)\<rparr>), p\<lparr>po_memory := m\<rparr>)"
    "buf_ok m (buf\<lparr>pb_writerIndex := pb_writerIndex buf + int (length bs)\<rparr>)"
    "readable m (buf\<lparr>pb_writerIndex := pb_writerIndex buf + int (length bs)\<rparr>) = readable (po_memory p) buf @ bs"
    "writes_in buf (po_memory p) m"
proof -
  obtain blk cs where b: "pb_memory buf = Some blk" "po_memory p blk = Some cs" "pb_tmpBuf buf = Some (blk, pb_offset buf)"
    "0 \<le> pb_offset buf" "0 \<le> pb_readerIndex buf" "pb_readerIndex buf \<le> pb_writerIndex buf" "pb_writerIndex buf \<le> pb_length buf"
    "pb_length buf \<le> pb_maxLength buf" "pb_offset buf + pb_maxLength buf \<le> int (length cs)" "int (length cs) \<le> INT_MAX"
    by (rule buf_okE [OF ok])
  have i: "i32 (pb_length buf - pb_writerIndex buf) = pb_length buf - pb_writerIndex buf"
    "i32 (pb_writerIndex buf + int (length bs)) = pb_writerIndex buf + int (length bs)"
    "i32 (pb_offset buf + pb_writerIndex buf) = pb_offset buf + pb_writerIndex buf" using b fits by (intro i32_id; linarith)+
  have "as_size_t (pb_length buf - pb_writerIndex buf) = pb_length buf - pb_writerIndex buf"
    using b by (simp add: as_size_t_def take_bit_int_eq_self)
  then have n: "nat (as_size_t (writableBytes buf)) = nat (pb_length buf - pb_writerIndex buf)" by (simp add: writableBytes_def i)
  obtain m where m: "pb_writeBytes p buf bs 0 (length bs) =
      Inr (buf\<lparr>pb_writerIndex := pb_writerIndex buf + int (length bs)\<rparr>, p\<lparr>po_memory := m\<rparr>)"
    "buf_ok m (buf\<lparr>pb_writerIndex := pb_writerIndex buf + int (length bs)\<rparr>)"
    "readable m (buf\<lparr>pb_writerIndex := pb_writerIndex buf + int (length bs)\<rparr>) = readable (po_memory p) buf @ bs"
    "writes_in buf (po_memory p) m" using write_frame [OF ok _ cap, of bs] fits by (metis diff_ge_0_iff_ge le_diff_eq add.commute)
  have "ensureWritable p buf (int (length bs)) = Inr (buf, p)"
    using fits cap b i(2) by (simp add: ensureWritable_def Let_def)
  then have "write_block (po_memory p) blk (pb_offset buf + pb_writerIndex buf) bs = Inr m"
    using m(1) b(1) i fits by (auto simp: pb_writeBytes_def setBytes_def idx_def result_simps dest: arg_cong [where f = po_memory])
  moreover have le: "length bs \<le> nat (pb_length buf - pb_writerIndex buf)" using fits by linarith
  ultimately have "readFd p (Some buf) readv =
      Inr (None, int (length bs), Some (buf\<lparr>pb_writerIndex := pb_writerIndex buf + int (length bs)\<rparr>), p\<lparr>po_memory := m\<rparr>)"
    using le b(3) rv i(2) n by (simp add: readFd_def internal_def buf_begin_def Let_def)
  then show ?thesis by (rule that [OF _ m(2-4)])
qed

lemma spare_ready_other:
  assumes r: "spare_ready k used p" and u: "u \<in> set used" and m: "writes_in u (po_memory p) m"
  shows "spare_ready k used (p\<lparr>po_memory := m\<rparr>)"
proof -
  obtain t a q ws where c: "q \<noteq> []" "caching k p t a q" "spares used p a q ws" using r unfolding spare_ready_def by blast
  have "buf_ok m (spare_buf v)" if "v \<in> set ws" "buf_ok (po_memory p) (spare_buf v)" for v
    using writes_inD [OF m that(2)] spares_apart [OF c(3) u that(1)] by (simp add: windows_apart_sym)
  then have "spares used (p\<lparr>po_memory := m\<rparr>) a q ws" by (intro spares_mono [OF c(3)]) simp_all
  then show ?thesis unfolding spare_ready_def using c(1,2) by (metis caching_memory)
qed

text \<open>The bytes that fit into the input buffer as it is.\<close>

definition in_room :: "'k tcp \<Rightarrow> int" where
  "in_room t = (case tc_inputBuffer t of None \<Rightarrow> 0 | Some buf \<Rightarrow> pb_length buf - pb_writerIndex buf)"

definition receiving :: "('k \<Rightarrow> int \<rightharpoonup> int \<times> nat) \<Rightarrow> nat \<Rightarrow> 'k tcp \<Rightarrow> bool" where
  "receiving interest k t \<longleftrightarrow> http_ok interest k t \<and> (\<forall>inp. tc_inputBuffer t = Some inp \<longrightarrow> pb_length inp \<le> pb_maxCapacity inp)"

lemma receive_bytes:
  assumes ok: "receiving interest k t" and fits: "int (length bs) \<le> in_room t"
  obtains buf p where "readFd (tc_pool t) (tc_inputBuffer t) (\<lambda>_. Inr bs) = Inr (None, int (length bs), Some buf, p)"
    "receiving interest k (t\<lparr>tc_inputBuffer := Some buf, tc_pool := p\<rparr>)"
    "input_of (t\<lparr>tc_inputBuffer := Some buf, tc_pool := p\<rparr>) = input_of t @ bs"
    "output_of (t\<lparr>tc_inputBuffer := Some buf, tc_pool := p\<rparr>) = output_of t"
    "room (t\<lparr>tc_inputBuffer := Some buf, tc_pool := p\<rparr>) = room t"
    "in_room (t\<lparr>tc_inputBuffer := Some buf, tc_pool := p\<rparr>) = in_room t - int (length bs)"
proof -
  obtain inp out where c: "conn_ok interest t" "tc_inputBuffer t = Some inp" "tc_outputBuffer t = Some out"
    "buf_ok (po_memory (tc_pool t)) inp" "windows_apart out inp" "spare_ready k [out, inp] (tc_pool t)"
    and cap: "pb_length inp \<le> pb_maxCapacity inp" using ok unfolding receiving_def http_ok_def by blast
  let ?buf = "inp\<lparr>pb_writerIndex := pb_writerIndex inp + int (length bs)\<rparr>"
  have "int (length bs) \<le> pb_length inp - pb_writerIndex inp" using fits c(2) by (simp add: in_room_def)
  then obtain m where r: "readFd (tc_pool t) (Some inp) (\<lambda>_. Inr bs) = Inr (None, int (length bs), Some ?buf, tc_pool t\<lparr>po_memory := m\<rparr>)"
    "buf_ok m ?buf" "readable m ?buf = readable (po_memory (tc_pool t)) inp @ bs" "writes_in inp (po_memory (tc_pool t)) m"
    by (rule readFd_fits [OF c(4) _ cap, of bs "\<lambda>_. Inr bs"]) simp_all
  let ?p = "tc_pool t\<lparr>po_memory := m\<rparr>" and ?t = "t\<lparr>tc_inputBuffer := Some ?buf, tc_pool := tc_pool t\<lparr>po_memory := m\<rparr>\<rparr>"
  have out: "readable m out = readable (po_memory (tc_pool t)) out" "buf_ok m out"
    using writes_inD [OF r(4) conn_out [OF c(1,3)]] c(5) by (simp_all add: windows_apart_sym)
  have o: "output_of ?t = output_of t" "room ?t = room t" using out c(3) by (simp_all add: output_of_def room_def)
  have "conn_ok interest ?t" using c(1,3) out o(1) by (simp add: conn_ok_def)
  moreover have "spare_ready k [out, inp] ?p" by (rule spare_ready_other [OF c(6) _ r(4)]) simp
  then have "spare_ready k [out, ?buf] ?p" by (rule spare_ready_window) (simp_all add: same_window_def)
  ultimately have "receiving interest k ?t" using c(3,5) r(2) cap by (simp add: receiving_def http_ok_def)
  then show ?thesis using that [of ?buf ?p] r(1,3) o c(2) by (simp add: input_of_def in_room_def)
qed

subsection \<open>Pieces of a request\<close>

text \<open>A run of the parser that ends in the last piece waits at the end of every piece before.\<close>

lemma parse_text_prefix:
  "parse_text c (s @ u) = Inr (True, d, rest) \<Longrightarrow> length rest < length u \<Longrightarrow>
   \<exists>c' t. parse_text c s = Inr (True, c', t) \<and> \<not> gotAll c' \<and> parse_text c' (t @ u) = Inr (True, d, rest)"
proof (induction c s rule: parse_text.induct)
  case (1 c s)
  note whole = "1.prems"(1) [unfolded parse_text.simps [of c "s @ u"]] and now = parse_text.simps [of c s]
  show ?case
  proof (cases "hc_state c = kExpectRequestLine \<or> hc_state c = kExpectHeaders")
    case False
    then show ?thesis using whole by (cases "hc_state c") simp_all
  next
    case True
    show ?thesis
    proof (cases "next_line s")
      case None
      with True have "parse_text c s = Inr (True, c, s)" by (auto simp: now)
      then show ?thesis using True "1.prems"(1) by (auto simp: gotAll_def)
    next
      case (Some lt)
      obtain l t where lt: "lt = (l, t)" by (cases lt)
      have n: "next_line (s @ u) = Some (l, t @ u)" using next_line_append [of s l t u] Some lt by simp
      show ?thesis
      proof (cases "hc_state c = kExpectRequestLine")
        case True
        then obtain r where r: "processRequestLine (hc_request c) l = Inr (True, r)"
          "parse_text (c\<lparr>hc_request := r, hc_state := kExpectHeaders\<rparr>) (t @ u) = Inr (True, d, rest)"
          using whole n by (auto simp: result_simps split: if_splits)
        then show ?thesis using "1.IH"(1) [OF True Some lt [symmetric] r(1) refl] True Some lt "1.prems"(2) by (simp add: now)
      next
        case False
        then have h: "hc_state c = kExpectHeaders" using True by simp
        then have col: "from_char (CHR '':'') l \<noteq> []" using whole n "1.prems"(2) by (auto split: if_splits)
        then show ?thesis using "1.IH"(2) [OF h Some lt [symmetric]] whole n h Some lt "1.prems"(2) by (simp add: now)
      qed
    qed
  qed
qed

text \<open>A piece after which the parser waits changes the input buffer and the context only.\<close>

lemma piece_waits:
  assumes ok: "receiving interest k (hs_conn h)" and c: "hs_context h = Some c" and bs: "bs \<noteq> []" "int (length bs) \<le> in_room (hs_conn h)"
    and p: "parse_text c (input_of (hs_conn h) @ bs) = Inr (True, d, rest)" "\<not> gotAll d"
  obtains h' where "hs_handleRead cb ctl obj w w' (\<lambda>_. Inr bs) h = Inr h'" "receiving interest k (hs_conn h')" "hs_context h' = Some d"
    "input_of (hs_conn h') = rest" "output_of (hs_conn h') = output_of (hs_conn h)" "tc_wire (hs_conn h') = tc_wire (hs_conn h)"
    "tc_state (hs_conn h') = tc_state (hs_conn h)" "room (hs_conn h') = room (hs_conn h)"
    "in_room (hs_conn h) - int (length bs) \<le> in_room (hs_conn h')"
proof -
  let ?t = "hs_conn h"
  obtain buf p1 where r: "readFd (tc_pool ?t) (tc_inputBuffer ?t) (\<lambda>_. Inr bs) = Inr (None, int (length bs), Some buf, p1)"
    and t1: "receiving interest k (?t\<lparr>tc_inputBuffer := Some buf, tc_pool := p1\<rparr>)"
      "input_of (?t\<lparr>tc_inputBuffer := Some buf, tc_pool := p1\<rparr>) = input_of ?t @ bs"
      "output_of (?t\<lparr>tc_inputBuffer := Some buf, tc_pool := p1\<rparr>) = output_of ?t" "room (?t\<lparr>tc_inputBuffer := Some buf, tc_pool := p1\<rparr>) = room ?t"
      "in_room (?t\<lparr>tc_inputBuffer := Some buf, tc_pool := p1\<rparr>) = in_room ?t - int (length bs)"
    by (rule receive_bytes [OF ok bs(2)])
  let ?t1 = "?t\<lparr>tc_inputBuffer := Some buf, tc_pool := p1\<rparr>"
  have http: "http_ok interest k ?t1" "pb_length buf \<le> pb_maxCapacity buf" using t1(1) by (simp_all add: receiving_def)
  have w0: "0 \<le> pb_writerIndex buf" using http(1) by (auto simp: http_ok_def buf_ok_def)
  have "parse_text c (input_of ?t1) = Inr (True, d, rest)" using p(1) t1(2) by simp
  then obtain buf2 where b: "parseRequest (po_memory (tc_pool ?t1)) c (tc_inputBuffer ?t1) = Inr (True, d, Some buf2)"
    "http_ok interest k (?t1\<lparr>tc_inputBuffer := Some buf2\<rparr>)" "input_of (?t1\<lparr>tc_inputBuffer := Some buf2\<rparr>) = rest"
    "output_of (?t1\<lparr>tc_inputBuffer := Some buf2\<rparr>) = output_of ?t1" "room (?t1\<lparr>tc_inputBuffer := Some buf2\<rparr>) = room ?t1"
    and con: "\<forall>inp. tc_inputBuffer ?t1 = Some inp \<longrightarrow> consumed buf2 inp"
    by (rule parsed_conn [OF http(1)])
  have "consumed buf2 buf" using con by simp
  then have in2: "pb_length buf2 \<le> pb_maxCapacity buf2" "in_room ?t1 \<le> in_room (?t1\<lparr>tc_inputBuffer := Some buf2\<rparr>)"
    using http(2) w0 by (auto simp: consumed_def in_room_def)
  let ?h = "h\<lparr>hs_conn := ?t1\<lparr>tc_inputBuffer := Some buf2\<rparr>, hs_context := Some d\<rparr>"
  have run: "hs_handleRead cb ctl obj w w' (\<lambda>_. Inr bs) h = Inr ?h"
    using r bs(1) c b(1) p(2) by (simp add: hs_handleRead_def hs_onMessage_def Let_def)
  have "receiving interest k (hs_conn ?h)" using b(2) in2(1) by (simp add: receiving_def)
  then show ?thesis using b in2(2) t1 by (intro that [OF run]) simp_all
qed

lemma pieces_wait:
  assumes "receiving interest k (hs_conn h)" "hs_context h = Some c" "\<forall>bs \<in> set bss. bs \<noteq> []"
    and "int (length (concat bss)) \<le> in_room (hs_conn h)" "parse_text c (input_of (hs_conn h) @ concat bss @ u) = Inr (True, d, rest)"
    and "length rest < length u"
  shows "\<exists>h' c'. hs_receive cb ctl obj w w' bss h = Inr h' \<and> receiving interest k (hs_conn h') \<and> hs_context h' = Some c' \<and>
    parse_text c' (input_of (hs_conn h') @ u) = Inr (True, d, rest) \<and> output_of (hs_conn h') = output_of (hs_conn h) \<and>
    tc_wire (hs_conn h') = tc_wire (hs_conn h) \<and> tc_state (hs_conn h') = tc_state (hs_conn h) \<and> room (hs_conn h') = room (hs_conn h) \<and>
    in_room (hs_conn h) - int (length (concat bss)) \<le> in_room (hs_conn h')"
  using assms
proof (induction bss arbitrary: h c)
  case (Cons bs bss)
  have len: "length rest < length (concat bss @ u)" "int (length bs) \<le> in_room (hs_conn h)" "bs \<noteq> []" using Cons.prems by simp_all
  obtain d1 t where p: "parse_text c (input_of (hs_conn h) @ bs) = Inr (True, d1, t)" "\<not> gotAll d1"
    "parse_text d1 (t @ concat bss @ u) = Inr (True, d, rest)"
    using parse_text_prefix [of c "input_of (hs_conn h) @ bs" "concat bss @ u", OF _ len(1)] Cons.prems(5) by auto
  obtain h1 where h1: "hs_handleRead cb ctl obj w w' (\<lambda>_. Inr bs) h = Inr h1" "receiving interest k (hs_conn h1)" "hs_context h1 = Some d1"
    "input_of (hs_conn h1) = t" "output_of (hs_conn h1) = output_of (hs_conn h)" "tc_wire (hs_conn h1) = tc_wire (hs_conn h)"
    "tc_state (hs_conn h1) = tc_state (hs_conn h)" "room (hs_conn h1) = room (hs_conn h)"
    "in_room (hs_conn h) - int (length bs) \<le> in_room (hs_conn h1)" by (rule piece_waits [OF Cons.prems(1,2) len(3,2) p(1,2)])
  have "int (length (concat bss)) \<le> in_room (hs_conn h1)" using h1(9) Cons.prems(4) by simp
  then obtain h' c' where "hs_receive cb ctl obj w w' bss h1 = Inr h'" "receiving interest k (hs_conn h')" "hs_context h' = Some c'"
    "parse_text c' (input_of (hs_conn h') @ u) = Inr (True, d, rest)" "output_of (hs_conn h') = output_of (hs_conn h1)"
    "tc_wire (hs_conn h') = tc_wire (hs_conn h1)" "tc_state (hs_conn h') = tc_state (hs_conn h1)" "room (hs_conn h') = room (hs_conn h1)"
    "in_room (hs_conn h1) - int (length (concat bss)) \<le> in_room (hs_conn h')"
    using Cons.IH [OF h1(2,3)] Cons.prems(3,6) p(3) h1(4) by auto
  then show ?case using h1 by (intro exI [of _ h'] exI [of _ c']) simp
qed auto


subsection \<open>A sample\<close>

text \<open>The sample server with an empty input buffer of 128 bytes.\<close>

definition sample_listen :: "SizeClasses \<Rightarrow> (int \<rightharpoonup> int \<times> nat) HttpConnection" where
  "sample_listen sc = (let h = sample_http sc (replicate 128 (CHR ''.''))
     in h\<lparr>hs_conn := (hs_conn h)\<lparr>tc_inputBuffer := Some ((text_buf (replicate 128 (CHR ''.'')))\<lparr>pb_writerIndex := 0\<rparr>)\<rparr>\<rparr>)"

lemma sample_listen_ok:
  assumes "sc_ok 13 24 sc" "m_smallMaxSizeIdx sc = 38"
  shows "receiving (\<lambda>k. k) 8000 (hs_conn (sample_listen sc))" "input_of (hs_conn (sample_listen sc)) = []"
    "output_of (hs_conn (sample_listen sc)) = []" "room (hs_conn (sample_listen sc)) = 64" "in_room (hs_conn (sample_listen sc)) = 128"
proof -
  let ?s = "replicate 128 (CHR ''.'')" and ?t = "hs_conn (sample_listen sc)"
  let ?u = "hs_conn (sample_http sc ?s)" and ?inp = "(text_buf ?s)\<lparr>pb_writerIndex := 0\<rparr>"
  have "int (length ?s) \<le> INT_MAX" by simp
  note ok = sample_http_ok [OF assms this]
  have t: "?t = ?u\<lparr>tc_inputBuffer := Some ?inp\<rparr>" by (simp add: sample_listen_def Let_def)
  have o: "output_of ?t = output_of ?u" "room ?t = room ?u" unfolding t by (simp_all add: output_of_def room_def cong: option.case_cong)
  then show "output_of ?t = []" "room ?t = 64" using ok by simp_all
  show "in_room ?t = 128" by (simp add: t in_room_def text_buf_def)
  show "input_of ?t = []" by (simp add: t input_of_def readable_def text_buf_def split: option.split)
  have i: "tc_inputBuffer ?u = Some (text_buf ?s)" "tc_outputBuffer ?u = Some sample_out" by (simp_all add: sample_http_def)
  then have u: "conn_ok (\<lambda>k. k) ?u" "buf_ok (po_memory (tc_pool ?u)) (text_buf ?s)" "windows_apart sample_out (text_buf ?s)"
    "spare_ready 8000 [sample_out, text_buf ?s] (tc_pool ?u)" using ok(1) by (simp_all add: http_ok_def)
  have "conn_ok (\<lambda>k. k) ?t" using u(1) o(1) unfolding t by (simp add: conn_ok_def)
  moreover have "buf_ok (po_memory (tc_pool ?u)) ?inp" using u(2) by (auto simp: buf_ok_def text_buf_def)
  moreover have "spare_ready 8000 [sample_out, ?inp] (tc_pool ?u)" by (rule spare_ready_window [OF u(4)]) (simp_all add: same_window_def)
  moreover have "pb_length (text_buf ?s) \<le> pb_maxCapacity (text_buf ?s)" by (simp add: text_buf_def)
  ultimately show "receiving (\<lambda>k. k) 8000 ?t" using u(3) i unfolding t by (simp add: receiving_def http_ok_def)
qed


end
