(* ===== verification/Mpsc_Queue.thy ===== *)
theory Mpsc_Queue
  imports Prelude "HOL-Library.Sublist"
begin

section \<open>The multiple-producer queue\<close>

text \<open>
  \<open>MpscQueue.h\<close>: a linked list of nodes in a store. A producer publishes its node in two atomic steps,
  the exchange of \<open>head_\<close> and the store into the \<open>next_\<close> of the node that was the head before; between
  them other producers and the consumer may run. \<open>mq_pending\<close> holds the producers between the two
  steps. The consumer is one thread; after its load of \<open>next_\<close> it touches only memory that no
  producer does, so \<open>dequeue\<close> is one step. \<open>mq_enq\<close> and \<open>mq_deq\<close> record the items in the order of the
  exchanges and of the successful calls of \<open>dequeue\<close>.
\<close>

subsection \<open>State and operations\<close>

record 'a BufferNode =
  bn_data :: "'a option"
  bn_next :: "nat option"

record 'a MpscQueue =
  mq_nodes :: "'a BufferNode store"
  mq_head :: nat
  mq_tail :: nat
  mq_fresh :: nat
  mq_pending :: "(nat \<times> nat) list"
  mq_enq :: "'a list"
  mq_deq :: "'a list"

definition MpscQueue_new :: "'a MpscQueue" where
  "MpscQueue_new =
     \<lparr>mq_nodes = [0 \<mapsto> \<lparr>bn_data = None, bn_next = None\<rparr>], mq_head = 0, mq_tail = 0, mq_fresh = 1, mq_pending = [],
      mq_enq = [], mq_deq = []\<rparr>"

text \<open>\<open>new BufferNode(input)\<close> and the exchange of the head.\<close>

definition enqueue_exchange :: "'a MpscQueue \<Rightarrow> 'a \<Rightarrow> 'a MpscQueue" where
  "enqueue_exchange q input =
     (let node = mq_fresh q
      in q\<lparr>mq_nodes := (mq_nodes q)(node \<mapsto> \<lparr>bn_data = Some input, bn_next = None\<rparr>), mq_head := node,
           mq_fresh := Suc node, mq_pending := mq_pending q @ [(mq_head q, node)], mq_enq := mq_enq q @ [input]\<rparr>)"

text \<open>The store of producer \<open>i\<close> into the \<open>next_\<close> of its predecessor, which must not have been deleted.\<close>

definition enqueue_store :: "'a MpscQueue \<Rightarrow> nat \<Rightarrow> 'a MpscQueue result" where
  "enqueue_store q i =
     bindE (getN (mq_pending q) i) (\<lambda>(prevhead, node).
     bindE (load (mq_nodes q) prevhead) (\<lambda>p.
       Inr (q\<lparr>mq_nodes := (mq_nodes q)(prevhead \<mapsto> p\<lparr>bn_next := Some node\<rparr>),
              mq_pending := take i (mq_pending q) @ drop (Suc i) (mq_pending q)\<rparr>)))"

text \<open>A call of \<open>enqueue\<close> that no other thread interrupts.\<close>

definition enqueue :: "'a MpscQueue \<Rightarrow> 'a \<Rightarrow> 'a MpscQueue result" where
  "enqueue q input = enqueue_store (enqueue_exchange q input) (length (mq_pending q))"

definition dequeue :: "'a MpscQueue \<Rightarrow> ('a option \<times> 'a MpscQueue) result" where
  "dequeue q =
     bindE (load (mq_nodes q) (mq_tail q)) (\<lambda>tail.
     case bn_next tail of
       None \<Rightarrow> Inr (None, q)
     | Some n \<Rightarrow>
         bindE (load (mq_nodes q) n) (\<lambda>node.
         case bn_data node of
           None \<Rightarrow> Inl NullPointer
         | Some output \<Rightarrow>
             Inr (Some output,
                  q\<lparr>mq_nodes := (mq_nodes q)(n \<mapsto> node\<lparr>bn_data := None\<rparr>, mq_tail q := None), mq_tail := n,
                    mq_deq := mq_deq q @ [output]\<rparr>)))"

definition mq_empty :: "'a MpscQueue \<Rightarrow> bool result" where
  "mq_empty q = bindE (load (mq_nodes q) (mq_tail q)) (\<lambda>tail. Inr (bn_next tail = None))"

text \<open>Every interleaving of the producers and the consumer.\<close>

inductive mq_reach :: "'a MpscQueue \<Rightarrow> bool" where
  new: "mq_reach MpscQueue_new"
| exchange: "mq_reach q \<Longrightarrow> mq_reach (enqueue_exchange q x)"
| publish: "mq_reach q \<Longrightarrow> enqueue_store q i = Inr q' \<Longrightarrow> mq_reach q'"
| take: "mq_reach q \<Longrightarrow> dequeue q = Inr (r, q') \<Longrightarrow> mq_reach q'"

subsection \<open>Invariant\<close>

text \<open>
  \<open>ns\<close> are the nodes in the order of the exchanges, the first the consumer's, each other one holding an
  item. A node points to the next one unless the producer of the next one has not stored yet.
\<close>

definition links :: "nat list \<Rightarrow> (nat \<times> nat) set" where
  "links ns = set (zip ns (tl ns))"

definition mq_chain :: "'a MpscQueue \<Rightarrow> nat list \<Rightarrow> 'a list \<Rightarrow> bool" where
  "mq_chain q ns xs \<longleftrightarrow> ns \<noteq> [] \<and> hd ns = mq_tail q \<and> last ns = mq_head q \<and> distinct ns \<and>
     (\<forall>a \<in> set ns. a < mq_fresh q) \<and> set (mq_pending q) \<subseteq> links ns \<and> distinct (mq_pending q) \<and>
     list_all2 (\<lambda>a x. \<exists>e. mq_nodes q a = Some e \<and> bn_data e = Some x) (tl ns) xs \<and>
     (\<forall>(a, b) \<in> links ns. \<exists>e. mq_nodes q a = Some e \<and> bn_next e = (if (a, b) \<in> set (mq_pending q) then None else Some b)) \<and>
     (\<exists>e. mq_nodes q (last ns) = Some e \<and> bn_next e = None)"

definition mq_inv :: "'a MpscQueue \<Rightarrow> bool" where
  "mq_inv q \<longleftrightarrow> (\<exists>ns xs. mq_chain q ns xs \<and> mq_enq q = mq_deq q @ xs)"

lemma links_Cons: "links (a # b # ns) = insert (a, b) (links (b # ns))"
  by (simp add: links_def)

lemma links_single [simp]: "links [a] = {}"
  by (simp add: links_def)

lemma links_snoc: "ns \<noteq> [] \<Longrightarrow> links (ns @ [b]) = insert (last ns, b) (links ns)"
proof (induction ns rule: induct_list012)
  case (3 x y zs)
  then show ?case by (simp add: links_Cons insert_commute)
qed (simp_all add: links_def)

lemma links_in: "(a, b) \<in> links ns \<Longrightarrow> a \<in> set ns \<and> b \<in> set (tl ns)"
  by (auto simp: links_def dest: set_zip_leftD set_zip_rightD)

lemma links_functional: "distinct ns \<Longrightarrow> (a, b) \<in> links ns \<Longrightarrow> (a, c) \<in> links ns \<Longrightarrow> b = c"
proof (induction ns rule: induct_list012)
  case (3 x y zs)
  then show ?case using links_in [of a _ "y # zs"] by (auto simp: links_Cons)
qed (simp_all add: links_def)

lemma links_last: "distinct ns \<Longrightarrow> (last ns, b) \<notin> links ns"
proof (induction ns rule: induct_list012)
  case (3 x y zs)
  then show ?case using last_in_set [of "y # zs"] by (auto simp: links_Cons split: if_splits)
qed (simp_all add: links_def)

lemma chainI:
  assumes "ns \<noteq> []" "hd ns = mq_tail q" "last ns = mq_head q" "distinct ns" "\<And>a. a \<in> set ns \<Longrightarrow> a < mq_fresh q"
    and "set (mq_pending q) \<subseteq> links ns" "distinct (mq_pending q)"
    and "list_all2 (\<lambda>a x. \<exists>e. mq_nodes q a = Some e \<and> bn_data e = Some x) (tl ns) xs"
    and "\<And>a b. (a, b) \<in> links ns \<Longrightarrow>
      \<exists>e. mq_nodes q a = Some e \<and> bn_next e = (if (a, b) \<in> set (mq_pending q) then None else Some b)"
    and "\<exists>e. mq_nodes q (last ns) = Some e \<and> bn_next e = None"
  shows "mq_chain q ns xs"
  using assms unfolding mq_chain_def by blast

lemma chainD:
  assumes "mq_chain q ns xs"
  shows "ns \<noteq> []" "hd ns = mq_tail q" "last ns = mq_head q" "distinct ns" "a \<in> set ns \<Longrightarrow> a < mq_fresh q"
    "set (mq_pending q) \<subseteq> links ns" "distinct (mq_pending q)"
    "list_all2 (\<lambda>a x. \<exists>e. mq_nodes q a = Some e \<and> bn_data e = Some x) (tl ns) xs"
    "(a, b) \<in> links ns \<Longrightarrow>
      \<exists>e. mq_nodes q a = Some e \<and> bn_next e = (if (a, b) \<in> set (mq_pending q) then None else Some b)"
    "\<exists>e. mq_nodes q (last ns) = Some e \<and> bn_next e = None"
  using assms unfolding mq_chain_def by blast+

lemma chain_exchange:
  assumes c: "mq_chain q ns xs"
  shows "mq_chain (enqueue_exchange q x) (ns @ [mq_fresh q]) (xs @ [x])"
proof -
  let ?n = "mq_fresh q" and ?q = "enqueue_exchange q x"
  note C = chainD [OF c]
  have new: "?n \<notin> set ns" "mq_head q \<in> set ns" using C(1,3,5) last_in_set by fastforce+
  have l: "links (ns @ [?n]) = insert (mq_head q, ?n) (links ns)" using links_snoc [OF C(1)] C(3) by simp
  have out: "(a, ?n) \<notin> links ns" for a using links_in [of a ?n ns] new(1) list.set_sel(2) [OF C(1)] by blast
  have q: "mq_pending ?q = mq_pending q @ [(mq_head q, ?n)]" "mq_head ?q = ?n" "mq_tail ?q = mq_tail q" "mq_fresh ?q = Suc ?n"
    "mq_nodes ?q = (mq_nodes q)(?n \<mapsto> \<lparr>bn_data = Some x, bn_next = None\<rparr>)"
    by (simp_all add: enqueue_exchange_def Let_def)
  have nodes: "mq_nodes ?q a = mq_nodes q a" if "a \<in> set ns" for a using that new by (auto simp: q(5))
  show ?thesis
  proof (rule chainI)
    show "list_all2 (\<lambda>a x. \<exists>e. mq_nodes ?q a = Some e \<and> bn_data e = Some x) (tl (ns @ [?n])) (xs @ [x])"
    proof -
      have "list_all2 (\<lambda>a x. \<exists>e. mq_nodes ?q a = Some e \<and> bn_data e = Some x) (tl ns) xs"
        using C(8) by (rule list.rel_mono_strong) (use nodes list.set_sel(2) [OF C(1)] in auto)
      then show ?thesis using C(1) by (simp add: list_all2_appendI q(5))
    qed
  next
    fix a b assume ab: "(a, b) \<in> links (ns @ [?n])"
    show "\<exists>e. mq_nodes ?q a = Some e \<and> bn_next e = (if (a, b) \<in> set (mq_pending ?q) then None else Some b)"
    proof (cases "(a, b) = (mq_head q, ?n)")
      case True
      then show ?thesis using C(10) nodes [OF new(2)] C(3) by (auto simp: q(1))
    next
      case False
      then have "(a, b) \<in> links ns" using ab l by auto
      then show ?thesis using C(9) [of a b] nodes [of a] links_in [of a b ns] False by (auto simp: q(1))
    qed
  next
    show "distinct (mq_pending ?q)" using C(6,7) out by (auto simp: q(1))
  qed (use C(1-6) new l in \<open>auto simp: q less_Suc_eq\<close>)
qed

lemma chain_store:
  assumes c: "mq_chain q ns xs" and i: "i < length (mq_pending q)"
  obtains q' where "enqueue_store q i = Inr q'" "mq_chain q' ns xs" "mq_enq q' = mq_enq q" "mq_deq q' = mq_deq q"
    "length (mq_pending q') < length (mq_pending q)"
proof -
  note C = chainD [OF c]
  obtain a b where ab: "mq_pending q ! i = (a, b)" by fastforce
  let ?pend = "take i (mq_pending q) @ drop (Suc i) (mq_pending q)"
  have abl: "(a, b) \<in> links ns" using C(6) nth_mem [OF i] ab by auto
  then obtain e where e: "mq_nodes q a = Some e" using C(9) by blast
  let ?q = "q\<lparr>mq_nodes := (mq_nodes q)(a \<mapsto> e\<lparr>bn_next := Some b\<rparr>), mq_pending := ?pend\<rparr>"
  have run: "enqueue_store q i = Inr ?q" using ab e i by (simp add: enqueue_store_def)
  have split: "mq_pending q = take i (mq_pending q) @ (a, b) # drop (Suc i) (mq_pending q)"
    using id_take_nth_drop [OF i] ab by simp
  then have dp: "distinct (take i (mq_pending q) @ (a, b) # drop (Suc i) (mq_pending q))" using C(7) by simp
  have set: "set ?pend = set (mq_pending q) - {(a, b)}" using dp by (subst split) auto
  have last: "last ns \<noteq> a" using links_last [OF C(4)] abl by blast
  have "mq_chain ?q ns xs"
  proof (rule chainI)
    fix x y assume xy: "(x, y) \<in> links ns"
    show "\<exists>f. mq_nodes ?q x = Some f \<and> bn_next f = (if (x, y) \<in> set (mq_pending ?q) then None else Some y)"
    proof (cases "x = a")
      case True
      then have "y = b" using links_functional [OF C(4)] xy abl by blast
      then show ?thesis using True set by simp
    next
      case False
      then show ?thesis using C(9) [OF xy] set by auto
    qed
  next
    show "list_all2 (\<lambda>z x. \<exists>f. mq_nodes ?q z = Some f \<and> bn_data f = Some x) (tl ns) xs"
      using C(8) by (rule list.rel_mono_strong) (use e in auto)
  next
    show "set (mq_pending ?q) \<subseteq> links ns" using C(6) set by auto
  qed (use C(1-5,10) last dp in auto)
  moreover have "length ?pend < length (mq_pending q)" using i by simp
  ultimately show ?thesis using that [OF run] by simp
qed

lemma chain_dequeue_none:
  assumes "mq_chain q [a] xs"
  shows "dequeue q = Inr (None, q)" "xs = []" "mq_pending q = []"
  using assms by (auto simp: mq_chain_def dequeue_def)

lemma chain_dequeue_pending:
  assumes c: "mq_chain q (a # b # ns) xs" and "(a, b) \<in> set (mq_pending q)"
  shows "dequeue q = Inr (None, q)"
  using chainD(9) [OF c, of a b] chainD(2) [OF c] assms(2) by (auto simp: dequeue_def links_Cons)

lemma chain_dequeue_some:
  assumes c: "mq_chain q (a # b # ns) xs" and p: "(a, b) \<notin> set (mq_pending q)"
  obtains x ys q' where "xs = x # ys" "dequeue q = Inr (Some x, q')" "mq_chain q' (b # ns) ys" "mq_enq q' = mq_enq q"
    "mq_deq q' = mq_deq q @ [x]" "mq_pending q' = mq_pending q"
proof -
  note C = chainD [OF c]
  have d: "distinct (a # b # ns)" "mq_tail q = a" using C(2,4) by simp_all
  obtain x ys e f where xs: "xs = x # ys" and f: "mq_nodes q b = Some f" "bn_data f = Some x"
    and ys: "list_all2 (\<lambda>z x. \<exists>g. mq_nodes q z = Some g \<and> bn_data g = Some x) ns ys"
    using C(8) by (auto simp: list_all2_Cons1)
  have e: "\<exists>e. mq_nodes q a = Some e \<and> bn_next e = Some b" using C(9) [of a b] p by (auto simp: links_Cons)
  let ?q = "q\<lparr>mq_nodes := (mq_nodes q)(b \<mapsto> f\<lparr>bn_data := None\<rparr>, a := None), mq_tail := b, mq_deq := mq_deq q @ [x]\<rparr>"
  have run: "dequeue q = Inr (Some x, ?q)" using d e f by (auto simp: dequeue_def)
  have last: "last (b # ns) \<noteq> a" using d(1) last_in_set [of "b # ns"] by auto
  have "mq_chain ?q (b # ns) ys"
  proof (rule chainI)
    fix u v assume uv: "(u, v) \<in> links (b # ns)"
    have "u \<noteq> a" using links_in [OF uv] d(1) by auto
    moreover have "\<exists>e. mq_nodes q u = Some e \<and> bn_next e = (if (u, v) \<in> set (mq_pending q) then None else Some v)"
      using C(9) [of u v] uv by (simp add: links_Cons)
    ultimately show "\<exists>g. mq_nodes ?q u = Some g \<and> bn_next g = (if (u, v) \<in> set (mq_pending ?q) then None else Some v)"
      using f by (cases "u = b") auto
  next
    show "list_all2 (\<lambda>z x. \<exists>g. mq_nodes ?q z = Some g \<and> bn_data g = Some x) (tl (b # ns)) ys"
      unfolding list.sel using ys by (rule list.rel_mono_strong) (use d(1) in auto)
  next
    show "\<exists>g. mq_nodes ?q (last (b # ns)) = Some g \<and> bn_next g = None"
      using C(10) f last by (cases "last (b # ns) = b") (auto split: if_splits)
  next
    show "set (mq_pending ?q) \<subseteq> links (b # ns)" using C(6) p by (auto simp: links_Cons)
  qed (use C(3,5,7) d in auto)
  with xs run show ?thesis using that by simp
qed

lemma chain_dequeue:
  assumes c: "mq_chain q ns xs"
  obtains r q' ns' ys where "dequeue q = Inr (r, q')" "mq_chain q' ns' ys" "mq_enq q' = mq_enq q"
    "mq_deq q' @ ys = mq_deq q @ xs" "mq_pending q' = mq_pending q"
    "mq_pending q = [] \<Longrightarrow> r = (case xs of [] \<Rightarrow> None | x # _ \<Rightarrow> Some x) \<and> ys = tl xs"
proof (cases ns rule: list.exhaust [case_names Nil Cons])
  case Nil
  then show ?thesis using chainD(1) [OF c] by simp
next
  case (Cons a ms)
  show ?thesis
  proof (cases ms)
    case Nil
    then show ?thesis using that [of None q ns xs] chain_dequeue_none [of q a xs] c Cons by simp
  next
    case (Cons b ns')
    with \<open>ns = a # ms\<close> c have c: "mq_chain q (a # b # ns') xs" by simp
    show ?thesis
    proof (cases "(a, b) \<in> set (mq_pending q)")
      case True
      then have "mq_pending q \<noteq> []" by auto
      then show ?thesis using that [OF chain_dequeue_pending [OF c True] c] by simp
    next
      case False
      then obtain x ys q' where q': "xs = x # ys" "dequeue q = Inr (Some x, q')" "mq_chain q' (b # ns') ys" "mq_enq q' = mq_enq q"
        "mq_deq q' = mq_deq q @ [x]" "mq_pending q' = mq_pending q" using chain_dequeue_some [OF c False] by metis
      then show ?thesis using that [OF q'(2,3)] by simp
    qed
  qed
qed

lemma mq_reach_inv: "mq_reach q \<Longrightarrow> mq_inv q"
proof (induction rule: mq_reach.induct)
  case new
  have "mq_chain MpscQueue_new [0] []" by (rule chainI) (simp_all add: MpscQueue_new_def)
  then show ?case by (auto simp: mq_inv_def MpscQueue_new_def)
next
  case (exchange q x)
  then obtain ns xs where "mq_chain q ns xs" "mq_enq q = mq_deq q @ xs" by (auto simp: mq_inv_def)
  then show ?case unfolding mq_inv_def
    by (intro exI [of _ "ns @ [mq_fresh q]"] exI [of _ "xs @ [x]"]) (simp add: chain_exchange, simp add: enqueue_exchange_def Let_def)
next
  case (publish q i q')
  then obtain ns xs where c: "mq_chain q ns xs" "mq_enq q = mq_deq q @ xs" by (auto simp: mq_inv_def)
  moreover have "i < length (mq_pending q)" using publish.hyps(2) by (auto simp: enqueue_store_def result_simps)
  ultimately show ?case using publish.hyps(2) chain_store [OF c(1)] unfolding mq_inv_def by (metis sum.inject(2))
next
  case (take q r q')
  then obtain ns xs where c: "mq_chain q ns xs" "mq_enq q = mq_deq q @ xs" by (auto simp: mq_inv_def)
  then show ?case using take.hyps(2) chain_dequeue [OF c(1)] unfolding mq_inv_def by (metis Pair_inject sum.inject(2))
qed

subsection \<open>A queue that no producer is inserting into\<close>

text \<open>The items in the queue, in the order of their exchanges.\<close>

definition mq_items :: "'a MpscQueue \<Rightarrow> 'a list" where
  "mq_items q = drop (length (mq_deq q)) (mq_enq q)"

definition mq_quiet :: "'a MpscQueue \<Rightarrow> bool" where
  "mq_quiet q \<longleftrightarrow> mq_inv q \<and> mq_pending q = []"

text \<open>
  What a client of a queue relies on, and the loop that serves a queue until it is empty, where serving
  an item may put further ones.
\<close>

primrec drain :: "('q \<Rightarrow> 'a \<Rightarrow> 'q result) \<Rightarrow> ('q \<Rightarrow> ('a option \<times> 'q) result) \<Rightarrow> ('a \<Rightarrow> 'a list) \<Rightarrow> nat \<Rightarrow> 'q \<Rightarrow> ('a list \<times> 'q) result" where
  "drain put get run 0 q = Inl Diverges"
| "drain put get run (Suc fuel) q =
     bindE (get q) (\<lambda>(r, q).
     case r of
       None \<Rightarrow> Inr ([], q)
     | Some x \<Rightarrow>
         bindE (foldl (\<lambda>q y. bindE q (\<lambda>q. put q y)) (Inr q) (run x)) (\<lambda>q.
         bindE (drain put get run fuel q) (\<lambda>(xs, q). Inr (x # xs, q))))"

text \<open>The same on a list.\<close>

fun serve :: "('a \<Rightarrow> 'a list) \<Rightarrow> nat \<Rightarrow> 'a list \<Rightarrow> 'a list option" where
  "serve run 0 xs = None"
| "serve run (Suc fuel) [] = Some []"
| "serve run (Suc fuel) (x # xs) = map_option ((#) x) (serve run fuel (xs @ run x))"

locale fifo =
  fixes inv :: "'q \<Rightarrow> bool" and items :: "'q \<Rightarrow> 'a list"
    and put :: "'q \<Rightarrow> 'a \<Rightarrow> 'q result" and get :: "'q \<Rightarrow> ('a option \<times> 'q) result"
  assumes put_ok: "inv q \<Longrightarrow> \<exists>q'. put q x = Inr q' \<and> inv q' \<and> items q' = items q @ [x]"
    and get_nil: "inv q \<Longrightarrow> items q = [] \<Longrightarrow> get q = Inr (None, q)"
    and get_cons: "inv q \<Longrightarrow> items q = x # xs \<Longrightarrow> \<exists>q'. get q = Inr (Some x, q') \<and> inv q' \<and> items q' = xs"
begin

lemma put_all_ok:
  "inv q \<Longrightarrow> \<exists>q'. foldl (\<lambda>q y. bindE q (\<lambda>q. put q y)) (Inr q) ys = Inr q' \<and> inv q' \<and> items q' = items q @ ys"
proof (induction ys arbitrary: q)
  case (Cons y ys)
  obtain q' where "put q y = Inr q'" "inv q'" "items q' = items q @ [y]" using put_ok [OF Cons.prems] by blast
  then show ?case using Cons.IH [of q'] by auto
qed simp

lemma drain_serves:
  assumes "inv q" "serve run fuel (items q) = Some ys"
  shows "\<exists>q'. drain put get run fuel q = Inr (ys, q') \<and> inv q' \<and> items q' = []"
  using assms
proof (induction fuel arbitrary: q ys)
  case (Suc fuel)
  show ?case
  proof (cases "items q")
    case Nil
    then show ?thesis using Suc.prems get_nil [OF Suc.prems(1) Nil] by auto
  next
    case (Cons x xs)
    obtain q1 where q1: "get q = Inr (Some x, q1)" "inv q1" "items q1 = xs" using get_cons [OF Suc.prems(1) Cons] by blast
    obtain q2 where q2: "foldl (\<lambda>q y. bindE q (\<lambda>q. put q y)) (Inr q1) (run x) = Inr q2" "inv q2" "items q2 = xs @ run x"
      using put_all_ok [OF q1(2)] q1(3) by blast
    obtain zs where zs: "ys = x # zs" "serve run fuel (xs @ run x) = Some zs" using Suc.prems(2) Cons by auto
    then show ?thesis using Suc.IH [OF q2(2)] q1 q2 by auto
  qed
qed simp

end

lemma mq_quiet_items: "mq_chain q ns xs \<Longrightarrow> mq_enq q = mq_deq q @ xs \<Longrightarrow> mq_items q = xs"
  by (simp add: mq_items_def)

interpretation mq: fifo mq_quiet mq_items enqueue dequeue
proof
  fix q :: "'b MpscQueue" and x
  assume q: "mq_quiet q"
  then obtain ns xs where c: "mq_chain q ns xs" "mq_enq q = mq_deq q @ xs" "mq_pending q = []" by (auto simp: mq_quiet_def mq_inv_def)
  let ?e = "enqueue_exchange q x"
  have e: "mq_enq ?e = mq_enq q @ [x]" "mq_deq ?e = mq_deq q" "length (mq_pending ?e) = 1"
    using c(3) by (simp_all add: enqueue_exchange_def Let_def)
  obtain q' where "enqueue_store ?e 0 = Inr q'" "mq_chain q' (ns @ [mq_fresh q]) (xs @ [x])" "mq_enq q' = mq_enq ?e"
    "mq_deq q' = mq_deq ?e" "length (mq_pending q') < 1"
    using chain_store [OF chain_exchange [OF c(1)], of 0 x] e(3) by (metis zero_less_one)
  then show "\<exists>q'. enqueue q x = Inr q' \<and> mq_quiet q' \<and> mq_items q' = mq_items q @ [x]"
    using c e by (auto simp: enqueue_def mq_quiet_def mq_inv_def mq_items_def)
next
  fix q :: "'b MpscQueue"
  assume q: "mq_quiet q" and n: "mq_items q = []"
  then obtain ns where c: "mq_chain q ns []" "mq_pending q = []" by (auto simp: mq_quiet_def mq_inv_def mq_items_def)
  obtain a where "ns = [a]" using chainD(1,8) [OF c(1)] by (cases ns) auto
  then show "dequeue q = Inr (None, q)" using chain_dequeue_none c(1) by blast
next
  fix q :: "'b MpscQueue" and x xs
  assume q: "mq_quiet q" and n: "mq_items q = x # xs"
  then obtain ns where c: "mq_chain q ns (x # xs)" "mq_pending q = []" "mq_enq q = mq_deq q @ x # xs"
    by (auto simp: mq_quiet_def mq_inv_def mq_items_def)
  obtain r q' ns' ys where "dequeue q = Inr (r, q')" "mq_chain q' ns' ys" "mq_enq q' = mq_enq q"
    "mq_deq q' @ ys = mq_deq q @ x # xs" "mq_pending q' = mq_pending q" "r = Some x" "ys = xs"
    using chain_dequeue [OF c(1)] c(2) by (metis list.simps(5) list.sel(3))
  then show "\<exists>q'. dequeue q = Inr (Some x, q') \<and> mq_quiet q' \<and> mq_items q' = xs"
    using c by (auto simp: mq_quiet_def mq_inv_def mq_items_def)
qed

subsection \<open>Properties\<close>

text \<open>
  C31: In every interleaving of the producers with the consumer: the items taken are a prefix of the
  items put, in the order of the exchanges; \<open>dequeue\<close> never touches a deleted node; and the node that a
  producer still has to link its own to has not been deleted.
\<close>

theorem mpsc_safe:
  assumes "mq_reach q" "i < length (mq_pending q)"
  shows "prefix (mq_deq q) (mq_enq q) \<and> (\<exists>r q'. dequeue q = Inr (r, q')) \<and> (\<exists>q'. enqueue_store q i = Inr q')"
proof -
  obtain ns xs where c: "mq_chain q ns xs" "mq_enq q = mq_deq q @ xs"
    using mq_reach_inv [OF assms(1)] by (auto simp: mq_inv_def)
  have "\<exists>r q'. dequeue q = Inr (r, q')" by (rule chain_dequeue [OF c(1)]) blast
  moreover have "\<exists>q'. enqueue_store q i = Inr q'" by (rule chain_store [OF c(1) assms(2)]) blast
  ultimately show ?thesis using c(2) by simp
qed

text \<open>Witness for C31: two producers have exchanged the head, the second one has stored, the first has not.\<close>

theorem mpsc_safe_witness:
  "\<exists>q :: nat MpscQueue. mq_reach q \<and> mq_enq q = [7, 8] \<and> prefix (mq_deq q) (mq_enq q) \<and> (\<exists>q'. enqueue_store q 0 = Inr q')"
proof -
  let ?q = "enqueue_exchange (enqueue_exchange MpscQueue_new 7) 8 :: nat MpscQueue"
  obtain q where q: "enqueue_store ?q 1 = Inr q" "length (mq_pending q) = 1" "mq_enq q = [7, 8]"
    by (simp add: enqueue_store_def enqueue_exchange_def MpscQueue_new_def Let_def)
  have "mq_reach ?q" by (intro mq_reach.intros)
  then have "mq_reach q" using q(1) by (rule mq_reach.publish)
  then show ?thesis using mpsc_safe [of q 0] q(2,3) by auto
qed

text \<open>
  When no producer is between its two steps, a call of \<open>dequeue\<close> hands out the oldest item, and none
  only if the queue is empty; a call of \<open>enqueue\<close> appends its item.
\<close>

theorem mpsc_quiet_fifo:
  assumes "mq_reach q" "mq_pending q = []"
  shows "\<exists>q1 q2. dequeue q = Inr (case mq_items q of [] \<Rightarrow> None | x # _ \<Rightarrow> Some x, q1) \<and> mq_items q1 = tl (mq_items q) \<and>
    enqueue q y = Inr q2 \<and> mq_items q2 = mq_items q @ [y]"
proof -
  have q: "mq_quiet q" using mq_reach_inv [OF assms(1)] assms(2) by (simp add: mq_quiet_def)
  obtain q2 where "enqueue q y = Inr q2" "mq_items q2 = mq_items q @ [y]" using mq.put_ok [OF q] by blast
  moreover have "\<exists>q1. dequeue q = Inr (case mq_items q of [] \<Rightarrow> None | x # _ \<Rightarrow> Some x, q1) \<and> mq_items q1 = tl (mq_items q)"
    using mq.get_nil [OF q] mq.get_cons [OF q] by (cases "mq_items q") auto
  ultimately show ?thesis by blast
qed

end
