(* ===== verification/Event_Loop.thy ===== *)
theory Event_Loop
  imports Poller Mpsc_Queue
begin

section \<open>The event loop\<close>

text \<open>
  \<open>EventLoop.h\<close> and \<open>EventLoop.cpp\<close>: the operations of a loop
  on its poller, its channels and its queue of functors, run by one thread; then the interleaving of
  the loop's thread with the threads that queue functors. An argument \<open>inLoop\<close> says whether the caller
  is the thread of the loop. \<open>el_wakeups\<close> is the counter of the event descriptor, \<open>el_log\<close> the callbacks
  and functors that were run.
\<close>

subsection \<open>State and operations\<close>

datatype 'f activity = Callback nat | RunFunctor 'f

record ('k, 'f) EventLoop =
  el_looping :: bool
  el_callingPendingFuncs :: bool
  el_quit :: bool
  el_poller :: "'k EPollPoller"
  el_channels :: "Channel store"
  el_activeChannels :: "nat list"
  el_currentActiveChannel :: "nat option"
  el_eventHandling :: bool
  el_funcs :: "'f MpscQueue"
  el_wakeupChannel :: nat
  el_wakeups :: nat
  el_log :: "'f activity list"

type_synonym ('k, 'f) loop = "('k, 'f) EventLoop"

definition assertInLoopThread :: "bool \<Rightarrow> unit result" where
  "assertInLoopThread inLoop = (if inLoop then Inr () else Inl ProcessExit)"

text \<open>The constructor: the wakeup channel on the event descriptor \<open>fd\<close> starts reading. A thread has one loop.\<close>

definition EventLoop_new :: "'k epoll_ctl \<Rightarrow> 'k \<Rightarrow> bool \<Rightarrow> nat \<Rightarrow> int \<Rightarrow> ('k, 'f) loop result" where
  "EventLoop_new ctl k loopInThisThread c fd =
     (if loopInThisThread then Inl ProcessExit
      else
        let hp = [c \<mapsto> (Channel_new fd)\<lparr>ch_readCallback := Some 0\<rparr>]
        in bindE (enableReading ctl hp (EPollPoller_new k) c) (\<lambda>(hp, p).
             Inr \<lparr>el_looping = False, el_callingPendingFuncs = False, el_quit = False, el_poller = p, el_channels = hp,
                  el_activeChannels = [], el_currentActiveChannel = None, el_eventHandling = False,
                  el_funcs = MpscQueue_new, el_wakeupChannel = c, el_wakeups = 0, el_log = []\<rparr>))"

definition EventLoop_destroy :: "'k epoll_ctl \<Rightarrow> ('k, 'f) loop \<Rightarrow> ('k, 'f) loop result" where
  "EventLoop_destroy ctl l =
     bindE (disableAll ctl (el_channels l) (el_poller l) (el_wakeupChannel l)) (\<lambda>(hp, p).
     bindE (channel_remove ctl hp p (el_wakeupChannel l)) (\<lambda>(hp, p). Inr (l\<lparr>el_channels := hp, el_poller := p\<rparr>)))"

definition loop_updateChannel :: "'k epoll_ctl \<Rightarrow> bool \<Rightarrow> ('k, 'f) loop \<Rightarrow> nat \<Rightarrow> ('k, 'f) loop result" where
  "loop_updateChannel ctl inLoop l c =
     bindE (assertInLoopThread inLoop) (\<lambda>_.
     bindE (updateChannel ctl (el_channels l) (el_poller l) c) (\<lambda>(hp, p). Inr (l\<lparr>el_channels := hp, el_poller := p\<rparr>)))"

definition loop_removeChannel :: "'k epoll_ctl \<Rightarrow> bool \<Rightarrow> ('k, 'f) loop \<Rightarrow> nat \<Rightarrow> ('k, 'f) loop result" where
  "loop_removeChannel ctl inLoop l c =
     bindE (assertInLoopThread inLoop) (\<lambda>_.
     bindE (if el_eventHandling l
            then assertE (el_currentActiveChannel l = Some c \<or> c \<notin> set (el_activeChannels l)) else Inr ()) (\<lambda>_.
     bindE (ep_removeChannel ctl (el_channels l) (el_poller l) c) (\<lambda>(hp, p). Inr (l\<lparr>el_channels := hp, el_poller := p\<rparr>))))"

definition loop_hasChannel :: "bool \<Rightarrow> ('k, 'f) loop \<Rightarrow> nat \<Rightarrow> bool result" where
  "loop_hasChannel inLoop l c =
     bindE (assertInLoopThread inLoop) (\<lambda>_.
     bindE (load (el_channels l) c) (\<lambda>ch. Inr (ep_hasChannel (el_poller l) c ch)))"

definition wakeup :: "('k, 'f) loop \<Rightarrow> ('k, 'f) loop" where
  "wakeup l = l\<lparr>el_wakeups := Suc (el_wakeups l)\<rparr>"

definition el_handleRead :: "('k, 'f) loop \<Rightarrow> ('k, 'f) loop" where
  "el_handleRead l = l\<lparr>el_wakeups := 0\<rparr>"

definition quit :: "bool \<Rightarrow> ('k, 'f) loop \<Rightarrow> ('k, 'f) loop" where
  "quit inLoop l = (let l = l\<lparr>el_quit := True\<rparr> in if \<not> inLoop then wakeup l else l)"

definition loop_queueInLoop :: "bool \<Rightarrow> ('k, 'f) loop \<Rightarrow> 'f \<Rightarrow> ('k, 'f) loop result" where
  "loop_queueInLoop inLoop l cb =
     bindE (enqueue (el_funcs l) cb) (\<lambda>q.
     let l = l\<lparr>el_funcs := q\<rparr>
     in Inr (if \<not> inLoop \<or> \<not> el_callingPendingFuncs l then wakeup l else l))"

definition runInLoop :: "bool \<Rightarrow> ('k, 'f) loop \<Rightarrow> 'f \<Rightarrow> ('k, 'f) loop result" where
  "runInLoop inLoop l cb =
     (if inLoop then Inr (l\<lparr>el_log := el_log l @ [RunFunctor cb]\<rparr>) else loop_queueInLoop inLoop l cb)"

text \<open>
  \<open>doPendingFunctors\<close>: \<open>run f\<close> are the functors that \<open>f\<close> queues when it runs. While the flag is set a call
  of \<open>queueInLoop\<close> from the loop's thread is a call of \<open>enqueue\<close>. \<open>fuel\<close> bounds the functors that are run.
\<close>

primrec pending_loop :: "('f \<Rightarrow> 'f list) \<Rightarrow> nat \<Rightarrow> 'f MpscQueue \<Rightarrow> ('f list \<times> 'f MpscQueue) result" where
  "pending_loop run 0 q = Inl Diverges"
| "pending_loop run (Suc fuel) q =
     bindE (mq_empty q) (\<lambda>e.
     if e then Inr ([], q)
     else
       bindE (drain enqueue dequeue run fuel q) (\<lambda>(fs, q).
       bindE (pending_loop run fuel q) (\<lambda>(gs, q). Inr (fs @ gs, q))))"

definition doPendingFunctors :: "('f \<Rightarrow> 'f list) \<Rightarrow> nat \<Rightarrow> ('k, 'f) loop \<Rightarrow> ('k, 'f) loop result" where
  "doPendingFunctors run fuel l =
     (let l = l\<lparr>el_callingPendingFuncs := True\<rparr>
      in bindE (pending_loop run fuel (el_funcs l)) (\<lambda>(fs, q).
           Inr (l\<lparr>el_funcs := q, el_log := el_log l @ map RunFunctor fs, el_callingPendingFuncs := False\<rparr>)))"

text \<open>
  A round of \<open>loop\<close> on the events \<open>es\<close> of the poller; \<open>alive\<close> are the objects that channels are tied to.
  The callbacks are the user's: they are recorded, and the callback of the wakeup channel is \<open>handleRead\<close>.
\<close>

fun handle_active :: "nat set \<Rightarrow> nat list \<Rightarrow> ('k, 'f) loop \<Rightarrow> ('k, 'f) loop result" where
  "handle_active alive [] l = Inr (l\<lparr>el_currentActiveChannel := None\<rparr>)"
| "handle_active alive (c # cs) l =
     bindE (load (el_channels l) c) (\<lambda>ch.
     let calls = handleEvent alive ch;
         l = l\<lparr>el_currentActiveChannel := Some c, el_log := el_log l @ map Callback calls\<rparr>;
         l = (if c = el_wakeupChannel l \<and> calls \<noteq> [] then el_handleRead l else l)
     in handle_active alive cs l)"

definition loop_round ::
  "nat set \<Rightarrow> ('f \<Rightarrow> 'f list) \<Rightarrow> nat \<Rightarrow> (int \<times> nat) list \<Rightarrow> ('k, 'f) loop \<Rightarrow> ('k, 'f) loop result" where
  "loop_round alive run fuel es l =
     bindE (ep_poll (el_channels l) (el_poller l) es []) (\<lambda>(hp, p, act).
     let l = l\<lparr>el_channels := hp, el_poller := p, el_activeChannels := act, el_eventHandling := True\<rparr>
     in bindE (handle_active alive act l) (\<lambda>l.
        doPendingFunctors run fuel (l\<lparr>el_eventHandling := False\<rparr>)))"

text \<open>\<open>loop\<close> on the events of its rounds; the flag \<open>quit_\<close> is tested before each.\<close>

fun loop_rounds ::
  "nat set \<Rightarrow> ('f \<Rightarrow> 'f list) \<Rightarrow> nat \<Rightarrow> (int \<times> nat) list list \<Rightarrow> ('k, 'f) loop \<Rightarrow> ('k, 'f) loop result" where
  "loop_rounds alive run fuel [] l = Inr l"
| "loop_rounds alive run fuel (es # ess) l =
     (if el_quit l then Inr (l\<lparr>el_looping := False\<rparr>)
      else bindE (loop_round alive run fuel es l) (loop_rounds alive run fuel ess))"

definition loop_start :: "bool \<Rightarrow> ('k, 'f) loop \<Rightarrow> ('k, 'f) loop result" where
  "loop_start inLoop l =
     bindE (assertE (\<not> el_looping l)) (\<lambda>_.
     bindE (assertInLoopThread inLoop) (\<lambda>_. Inr (l\<lparr>el_looping := True, el_quit := False\<rparr>)))"

subsection \<open>Running the queued functors\<close>

lemma mq_empty_items:
  assumes "mq_quiet q"
  shows "mq_empty q = Inr (mq_items q = [])"
proof (cases "mq_items q")
  case Nil
  then have "dequeue q = Inr (None, q)" using mq.get_nil [OF assms] by simp
  then show ?thesis using Nil by (auto simp: dequeue_def mq_empty_def result_simps split: option.splits)
next
  case (Cons x xs)
  then obtain q' where "dequeue q = Inr (Some x, q')" using mq.get_cons [OF assms] by blast
  then show ?thesis using Cons by (auto simp: dequeue_def mq_empty_def result_simps split: option.splits)
qed

text \<open>
  C36: \<open>doPendingFunctors\<close> runs every queued functor once, in the order they were queued, and those that the
  functors queue themselves after them; it returns with an empty queue whenever these end.
\<close>

theorem pending_functors_run:
  assumes q: "mq_reach (el_funcs l)" "mq_pending (el_funcs l) = []" and run: "serve run n (mq_items (el_funcs l)) = Some fs"
  shows "\<exists>l'. doPendingFunctors run (Suc n) l = Inr l' \<and> mq_items (el_funcs l') = [] \<and>
    el_log l' = el_log l @ map RunFunctor fs \<and> \<not> el_callingPendingFuncs l'"
proof -
  let ?q = "el_funcs l"
  have quiet: "mq_quiet ?q" using mq_reach_inv [OF q(1)] q(2) by (simp add: mq_quiet_def)
  obtain q' where d: "drain enqueue dequeue run n ?q = Inr (fs, q')" "mq_quiet q'" "mq_items q' = []"
    using mq.drain_serves [OF quiet run] by blast
  obtain m where n: "n = Suc m" using run by (cases n) simp_all
  have "\<exists>q'. pending_loop run (Suc n) ?q = Inr (fs, q') \<and> mq_items q' = []"
  proof (cases "mq_items ?q = []")
    case True
    then show ?thesis using run n mq_empty_items [OF quiet] by simp
  next
    case False
    then show ?thesis using d n mq_empty_items [OF quiet] mq_empty_items [OF d(2)] by simp
  qed
  then show ?thesis by (auto simp: doPendingFunctors_def Let_def simp del: pending_loop.simps)
qed

definition sample_loop :: "(unit, nat) loop" where
  "sample_loop = \<lparr>el_looping = True, el_callingPendingFuncs = False, el_quit = False, el_poller = EPollPoller_new (),
     el_channels = Map.empty, el_activeChannels = [], el_currentActiveChannel = None, el_eventHandling = False,
     el_funcs = MpscQueue_new, el_wakeupChannel = 0, el_wakeups = 0, el_log = []\<rparr>"

lemma reach_enqueue: "mq_reach q \<Longrightarrow> enqueue q x = Inr q' \<Longrightarrow> mq_reach q'"
  unfolding enqueue_def by (blast intro: mq_reach.exchange mq_reach.publish)

text \<open>Witness for C36: the first of two queued functors queues a third.\<close>

theorem pending_functors_run_witness:
  "\<exists>q1 q2 l'. enqueue MpscQueue_new 1 = Inr q1 \<and> enqueue q1 2 = Inr q2 \<and>
     doPendingFunctors (\<lambda>f. if f = 1 then [3] else []) 6 (sample_loop\<lparr>el_funcs := q2\<rparr>) = Inr l' \<and>
     el_log l' = [RunFunctor 1, RunFunctor 2, RunFunctor (3 :: nat)]"
proof -
  have q0: "mq_quiet (MpscQueue_new :: nat MpscQueue)" "mq_items MpscQueue_new = ([] :: nat list)"
    using mq_reach_inv [OF mq_reach.new] by (simp_all add: mq_quiet_def MpscQueue_new_def mq_items_def)
  obtain q1 where q1: "enqueue MpscQueue_new (1 :: nat) = Inr q1" "mq_quiet q1" "mq_items q1 = [1]"
    using mq.put_ok [OF q0(1)] q0(2) by fastforce
  obtain q2 where q2: "enqueue q1 2 = Inr q2" "mq_quiet q2" "mq_items q2 = [1, 2]"
    using mq.put_ok [OF q1(2)] q1(3) by fastforce
  let ?run = "\<lambda>f. if f = 1 then [3] else [] :: nat list" and ?l = "sample_loop\<lparr>el_funcs := q2\<rparr>"
  have "mq_reach q2" using reach_enqueue [OF reach_enqueue [OF mq_reach.new q1(1)] q2(1)] .
  moreover have "serve ?run 5 (mq_items (el_funcs ?l)) = Some [1, 2, 3]" using q2(3) by (simp add: eval_nat_numeral)
  ultimately obtain l' where "doPendingFunctors ?run (Suc 5) ?l = Inr l'" "el_log l' = [RunFunctor 1, RunFunctor 2, RunFunctor 3]"
    using pending_functors_run [of ?l ?run 5 "[1, 2, 3]"] q2(2) by (auto simp: mq_quiet_def sample_loop_def)
  then show ?thesis using q1(1) q2(1) by (auto simp: eval_nat_numeral)
qed

subsection \<open>The loop and the threads that queue functors\<close>

text \<open>
  The interleaving: any thread queues a functor by the two steps of \<open>enqueue\<close> and then the write that wakes
  the loop; \<open>rc_notify\<close> counts the threads between the last two. The loop polls, handles its events,
  where it resets the counter, and drains the queue; functors it runs there may queue others without
  a wakeup, and \<open>rc_own\<close> is such an insertion between its two steps. The loop leaves \<open>doPendingFunctors\<close> when
  \<open>empty\<close> answers so.
\<close>

datatype loop_pc = LoopPoll | LoopHandle | LoopDrain

record 'f Reactor =
  rc_queue :: "'f MpscQueue"
  rc_wakeups :: nat
  rc_notify :: nat
  rc_pc :: loop_pc
  rc_own :: "(nat \<times> nat) option"

definition Reactor_new :: "'f Reactor" where
  "Reactor_new = \<lparr>rc_queue = MpscQueue_new, rc_wakeups = 0, rc_notify = 0, rc_pc = LoopPoll, rc_own = None\<rparr>"

inductive reactor_step :: "'f Reactor \<Rightarrow> 'f Reactor \<Rightarrow> bool" where
  queue_exchange: "reactor_step s (s\<lparr>rc_queue := enqueue_exchange (rc_queue s) f\<rparr>)"
| queue_store: "i < length (mq_pending (rc_queue s)) \<Longrightarrow> rc_own s \<noteq> Some (mq_pending (rc_queue s) ! i) \<Longrightarrow>
    enqueue_store (rc_queue s) i = Inr q \<Longrightarrow> reactor_step s (s\<lparr>rc_queue := q, rc_notify := Suc (rc_notify s)\<rparr>)"
| queue_wakeup: "rc_notify s = Suc n \<Longrightarrow> reactor_step s (s\<lparr>rc_notify := n, rc_wakeups := Suc (rc_wakeups s)\<rparr>)"
| poll_returns: "rc_pc s = LoopPoll \<Longrightarrow> reactor_step s (s\<lparr>rc_pc := LoopHandle\<rparr>)"
| read_wakeups: "rc_pc s = LoopHandle \<Longrightarrow> reactor_step s (s\<lparr>rc_wakeups := 0\<rparr>)"
| start_drain: "rc_pc s = LoopHandle \<Longrightarrow> reactor_step s (s\<lparr>rc_pc := LoopDrain\<rparr>)"
| drain_run: "rc_pc s = LoopDrain \<Longrightarrow> rc_own s = None \<Longrightarrow> dequeue (rc_queue s) = Inr (Some f, q) \<Longrightarrow>
    reactor_step s (s\<lparr>rc_queue := q\<rparr>)"
| own_exchange: "rc_pc s = LoopDrain \<Longrightarrow> rc_own s = None \<Longrightarrow>
    reactor_step s (s\<lparr>rc_queue := enqueue_exchange (rc_queue s) f, rc_own := Some (mq_head (rc_queue s), mq_fresh (rc_queue s))\<rparr>)"
| own_store: "rc_own s = Some (mq_pending (rc_queue s) ! i) \<Longrightarrow> i < length (mq_pending (rc_queue s)) \<Longrightarrow>
    enqueue_store (rc_queue s) i = Inr q \<Longrightarrow> reactor_step s (s\<lparr>rc_queue := q, rc_own := None\<rparr>)"
| end_drain: "rc_pc s = LoopDrain \<Longrightarrow> rc_own s = None \<Longrightarrow> mq_empty (rc_queue s) = Inr True \<Longrightarrow>
    reactor_step s (s\<lparr>rc_pc := LoopPoll\<rparr>)"

inductive reactor_reach :: "'f Reactor \<Rightarrow> bool" where
  init: "reactor_reach Reactor_new"
| step: "reactor_reach s \<Longrightarrow> reactor_step s s' \<Longrightarrow> reactor_reach s'"

definition reactor_inv :: "'f Reactor \<Rightarrow> bool" where
  "reactor_inv s \<longleftrightarrow> mq_reach (rc_queue s) \<and> (rc_own s \<noteq> None \<longrightarrow> rc_pc s = LoopDrain) \<and>
     (rc_pc s = LoopPoll \<longrightarrow> mq_empty (rc_queue s) = Inr True \<or> 0 < rc_notify s \<or> 0 < rc_wakeups s)"

text \<open>An exchange does not link its node, so it does not change what \<open>empty\<close> answers.\<close>

lemma mq_empty_exchange:
  assumes "mq_reach q"
  shows "mq_empty (enqueue_exchange q x) = mq_empty q"
proof -
  obtain ns xs where c: "mq_chain q ns xs" using mq_reach_inv [OF assms] by (auto simp: mq_inv_def)
  have "mq_tail q \<in> set ns" using chainD(1,2) [OF c] hd_in_set by metis
  then have "mq_tail q < mq_fresh q" by (rule chainD(5) [OF c])
  then show ?thesis by (simp add: mq_empty_def load_def enqueue_exchange_def Let_def)
qed

lemma reactor_step_inv:
  assumes "reactor_step s s'" "reactor_inv s"
  shows "reactor_inv s'"
  using assms
proof (induction rule: reactor_step.induct)
  case (queue_exchange s f)
  then show ?case using mq_empty_exchange [of "rc_queue s"] by (auto simp: reactor_inv_def intro: mq_reach.exchange)
qed (auto simp: reactor_inv_def intro: mq_reach.intros)

text \<open>
  C37: No queued functor is forgotten: when the loop waits in \<open>poll\<close>, no thread is inside \<open>queueInLoop\<close> and the
  queue is not empty, the event descriptor is readable, so the poll returns.
\<close>

theorem no_lost_functor:
  assumes "reactor_reach s" "rc_pc s = LoopPoll" "mq_pending (rc_queue s) = []" "rc_notify s = 0" "mq_items (rc_queue s) \<noteq> []"
  shows "0 < rc_wakeups s"
proof -
  have inv: "reactor_inv s" using assms(1)
  proof (induction rule: reactor_reach.induct)
    case init
    have "mq_empty (MpscQueue_new :: 'a MpscQueue) = Inr True" by (simp add: mq_empty_def MpscQueue_new_def)
    then show ?case by (simp add: reactor_inv_def Reactor_new_def mq_reach.new)
  next
    case (step s s')
    then show ?case by (blast intro: reactor_step_inv)
  qed
  have "mq_quiet (rc_queue s)" using inv assms(3) mq_reach_inv by (auto simp: reactor_inv_def mq_quiet_def)
  then have "mq_empty (rc_queue s) = Inr False" using mq_empty_items [of "rc_queue s"] assms(5) by simp
  then show ?thesis using inv assms(2,4) by (auto simp: reactor_inv_def)
qed

text \<open>Witness for C37: a thread has queued a functor and woken the loop.\<close>

theorem no_lost_functor_witness:
  "\<exists>s :: nat Reactor. reactor_reach s \<and> rc_pc s = LoopPoll \<and> mq_items (rc_queue s) = [7] \<and> 0 < rc_wakeups s"
proof -
  let ?s0 = "Reactor_new :: nat Reactor"
  let ?q1 = "enqueue_exchange MpscQueue_new (7 :: nat)"
  let ?s1 = "?s0\<lparr>rc_queue := enqueue_exchange (rc_queue ?s0) 7\<rparr>"
  obtain q where q: "enqueue_store ?q1 0 = Inr q" "mq_pending q = []" "mq_items q = [7]"
    by (simp add: enqueue_store_def enqueue_exchange_def MpscQueue_new_def mq_items_def Let_def)
  let ?s2 = "?s1\<lparr>rc_queue := q, rc_notify := Suc (rc_notify ?s1)\<rparr>"
  let ?s3 = "?s2\<lparr>rc_notify := 0, rc_wakeups := Suc (rc_wakeups ?s2)\<rparr>"
  have "reactor_step ?s0 ?s1" by (rule queue_exchange)
  moreover have "reactor_step ?s1 ?s2"
  proof (rule queue_store [of 0])
    show "enqueue_store (rc_queue ?s1) 0 = Inr q" using q(1) by (simp add: Reactor_new_def)
  qed (simp_all add: Reactor_new_def enqueue_exchange_def MpscQueue_new_def Let_def)
  moreover have "reactor_step ?s2 ?s3" by (rule queue_wakeup) (simp add: Reactor_new_def)
  ultimately have r: "reactor_reach ?s3" by (meson reactor_reach.intros)
  have "0 < rc_wakeups ?s3" using no_lost_functor [OF r] q(2,3) by (simp add: Reactor_new_def)
  then show ?thesis using r q(3) by (intro exI [of _ ?s3]) (simp add: Reactor_new_def)
qed

end
