(* ===== verification/Event_Loop_Thread.thy ===== *)
theory Event_Loop_Thread
  imports Event_Loop Decimal
begin

section \<open>Threads with a loop\<close>

text \<open>
  \<open>EventLoopThread.h\<close>, \<open>EventLoopThread.cpp\<close>, \<open>EventLoopThreadPool.h\<close> and \<open>EventLoopThreadPool.cpp\<close>: a thread that
  builds a loop, hands out its address, waits for \<open>run\<close> and then loops; and the pool of such threads, which are
  chosen in turn. The thread and its owner synchronise by promises that are set once.
\<close>

subsection \<open>EventLoopThreadPool\<close>

text \<open>\<open>lp_loops\<close> are the addresses of the loops of its threads, \<open>lp_names\<close> their names, \<open>lp_running\<close> whether they were run.\<close>

record EventLoopThreadPool =
  lp_baseLoop :: nat
  lp_next :: nat
  lp_loops :: "nat list"
  lp_names :: "string list"
  lp_running :: "bool list"

text \<open>The constructor; \<open>loop i\<close> is the loop that the \<open>i\<close>th thread builds.\<close>

definition EventLoopThreadPool_new :: "(nat \<Rightarrow> nat) \<Rightarrow> nat \<Rightarrow> nat \<Rightarrow> string \<Rightarrow> EventLoopThreadPool" where
  "EventLoopThreadPool_new loop baseLoop threadNum name =
     \<lparr>lp_baseLoop = baseLoop, lp_next = 0, lp_loops = map loop [0..<threadNum],
      lp_names = map (\<lambda>i. take (length name + 31) (name @ show_int (int i))) [0..<threadNum],
      lp_running = replicate threadNum False\<rparr>"

definition lp_start :: "bool \<Rightarrow> EventLoopThreadPool \<Rightarrow> EventLoopThreadPool result" where
  "lp_start inLoop p = bindE (assertInLoopThread inLoop) (\<lambda>_. Inr (p\<lparr>lp_running := map (\<lambda>_. True) (lp_running p)\<rparr>))"

definition lp_size :: "EventLoopThreadPool \<Rightarrow> nat" where
  "lp_size p = length (lp_loops p)"

definition getNextLoop :: "bool \<Rightarrow> EventLoopThreadPool \<Rightarrow> (nat option \<times> EventLoopThreadPool) result" where
  "getNextLoop inLoop p =
     bindE (assertInLoopThread inLoop) (\<lambda>_.
     if lp_loops p \<noteq> [] then
       bindE (getN (lp_loops p) (lp_next p)) (\<lambda>loop.
       let p = p\<lparr>lp_next := Suc (lp_next p)\<rparr>
       in Inr (Some loop, if lp_next p \<ge> length (lp_loops p) then p\<lparr>lp_next := 0\<rparr> else p))
     else Inr (None, p))"

definition getAllLoops :: "bool \<Rightarrow> EventLoopThreadPool \<Rightarrow> nat list result" where
  "getAllLoops inLoop p =
     bindE (assertInLoopThread inLoop) (\<lambda>_. Inr (if lp_loops p = [] then [lp_baseLoop p] else lp_loops p))"

text \<open>The loops are handed out in turn.\<close>

primrec next_loops :: "nat \<Rightarrow> EventLoopThreadPool \<Rightarrow> (nat option list \<times> EventLoopThreadPool) result" where
  "next_loops 0 p = Inr ([], p)"
| "next_loops (Suc n) p = bindE (getNextLoop True p) (\<lambda>(l, p). bindE (next_loops n p) (\<lambda>(ls, p). Inr (l # ls, p)))"

lemma round_robin:
  assumes "lp_next p < length (lp_loops p)"
  shows "\<exists>p'. next_loops n p = Inr (map (\<lambda>i. Some (lp_loops p ! ((lp_next p + i) mod length (lp_loops p)))) [0..<n], p') \<and>
    lp_next p' = (lp_next p + n) mod length (lp_loops p) \<and> lp_loops p' = lp_loops p"
  using assms
proof (induction n arbitrary: p)
  case (Suc n)
  let ?m = "length (lp_loops p)" and ?p = "p\<lparr>lp_next := Suc (lp_next p) mod length (lp_loops p)\<rparr>"
  have ne: "lp_loops p \<noteq> []" and m: "0 < ?m" using Suc.prems by auto
  have "(if Suc (lp_next p) \<ge> ?m then p\<lparr>lp_next := 0\<rparr> else p\<lparr>lp_next := Suc (lp_next p)\<rparr>) = ?p"
    using Suc.prems by (cases "Suc (lp_next p) = ?m") auto
  then have run: "getNextLoop True p = Inr (Some (lp_loops p ! lp_next p), ?p)"
    using ne Suc.prems by (auto simp: getNextLoop_def assertInLoopThread_def Let_def)
  have shift: "(Suc (lp_next p) mod ?m + i) mod ?m = (lp_next p + Suc i) mod ?m" for i by (simp add: mod_add_left_eq)
  show ?case using Suc.IH [of ?p] m run Suc.prems shift
    by (auto simp: map_upt_Suc simp del: upt_Suc)
qed simp

text \<open>A pool that was built has its index in range, and the names of its threads differ.\<close>

lemma pool_new_ok:
  assumes "0 < n" "n \<le> 2 ^ 31"
  shows "lp_next (EventLoopThreadPool_new loop base n name) < length (lp_loops (EventLoopThreadPool_new loop base n name))"
    "distinct (lp_names (EventLoopThreadPool_new loop base n name))"
proof -
  have len: "length (show_nat i) \<le> 10" if "i < n" for i using that assms(2) by (intro show_nat_length) auto
  have "take (length name + 31) (name @ show_int (int i)) = name @ show_nat i" if "i < n" for i
    using len [OF that] by (simp add: show_int_def)
  then have "lp_names (EventLoopThreadPool_new loop base n name) = map (\<lambda>i. name @ show_nat i) [0..<n]"
    by (simp add: EventLoopThreadPool_new_def)
  then show "distinct (lp_names (EventLoopThreadPool_new loop base n name))"
    by (simp add: distinct_map inj_on_def show_nat_inj)
  show "lp_next (EventLoopThreadPool_new loop base n name) < length (lp_loops (EventLoopThreadPool_new loop base n name))"
    using assms(1) by (simp add: EventLoopThreadPool_new_def)
qed

subsection \<open>EventLoopThread\<close>

text \<open>
  The thread: before it queues its first functor, before it sets the pointer, waiting for \<open>run\<close>, entering \<open>loop\<close>, at the
  test of \<open>quit_\<close>, in a round, after the loop, done. The owner: in the constructor, idle, in \<open>run\<close>, in \<open>join\<close>, done, or ended by
  the destructor of a thread that was not joined.
\<close>

datatype thread_pc = TQueue | TPointer | TWait | TEnter | TTest | TRound | TLeave | TDone

datatype owner_pc = OCtor | OIdle | ORun | OJoin | ODone | OTerminate

record EventLoopThread =
  et_loop :: bool
  et_pointer :: bool
  et_run :: bool
  et_looped :: bool
  et_once :: bool
  et_queued :: bool
  et_quit :: bool
  et_thread :: thread_pc
  et_owner :: owner_pc

definition EventLoopThread_new :: EventLoopThread where
  "EventLoopThread_new = \<lparr>et_loop = False, et_pointer = False, et_run = False, et_looped = False, et_once = False,
     et_queued = False, et_quit = False, et_thread = TQueue, et_owner = OCtor\<rparr>"

text \<open>\<open>threadFunc\<close>, one step of the thread; \<open>None\<close> where it waits or is done. \<open>loop\<close> clears \<open>quit_\<close> when it is entered.\<close>

definition threadFunc :: "EventLoopThread \<Rightarrow> EventLoopThread option" where
  "threadFunc t =
     (case et_thread t of
        TQueue \<Rightarrow> Some (t\<lparr>et_queued := True, et_thread := TPointer\<rparr>)
      | TPointer \<Rightarrow> Some (t\<lparr>et_pointer := True, et_thread := TWait\<rparr>)
      | TWait \<Rightarrow> if et_run t then Some (t\<lparr>et_thread := TEnter\<rparr>) else None
      | TEnter \<Rightarrow> Some (t\<lparr>et_quit := False, et_thread := TTest\<rparr>)
      | TTest \<Rightarrow> Some (t\<lparr>et_thread := if et_quit t then TLeave else TRound\<rparr>)
      | TRound \<Rightarrow> Some (t\<lparr>et_looped := et_looped t \<or> et_queued t, et_queued := False, et_thread := TTest\<rparr>)
      | TLeave \<Rightarrow> Some (t\<lparr>et_loop := False, et_thread := TDone\<rparr>)
      | TDone \<Rightarrow> None)"

definition et_construct :: "EventLoopThread \<Rightarrow> EventLoopThread option" where
  "et_construct t = (if et_owner t = OCtor \<and> et_pointer t then Some (t\<lparr>et_loop := True, et_owner := OIdle\<rparr>) else None)"

definition et_call_run :: "EventLoopThread \<Rightarrow> EventLoopThread option" where
  "et_call_run t =
     (case et_owner t of
        OIdle \<Rightarrow> Some (if et_once t then t else t\<lparr>et_once := True, et_run := True, et_owner := ORun\<rparr>)
      | ORun \<Rightarrow> if et_looped t then Some (t\<lparr>et_owner := OIdle\<rparr>) else None
      | _ \<Rightarrow> None)"

definition et_destroy :: "EventLoopThread \<Rightarrow> EventLoopThread option" where
  "et_destroy t =
     (case et_owner t of
        OIdle \<Rightarrow> Some (if et_loop t then t\<lparr>et_quit := True, et_owner := OJoin\<rparr> else t\<lparr>et_owner := OTerminate\<rparr>)
      | OJoin \<Rightarrow> if et_thread t = TDone then Some (t\<lparr>et_owner := ODone\<rparr>) else None
      | _ \<Rightarrow> None)"

inductive et_reach :: "EventLoopThread \<Rightarrow> bool" where
  new: "et_reach EventLoopThread_new"
| thread: "et_reach t \<Longrightarrow> threadFunc t = Some t' \<Longrightarrow> et_reach t'"
| construct: "et_reach t \<Longrightarrow> et_construct t = Some t' \<Longrightarrow> et_reach t'"
| run: "et_reach t \<Longrightarrow> et_call_run t = Some t' \<Longrightarrow> et_reach t'"
| destroy: "et_reach t \<Longrightarrow> et_destroy t = Some t' \<Longrightarrow> et_reach t'"
| quit: "et_reach t \<Longrightarrow> et_owner t = OIdle \<Longrightarrow> et_loop t \<Longrightarrow> et_reach (t\<lparr>et_quit := True\<rparr>)"

text \<open>
  What the promises promise: a caller leaves \<open>run\<close> only after the loop has run its first functor, so that a \<open>quit\<close> after it
  is not cleared by the entry of \<open>loop\<close>.
\<close>

definition et_inv :: "EventLoopThread \<Rightarrow> bool" where
  "et_inv t \<longleftrightarrow>
     (et_run t \<longleftrightarrow> et_once t) \<and>
     (et_pointer t \<longleftrightarrow> et_thread t \<notin> {TQueue, TPointer}) \<and>
     (et_thread t \<in> {TEnter, TTest, TRound, TLeave, TDone} \<longrightarrow> et_once t) \<and>
     (et_owner t = OCtor \<longrightarrow> \<not> et_once t \<and> \<not> et_quit t) \<and>
     (et_owner t = ORun \<longrightarrow> et_once t) \<and>
     (et_once t \<and> et_owner t \<noteq> ORun \<longrightarrow> et_looped t) \<and>
     (et_looped t \<longrightarrow> et_thread t \<in> {TTest, TRound, TLeave, TDone}) \<and>
     (et_owner t \<in> {OJoin, ODone} \<longrightarrow> et_quit t) \<and>
     (et_owner t = ODone \<longrightarrow> et_thread t = TDone)"

lemma et_reach_inv: "et_reach t \<Longrightarrow> et_inv t"
proof (induction rule: et_reach.induct)
  case new
  then show ?case by (simp add: et_inv_def EventLoopThread_new_def)
next
  case (thread t t')
  then have "t' = (case et_thread t of
        TQueue \<Rightarrow> t\<lparr>et_queued := True, et_thread := TPointer\<rparr>
      | TPointer \<Rightarrow> t\<lparr>et_pointer := True, et_thread := TWait\<rparr>
      | TWait \<Rightarrow> t\<lparr>et_thread := TEnter\<rparr>
      | TEnter \<Rightarrow> t\<lparr>et_quit := False, et_thread := TTest\<rparr>
      | TTest \<Rightarrow> t\<lparr>et_thread := if et_quit t then TLeave else TRound\<rparr>
      | TRound \<Rightarrow> t\<lparr>et_looped := et_looped t \<or> et_queued t, et_queued := False, et_thread := TTest\<rparr>
      | TLeave \<Rightarrow> t\<lparr>et_loop := False, et_thread := TDone\<rparr>
      | TDone \<Rightarrow> t)" "et_thread t = TWait \<longrightarrow> et_run t"
    by (simp_all add: threadFunc_def split: thread_pc.splits if_splits)
  with thread.IH show ?case unfolding et_inv_def by (cases "et_thread t"; cases "et_owner t"; simp; blast?)
next
  case (construct t t')
  then show ?case by (auto simp: et_inv_def et_construct_def split: if_splits)
next
  case (run t t')
  then show ?case by (cases "et_owner t") (auto simp: et_inv_def et_call_run_def split: if_splits)
next
  case (destroy t t')
  then consider "et_owner t = OIdle" "t' = t\<lparr>et_quit := True, et_owner := OJoin\<rparr>" | "et_owner t = OIdle" "t' = t\<lparr>et_owner := OTerminate\<rparr>"
    | "et_owner t = OJoin" "et_thread t = TDone" "t' = t\<lparr>et_owner := ODone\<rparr>"
    by (auto simp: et_destroy_def split: owner_pc.splits if_splits)
  then show ?case using destroy.IH by cases (simp_all add: et_inv_def)
next
  case (quit t)
  then show ?case by (auto simp: et_inv_def)
qed

text \<open>Leaving \<open>run\<close>: the thread is in its loop or has left it.\<close>

lemma run_returns_looping: "et_reach t \<Longrightarrow> et_once t \<Longrightarrow> et_owner t \<noteq> ORun \<Longrightarrow> et_looped t \<and> et_thread t \<in> {TTest, TRound, TLeave, TDone}"
  using et_reach_inv by (auto simp: et_inv_def)

text \<open>The destructor of a thread that was run returns: at most three steps of the thread end its loop.\<close>

primrec thread_steps :: "nat \<Rightarrow> EventLoopThread \<Rightarrow> EventLoopThread" where
  "thread_steps 0 t = t"
| "thread_steps (Suc n) t = thread_steps n (case threadFunc t of None \<Rightarrow> t | Some t' \<Rightarrow> t')"

lemma join_returns:
  assumes "et_reach t" "et_owner t = OJoin" "et_once t"
  shows "et_destroy (thread_steps 3 t) = Some ((thread_steps 3 t)\<lparr>et_owner := ODone\<rparr>)"
proof -
  have "et_thread t \<in> {TTest, TRound, TLeave, TDone}" "et_quit t" using et_reach_inv [OF assms(1)] assms(2,3) by (auto simp: et_inv_def)
  then consider "et_thread t = TTest" "et_quit t" | "et_thread t = TRound" "et_quit t" | "et_thread t = TLeave" | "et_thread t = TDone" by blast
  then show ?thesis using assms(2) by cases (simp_all add: eval_nat_numeral threadFunc_def et_destroy_def)
qed

text \<open>
  The destructor of a thread that was never run waits forever: the thread stays where it waits for \<open>run\<close>. And a loop that
  somebody else has ended makes the destructor skip \<open>join\<close>, which ends the process.
\<close>

lemma destroy_without_run_hangs:
  assumes "et_reach t" "et_owner t = OJoin" "\<not> et_once t"
  shows "et_thread (thread_steps n t) \<noteq> TDone \<and> et_destroy (thread_steps n t) = None"
  using assms
proof (induction n arbitrary: t)
  case 0
  then show ?case using et_reach_inv [OF 0(1)] by (auto simp: et_inv_def et_destroy_def)
next
  case (Suc n)
  show ?case
  proof (cases "threadFunc t")
    case (Some t')
    moreover have "et_owner t' = OJoin" "\<not> et_once t'" using Some Suc.prems
      by (auto simp: threadFunc_def split: thread_pc.splits if_splits)
    ultimately show ?thesis using Suc.IH [OF et_reach.thread [OF Suc.prems(1) Some]] by simp
  qed (use Suc in simp)
qed

lemma destroy_after_quit_terminates:
  "et_owner t = OIdle \<Longrightarrow> et_thread t = TLeave \<Longrightarrow> threadFunc t = Some t' \<Longrightarrow>
   map_option et_owner (et_destroy t') = Some OTerminate"
  by (auto simp: threadFunc_def et_destroy_def)

end
