(* ===== verification/Inet_Address.thy ===== *)
theory Inet_Address
  imports Decimal "HOL-Library.Word"
begin

section \<open>InetAddress and Socket\<close>

text \<open>
  \<open>InetAddress.h\<close>, \<open>InetAddress.cpp\<close>, \<open>Socket.h\<close> and \<open>Socket.cpp\<close>: the union of \<open>sockaddr_in\<close> and \<open>sockaddr_in6\<close>,
  whose common fields are the family and the port in network order, and the wrappers of the socket calls.
  The calls themselves and the conversions \<open>inet_pton\<close> and \<open>inet_ntop\<close> are parameters.
\<close>

unbundle bit_operations_syntax

subsection \<open>The union of the two address structures\<close>

definition AF_INET :: "16 word" where "AF_INET = 2"
definition AF_INET6 :: "16 word" where "AF_INET6 = 10"

text \<open>
  The 28 bytes of the union: the family and the port at the offsets 0 and 2 of both structures, then the word
  that is \<open>sin_addr\<close> of one and \<open>sin6_flowinfo\<close> of the other, then \<open>sin6_addr\<close>, whose first eight bytes
  are the padding of \<open>sockaddr_in\<close>, and \<open>sin6_scope_id\<close>.
\<close>

record sockaddr =
  sa_family :: "16 word"
  sa_port :: "16 word"
  sa_word :: "32 word"
  sa_addr6 :: "8 word list"
  sa_scope :: "32 word"

record InetAddress =
  ia_addr :: sockaddr
  ia_isIpV6 :: bool

text \<open>The byte order of the network on a machine that stores the low byte first.\<close>

definition htons :: "16 word \<Rightarrow> 16 word" where
  "htons x = (push_bit 8 x OR drop_bit 8 x)"

definition htonl :: "32 word \<Rightarrow> 32 word" where
  "htonl x = (push_bit 24 x OR push_bit 8 (x AND 0xFF00) OR (drop_bit 8 x AND 0xFF00) OR drop_bit 24 x)"

definition memset4 :: "sockaddr \<Rightarrow> sockaddr" where
  "memset4 a = a\<lparr>sa_family := 0, sa_port := 0, sa_word := 0, sa_addr6 := replicate 8 0 @ drop 8 (sa_addr6 a)\<rparr>"

definition memset6 :: "sockaddr \<Rightarrow> sockaddr" where
  "memset6 a = \<lparr>sa_family = 0, sa_port = 0, sa_word = 0, sa_addr6 = replicate 16 0, sa_scope = 0\<rparr>"

definition kInaddrAny :: "32 word" where "kInaddrAny = 0"
definition kInaddrLoopback :: "32 word" where "kInaddrLoopback = 0x7F000001"
definition in6addr_any :: "8 word list" where "in6addr_any = replicate 16 0"
definition in6addr_loopback :: "8 word list" where "in6addr_loopback = replicate 15 0 @ [1]"

text \<open>The constructors; \<open>a\<close> is what the memory of the object held before.\<close>

definition InetAddress_port :: "sockaddr \<Rightarrow> 16 word \<Rightarrow> bool \<Rightarrow> bool \<Rightarrow> InetAddress" where
  "InetAddress_port a port loopbackOnly ipv6 =
     \<lparr>ia_addr =
        (if ipv6 then
           (memset6 a)\<lparr>sa_family := AF_INET6, sa_addr6 := (if loopbackOnly then in6addr_loopback else in6addr_any), sa_port := htons port\<rparr>
         else
           (memset4 a)\<lparr>sa_family := AF_INET, sa_word := htonl (if loopbackOnly then kInaddrLoopback else kInaddrAny), sa_port := htons port\<rparr>),
      ia_isIpV6 = ipv6\<rparr>"

text \<open>\<open>pton4\<close> and \<open>pton6\<close> are \<open>inet_pton\<close> on the two families, \<open>None\<close> where it fails.\<close>

definition InetAddress_ip ::
  "(string \<Rightarrow> 32 word option) \<Rightarrow> (string \<Rightarrow> 8 word list option) \<Rightarrow> sockaddr \<Rightarrow> string \<Rightarrow> 16 word \<Rightarrow> bool \<Rightarrow> InetAddress result" where
  "InetAddress_ip pton4 pton6 a ip port ipv6 =
     (if ipv6 then
        (case pton6 ip of
           None \<Rightarrow> Inl ProcessExit
         | Some w \<Rightarrow> Inr \<lparr>ia_addr = (memset6 a)\<lparr>sa_family := AF_INET6, sa_port := htons port, sa_addr6 := w\<rparr>, ia_isIpV6 = True\<rparr>)
      else
        (case pton4 ip of
           None \<Rightarrow> Inl ProcessExit
         | Some w \<Rightarrow> Inr \<lparr>ia_addr = (memset4 a)\<lparr>sa_family := AF_INET, sa_port := htons port, sa_word := w\<rparr>, ia_isIpV6 = False\<rparr>))"

definition InetAddress_in :: "sockaddr \<Rightarrow> InetAddress" where
  "InetAddress_in addr = \<lparr>ia_addr = addr, ia_isIpV6 = False\<rparr>"

definition InetAddress_in6 :: "sockaddr \<Rightarrow> InetAddress" where
  "InetAddress_in6 addr = \<lparr>ia_addr = addr, ia_isIpV6 = True\<rparr>"

definition setSockAddrInet6 :: "sockaddr \<Rightarrow> InetAddress \<Rightarrow> InetAddress" where
  "setSockAddrInet6 addr6 i = i\<lparr>ia_addr := addr6, ia_isIpV6 := (sa_family addr6 = AF_INET6)\<rparr>"

definition ia_family :: "InetAddress \<Rightarrow> 16 word" where
  "ia_family i = sa_family (ia_addr i)"

definition portNetEndian :: "InetAddress \<Rightarrow> 16 word" where
  "portNetEndian i = sa_port (ia_addr i)"

definition toPort :: "InetAddress \<Rightarrow> 16 word" where
  "toPort i = htons (portNetEndian i)"

definition toIp :: "(32 word \<Rightarrow> string) \<Rightarrow> (8 word list \<Rightarrow> string) \<Rightarrow> InetAddress \<Rightarrow> string" where
  "toIp ntop4 ntop6 i =
     (if ia_family i = AF_INET then ntop4 (sa_word (ia_addr i))
      else if ia_family i = AF_INET6 then ntop6 (sa_addr6 (ia_addr i))
      else [])"

text \<open>The buffer of 64 characters always has room for the port.\<close>

definition toIpPort :: "(32 word \<Rightarrow> string) \<Rightarrow> (8 word list \<Rightarrow> string) \<Rightarrow> InetAddress \<Rightarrow> string" where
  "toIpPort ntop4 ntop6 i = toIp ntop4 ntop6 i @ take 63 (CHR '':'' # show_nat (unat (toPort i)))"

text \<open>
  \<open>resolve\<close>, with the outcome of \<open>gethostbyname_r\<close>: its return value and, if there is an entry, the type, the length and the
  address of the host.
\<close>

definition resolve :: "int \<Rightarrow> (16 word \<times> nat \<times> 32 word) option \<Rightarrow> InetAddress \<Rightarrow> (bool \<times> InetAddress) result" where
  "resolve ret he out =
     (case he of
        Some (h_addrtype, h_length, h_addr) \<Rightarrow>
          if ret = 0 then
            bindE (assertE (h_addrtype = AF_INET \<and> h_length = 4)) (\<lambda>_.
              Inr (True, out\<lparr>ia_addr := (ia_addr out)\<lparr>sa_word := h_addr\<rparr>\<rparr>))
          else Inl ProcessExit
      | None \<Rightarrow> if ret \<noteq> 0 then Inl ProcessExit else Inr (False, out))"

subsection \<open>Socket\<close>

text \<open>The wrappers of the socket calls, on the value that the call returns.\<close>

definition createNonblockingOrDie :: "int \<Rightarrow> int result" where
  "createNonblockingOrDie sockfd = (if sockfd < 0 then Inl ProcessExit else Inr sockfd)"

definition getSocketError :: "int \<Rightarrow> int \<Rightarrow> int \<Rightarrow> int" where
  "getSocketError ret errno optval = (if ret < 0 then errno else optval)"

text \<open>\<open>connect\<close> passes the size of the structure that the address says it is.\<close>

definition connect_addrlen :: "InetAddress \<Rightarrow> nat" where
  "connect_addrlen i = (if ia_isIpV6 i then 28 else 16)"

definition bindAddress :: "int \<Rightarrow> unit result" where
  "bindAddress ret = (if ret < 0 then Inl ProcessExit else Inr ())"

definition socket_listen :: "int \<Rightarrow> unit result" where
  "socket_listen ret = (if ret < 0 then Inl ProcessExit else Inr ())"

definition socket_accept :: "int \<Rightarrow> sockaddr \<Rightarrow> InetAddress \<Rightarrow> int \<times> InetAddress" where
  "socket_accept connfd addr6 peeraddr = (connfd, if connfd \<ge> 0 then setSockAddrInet6 addr6 peeraddr else peeraddr)"

definition shutdownWrite :: "int \<Rightarrow> unit result" where
  "shutdownWrite ret = (if ret < 0 then Inl ProcessExit else Inr ())"

definition getLocalAddr :: "int \<Rightarrow> sockaddr \<Rightarrow> sockaddr result" where
  "getLocalAddr ret localaddr = (if ret < 0 then Inl ProcessExit else Inr localaddr)"

definition getPeerAddr :: "int \<Rightarrow> sockaddr \<Rightarrow> sockaddr result" where
  "getPeerAddr ret peeraddr = (if ret < 0 then Inl ProcessExit else Inr peeraddr)"

definition isSelfConnect :: "sockaddr \<Rightarrow> sockaddr \<Rightarrow> bool" where
  "isSelfConnect localaddr peeraddr =
     (if sa_family localaddr = AF_INET then sa_port localaddr = sa_port peeraddr \<and> sa_word localaddr = sa_word peeraddr
      else if sa_family localaddr = AF_INET6 then sa_port localaddr = sa_port peeraddr \<and> sa_addr6 localaddr = sa_addr6 peeraddr
      else False)"

subsection \<open>Laws\<close>

lemma htons_htons [simp]: "htons (htons x) = x"
  by (rule bit_word_eqI) (auto simp: htons_def bit_simps)

lemma toPort_new [simp]:
  "toPort (InetAddress_port a port lo v6) = port"
  "InetAddress_ip pton4 pton6 a ip port v6 = Inr i \<Longrightarrow> toPort i = port"
  by (auto simp: toPort_def portNetEndian_def InetAddress_port_def InetAddress_ip_def split: if_splits option.splits)

text \<open>An address that was built from a port can be printed and built again from its text.\<close>

lemma address_roundtrip:
  assumes "\<And>w. pton4 (ntop4 w) = Some w" "\<And>w. length w = 16 \<Longrightarrow> pton6 (ntop6 w) = Some w"
    and i: "i = InetAddress_port a port lo v6"
  obtains j where "InetAddress_ip pton4 pton6 b (toIp ntop4 ntop6 i) (toPort i) v6 = Inr j"
    "toIpPort ntop4 ntop6 j = toIpPort ntop4 ntop6 i" "ia_family j = ia_family i" "ia_isIpV6 j = ia_isIpV6 i"
  using assms(1,2) that unfolding i
  by (cases v6) (auto simp: InetAddress_port_def InetAddress_ip_def toIp_def ia_family_def toPort_def portNetEndian_def toIpPort_def
      AF_INET_def AF_INET6_def in6addr_any_def in6addr_loopback_def)

text \<open>The text of an address and port has at most 51 characters, since \<open>inet_ntop\<close> gives at most 45.\<close>

lemma toIpPort_length:
  assumes "\<And>w. length (ntop4 w) \<le> 45" "\<And>w. length (ntop6 w) \<le> 45"
  shows "length (toIpPort ntop4 ntop6 i) \<le> 51"
proof -
  have "unat (toPort i) < 10 ^ 5" by (rule order.strict_trans [OF unsigned_less]) simp
  then have "length (show_nat (unat (toPort i))) \<le> 5" by (rule show_nat_length) simp
  moreover have "length (toIp ntop4 ntop6 i) \<le> 45" using assms by (simp add: toIp_def)
  ultimately show ?thesis by (simp add: toIpPort_def)
qed

text \<open>The constructor from \<open>sockaddr_in6\<close> takes an IPv4 address for an IPv6 one, \<open>setSockAddrInet6\<close> does not.\<close>

lemma in6_constructor_flag:
  "sa_family a = AF_INET \<Longrightarrow> ia_isIpV6 (InetAddress_in6 a) \<and> \<not> ia_isIpV6 (setSockAddrInet6 a i)"
  by (simp add: InetAddress_in6_def setSockAddrInet6_def AF_INET_def AF_INET6_def)

lemma self_connect_same: "isSelfConnect a a \<longleftrightarrow> sa_family a \<in> {AF_INET, AF_INET6}"
  by (simp add: isSelfConnect_def)

end
