(* ===== verification/Tcp_Server.thy ===== *)
theory Tcp_Server
  imports Tcp_Connection Event_Loop_Thread Inet_Address Ordered_Map
begin

section \<open>Acceptor and TcpServer\<close>

text \<open>
  \<open>Acceptor.h\<close>, \<open>Acceptor.cpp\<close>, \<open>TcpServer.h\<close> and \<open>TcpServer.cpp\<close>. The acceptor listens on a channel of the base loop and
  keeps a spare descriptor for the time when there are no more; \<open>ac_open\<close> are the descriptors that it owns. The
  server names the accepted connections, hands them to the loops of its pool and keeps them by name until they are
  closed. The results of the system calls are arguments.
\<close>

subsection \<open>Acceptor\<close>

record 'k Acceptor =
  ac_fd :: int
  ac_channel :: nat
  ac_channels :: "Channel store"
  ac_poller :: "'k EPollPoller"
  ac_newConnectionCallback :: bool
  ac_idleFd :: int
  ac_open :: "int set"

type_synonym 'k acceptor = "'k Acceptor"

definition opened :: "int \<Rightarrow> 'k acceptor \<Rightarrow> 'k acceptor" where
  "opened fd a = (if fd \<ge> 0 then a\<lparr>ac_open := insert fd (ac_open a)\<rparr> else a)"

definition closed :: "int \<Rightarrow> 'k acceptor \<Rightarrow> 'k acceptor" where
  "closed fd a = a\<lparr>ac_open := ac_open a - {fd}\<rparr>"

definition Acceptor_new :: "int \<Rightarrow> int \<Rightarrow> int \<Rightarrow> Channel store \<Rightarrow> 'k EPollPoller \<Rightarrow> nat \<Rightarrow> 'k acceptor result" where
  "Acceptor_new sockfd idle bindRet hp p c =
     bindE (createNonblockingOrDie sockfd) (\<lambda>fd.
     bindE (assertE (idle \<ge> 0)) (\<lambda>_.
     bindE (bindAddress bindRet) (\<lambda>_.
       Inr \<lparr>ac_fd = fd, ac_channel = c, ac_channels = hp(c \<mapsto> (Channel_new fd)\<lparr>ch_readCallback := Some 0\<rparr>), ac_poller = p,
            ac_newConnectionCallback = False, ac_idleFd = idle, ac_open = {fd, idle}\<rparr>)))"

text \<open>The destructor; the member \<open>acceptSocket_\<close> closes its descriptor.\<close>

definition Acceptor_destroy :: "'k epoll_ctl \<Rightarrow> 'k acceptor \<Rightarrow> 'k acceptor result" where
  "Acceptor_destroy ctl a =
     bindE (disableAll ctl (ac_channels a) (ac_poller a) (ac_channel a)) (\<lambda>(hp, p).
     bindE (channel_remove ctl hp p (ac_channel a)) (\<lambda>(hp, p).
       Inr (closed (ac_fd a) (closed (ac_idleFd a) (a\<lparr>ac_channels := hp, ac_poller := p\<rparr>)))))"

definition ac_listen :: "'k epoll_ctl \<Rightarrow> bool \<Rightarrow> int \<Rightarrow> 'k acceptor \<Rightarrow> 'k acceptor result" where
  "ac_listen ctl inLoop listenRet a =
     bindE (assertInLoopThread inLoop) (\<lambda>_.
     bindE (socket_listen listenRet) (\<lambda>_.
     bindE (enableReading ctl (ac_channels a) (ac_poller a) (ac_channel a)) (\<lambda>(hp, p).
       Inr (a\<lparr>ac_channels := hp, ac_poller := p\<rparr>))))"

text \<open>
  \<open>handleRead\<close>: \<open>connfd\<close> and \<open>addr6\<close> are what \<open>accept4\<close> returns and stores, \<open>emfile\<close> whether it failed for want of descriptors; then
  \<open>again\<close> is the result of the second \<open>accept\<close> and \<open>idle\<close> that of \<open>open\<close>. The first component of the result is
  what the callback is called with. \<open>junk\<close> is the memory of the local variable \<open>peerAddr\<close>.
\<close>

definition ac_handleRead ::
  "bool \<Rightarrow> sockaddr \<Rightarrow> int \<Rightarrow> sockaddr \<Rightarrow> int \<Rightarrow> bool \<Rightarrow> int \<Rightarrow> int \<Rightarrow> 'k acceptor \<Rightarrow> ((int \<times> InetAddress) option \<times> 'k acceptor) result" where
  "ac_handleRead inLoop junk connfd addr6 closeRet emfile again idle a =
     bindE (assertInLoopThread inLoop) (\<lambda>_.
     let (connfd, peerAddr) = socket_accept connfd addr6 (InetAddress_port junk 0 False False)
     in if connfd \<ge> 0 then
          if ac_newConnectionCallback a then Inr (Some (connfd, peerAddr), a)
          else if closeRet < 0 then Inl ProcessExit
          else Inr (None, closed connfd (opened connfd a))
        else if emfile then
          let a = closed (ac_idleFd a) a;
              a = (opened again a)\<lparr>ac_idleFd := again\<rparr>;
              a = closed (ac_idleFd a) a
          in Inr (None, (opened idle a)\<lparr>ac_idleFd := idle\<rparr>)
        else Inr (None, a))"

text \<open>The descriptors of an acceptor: its socket, and the spare one while \<open>open\<close> gives it back.\<close>

definition ac_inv :: "('k \<Rightarrow> int \<rightharpoonup> int \<times> nat) \<Rightarrow> 'k acceptor \<Rightarrow> bool" where
  "ac_inv interest a \<longleftrightarrow> poller_inv interest (ac_channels a) (ac_poller a) \<and> ac_fd a \<ge> 0 \<and>
     ac_open a = insert (ac_fd a) ({ac_idleFd a} \<inter> {0..}) \<and> ac_idleFd a \<noteq> ac_fd a \<and>
     (\<exists>ch. ac_channels a (ac_channel a) = Some ch \<and> ch_fd ch = ac_fd a \<and>
        (ch_index ch = kAdded \<or> ch_index ch = kNew \<and> ep_channels (ac_poller a) (ch_fd ch) = None))"

lemma acceptor_new_inv:
  assumes "poller_inv interest hp p" "hp c = None" "ep_channels p sockfd = None" "sockfd \<noteq> idle" "Acceptor_new sockfd idle b hp p c = Inr a"
  shows "ac_inv interest a"
proof -
  have "0 \<le> sockfd" "0 \<le> idle" and a: "a = \<lparr>ac_fd = sockfd, ac_channel = c, ac_channels = hp(c \<mapsto> (Channel_new sockfd)\<lparr>ch_readCallback := Some 0\<rparr>),
      ac_poller = p, ac_newConnectionCallback = False, ac_idleFd = idle, ac_open = {sockfd, idle}\<rparr>"
    using assms(5) by (auto simp: Acceptor_new_def createNonblockingOrDie_def result_simps split: if_splits)
  moreover have "poller_inv interest (hp(c \<mapsto> (Channel_new sockfd)\<lparr>ch_readCallback := Some 0\<rparr>)) p"
    using assms(1,2) by (intro poller_inv_new) (auto simp: Channel_new_def kNew_def)
  ultimately show ?thesis using assms(3,4) by (auto simp: ac_inv_def Channel_new_def kNew_def)
qed

lemma listen_inv:
  assumes k: "epoll_ok ctl interest" and inv: "ac_inv interest a" and run: "ac_listen ctl inLoop r a = Inr a'"
  shows "ac_inv interest a'" "\<exists>e. interest (ep_kernel (ac_poller a')) (ac_fd a) = Some (e, ac_channel a)"
proof -
  obtain ch where ch: "ac_channels a (ac_channel a) = Some ch" "ch_fd ch = ac_fd a"
    "ch_index ch = kNew \<Longrightarrow> ep_channels (ac_poller a) (ch_fd ch) = None" and p: "poller_inv interest (ac_channels a) (ac_poller a)"
    using inv by (auto simp: ac_inv_def index_defs)
  have ne: "(e OR kReadEvent) \<noteq> (0 :: int)" for e by (simp add: poll_bits or_eq_0_iff)
  from set_events_ok [OF k p ch(1,3), of "\<lambda>e. e OR kReadEvent"] ne obtain q where
    "enableReading ctl (ac_channels a) (ac_poller a) (ac_channel a) =
      Inr ((ac_channels a)(ac_channel a \<mapsto> ch\<lparr>ch_events := (ch_events ch OR kReadEvent), ch_index := kAdded\<rparr>), q)"
    "poller_inv interest ((ac_channels a)(ac_channel a \<mapsto> ch\<lparr>ch_events := (ch_events ch OR kReadEvent), ch_index := kAdded\<rparr>)) q"
    "interest (ep_kernel q) (ch_fd ch) = Some (ch_events ch OR kReadEvent, ac_channel a)"
    by (auto simp: enableReading_def)
  with run inv ch show "ac_inv interest a'" "\<exists>e. interest (ep_kernel (ac_poller a')) (ac_fd a) = Some (e, ac_channel a)"
    by (auto simp: ac_listen_def ac_inv_def result_simps)
qed

lemma opened_closed [simp]:
  "ac_open (opened fd a) = (if fd \<ge> 0 then insert fd (ac_open a) else ac_open a)" "ac_open (closed fd a) = ac_open a - {fd}"
  "ac_fd (opened fd a) = ac_fd a" "ac_fd (closed fd a) = ac_fd a" "ac_channel (opened fd a) = ac_channel a"
  "ac_channel (closed fd a) = ac_channel a" "ac_channels (opened fd a) = ac_channels a" "ac_channels (closed fd a) = ac_channels a"
  "ac_poller (opened fd a) = ac_poller a" "ac_poller (closed fd a) = ac_poller a"
  by (simp_all add: opened_def closed_def)

text \<open>Reading keeps the descriptors in order: a spare one replaces the spare one, an accepted one is handed over or closed.\<close>

lemma handleRead_inv:
  assumes inv: "ac_inv interest a" and fresh: "connfd \<notin> ac_open a" "idle \<noteq> ac_fd a" "again \<noteq> ac_fd a"
    and run: "ac_handleRead inLoop junk connfd addr6 closeRet emfile again idle a = Inr (conn, a')"
  shows "ac_inv interest a'" "ac_fd a' = ac_fd a" "ac_channel a' = ac_channel a"
    "\<And>fd i. conn = Some (fd, i) \<Longrightarrow> fd = connfd \<and> 0 \<le> fd \<and> ia_addr i = addr6 \<and> a' = a"
proof -
  let ?peer = "snd (socket_accept connfd addr6 (InetAddress_port junk 0 False False))"
  let ?spare = "(opened idle (closed again ((opened again (closed (ac_idleFd a) a))\<lparr>ac_idleFd := again\<rparr>)))\<lparr>ac_idleFd := idle\<rparr>"
  have "inLoop" using run by (cases inLoop) (simp_all add: ac_handleRead_def assertInLoopThread_def)
  then have eq: "ac_handleRead inLoop junk connfd addr6 closeRet emfile again idle a =
      (if connfd \<ge> 0 then if ac_newConnectionCallback a then Inr (Some (connfd, ?peer), a)
         else if closeRet < 0 then Inl ProcessExit else Inr (None, closed connfd (opened connfd a))
       else if emfile then Inr (None, ?spare) else Inr (None, a))"
    by (simp add: ac_handleRead_def socket_accept_def assertInLoopThread_def Let_def)
  consider "conn = Some (connfd, ?peer)" "0 \<le> connfd" "a' = a" | "conn = None" "0 \<le> connfd" "a' = closed connfd (opened connfd a)"
    | "conn = None" "a' = ?spare" | "conn = None" "a' = a"
    using run unfolding eq by (metis sum.inject(2) prod.inject sum.distinct(1))
  then have "ac_inv interest a' \<and> ac_fd a' = ac_fd a \<and> ac_channel a' = ac_channel a \<and>
      (\<forall>fd i. conn = Some (fd, i) \<longrightarrow> fd = connfd \<and> 0 \<le> fd \<and> ia_addr i = addr6 \<and> a' = a)"
  proof cases
    case 1
    then show ?thesis using inv by (simp add: socket_accept_def setSockAddrInet6_def)
  next
    case 2
    then have "a' = a" using fresh(1) by (simp add: closed_def opened_def)
    then show ?thesis using inv 2 by simp
  next
    case 3
    have o: "ac_open a = insert (ac_fd a) ({ac_idleFd a} \<inter> {0..})" "ac_idleFd a \<noteq> ac_fd a" using inv by (simp_all add: ac_inv_def)
    have "ac_open a' = insert (ac_fd a) ({idle} \<inter> {0..})"
      unfolding 3(2) using fresh(3) o(2) by (simp add: o(1)) auto
    moreover have "ac_fd a' = ac_fd a" "ac_channel a' = ac_channel a" "ac_channels a' = ac_channels a" "ac_poller a' = ac_poller a" "ac_idleFd a' = idle"
      by (simp_all add: 3(2))
    ultimately show ?thesis using inv fresh(2) 3(1) by (simp add: ac_inv_def)
  qed (use inv in simp)
  then show "ac_inv interest a'" "ac_fd a' = ac_fd a" "ac_channel a' = ac_channel a"
    "\<And>fd i. conn = Some (fd, i) \<Longrightarrow> fd = connfd \<and> 0 \<le> fd \<and> ia_addr i = addr6 \<and> a' = a" by blast+
qed

text \<open>The destructor works whether or not the acceptor has listened, and gives all descriptors back.\<close>

lemma acceptor_destroy_ok:
  assumes k: "epoll_ok ctl interest" and inv: "ac_inv interest a"
  obtains a' where "Acceptor_destroy ctl a = Inr a'" "ac_open a' = {}" "poller_inv interest (ac_channels a') (ac_poller a')"
    "ep_channels (ac_poller a') (ac_fd a) = None" "interest (ep_kernel (ac_poller a')) (ac_fd a) = None"
proof -
  obtain ch where ch: "ac_channels a (ac_channel a) = Some ch" "ch_fd ch = ac_fd a"
    "ch_index ch = kNew \<Longrightarrow> ep_channels (ac_poller a) (ch_fd ch) = None" and p: "poller_inv interest (ac_channels a) (ac_poller a)"
    using inv by (auto simp: ac_inv_def index_defs)
  let ?ch = "ch\<lparr>ch_events := 0, ch_index := if ch_index ch = kAdded then kDeleted else kAdded\<rparr>"
  from set_events_ok [OF k p ch(1,3), of "\<lambda>_. kNoneEvent"] obtain q where
    q: "disableAll ctl (ac_channels a) (ac_poller a) (ac_channel a) = Inr ((ac_channels a)(ac_channel a \<mapsto> ?ch), q)"
      "poller_inv interest ((ac_channels a)(ac_channel a \<mapsto> ?ch)) q"
    by (auto simp: disableAll_def kNoneEvent_def)
  have "ch_index ?ch \<noteq> kNew" by (simp add: index_defs)
  from channel_remove_ok [OF k q(2) _ this, of "ac_channel a"] obtain hp r where
    r: "channel_remove ctl ((ac_channels a)(ac_channel a \<mapsto> ?ch)) q (ac_channel a) = Inr (hp, r)" "poller_inv interest hp r"
      "ep_channels r = (ep_channels q)(ch_fd ch := None)" "interest (ep_kernel r) (ch_fd ch) = None"
    by auto
  let ?a = "closed (ac_fd a) (closed (ac_idleFd a) (a\<lparr>ac_channels := hp, ac_poller := r\<rparr>))"
  have "Acceptor_destroy ctl a = Inr ?a" using q(1) r(1) by (simp add: Acceptor_destroy_def)
  moreover have "ac_open ?a = {}" using inv by (auto simp: ac_inv_def closed_def)
  ultimately show ?thesis using that r(2-4) ch(2) by (simp add: closed_def)
qed

subsection \<open>TcpServer\<close>

text \<open>What the server hands to \<open>runInLoop\<close> of a loop; a connection is named by its address.\<close>

datatype server_functor = AcceptorListen | ConnectEstablished nat | ConnectDestroyed nat | RemoveConnectionInLoop nat

text \<open>What the server knows of a connection; its own state is the one of \<open>TcpConnection\<close>.\<close>

record ServerConn =
  co_name :: string
  co_loop :: nat
  co_sockfd :: int
  co_localAddr :: InetAddress
  co_peerAddr :: InetAddress

text \<open>
  \<open>ts_ran\<close> are the functors that ran at once because the caller was the thread of their loop, \<open>ts_queued\<close> those that were queued,
  each with its loop; \<open>ts_destroyed\<close> the connections whose \<open>connectDestroyed\<close> was called directly.
\<close>

record 'k TcpServer =
  ts_loop :: nat
  ts_acceptor :: "'k acceptor option"
  ts_name :: string
  ts_ipPort :: string
  ts_connections :: "(string \<times> nat) list"
  ts_nextConnId :: int
  ts_threadPool :: "EventLoopThreadPool option"
  ts_objects :: "ServerConn store"
  ts_nextObject :: nat
  ts_ran :: "(nat \<times> server_functor) list"
  ts_queued :: "(nat \<times> server_functor) list"
  ts_destroyed :: "nat list"

type_synonym 'k server = "'k TcpServer"

definition TcpServer_new :: "nat \<Rightarrow> string \<Rightarrow> string \<Rightarrow> 'k acceptor \<Rightarrow> 'k server" where
  "TcpServer_new loop ipPort name acceptor =
     \<lparr>ts_loop = loop, ts_acceptor = Some (acceptor\<lparr>ac_newConnectionCallback := True\<rparr>), ts_name = name, ts_ipPort = ipPort,
      ts_connections = [], ts_nextConnId = 1, ts_threadPool = None, ts_objects = Map.empty, ts_nextObject = 0,
      ts_ran = [], ts_queued = [], ts_destroyed = []\<rparr>"

text \<open>\<open>runInLoop\<close> of the loop \<open>l\<close>, called in the thread of the loop \<open>cur\<close>.\<close>

definition ts_runInLoop :: "nat \<Rightarrow> nat \<Rightarrow> server_functor \<Rightarrow> 'k server \<Rightarrow> 'k server" where
  "ts_runInLoop cur l f s = (if cur = l then s\<lparr>ts_ran := ts_ran s @ [(l, f)]\<rparr> else s\<lparr>ts_queued := ts_queued s @ [(l, f)]\<rparr>)"

definition setIoLoopNum :: "(nat \<Rightarrow> nat) \<Rightarrow> bool \<Rightarrow> nat \<Rightarrow> 'k server \<Rightarrow> 'k server result" where
  "setIoLoopNum loop inLoop num s =
     bindE (lp_start inLoop (EventLoopThreadPool_new loop (ts_loop s) num ''EventLoopThreadPool'')) (\<lambda>tp.
       Inr (s\<lparr>ts_threadPool := Some tp\<rparr>))"

text \<open>\<open>start\<close>: \<open>flag\<close> is the one \<open>once_flag\<close> of all servers.\<close>

definition ts_start :: "nat \<Rightarrow> bool \<Rightarrow> 'k server \<Rightarrow> (bool \<times> 'k server) result" where
  "ts_start cur flag s =
     (if flag then Inr (flag, s)
      else
        (case ts_threadPool s of
           None \<Rightarrow> Inl NullPointer
         | Some tp \<Rightarrow>
             bindE (lp_start (cur = ts_loop s) tp) (\<lambda>tp.
               Inr (True, ts_runInLoop cur (ts_loop s) AcceptorListen (s\<lparr>ts_threadPool := Some tp\<rparr>)))))"

text \<open>The name: \<open>snprintf\<close> stores at most 63 characters of its part.\<close>

definition conn_name :: "string \<Rightarrow> string \<Rightarrow> int \<Rightarrow> string" where
  "conn_name name ipPort i = name @ take 63 (''-'' @ ipPort @ ''#'' @ show_int i)"

definition pick_loop :: "bool \<Rightarrow> 'k server \<Rightarrow> (nat \<times> 'k server) result" where
  "pick_loop inLoop s =
     (case ts_threadPool s of
        None \<Rightarrow> Inr (ts_loop s, s)
      | Some tp \<Rightarrow>
          if lp_size tp > 0 then
            bindE (getNextLoop inLoop tp) (\<lambda>(l, tp).
              Inr (case l of None \<Rightarrow> ts_loop s | Some l \<Rightarrow> l, s\<lparr>ts_threadPool := Some tp\<rparr>))
          else Inr (ts_loop s, s))"

text \<open>\<open>newConnection\<close>, in the thread of the loop \<open>cur\<close>; \<open>ret\<close> and \<open>local\<close> are the result of \<open>getsockname\<close>.\<close>

definition newConnection :: "nat \<Rightarrow> int \<Rightarrow> sockaddr \<Rightarrow> int \<Rightarrow> InetAddress \<Rightarrow> 'k server \<Rightarrow> 'k server result" where
  "newConnection cur ret local sockfd peerAddr s =
     bindE (assertInLoopThread (cur = ts_loop s)) (\<lambda>_.
     bindE (pick_loop (cur = ts_loop s) s) (\<lambda>(ioLoop, s).
     let connName = conn_name (ts_name s) (ts_ipPort s) (ts_nextConnId s);
         s = s\<lparr>ts_nextConnId := i32 (ts_nextConnId s + 1)\<rparr>
     in bindE (getLocalAddr ret local) (\<lambda>localaddr.
        let c = ts_nextObject s;
            conn = \<lparr>co_name = connName, co_loop = ioLoop, co_sockfd = sockfd, co_localAddr = InetAddress_in6 localaddr, co_peerAddr = peerAddr\<rparr>
        in Inr (ts_runInLoop cur ioLoop (ConnectEstablished c)
             (s\<lparr>ts_objects := (ts_objects s)(c \<mapsto> conn), ts_nextObject := Suc c, ts_connections := map_put connName c (ts_connections s)\<rparr>)))))"

definition removeConnectionInLoop :: "nat \<Rightarrow> nat \<Rightarrow> 'k server \<Rightarrow> 'k server result" where
  "removeConnectionInLoop cur c s =
     bindE (assertInLoopThread (cur = ts_loop s)) (\<lambda>_.
     bindE (load (ts_objects s) c) (\<lambda>conn.
     bindE (assertE (map_of (ts_connections s) (co_name conn) \<noteq> None)) (\<lambda>_.
       Inr (s\<lparr>ts_connections := map_delete (co_name conn) (ts_connections s)\<rparr>))))"

text \<open>\<open>removeConnection\<close>: the functor runs at once in the thread of the base loop.\<close>

definition removeConnection :: "nat \<Rightarrow> nat \<Rightarrow> 'k server \<Rightarrow> 'k server result" where
  "removeConnection cur c s =
     (let s' = ts_runInLoop cur (ts_loop s) (RemoveConnectionInLoop c) s
      in bindE (if cur = ts_loop s then removeConnectionInLoop cur c s' else Inr s') (\<lambda>s.
           Inr (s\<lparr>ts_destroyed := ts_destroyed s @ [c]\<rparr>)))"

text \<open>The destructor: the acceptor goes first, then every connection is destroyed in its loop, in the order of the names.\<close>

definition TcpServer_destroy :: "'k epoll_ctl \<Rightarrow> nat \<Rightarrow> 'k server \<Rightarrow> 'k server result" where
  "TcpServer_destroy ctl cur s =
     bindE (assertInLoopThread (cur = ts_loop s)) (\<lambda>_.
     bindE (case ts_acceptor s of None \<Rightarrow> Inr () | Some a \<Rightarrow> bindE (Acceptor_destroy ctl a) (\<lambda>_. Inr ())) (\<lambda>_.
       Inr ((fold (\<lambda>c s. case ts_objects s c of None \<Rightarrow> s | Some conn \<Rightarrow> ts_runInLoop cur (co_loop conn) (ConnectDestroyed c) s)
              (map snd (ts_connections s))
              (s\<lparr>ts_acceptor := None\<rparr>))\<lparr>ts_threadPool := None\<rparr>)))"

subsection \<open>The life of a server\<close>

text \<open>
  Any thread closes a connection of its loop, once; the base loop accepts, while its counter has not reached the greatest \<open>int\<close>,
  and runs the removals that other loops have queued, in their order.
\<close>

definition take_functor :: "nat \<Rightarrow> 'k server \<Rightarrow> ((nat \<times> server_functor) \<times> 'k server) option" where
  "take_functor l s =
     (case List.extract (\<lambda>q. fst q = l) (ts_queued s) of
        None \<Rightarrow> None
      | Some (xs, q, ys) \<Rightarrow> Some (q, s\<lparr>ts_queued := xs @ ys\<rparr>))"

definition run_queued :: "'k server \<Rightarrow> 'k server result" where
  "run_queued s =
     (case take_functor (ts_loop s) s of
        Some ((_, RemoveConnectionInLoop c), s) \<Rightarrow> removeConnectionInLoop (ts_loop s) c s
      | Some (_, s) \<Rightarrow> Inr s
      | None \<Rightarrow> Inr s)"

inductive server_reach :: "'k server \<Rightarrow> bool" where
  new: "length ipPort \<le> 51 \<Longrightarrow> server_reach (TcpServer_new loop ipPort name acceptor)"
| loops: "server_reach s \<Longrightarrow> setIoLoopNum loop inLoop num s = Inr s' \<Longrightarrow> server_reach s'"
| start: "server_reach s \<Longrightarrow> ts_start cur flag s = Inr (flag', s') \<Longrightarrow> server_reach s'"
| accept: "server_reach s \<Longrightarrow> ts_nextConnId s < INT_MAX \<Longrightarrow> newConnection cur ret local fd peer s = Inr s' \<Longrightarrow> server_reach s'"
| close: "server_reach s \<Longrightarrow> ts_objects s c = Some conn \<Longrightarrow> c \<notin> set (ts_destroyed s) \<Longrightarrow>
    removeConnection (co_loop conn) c s = Inr s' \<Longrightarrow> server_reach s'"
| pending: "server_reach s \<Longrightarrow> run_queued s = Inr s' \<Longrightarrow> server_reach s'"

lemma conn_name_inj:
  assumes "length ipPort \<le> 51" "0 \<le> i" "i \<le> INT_MAX" "0 \<le> j" "j \<le> INT_MAX" "conn_name name ipPort i = conn_name name ipPort j"
  shows "i = j"
proof -
  have len: "length (show_nat (nat k)) \<le> 10" if "0 \<le> k" "k \<le> INT_MAX" for k using that by (intro show_nat_length) auto
  have "conn_name name ipPort k = name @ ''-'' @ ipPort @ ''#'' @ show_nat (nat k)" if "0 \<le> k" "k \<le> INT_MAX" for k
    using len [OF that] that(1) assms(1) by (simp add: conn_name_def show_int_def)
  then have "show_nat (nat i) = show_nat (nat j)" using assms(2-6) by simp
  then show ?thesis using assms(2,4) by (simp add: show_nat_inj)
qed

text \<open>The removals that wait in the queue of the base loop.\<close>

definition removal_of :: "nat \<times> server_functor \<Rightarrow> nat option" where
  "removal_of q = (case snd q of RemoveConnectionInLoop c \<Rightarrow> Some c | _ \<Rightarrow> None)"

definition removals :: "'k server \<Rightarrow> nat list" where
  "removals s = List.map_filter removal_of (ts_queued s)"

definition srv_inv :: "'k server \<Rightarrow> bool" where
  "srv_inv s \<longleftrightarrow>
     length (ts_ipPort s) \<le> 51 \<and> ts_nextConnId s = int (ts_nextObject s) + 1 \<and> ts_nextConnId s \<le> INT_MAX \<and>
     (\<forall>c conn. ts_objects s c = Some conn \<longrightarrow> c < ts_nextObject s \<and> co_name conn = conn_name (ts_name s) (ts_ipPort s) (int c + 1)) \<and>
     (\<forall>q \<in> set (ts_queued s). removal_of q \<noteq> None \<longrightarrow> fst q = ts_loop s) \<and>
     distinct (removals s) \<and> set (removals s) \<subseteq> set (ts_destroyed s) \<and>
     set (ts_destroyed s) \<subseteq> dom (ts_objects s) \<and>
     (\<forall>c conn. ts_objects s c = Some conn \<longrightarrow>
        map_of (ts_connections s) (co_name conn) = (if c \<notin> set (ts_destroyed s) \<or> c \<in> set (removals s) then Some c else None)) \<and>
     (\<forall>n c. map_of (ts_connections s) n = Some c \<longrightarrow> (\<exists>conn. ts_objects s c = Some conn \<and> co_name conn = n))"

lemma srv_invD:
  assumes "srv_inv s"
  shows "length (ts_ipPort s) \<le> 51" "ts_nextConnId s = int (ts_nextObject s) + 1" "ts_nextConnId s \<le> INT_MAX"
    "\<And>c conn. ts_objects s c = Some conn \<Longrightarrow> c < ts_nextObject s \<and> co_name conn = conn_name (ts_name s) (ts_ipPort s) (int c + 1)"
    "\<And>q. q \<in> set (ts_queued s) \<Longrightarrow> removal_of q \<noteq> None \<Longrightarrow> fst q = ts_loop s"
    "distinct (removals s)" "set (removals s) \<subseteq> set (ts_destroyed s)" "set (ts_destroyed s) \<subseteq> dom (ts_objects s)"
    "\<And>c conn. ts_objects s c = Some conn \<Longrightarrow>
        map_of (ts_connections s) (co_name conn) = (if c \<notin> set (ts_destroyed s) \<or> c \<in> set (removals s) then Some c else None)"
    "\<And>n c. map_of (ts_connections s) n = Some c \<Longrightarrow> \<exists>conn. ts_objects s c = Some conn \<and> co_name conn = n"
  using assms unfolding srv_inv_def by blast+

lemma removal_of_eq: "removal_of q = Some c \<longleftrightarrow> snd q = RemoveConnectionInLoop c"
  by (simp add: removal_of_def split: server_functor.splits)

lemma in_removals: "c \<in> set (removals s) \<longleftrightarrow> (\<exists>l. (l, RemoveConnectionInLoop c) \<in> set (ts_queued s))"
proof -
  have "c \<in> set (removals s) \<longleftrightarrow> (\<exists>q \<in> set (ts_queued s). removal_of q = Some c)"
    by (force simp: removals_def List.map_filter_def)
  then show ?thesis by (force simp: removal_of_eq)
qed

lemma srv_inv_cong:
  assumes inv: "srv_inv s" and eq: "ts_ipPort s' = ts_ipPort s" "ts_name s' = ts_name s" "ts_loop s' = ts_loop s" "ts_nextConnId s' = ts_nextConnId s"
    "ts_nextObject s' = ts_nextObject s" "ts_objects s' = ts_objects s" "ts_destroyed s' = ts_destroyed s" "ts_connections s' = ts_connections s"
    "removals s' = removals s" and q: "\<And>q. q \<in> set (ts_queued s') \<Longrightarrow> removal_of q \<noteq> None \<Longrightarrow> fst q = ts_loop s"
  shows "srv_inv s'"
proof -
  have "\<forall>q \<in> set (ts_queued s'). removal_of q \<noteq> None \<longrightarrow> fst q = ts_loop s" using q by blast
  then show ?thesis using inv unfolding srv_inv_def eq by blast
qed

lemma names_differ:
  assumes inv: "srv_inv s" and c: "ts_objects s c = Some conn" "ts_objects s d = Some conn'" and eq: "co_name conn = co_name conn'"
  shows "c = d"
proof -
  have "conn_name (ts_name s) (ts_ipPort s) (int c + 1) = conn_name (ts_name s) (ts_ipPort s) (int d + 1)"
    "int c + 1 \<le> INT_MAX" "int d + 1 \<le> INT_MAX"
    using srv_invD(2-4) [OF inv] c eq by (force, force, force)
  then have "int c + 1 = int d + 1" using srv_invD(1) [OF inv] by (intro conn_name_inj) auto
  then show ?thesis by simp
qed

lemma removals_append [simp]:
  "removals (s\<lparr>ts_queued := qs @ [q]\<rparr>) = removals (s\<lparr>ts_queued := qs\<rparr>) @ (case removal_of q of None \<Rightarrow> [] | Some c \<Rightarrow> [c])"
  by (simp add: removals_def List.map_filter_def split: option.splits)

text \<open>Erasing a connection that is in the map.\<close>

lemma remove_inv:
  assumes inv: "srv_inv s" and c: "ts_objects s c = Some conn" and s': "s' = s\<lparr>ts_connections := map_delete (co_name conn) (ts_connections s), ts_queued := qs, ts_ran := rs, ts_destroyed := ds\<rparr>"
    and d: "set ds = insert c (set (ts_destroyed s))"
    and q: "set qs \<subseteq> set (ts_queued s)" "distinct (removals s')" "set (removals s') = set (removals s) - {c}"
  shows "srv_inv s'"
proof -
  note I = srv_invD [OF inv]
  have "map_of (ts_connections s') (co_name dn) = (if d \<notin> set (ts_destroyed s') \<or> d \<in> set (removals s') then Some d else None)"
    if dn: "ts_objects s' d = Some dn" for d dn
  proof -
    have "ts_objects s d = Some dn" using dn s' by simp
    note this names_differ [OF inv this c] I(9) [OF this]
    then show ?thesis using q(3) d c unfolding s' by (cases "d = c") (auto simp: map_delete_of)
  qed
  moreover have "\<exists>dn. ts_objects s' d = Some dn \<and> co_name dn = n" if "map_of (ts_connections s') n = Some d" for n d
    using I(10) that unfolding s' by (auto simp: map_delete_of split: if_splits)
  ultimately show ?thesis using I(1-8) q d c unfolding srv_inv_def by (auto simp: s')
qed

lemma removals_split:
  "ts_queued s = xs @ q # ys \<Longrightarrow> removals s = removals (s\<lparr>ts_queued := xs\<rparr>) @ (case removal_of q of None \<Rightarrow> [] | Some c \<Rightarrow> [c]) @ removals (s\<lparr>ts_queued := ys\<rparr>)"
  "removals (s\<lparr>ts_queued := xs @ ys\<rparr>) = removals (s\<lparr>ts_queued := xs\<rparr>) @ removals (s\<lparr>ts_queued := ys\<rparr>)"
  by (simp_all add: removals_def List.map_filter_def split: option.splits)

lemma run_queued_ok:
  assumes inv: "srv_inv s"
  shows "\<exists>s'. run_queued s = Inr s' \<and> srv_inv s'"
proof (cases "take_functor (ts_loop s) s")
  case None
  then show ?thesis using inv by (simp add: run_queued_def)
next
  case (Some r)
  note I = srv_invD [OF inv]
  obtain xs q ys where q: "ts_queued s = xs @ q # ys" "r = (q, s\<lparr>ts_queued := xs @ ys\<rparr>)"
    using Some by (auto simp: take_functor_def split: option.splits dest!: extract_SomeE)
  let ?s = "s\<lparr>ts_queued := xs @ ys\<rparr>"
  note rem = removals_split(1) [OF q(1)] removals_split(2) [of xs ys s]
  show ?thesis
  proof (cases "removal_of q")
    case None
    then have "run_queued s = Inr ?s" using Some q(2)
      by (cases q; cases "snd q") (auto simp: run_queued_def removal_of_def)
    moreover have same: "removals ?s = removals s" using rem None by simp
    have "srv_inv ?s" using I(5) q(1) by (intro srv_inv_cong [OF inv _ _ _ _ _ _ _ _ same]) auto
    ultimately show ?thesis by blast
  next
    case (Some c)
    then have f: "snd q = RemoveConnectionInLoop c" by (auto simp: removal_of_def split: server_functor.splits)
    have "c \<in> set (removals s)" using rem(1) Some by simp
    then obtain conn where c: "ts_objects s c = Some conn" "c \<in> set (ts_destroyed s)" "map_of (ts_connections s) (co_name conn) = Some c"
      using I(7,8) I(9) by (force dest: subsetD)
    let ?t = "?s\<lparr>ts_connections := map_delete (co_name conn) (ts_connections s)\<rparr>"
    have "removals ?t = removals ?s" by (simp add: removals_def)
    then have "distinct (removals ?t)" "set (removals ?t) = set (removals s) - {c}" using rem Some I(6) by auto
    then have "srv_inv ?t" using c(1,2) q(1) by (intro remove_inv [OF inv c(1), where qs = "xs @ ys" and rs = "ts_ran s" and ds = "ts_destroyed s"]) auto
    moreover have "run_queued s = Inr ?t" using \<open>take_functor (ts_loop s) s = Some r\<close> q(2) f c
      by (cases q) (simp add: run_queued_def removeConnectionInLoop_def assertInLoopThread_def)
    ultimately show ?thesis by blast
  qed
qed

lemma close_ok:
  assumes inv: "srv_inv s" and c: "ts_objects s c = Some conn" "c \<notin> set (ts_destroyed s)"
  shows "\<exists>s'. removeConnection cur c s = Inr s' \<and> srv_inv s'"
proof (cases "cur = ts_loop s")
  case True
  note I = srv_invD [OF inv]
  let ?s = "s\<lparr>ts_connections := map_delete (co_name conn) (ts_connections s), ts_queued := ts_queued s,
    ts_ran := ts_ran s @ [(ts_loop s, RemoveConnectionInLoop c)], ts_destroyed := ts_destroyed s @ [c]\<rparr>"
  have "map_of (ts_connections s) (co_name conn) = Some c" using I(9) [OF c(1)] c(2) by simp
  then have "removeConnection cur c s = Inr ?s" using True c(1)
    by (simp add: removeConnection_def ts_runInLoop_def removeConnectionInLoop_def assertInLoopThread_def)
  moreover have "removals ?s = removals s" by (simp add: removals_def)
  then have "srv_inv ?s" using c I(6,7) by (intro remove_inv [OF inv c(1) refl]) auto
  ultimately show ?thesis by blast
next
  case False
  note I = srv_invD [OF inv]
  let ?s = "s\<lparr>ts_queued := ts_queued s @ [(ts_loop s, RemoveConnectionInLoop c)], ts_destroyed := ts_destroyed s @ [c]\<rparr>"
  have rem: "removals ?s = removals s @ [c]" by (simp add: removals_def List.map_filter_def removal_of_def)
  have "removeConnection cur c s = Inr ?s" using False by (simp add: removeConnection_def ts_runInLoop_def)
  moreover have "srv_inv ?s" using inv c I(7) unfolding srv_inv_def rem by (auto simp: removal_of_def)
  ultimately show ?thesis by blast
qed

lemma pick_loop_eq: "pick_loop inLoop s = Inr (l, s') \<Longrightarrow> \<exists>tp. s' = s\<lparr>ts_threadPool := tp\<rparr>"
  by (auto simp: pick_loop_def result_simps split: option.splits if_splits intro: exI [of _ "ts_threadPool s"])

lemma run_elsewhere_inv:
  assumes "srv_inv s" "removal_of (l, f) = None"
  shows "srv_inv (ts_runInLoop cur l f s)"
proof -
  have "removals (s\<lparr>ts_queued := ts_queued s @ [(l, f)]\<rparr>) = removals s" "removals (s\<lparr>ts_ran := ts_ran s @ [(l, f)]\<rparr>) = removals s"
    using assms(2) by (simp_all add: removals_def List.map_filter_def)
  then show ?thesis using assms srv_invD(5) [OF assms(1)]
    by (cases "cur = l"; intro srv_inv_cong [OF assms(1)]) (auto simp: ts_runInLoop_def)
qed

lemma accept_inv:
  assumes inv: "srv_inv s" and lt: "ts_nextConnId s < INT_MAX" and run: "newConnection cur ret local fd peer s = Inr s'"
  shows "srv_inv s'" "\<exists>conn. ts_objects s' (ts_nextObject s) = Some conn \<and> map_of (ts_connections s') (co_name conn) = Some (ts_nextObject s)"
proof -
  note I = srv_invD [OF inv]
  let ?c = "ts_nextObject s" and ?name = "conn_name (ts_name s) (ts_ipPort s) (ts_nextConnId s)"
  have i: "i32 (ts_nextConnId s + 1) = ts_nextConnId s + 1" using lt I(2) by (intro i32_id) auto
  obtain l s1 where p: "pick_loop (cur = ts_loop s) s = Inr (l, s1)" using run by (auto simp: newConnection_def result_simps)
  then obtain tp where s1: "s1 = s\<lparr>ts_threadPool := tp\<rparr>" using pick_loop_eq by blast
  let ?t = "\<lambda>conn. s\<lparr>ts_threadPool := tp, ts_nextConnId := ts_nextConnId s + 1, ts_objects := (ts_objects s)(?c \<mapsto> conn),
      ts_nextObject := Suc ?c, ts_connections := map_put ?name ?c (ts_connections s)\<rparr>"
  obtain la where la: "s' = ts_runInLoop cur l (ConnectEstablished ?c)
      (?t \<lparr>co_name = ?name, co_loop = l, co_sockfd = fd, co_localAddr = InetAddress_in6 la, co_peerAddr = peer\<rparr>)"
    using run p by (auto simp: newConnection_def s1 i Let_def result_simps)
  define conn where "conn = \<lparr>co_name = ?name, co_loop = l, co_sockfd = fd, co_localAddr = InetAddress_in6 la, co_peerAddr = peer\<rparr>"
  have conn: "co_name conn = ?name" by (simp add: conn_def)
  note s' = la [folded conn_def]
  have old: "co_name d \<noteq> ?name" if "ts_objects s k = Some d" for k d
  proof
    have k: "k < ?c" "co_name d = conn_name (ts_name s) (ts_ipPort s) (int k + 1)" using I(4) [OF that] by auto
    assume "co_name d = ?name"
    then have "int k + 1 = ts_nextConnId s" using k lt I(1,2) by (intro conn_name_inj [OF I(1)]) auto
    then show False using k(1) I(2) by simp
  qed
  have rem: "removals (?t conn) = removals s" by (simp add: removals_def)
  have none: "ts_objects s ?c = None" using I(4) [of ?c] by (cases "ts_objects s ?c") auto
  then have dest: "?c \<notin> set (ts_destroyed s)" using I(8) by auto
  have "map_of (ts_connections (?t conn)) (co_name d) =
      (if k \<notin> set (ts_destroyed (?t conn)) \<or> k \<in> set (removals (?t conn)) then Some k else None)" if "ts_objects (?t conn) k = Some d" for k d
    using that I(9) [of k d] old [of k d] conn dest unfolding rem by (cases "k = ?c") (auto simp: map_put_of)
  moreover have "\<exists>d. ts_objects (?t conn) k = Some d \<and> co_name d = n" if "map_of (ts_connections (?t conn)) n = Some k" for n k
    using that I(10) [of n k] none conn by (auto simp: map_put_of split: if_splits)
  ultimately have "srv_inv (?t conn)" using I(1-8) lt conn unfolding srv_inv_def rem by (auto simp: less_Suc_eq)
  then show "srv_inv s'" unfolding s' by (rule run_elsewhere_inv) (simp add: removal_of_def)
  show "\<exists>conn. ts_objects s' (ts_nextObject s) = Some conn \<and> map_of (ts_connections s') (co_name conn) = Some (ts_nextObject s)"
    using conn by (simp add: s' ts_runInLoop_def map_put_of)
qed

lemma server_inv: "server_reach s \<Longrightarrow> srv_inv s"
proof (induction rule: server_reach.induct)
  case (new ipPort loop name acceptor)
  then show ?case by (simp add: srv_inv_def TcpServer_new_def removals_def List.map_filter_def)
next
  case (loops s loop inLoop num s')
  then obtain tp where "s' = s\<lparr>ts_threadPool := tp\<rparr>" by (auto simp: setIoLoopNum_def result_simps)
  then show ?case using srv_invD(5) [OF loops.IH] by (intro srv_inv_cong [OF loops.IH]) (auto simp: removals_def)
next
  case (start s cur flag flag' s')
  then consider "s' = s" | tp where "s' = ts_runInLoop cur (ts_loop s) AcceptorListen (s\<lparr>ts_threadPool := tp\<rparr>)"
    by (auto simp: ts_start_def result_simps split: if_splits option.splits)
  then show ?case
  proof cases
    case (2 tp)
    have "srv_inv (s\<lparr>ts_threadPool := tp\<rparr>)"
      using srv_invD(5) [OF start.IH] by (intro srv_inv_cong [OF start.IH]) (auto simp: removals_def)
    then show ?thesis unfolding 2 by (rule run_elsewhere_inv) (simp add: removal_of_def)
  qed (use start.IH in simp)
next
  case (accept s cur ret local fd peer s')
  then show ?case using accept_inv(1) by blast
next
  case (close s c conn s')
  then show ?case using close_ok [OF close.IH close.hyps(2,3)] by (metis sum.inject(2))
next
  case (pending s s')
  then show ?case using run_queued_ok [OF pending.IH] by (metis sum.inject(2))
qed


text \<open>Sample arguments.\<close>

definition sample_acceptor :: "(int \<rightharpoonup> int \<times> nat) acceptor" where
  "sample_acceptor = \<lparr>ac_fd = 3, ac_channel = 0, ac_channels = Map.empty, ac_poller = EPollPoller_new Map.empty,
     ac_newConnectionCallback = False, ac_idleFd = 4, ac_open = {3, 4}\<rparr>"

definition sample_addr :: sockaddr where
  "sample_addr = \<lparr>sa_family = AF_INET, sa_port = 80, sa_word = 0, sa_addr6 = replicate 16 0, sa_scope = 0\<rparr>"


text \<open>Two ways to lose a server: one without a thread pool cannot be started, and a second one is never started.\<close>

lemma start_needs_pool: "ts_start cur False (TcpServer_new loop ipPort name acceptor) = Inl NullPointer"
  by (simp add: ts_start_def TcpServer_new_def)

lemma second_start_skipped:
  "ts_start cur False s = Inr (flag, s1) \<Longrightarrow> ts_start cur flag t = Inr (flag, t)"
  by (auto simp: ts_start_def result_simps split: option.splits)

end
