(* ===== verification/Socket_Options.thy ===== *)
theory Socket_Options
  imports Inet_Address
begin

section \<open>Socket: options, flags and statistics\<close>

text \<open>
  The rest of \<open>Socket.h\<close> and \<open>Socket.cpp\<close>: the setters of socket options, the flags of a descriptor, the destructor, \<open>read\<close> and
  the statistics of a connection as text. The kernel is a state \<open>'o\<close> of its own that only \<open>setsockopt\<close> and \<open>fcntl\<close>, which are
  parameters, change; each answers a return value and the new state.
\<close>

unbundle bit_operations_syntax

subsection \<open>Operations\<close>

definition SOL_SOCKET :: int where "SOL_SOCKET = 1"
definition IPPROTO_TCP :: int where "IPPROTO_TCP = 6"
definition SO_REUSEADDR :: int where "SO_REUSEADDR = 2"
definition SO_KEEPALIVE :: int where "SO_KEEPALIVE = 9"
definition SO_REUSEPORT :: int where "SO_REUSEPORT = 15"
definition TCP_NODELAY :: int where "TCP_NODELAY = 1"

lemmas option_numbers = SOL_SOCKET_def IPPROTO_TCP_def SO_REUSEADDR_def SO_KEEPALIVE_def SO_REUSEPORT_def TCP_NODELAY_def

text \<open>Arguments: the descriptor, the level, the option and its value.\<close>

type_synonym 'o setsockopt = "'o \<Rightarrow> int \<Rightarrow> int \<Rightarrow> int \<Rightarrow> int \<Rightarrow> int \<times> 'o"

definition setTcpNoDelay :: "'o setsockopt \<Rightarrow> int \<Rightarrow> bool \<Rightarrow> 'o \<Rightarrow> 'o" where
  "setTcpNoDelay setsockopt sockfd on k =
     (let optval = (if on then 1 else 0) in snd (setsockopt k sockfd IPPROTO_TCP TCP_NODELAY optval))"

definition setReuseAddr :: "'o setsockopt \<Rightarrow> int \<Rightarrow> bool \<Rightarrow> 'o \<Rightarrow> 'o" where
  "setReuseAddr setsockopt sockfd on k =
     (let optval = (if on then 1 else 0) in snd (setsockopt k sockfd SOL_SOCKET SO_REUSEADDR optval))"

text \<open>On Linux, where \<open>SO_REUSEPORT\<close> is defined; a failure is noticed but not reported.\<close>

definition setReusePort :: "'o setsockopt \<Rightarrow> int \<Rightarrow> bool \<Rightarrow> 'o \<Rightarrow> 'o" where
  "setReusePort setsockopt sockfd on k =
     (let optval = (if on then 1 else 0); (ret, k) = setsockopt k sockfd SOL_SOCKET SO_REUSEPORT optval
      in if ret < 0 \<and> on then k else k)"

definition setKeepAlive :: "'o setsockopt \<Rightarrow> int \<Rightarrow> bool \<Rightarrow> 'o \<Rightarrow> 'o" where
  "setKeepAlive setsockopt sockfd on k =
     (let optval = (if on then 1 else 0) in snd (setsockopt k sockfd SOL_SOCKET SO_KEEPALIVE optval))"

datatype fcntl_cmd = F_GETFD | F_SETFD | F_GETFL | F_SETFL

definition O_NONBLOCK :: int where "O_NONBLOCK = 2048"
definition FD_CLOEXEC :: int where "FD_CLOEXEC = 1"

definition setNonBlockAndCloseOnExec :: "('o \<Rightarrow> int \<Rightarrow> fcntl_cmd \<Rightarrow> int \<Rightarrow> int \<times> 'o) \<Rightarrow> int \<Rightarrow> 'o \<Rightarrow> 'o" where
  "setNonBlockAndCloseOnExec fcntl sockfd k =
     (let (flags, k) = fcntl k sockfd F_GETFL 0;
          (ret, k) = fcntl k sockfd F_SETFL (flags OR O_NONBLOCK);
          (flags, k) = fcntl k sockfd F_GETFD 0;
          (ret, k) = fcntl k sockfd F_SETFD (flags OR FD_CLOEXEC)
      in k)"

text \<open>The destructor, on the set of the open descriptors.\<close>

definition Socket_destroy :: "int \<Rightarrow> int set \<Rightarrow> int set" where
  "Socket_destroy sockfd fds = (if sockfd \<ge> 0 then fds - {sockfd} else fds)"

text \<open>\<open>read\<close> returns the \<open>ssize_t\<close> of the system call as an \<open>int\<close>.\<close>

definition socket_read :: "int \<Rightarrow> int" where
  "socket_read ret = i32 ret"

subsection \<open>Statistics\<close>

text \<open>The fields of \<open>struct tcp_info\<close> that are printed.\<close>

record tcp_info =
  tcpi_retransmits :: "8 word"
  tcpi_rto :: "32 word"
  tcpi_ato :: "32 word"
  tcpi_snd_mss :: "32 word"
  tcpi_rcv_mss :: "32 word"
  tcpi_lost :: "32 word"
  tcpi_retrans :: "32 word"
  tcpi_rtt :: "32 word"
  tcpi_rttvar :: "32 word"
  tcpi_snd_ssthresh :: "32 word"
  tcpi_snd_cwnd :: "32 word"
  tcpi_total_retrans :: "32 word"

definition tcp_info_zero :: tcp_info where
  "tcp_info_zero = \<lparr>tcpi_retransmits = 0, tcpi_rto = 0, tcpi_ato = 0, tcpi_snd_mss = 0, tcpi_rcv_mss = 0, tcpi_lost = 0,
     tcpi_retrans = 0, tcpi_rtt = 0, tcpi_rttvar = 0, tcpi_snd_ssthresh = 0, tcpi_snd_cwnd = 0, tcpi_total_retrans = 0\<rparr>"

text \<open>\<open>ret\<close> and \<open>info\<close> are what \<open>getsockopt\<close> returns and stores.\<close>

definition getTcpInfo :: "int \<Rightarrow> tcp_info \<Rightarrow> bool \<times> tcp_info" where
  "getTcpInfo ret info = (ret = 0, if ret = 0 then info else tcp_info_zero)"

definition tcp_info_fields :: "tcp_info \<Rightarrow> (string \<times> nat) list" where
  "tcp_info_fields tcpi =
     [(''unrecovered='', unat (tcpi_retransmits tcpi)), ('' rto='', unat (tcpi_rto tcpi)), ('' ato='', unat (tcpi_ato tcpi)),
      ('' snd_mss='', unat (tcpi_snd_mss tcpi)), ('' rcv_mss='', unat (tcpi_rcv_mss tcpi)), ('' lost='', unat (tcpi_lost tcpi)),
      ('' retrans='', unat (tcpi_retrans tcpi)), ('' rtt='', unat (tcpi_rtt tcpi)), ('' rttvar='', unat (tcpi_rttvar tcpi)),
      ('' sshthresh='', unat (tcpi_snd_ssthresh tcpi)), ('' cwnd='', unat (tcpi_snd_cwnd tcpi)),
      ('' total_retrans='', unat (tcpi_total_retrans tcpi))]"

text \<open>
  \<open>snprintf\<close> with the \<open>int\<close> \<open>len\<close> as its \<open>size_t\<close>: the characters that it stores before the final zero, \<open>None\<close> when it stores
  nothing. A negative \<open>len\<close> counts as a huge size.
\<close>

definition snprintf_len :: "int \<Rightarrow> string \<Rightarrow> string option" where
  "snprintf_len len s = (let size' = nat (len mod 2 ^ 64) in if size' = 0 then None else Some (take (size' - 1) s))"

definition getTcpInfoString :: "int \<Rightarrow> tcp_info \<Rightarrow> int \<Rightarrow> bool \<times> string option" where
  "getTcpInfoString ret info len =
     (let (ok, tcpi) = getTcpInfo ret info
      in (ok, if ok then snprintf_len len (concat (map (\<lambda>(label, n). label @ show_nat n) (tcp_info_fields tcpi))) else None))"

subsection \<open>Laws\<close>

text \<open>
  The documented contract of \<open>setsockopt\<close>: a call that succeeds changes exactly its option, one that fails changes none;
  \<open>value\<close> reads an option.
\<close>

definition setsockopt_ok :: "'o setsockopt \<Rightarrow> ('o \<Rightarrow> int \<Rightarrow> int \<Rightarrow> int \<Rightarrow> int) \<Rightarrow> bool" where
  "setsockopt_ok setsockopt value \<longleftrightarrow> (\<forall>k fd level opt v. \<forall>fd' level' opt'.
     value (snd (setsockopt k fd level opt v)) fd' level' opt' =
       (if fst (setsockopt k fd level opt v) = 0 \<and> fd' = fd \<and> level' = level \<and> opt' = opt then v else value k fd' level' opt'))"

lemma setsockopt_okD:
  "setsockopt_ok f value \<Longrightarrow> value (snd (f k fd level opt v)) fd' level' opt' =
     (if fst (f k fd level opt v) = 0 \<and> fd' = fd \<and> level' = level \<and> opt' = opt then v else value k fd' level' opt')"
  by (simp add: setsockopt_ok_def)

text \<open>Each setter changes its own option and no other, on its own descriptor only.\<close>

lemma setters_independent:
  assumes ok: "setsockopt_ok f value" and "\<And>k level opt v. fst (f k fd level opt v) = 0"
    and "k' = setKeepAlive f fd d (setReusePort f fd c (setReuseAddr f fd b (setTcpNoDelay f fd a k)))"
  shows "value k' fd IPPROTO_TCP TCP_NODELAY = of_bool a" "value k' fd SOL_SOCKET SO_REUSEADDR = of_bool b"
    "value k' fd SOL_SOCKET SO_REUSEPORT = of_bool c" "value k' fd SOL_SOCKET SO_KEEPALIVE = of_bool d"
    "fd' \<noteq> fd \<Longrightarrow> value k' fd' level opt = value k fd' level opt"
  unfolding assms(3)
  by (simp_all add: setTcpNoDelay_def setReuseAddr_def setReusePort_def setKeepAlive_def Let_def case_prod_beta
      setsockopt_okD [OF ok] assms(2) option_numbers)

lemma Socket_destroy_closes: "fd \<notin> Socket_destroy fd fds \<or> fd < 0" "other \<noteq> fd \<Longrightarrow> other \<in> Socket_destroy fd fds \<longleftrightarrow> other \<in> fds"
  by (auto simp: Socket_destroy_def)

text \<open>\<open>read\<close> transfers at most \<open>0x7ffff000\<close> bytes, so its result survives the conversion.\<close>

lemma socket_read_exact: "- 1 \<le> ret \<Longrightarrow> ret \<le> 0x7ffff000 \<Longrightarrow> socket_read ret = ret"
  by (simp add: socket_read_def i32_id)

text \<open>A buffer of 256 characters has room for the whole text.\<close>

lemma unat_digits: "length (show_nat (unat (w :: 32 word))) \<le> 10" "length (show_nat (unat (v :: 8 word))) \<le> 3"
proof -
  have "unat w < 10 ^ 10" "unat v < 10 ^ 3" by (rule order.strict_trans [OF unsigned_less], simp)+
  then show "length (show_nat (unat w)) \<le> 10" "length (show_nat (unat v)) \<le> 3" by (simp_all add: show_nat_length)
qed

theorem tcp_info_fits:
  assumes "256 \<le> len" "len < 2 ^ 31"
  shows "getTcpInfoString 0 info len = (True, Some (concat (map (\<lambda>(label, n). label @ show_nat n) (tcp_info_fields info))))"
proof -
  let ?s = "concat (map (\<lambda>(label, n). label @ show_nat n) (tcp_info_fields info))"
  have "length ?s \<le> 255"
    using unat_digits(2) [of "tcpi_retransmits info"] unat_digits(1) [of "tcpi_rto info"] unat_digits(1) [of "tcpi_ato info"]
      unat_digits(1) [of "tcpi_snd_mss info"] unat_digits(1) [of "tcpi_rcv_mss info"] unat_digits(1) [of "tcpi_lost info"]
      unat_digits(1) [of "tcpi_retrans info"] unat_digits(1) [of "tcpi_rtt info"] unat_digits(1) [of "tcpi_rttvar info"]
      unat_digits(1) [of "tcpi_snd_ssthresh info"] unat_digits(1) [of "tcpi_snd_cwnd info"] unat_digits(1) [of "tcpi_total_retrans info"]
    by (simp add: tcp_info_fields_def)
  moreover have "nat (len mod 2 ^ 64) = nat len" using assms by simp
  ultimately show ?thesis using assms by (simp add: getTcpInfoString_def getTcpInfo_def snprintf_len_def Let_def)
qed

end
