(* ===== verification/Http_Service.thy ===== *)
theory Http_Service
  imports Http_Receive Tcp_Server Socket_Options
begin

section \<open>The server as a whole\<close>

text \<open>
  The construction and the start of \<open>http/HttpServer.cpp\<close>, the default callbacks of \<open>TcpServer.cpp\<close>, and the operations of
  \<open>TcpConnection.cpp\<close> that reach for the socket or only report.
\<close>

subsection \<open>TcpConnection\<close>

definition stateToString :: "StateE \<Rightarrow> string" where
  "stateToString st =
     (case st of
        kDisconnected \<Rightarrow> ''kDisconnected''
      | kConnecting \<Rightarrow> ''kConnecting''
      | kConnected \<Rightarrow> ''kConnected''
      | kDisconnecting \<Rightarrow> ''kDisconnecting'')"

definition tcp_setTcpNoDelay :: "'o setsockopt \<Rightarrow> 'k tcp \<Rightarrow> bool \<Rightarrow> 'o \<Rightarrow> 'o result" where
  "tcp_setTcpNoDelay setsockopt t on k =
     bindE (load (tc_channels t) (tc_channel t)) (\<lambda>ch. Inr (setTcpNoDelay setsockopt (ch_fd ch) on k))"

text \<open>The text that \<open>handleError\<close> prints; \<open>ret\<close>, \<open>errno\<close> and \<open>optval\<close> are the outcome of \<open>getsockopt\<close>.\<close>

definition tcp_handleError :: "string \<Rightarrow> int \<Rightarrow> int \<Rightarrow> int \<Rightarrow> string" where
  "tcp_handleError name ret errno optval =
     (let err = getSocketError ret errno optval
      in ''TcpConnection::handleError ['' @ name @ ''] - SO_ERROR = '' @ show_int err)"

subsection \<open>The default callbacks of a TcpServer\<close>

definition defaultConnectionCallback :: "'k tcp \<Rightarrow> 'k tcp" where
  "defaultConnectionCallback t = t"

text \<open>What is printed, and the buffer with its content dropped.\<close>

definition defaultMessageCallback :: "Buffer \<Rightarrow> (string \<times> Buffer) result" where
  "defaultMessageCallback buf =
     bindE (buf_readableBytes buf) (\<lambda>n.
     bindE (buf_retrieveAll buf) (\<lambda>buf. Inr (''unhandled recv message ['' @ show_int n @ '' bytes]'', buf)))"

subsection \<open>HttpServer\<close>

record 'k HttpServer =
  hv_server :: "'k server"
  hv_httpCallback :: http_callback

definition HttpServer_new :: "nat \<Rightarrow> string \<Rightarrow> string \<Rightarrow> 'k acceptor \<Rightarrow> 'k HttpServer" where
  "HttpServer_new loop ipPort name acceptor =
     \<lparr>hv_server = TcpServer_new loop ipPort name acceptor, hv_httpCallback = defaultHttpCallback\<rparr>"

definition setHttpCallback :: "'k HttpServer \<Rightarrow> http_callback \<Rightarrow> 'k HttpServer" where
  "setHttpCallback s cb = s\<lparr>hv_httpCallback := cb\<rparr>"

text \<open>The \<open>int\<close> becomes the \<open>size_t\<close> of \<open>setIoLoopNum\<close>.\<close>

definition setThreadNum :: "(nat \<Rightarrow> nat) \<Rightarrow> bool \<Rightarrow> int \<Rightarrow> 'k HttpServer \<Rightarrow> 'k HttpServer result" where
  "setThreadNum loop inLoop numThreads s =
     bindE (setIoLoopNum loop inLoop (nat (as_size_t numThreads)) (hv_server s)) (\<lambda>t. Inr (s\<lparr>hv_server := t\<rparr>))"

definition hv_start :: "nat \<Rightarrow> bool \<Rightarrow> 'k HttpServer \<Rightarrow> (string \<times> bool \<times> 'k HttpServer) result" where
  "hv_start cur flag s =
     (let log = ''HttpServer['' @ ts_name (hv_server s) @ ''] starts listening on '' @ ts_ipPort (hv_server s)
      in bindE (ts_start cur flag (hv_server s)) (\<lambda>(flag, t). Inr (log, flag, s\<lparr>hv_server := t\<rparr>)))"

subsection \<open>Laws\<close>

lemma stateToString_inj: "stateToString a = stateToString b \<longleftrightarrow> a = b"
  by (cases a; cases b; simp add: stateToString_def)

lemma unhandled_message_dropped:
  assumes "buf_ok m buf"
  obtains buf' where "defaultMessageCallback (Some buf) =
      Inr (''unhandled recv message ['' @ show_int (int (length (readable m buf))) @ '' bytes]'', Some buf')"
    "buf_ok m buf'" "readable m buf' = []"
proof -
  have ok: "buf_ok m (retrieveAll buf)" using assms by (auto simp: buf_ok_def retrieveAll_def)
  moreover have "readable m (retrieveAll buf) = []" using readable_length(1) [OF ok] by (simp add: retrieveAll_def)
  ultimately show ?thesis using that [of "retrieveAll buf"] readable_length(2) [OF assms]
    by (simp add: defaultMessageCallback_def buf_readableBytes_def buf_retrieveAll_def internal_def)
qed

text \<open>
  A server that is started as it was constructed fails; with threads set, the first start makes its loop listen, and answers
  requests with the page 404 until a callback is set.
\<close>

theorem http_server_start:
  "hv_start cur False (HttpServer_new loop ipPort name acc) = Inl NullPointer"
  "\<exists>s s'. setThreadNum loops True n (setHttpCallback (HttpServer_new loop ipPort name acc) cb) = Inr s \<and>
     hv_start loop False s = Inr (''HttpServer['' @ name @ ''] starts listening on '' @ ipPort, True, s') \<and>
     ts_ran (hv_server s') = [(loop, AcceptorListen)] \<and> hv_httpCallback s' = cb \<and>
     map_option lp_running (ts_threadPool (hv_server s')) = Some (replicate (nat (as_size_t n)) True)"
  by (simp_all add: hv_start_def HttpServer_new_def ts_start_def TcpServer_new_def setThreadNum_def setHttpCallback_def setIoLoopNum_def
      lp_start_def assertInLoopThread_def EventLoopThreadPool_new_def ts_runInLoop_def map_replicate_const)

text \<open>The context of a connection is there as soon as it is established, so a message never meets a null context.\<close>

theorem established_has_context:
  assumes "epoll_ok ctl interest" "conn_new interest (hs_conn h)"
  shows "\<exists>t. connectEstablished ctl this (hs_conn h) = Inr t \<and> conn_ok interest t \<and>
    hs_context (hs_onConnection (h\<lparr>hs_conn := t\<rparr>)) = Some HttpContext_new"
proof -
  obtain t where "connectEstablished ctl this (hs_conn h) = Inr t" "conn_ok interest t" "tc_state t = kConnected"
    by (rule connectEstablished_ok [OF assms, where this = this])
  then show ?thesis by (simp add: hs_onConnection_def)
qed

end
