(* ===== verification/Time_Val.thy ===== *)
theory Time_Val
  imports Prelude
begin

section \<open>m_timeval and DelayQueue\<close>

text \<open>
  \<open>timer/delay_queue/TimeEntry.h\<close> and \<open>timer/delay_queue/DelayQueue.h\<close>: times as seconds and
  microseconds, their arithmetic on 64-bit microsecond counts, and the queue of buckets ordered by
  expiration.
\<close>

subsection \<open>Times\<close>

record timeval =
  tv_sec :: int
  tv_usec :: int

definition tv_default :: timeval where
  "tv_default = \<lparr>tv_sec = - 1, tv_usec = - 1\<rparr>"

definition tv_of :: "int \<Rightarrow> timeval" where
  "tv_of u = \<lparr>tv_sec = u sdiv 1000000, tv_usec = u smod 1000000\<rparr>"

text \<open>The sum \<open>tv_sec*1000000 + tv_usec\<close> that every operator computes.\<close>

definition lsum :: "timeval \<Rightarrow> int" where
  "lsum v = i64 (i64 (tv_sec v * 1000000) + tv_usec v)"

definition tv_gt :: "timeval \<Rightarrow> timeval \<Rightarrow> bool" where
  "tv_gt l r \<longleftrightarrow> lsum l > lsum r"

definition tv_lt :: "timeval \<Rightarrow> timeval \<Rightarrow> bool" where
  "tv_lt l r \<longleftrightarrow> lsum l < lsum r"

definition tv_ge :: "timeval \<Rightarrow> timeval \<Rightarrow> bool" where
  "tv_ge l r \<longleftrightarrow> lsum l \<ge> lsum r"

definition tv_ne :: "timeval \<Rightarrow> timeval \<Rightarrow> bool" where
  "tv_ne l r \<longleftrightarrow> lsum l \<noteq> lsum r"

text \<open>The divisor of \<open>%\<close> and \<open>/\<close> is the tick of a wheel; a tick of zero traps and is left out.\<close>

definition tv_mod :: "timeval \<Rightarrow> timeval \<Rightarrow> timeval" where
  "tv_mod l r = \<lparr>tv_sec = (lsum l smod lsum r) sdiv 1000000, tv_usec = (lsum l smod lsum r) smod 1000000\<rparr>"

definition tv_mul :: "timeval \<Rightarrow> int \<Rightarrow> timeval" where
  "tv_mul l r = \<lparr>tv_sec = i64 (lsum l * r) sdiv 1000000, tv_usec = i64 (lsum l * r) smod 1000000\<rparr>"

definition tv_div :: "timeval \<Rightarrow> timeval \<Rightarrow> int" where
  "tv_div l r = lsum l sdiv lsum r"

definition tv_sub :: "timeval \<Rightarrow> timeval \<Rightarrow> timeval" where
  "tv_sub l r =
     (let sum = i64 (i64 (lsum l - i64 (tv_sec r * 1000000)) - tv_usec r)
      in if sum < 0 then \<lparr>tv_sec = - 1, tv_usec = - 1\<rparr>
         else \<lparr>tv_sec = sum sdiv 1000000, tv_usec = sum smod 1000000\<rparr>)"

definition tv_add :: "timeval \<Rightarrow> timeval \<Rightarrow> timeval" where
  "tv_add l r =
     (let sum = i64 (i64 (lsum l + i64 (tv_sec r * 1000000)) + tv_usec r)
      in \<lparr>tv_sec = sum sdiv 1000000, tv_usec = sum smod 1000000\<rparr>)"

subsection \<open>Laws of the times\<close>

text \<open>
  Times up to \<open>2 ^ 60\<close> microseconds, some 36000 years: their sums do not leave the 64 bits.
\<close>

definition tv_ok :: "timeval \<Rightarrow> bool" where
  "tv_ok v \<longleftrightarrow> 0 \<le> tv_sec v \<and> 0 \<le> tv_usec v \<and> tv_sec v * 1000000 + tv_usec v \<le> 2 ^ 60"

lemma lsum_ok:
  assumes "tv_ok v"
  shows "lsum v = tv_sec v * 1000000 + tv_usec v" "0 \<le> lsum v" "lsum v \<le> 2 ^ 60"
    "i64 (tv_sec v * 1000000) = tv_sec v * 1000000"
proof -
  have v: "0 \<le> tv_sec v" "0 \<le> tv_usec v" "tv_sec v * 1000000 + tv_usec v \<le> 2 ^ 60" using assms by (simp_all add: tv_ok_def)
  show s: "i64 (tv_sec v * 1000000) = tv_sec v * 1000000" using v by (intro i64_id) simp_all
  show eq: "lsum v = tv_sec v * 1000000 + tv_usec v"
    unfolding lsum_def s using v by (intro i64_id) simp_all
  show "0 \<le> lsum v" "lsum v \<le> 2 ^ 60" using v unfolding eq by simp_all
qed

lemma sdiv_nonneg:
  fixes u d :: int
  assumes "0 \<le> u" "0 < d"
  shows "u sdiv d = u div d" "u smod d = u mod d"
  using assms by (cases "u = 0"; simp add: signed_divide_int_def signed_modulo_int_def minus_div_mult_eq_mod sgn_if)+

lemma split_us:
  fixes u :: int
  assumes "0 \<le> u"
  shows "u sdiv 1000000 = u div 1000000" "u smod 1000000 = u mod 1000000"
  using assms by (simp_all add: sdiv_nonneg)

lemma lsum_parts:
  assumes "0 \<le> u" "u \<le> 2 ^ 60"
  shows "tv_ok \<lparr>tv_sec = u div 1000000, tv_usec = u mod 1000000\<rparr>"
    "lsum \<lparr>tv_sec = u div 1000000, tv_usec = u mod 1000000\<rparr> = u"
proof -
  show ok: "tv_ok \<lparr>tv_sec = u div 1000000, tv_usec = u mod 1000000\<rparr>"
    using assms by (simp add: tv_ok_def pos_imp_zdiv_nonneg_iff)
  show "lsum \<lparr>tv_sec = u div 1000000, tv_usec = u mod 1000000\<rparr> = u" using lsum_ok(1) [OF ok] by simp
qed

lemma tv_of_ok: "0 \<le> u \<Longrightarrow> u \<le> 2 ^ 60 \<Longrightarrow> tv_ok (tv_of u) \<and> lsum (tv_of u) = u"
  using lsum_parts [of u] by (simp add: tv_of_def split_us)

lemma tv_add_ok:
  assumes "tv_ok a" "tv_ok b" "lsum a + lsum b \<le> 2 ^ 60"
  shows "tv_ok (tv_add a b) \<and> lsum (tv_add a b) = lsum a + lsum b"
proof -
  note A = lsum_ok [OF assms(1)] and B = lsum_ok [OF assms(2)]
  have b: "0 \<le> tv_sec b * 1000000" "0 \<le> tv_usec b" "lsum b = tv_sec b * 1000000 + tv_usec b"
    using assms(2) B(1) by (simp_all add: tv_ok_def)
  have "i64 (lsum a + tv_sec b * 1000000) = lsum a + tv_sec b * 1000000"
    using A(2,3) b assms(3) by (intro i64_id) simp_all
  moreover have "i64 (lsum a + tv_sec b * 1000000 + tv_usec b) = lsum a + lsum b"
    using A(2,3) b assms(3) by (subst i64_id) simp_all
  ultimately show ?thesis
    using lsum_parts [of "lsum a + lsum b"] A(2) B(2) assms(3) by (simp add: tv_add_def B(4) Let_def split_us)
qed

lemma tv_sub_ok:
  assumes "tv_ok a" "tv_ok b" "lsum b \<le> lsum a"
  shows "tv_ok (tv_sub a b) \<and> lsum (tv_sub a b) = lsum a - lsum b"
proof -
  note A = lsum_ok [OF assms(1)] and B = lsum_ok [OF assms(2)]
  have b: "0 \<le> tv_sec b * 1000000" "0 \<le> tv_usec b" "lsum b = tv_sec b * 1000000 + tv_usec b"
    using assms(2) B(1) by (simp_all add: tv_ok_def)
  have "i64 (lsum a - tv_sec b * 1000000) = lsum a - tv_sec b * 1000000"
    using A(2,3) B(2,3) b by (intro i64_id) simp_all
  moreover have "i64 (lsum a - tv_sec b * 1000000 - tv_usec b) = lsum a - lsum b"
    using A(2,3) B(2,3) b by (subst i64_id) simp_all
  ultimately show ?thesis
    using lsum_parts [of "lsum a - lsum b"] A(2,3) B(2) assms(3) by (simp add: tv_sub_def B(4) Let_def split_us)
qed

lemma tv_mod_ok:
  assumes "tv_ok a" "tv_ok b" "0 < lsum b"
  shows "tv_ok (tv_mod a b) \<and> lsum (tv_mod a b) = lsum a mod lsum b"
proof -
  note A = lsum_ok [OF assms(1)] and B = lsum_ok [OF assms(2)]
  have "lsum a smod lsum b = lsum a mod lsum b"
    using A(2) assms(3) by (rule sdiv_nonneg)
  moreover have "0 \<le> lsum a mod lsum b" "lsum a mod lsum b \<le> 2 ^ 60"
    using assms(3) A(2,3) zmod_le_nonneg_dividend [OF A(2), of "lsum b"] by simp_all
  ultimately show ?thesis using lsum_parts [of "lsum a mod lsum b"] by (simp add: tv_mod_def split_us)
qed

lemma tv_mul_ok:
  assumes "tv_ok a" "0 \<le> k" "lsum a * k \<le> 2 ^ 60"
  shows "tv_ok (tv_mul a k) \<and> lsum (tv_mul a k) = lsum a * k"
proof -
  note A = lsum_ok [OF assms(1)]
  have p: "0 \<le> lsum a * k" using A(2) assms(2) by simp
  then have "i64 (lsum a * k) = lsum a * k" using assms(3) by (intro i64_id) simp_all
  then show ?thesis using lsum_parts [OF p assms(3)] p by (simp add: tv_mul_def split_us)
qed

lemma tv_div_ok:
  assumes "tv_ok a" "tv_ok b" "0 < lsum b"
  shows "tv_div a b = lsum a div lsum b"
  using lsum_ok(2) [OF assms(1)] assms(3) by (simp add: tv_div_def sdiv_nonneg)

subsection \<open>The delay queue\<close>

text \<open>
  \<open>std::priority_queue\<close> with the least expiration on top, kept as a list sorted by expiration; among
  entries that expire together the standard leaves the order open, here the oldest comes first.
  The spin lock makes each operation atomic. \<open>now\<close> is what \<open>gettimeofday\<close> answers.
\<close>

type_synonym 'a delay_queue = "(timeval \<times> 'a) list"

definition entry_gt :: "timeval \<times> 'a \<Rightarrow> timeval \<times> 'a \<Rightarrow> bool" where
  "entry_gt a b \<longleftrightarrow> lsum (fst a) > lsum (fst b)"

primrec dq_insert :: "timeval \<times> 'a \<Rightarrow> 'a delay_queue \<Rightarrow> 'a delay_queue" where
  "dq_insert e [] = [e]"
| "dq_insert e (x # q) = (if entry_gt x e then e # x # q else x # dq_insert e q)"

definition dq_offer :: "'a delay_queue \<Rightarrow> 'a \<Rightarrow> timeval \<Rightarrow> 'a delay_queue" where
  "dq_offer q t expiration = dq_insert (expiration, t) q"

definition getDelay :: "timeval \<Rightarrow> timeval \<times> 'a \<Rightarrow> bool" where
  "getDelay now e \<longleftrightarrow> tv_gt (fst e) now"

definition dq_poll :: "timeval \<Rightarrow> 'a delay_queue \<Rightarrow> 'a option \<times> 'a delay_queue" where
  "dq_poll now q = (case q of [] \<Rightarrow> (None, []) | e # r \<Rightarrow> if getDelay now e then (None, q) else (Some (snd e), r))"

definition dq_inv :: "'a delay_queue \<Rightarrow> bool" where
  "dq_inv q \<longleftrightarrow> sorted (map (lsum \<circ> fst) q)"

lemma dq_insert_mset: "mset (dq_insert e q) = add_mset e (mset q)"
  by (induction q) auto

lemma dq_insert_inv: "dq_inv q \<Longrightarrow> dq_inv (dq_insert e q)"
proof (induction q)
  case (Cons x q)
  have "set (dq_insert e q) = insert e (set q)" using dq_insert_mset [of e q] by (metis set_mset_add_mset_insert set_mset_mset)
  with Cons show ?case by (auto simp: dq_inv_def entry_gt_def not_less)
qed (simp add: dq_inv_def)

text \<open>
  The contract of a delay queue: a poll answers an entry that has expired and expires no later than any
  other entry, and it answers nothing only when no entry has expired.
\<close>

locale delays =
  fixes offer :: "'q \<Rightarrow> 'a \<Rightarrow> timeval \<Rightarrow> 'q" and poll :: "timeval \<Rightarrow> 'q \<Rightarrow> 'a option \<times> 'q"
    and inv :: "'q \<Rightarrow> bool" and elems :: "'q \<Rightarrow> (timeval \<times> 'a) multiset"
  assumes inv_offer: "inv q \<Longrightarrow> inv (offer q t e)"
    and elems_offer: "inv q \<Longrightarrow> elems (offer q t e) = add_mset (e, t) (elems q)"
    and poll_None: "inv q \<Longrightarrow> poll now q = (None, q') \<Longrightarrow> q' = q \<and> (\<forall>x\<in>#elems q. lsum now < lsum (fst x))"
    and poll_Some: "inv q \<Longrightarrow> poll now q = (Some t, q') \<Longrightarrow> inv q' \<and>
      (\<exists>e. elems q = add_mset (e, t) (elems q') \<and> lsum e \<le> lsum now \<and> (\<forall>x\<in>#elems q. lsum e \<le> lsum (fst x)))"
begin

primrec offer_all :: "'q \<Rightarrow> (timeval \<times> 'a) list \<Rightarrow> 'q" where
  "offer_all q [] = q"
| "offer_all q (x # xs) = offer_all (offer q (snd x) (fst x)) xs"

primrec poll_all :: "nat \<Rightarrow> timeval \<Rightarrow> 'q \<Rightarrow> 'a list \<times> 'q" where
  "poll_all 0 now q = ([], q)"
| "poll_all (Suc n) now q = (case poll now q of
     (None, q') \<Rightarrow> ([], q') | (Some t, q') \<Rightarrow> let (ts, r) = poll_all n now q' in (t # ts, r))"

lemma offer_all_inv: "inv q \<Longrightarrow> inv (offer_all q xs)"
  by (induction xs arbitrary: q) (simp_all add: inv_offer)

lemma offer_all_elems: "inv q \<Longrightarrow> elems (offer_all q xs) = elems q + mset xs"
  by (induction xs arbitrary: q) (simp_all add: inv_offer elems_offer)

text \<open>Polling until nothing has expired hands out exactly the expired entries.\<close>

lemma poll_all_expired:
  assumes "inv q" "size (elems q) \<le> n"
  shows "mset (fst (poll_all n now q)) = image_mset snd (filter_mset (\<lambda>x. lsum (fst x) \<le> lsum now) (elems q)) \<and>
    inv (snd (poll_all n now q)) \<and>
    elems (snd (poll_all n now q)) = filter_mset (\<lambda>x. lsum now < lsum (fst x)) (elems q)"
  using assms
proof (induction n arbitrary: q)
  case (Suc n)
  show ?case
  proof (cases "poll now q")
    case (Pair a q')
    show ?thesis
    proof (cases a)
      case None
      then have "q' = q" "\<forall>x\<in>#elems q. lsum now < lsum (fst x)"
        using poll_None [OF Suc.prems(1)] Pair by auto
      then have "filter_mset (\<lambda>x. lsum (fst x) \<le> lsum now) (elems q) = {#}"
        "filter_mset (\<lambda>x. lsum now < lsum (fst x)) (elems q) = elems q"
        by (auto simp: filter_mset_eq_conv filter_mset_False [symmetric] simp del: filter_mset_False intro!: filter_mset_cong)
      then show ?thesis using None Pair \<open>q' = q\<close> Suc.prems(1) by simp
    next
      case (Some t)
      then obtain e where e: "inv q'" "elems q = add_mset (e, t) (elems q')" "lsum e \<le> lsum now"
        using poll_Some [OF Suc.prems(1)] Pair by blast
      have "size (elems q') \<le> n" using Suc.prems(2) e(2) by simp
      from Suc.IH [OF e(1) this] show ?thesis using Pair Some e by (simp add: case_prod_beta)
    qed
  qed
qed simp

end

interpretation dq: delays dq_offer dq_poll dq_inv mset
proof
  fix q :: "'a delay_queue" and t :: 'a and e now :: timeval and q'
  show "dq_inv q \<Longrightarrow> dq_inv (dq_offer q t e)" by (simp add: dq_offer_def dq_insert_inv)
  show "dq_inv q \<Longrightarrow> mset (dq_offer q t e) = add_mset (e, t) (mset q)" by (simp add: dq_offer_def dq_insert_mset)
  show "dq_inv q \<Longrightarrow> dq_poll now q = (None, q') \<Longrightarrow> q' = q \<and> (\<forall>x\<in>#mset q. lsum now < lsum (fst x))"
    by (cases q) (auto simp: dq_poll_def dq_inv_def getDelay_def tv_gt_def split: if_splits)
  show "dq_inv q \<Longrightarrow> dq_poll now q = (Some t, q') \<Longrightarrow> dq_inv q' \<and>
      (\<exists>e. mset q = add_mset (e, t) (mset q') \<and> lsum e \<le> lsum now \<and> (\<forall>x\<in>#mset q. lsum e \<le> lsum (fst x)))"
    by (cases q) (auto simp: dq_poll_def dq_inv_def getDelay_def tv_gt_def split: if_splits)
qed


end
