(* ===== verification/Timing_Wheel.thy ===== *)
theory Timing_Wheel
  imports Time_Val
begin

section \<open>The hierarchical timing wheel\<close>

text \<open>
  \<open>timer/TimerTaskList.h\<close>, \<open>timer/TimerTaskList.cc\<close>, \<open>timer/TimingWheel.h\<close>, \<open>timer/TimingWheel.cc\<close>,
  \<open>timer/Timer.h\<close> and \<open>timer/Timer.cc\<close>: tasks wait in buckets, doubly linked lists with a root entry;
  a wheel has a bucket per tick and an overflow wheel whose tick is its whole turn; a delay queue
  holds the buckets by expiration. Entries, tasks, lists and wheels are in stores, because the
  copies of a list share their root. The locks make the operations atomic. \<open>tm_pool\<close> lists the
  functions handed to the thread pool.
\<close>

subsection \<open>State\<close>

record TimerTask =
  tt_func :: nat
  tt_timerTaskEntry :: "nat option"

record TimerTaskEntry =
  te_expiration :: timeval
  te_timerTask :: "nat option"
  te_list :: "nat option"
  te_prev :: "nat option"
  te_next :: "nat option"

record TimerTaskList =
  tl_root :: nat
  tl_expiration :: timeval

record TimingWheel =
  tw_interval :: timeval
  tw_tickMs :: timeval
  tw_wheelSize :: int
  tw_currentTime :: timeval
  tw_buckets :: "nat list"
  tw_overflowWheel :: "nat option"

record Timer =
  tm_tasks :: "TimerTask store"
  tm_entries :: "TimerTaskEntry store"
  tm_lists :: "TimerTaskList store"
  tm_wheels :: "TimingWheel store"
  tm_delayQueue :: "nat delay_queue"
  tm_pool :: "nat list"
  tm_next :: nat
  tm_timingWheel :: nat

abbreviation put_entry :: "Timer \<Rightarrow> nat \<Rightarrow> TimerTaskEntry \<Rightarrow> Timer" where
  "put_entry t a e \<equiv> t\<lparr>tm_entries := (tm_entries t)(a \<mapsto> e)\<rparr>"

abbreviation put_wheel :: "Timer \<Rightarrow> nat \<Rightarrow> TimingWheel \<Rightarrow> Timer" where
  "put_wheel t a w \<equiv> t\<lparr>tm_wheels := (tm_wheels t)(a \<mapsto> w)\<rparr>"

subsection \<open>TimerTaskList\<close>

text \<open>A write \<open>p->next = v\<close> or \<open>p->prev = v\<close> through a pointer.\<close>

definition set_te_next :: "Timer \<Rightarrow> nat option \<Rightarrow> nat option \<Rightarrow> Timer result" where
  "set_te_next t p v = bindE (deref p) (\<lambda>a. bindE (load (tm_entries t) a) (\<lambda>e. Inr (put_entry t a (e\<lparr>te_next := v\<rparr>))))"

definition set_te_prev :: "Timer \<Rightarrow> nat option \<Rightarrow> nat option \<Rightarrow> Timer result" where
  "set_te_prev t p v = bindE (deref p) (\<lambda>a. bindE (load (tm_entries t) a) (\<lambda>e. Inr (put_entry t a (e\<lparr>te_prev := v\<rparr>))))"

definition tl_remove :: "Timer \<Rightarrow> nat \<Rightarrow> nat \<Rightarrow> Timer result" where
  "tl_remove t this x =
     bindE (load (tm_entries t) x) (\<lambda>e.
     if te_list e = Some this then
       bindE (set_te_prev t (te_next e) (te_prev e)) (\<lambda>t.
       bindE (load (tm_entries t) x) (\<lambda>e.
       bindE (set_te_next t (te_prev e) (te_next e)) (\<lambda>t.
       bindE (load (tm_entries t) x) (\<lambda>e.
         Inr (put_entry t x (e\<lparr>te_next := None, te_prev := None, te_list := None\<rparr>))))))
     else Inr t)"

text \<open>
  \<open>TimerTaskEntry::remove\<close>: the loop asks the entry's list to remove it until it has none; the list
  is the entry's own, so it clears the pointer and one round is enough.
\<close>

definition te_remove :: "Timer \<Rightarrow> nat \<Rightarrow> Timer result" where
  "te_remove t x =
     bindE (load (tm_entries t) x) (\<lambda>e.
     case te_list e of None \<Rightarrow> Inr t | Some l \<Rightarrow> tl_remove t l x)"

definition tl_add :: "Timer \<Rightarrow> nat \<Rightarrow> nat \<Rightarrow> Timer result" where
  "tl_add t this x =
     bindE (te_remove t x) (\<lambda>t.
     bindE (load (tm_entries t) x) (\<lambda>e.
     if te_list e = None then
       bindE (load (tm_lists t) this) (\<lambda>l.
       bindE (load (tm_entries t) (tl_root l)) (\<lambda>root.
       let tail = te_prev root;
           t = put_entry t x (e\<lparr>te_next := Some (tl_root l), te_prev := tail, te_list := Some this\<rparr>)
       in bindE (set_te_next t tail (Some x)) (\<lambda>t. set_te_prev t (Some (tl_root l)) (Some x))))
     else Inr t))"

definition setExpiration :: "Timer \<Rightarrow> nat \<Rightarrow> timeval \<Rightarrow> (bool \<times> Timer) result" where
  "setExpiration t this expiration =
     bindE (load (tm_lists t) this) (\<lambda>l.
       Inr (tv_ne expiration (tl_expiration l),
            t\<lparr>tm_lists := (tm_lists t)(this \<mapsto> l\<lparr>tl_expiration := expiration\<rparr>)\<rparr>))"

definition getExpiration :: "Timer \<Rightarrow> nat \<Rightarrow> timeval result" where
  "getExpiration t this = bindE (load (tm_lists t) this) (\<lambda>l. Inr (tl_expiration l))"

text \<open>\<open>new TimerTaskList()\<close> at the next address, its root behind it; and the copy constructor.\<close>

definition TimerTaskList_new :: "Timer \<Rightarrow> nat \<times> Timer" where
  "TimerTaskList_new t =
     (let a = tm_next t; r = Suc a
      in (a, t\<lparr>tm_lists := (tm_lists t)(a \<mapsto> \<lparr>tl_root = r, tl_expiration = tv_default\<rparr>),
               tm_entries := (tm_entries t)(r \<mapsto> \<lparr>te_expiration = tv_default, te_timerTask = None, te_list = None,
                                                  te_prev = Some r, te_next = Some r\<rparr>),
               tm_next := Suc r\<rparr>))"

definition TimerTaskList_copy :: "TimerTaskList \<Rightarrow> TimerTaskList" where
  "TimerTaskList_copy l = \<lparr>tl_root = tl_root l, tl_expiration = tl_expiration l\<rparr>"

subsection \<open>TimerTask and TimerTaskEntry\<close>

definition setTimerTaskEntry :: "Timer \<Rightarrow> nat \<Rightarrow> nat \<Rightarrow> Timer result" where
  "setTimerTaskEntry t task entry =
     bindE (load (tm_tasks t) task) (\<lambda>k.
     bindE (case tt_timerTaskEntry k of
              None \<Rightarrow> Inr t
            | Some old \<Rightarrow> if old \<noteq> entry then te_remove t old else Inr t) (\<lambda>t.
       Inr (t\<lparr>tm_tasks := (tm_tasks t)(task \<mapsto> k\<lparr>tt_timerTaskEntry := Some entry\<rparr>)\<rparr>)))"

definition TimerTaskEntry_new :: "Timer \<Rightarrow> nat option \<Rightarrow> timeval \<Rightarrow> (nat \<times> Timer) result" where
  "TimerTaskEntry_new t timerTask expiration =
     (let a = tm_next t;
          t = (put_entry t a \<lparr>te_expiration = expiration, te_timerTask = timerTask, te_list = None, te_prev = None,
                             te_next = None\<rparr>)\<lparr>tm_next := Suc a\<rparr>
      in case timerTask of
           None \<Rightarrow> Inr (a, t)
         | Some k \<Rightarrow> bindE (setTimerTaskEntry t k a) (\<lambda>t. Inr (a, t)))"

definition cancelled :: "Timer \<Rightarrow> nat \<Rightarrow> bool result" where
  "cancelled t x =
     bindE (load (tm_entries t) x) (\<lambda>e.
     bindE (deref (te_timerTask e)) (\<lambda>k.
     bindE (load (tm_tasks t) k) (\<lambda>task. Inr (tt_timerTaskEntry task \<noteq> Some x))))"

subsection \<open>TimingWheel\<close>

text \<open>
  The constructor: \<open>m_buckets.resize(wheelSize, TimerTaskList())\<close> copies one temporary list into every
  bucket. The destructor of the temporary finds its ring empty and deletes nothing.
\<close>

definition TimingWheel_new :: "Timer \<Rightarrow> timeval \<Rightarrow> int \<Rightarrow> timeval \<Rightarrow> nat \<times> Timer" where
  "TimingWheel_new t tickMs wheelSize startMs =
     (let (tmp, t) = TimerTaskList_new t;
          n = nat wheelSize;
          as = [tm_next t..<tm_next t + n];
          copy = (case tm_lists t tmp of Some l \<Rightarrow> TimerTaskList_copy l
                  | None \<Rightarrow> \<lparr>tl_root = 0, tl_expiration = tv_default\<rparr>);
          a = tm_next t + n;
          w = \<lparr>tw_interval = tv_mul tickMs wheelSize, tw_tickMs = tickMs, tw_wheelSize = wheelSize,
               tw_currentTime = tv_sub startMs (tv_mod startMs tickMs), tw_buckets = as, tw_overflowWheel = None\<rparr>
      in (a, (put_wheel t a w)\<lparr>tm_lists := fold (\<lambda>b ls. ls(b \<mapsto> copy)) as ((tm_lists t)(tmp := None)),
                               tm_next := Suc a\<rparr>))"

definition addOverflowWheel :: "Timer \<Rightarrow> nat \<Rightarrow> Timer result" where
  "addOverflowWheel t this =
     bindE (load (tm_wheels t) this) (\<lambda>w.
     if tw_overflowWheel w = None then
       let (o', t) = TimingWheel_new t (tw_interval w) (tw_wheelSize w) (tw_currentTime w)
       in Inr (put_wheel t this (w\<lparr>tw_overflowWheel := Some o'\<rparr>))
     else Inr t)"

text \<open>\<open>add\<close> recurs along the overflow wheels; \<open>fuel\<close> bounds how many it may create.\<close>

primrec wheel_add :: "nat \<Rightarrow> Timer \<Rightarrow> nat \<Rightarrow> nat \<Rightarrow> (bool \<times> Timer) result" where
  "wheel_add 0 t this x = Inl Diverges"
| "wheel_add (Suc fuel) t this x =
     bindE (load (tm_entries t) x) (\<lambda>e.
     let expiration = te_expiration e
     in bindE (cancelled t x) (\<lambda>c.
        if c then Inr (False, t)
        else
          bindE (load (tm_wheels t) this) (\<lambda>w.
          if tv_lt expiration (tv_add (tw_currentTime w) (tw_tickMs w)) then Inr (False, t)
          else if tv_lt expiration (tv_add (tw_currentTime w) (tw_interval w)) then
            let virtualId = tv_div expiration (tw_tickMs w)
            in bindE (getE (tw_buckets w) (virtualId smod tw_wheelSize w)) (\<lambda>bucket.
               bindE (tl_add t bucket x) (\<lambda>t.
               bindE (setExpiration t bucket (tv_mul (tw_tickMs w) virtualId)) (\<lambda>(changed, t).
                 Inr (True, if changed then t\<lparr>tm_delayQueue := dq_offer (tm_delayQueue t) bucket expiration\<rparr> else t))))
          else
            bindE (if tw_overflowWheel w = None then addOverflowWheel t this else Inr t) (\<lambda>t.
            bindE (load (tm_wheels t) this) (\<lambda>w.
            bindE (deref (tw_overflowWheel w)) (\<lambda>o'. wheel_add fuel t o' x))))))"

primrec wheel_advanceClock :: "nat \<Rightarrow> Timer \<Rightarrow> nat \<Rightarrow> timeval \<Rightarrow> Timer result" where
  "wheel_advanceClock 0 t this timeMs = Inl Diverges"
| "wheel_advanceClock (Suc fuel) t this timeMs =
     bindE (load (tm_wheels t) this) (\<lambda>w.
     if tv_ge timeMs (tv_add (tw_currentTime w) (tw_tickMs w)) then
       let now = tv_sub timeMs (tv_mod timeMs (tw_tickMs w));
           t = put_wheel t this (w\<lparr>tw_currentTime := now\<rparr>)
       in (case tw_overflowWheel w of None \<Rightarrow> Inr t | Some o' \<Rightarrow> wheel_advanceClock fuel t o' now)
     else Inr t)"

subsection \<open>Timer\<close>

text \<open>A wheel of the hierarchy turns at least twice as long as the one below: 64 wheels cover 64 bits.\<close>

definition LEVELS :: nat where "LEVELS = 64"

definition addTimerTaskEntry :: "Timer \<Rightarrow> nat \<Rightarrow> Timer result" where
  "addTimerTaskEntry t x =
     bindE (wheel_add LEVELS t (tm_timingWheel t) x) (\<lambda>(added, t).
     if added then Inr t
     else
       bindE (cancelled t x) (\<lambda>c.
       if c then Inr t
       else
         bindE (load (tm_entries t) x) (\<lambda>e.
         bindE (deref (te_timerTask e)) (\<lambda>k.
         bindE (load (tm_tasks t) k) (\<lambda>task.
           Inr (t\<lparr>tm_pool := tm_pool t @ [tt_func task], tm_entries := (tm_entries t)(x := None)\<rparr>))))))"

text \<open>One round of the loop in \<open>flush\<close>: it answers whether the ring still had an entry.\<close>

definition flush_round :: "Timer \<Rightarrow> nat \<Rightarrow> (bool \<times> Timer) result" where
  "flush_round t this =
     bindE (load (tm_lists t) this) (\<lambda>l.
     bindE (load (tm_entries t) (tl_root l)) (\<lambda>root.
     bindE (deref (te_next root)) (\<lambda>head.
     if head = tl_root l then Inr (False, t)
     else
       bindE (tl_remove t this head) (\<lambda>t.
       bindE (addTimerTaskEntry t head) (\<lambda>t. Inr (True, t))))))"

primrec flush_loop :: "nat \<Rightarrow> Timer \<Rightarrow> nat \<Rightarrow> Timer result" where
  "flush_loop 0 t this = Inl Diverges"
| "flush_loop (Suc fuel) t this =
     bindE (flush_round t this) (\<lambda>(more, t). if more then flush_loop fuel t this else Inr t)"

definition flush :: "nat \<Rightarrow> Timer \<Rightarrow> nat \<Rightarrow> Timer result" where
  "flush fuel t this =
     bindE (flush_loop fuel t this) (\<lambda>t.
     bindE (load (tm_lists t) this) (\<lambda>l.
       Inr (t\<lparr>tm_lists := (tm_lists t)(this \<mapsto> l\<lparr>tl_expiration := tv_of (- 1)\<rparr>)\<rparr>)))"

text \<open>
  \<open>advanceClock\<close>: \<open>clock k\<close> is the time of day at the \<open>k\<close>-th poll. \<open>fuel\<close> bounds the buckets that are due
  and the entries of a bucket.
\<close>

primrec advance_loop :: "nat \<Rightarrow> (nat \<Rightarrow> timeval) \<Rightarrow> nat \<Rightarrow> Timer \<Rightarrow> Timer result" where
  "advance_loop 0 clock k t = Inl Diverges"
| "advance_loop (Suc fuel) clock k t =
     (case dq_poll (clock k) (tm_delayQueue t) of
        (None, q) \<Rightarrow> Inr (t\<lparr>tm_delayQueue := q\<rparr>)
      | (Some bucket, q) \<Rightarrow>
          let t = t\<lparr>tm_delayQueue := q\<rparr>
          in bindE (getExpiration t bucket) (\<lambda>expiration.
             bindE (wheel_advanceClock LEVELS t (tm_timingWheel t) expiration) (\<lambda>t.
             bindE (flush fuel t bucket) (\<lambda>t. advance_loop fuel clock (Suc k) t))))"

definition advanceClock :: "nat \<Rightarrow> (nat \<Rightarrow> timeval) \<Rightarrow> Timer \<Rightarrow> Timer result" where
  "advanceClock fuel clock t = advance_loop fuel clock 0 t"

definition Timer_new :: "timeval \<Rightarrow> int \<Rightarrow> timeval \<Rightarrow> Timer" where
  "Timer_new tickMs wheelSize startMs =
     (let t = \<lparr>tm_tasks = Map.empty, tm_entries = Map.empty, tm_lists = Map.empty, tm_wheels = Map.empty,
               tm_delayQueue = [], tm_pool = [], tm_next = 0, tm_timingWheel = 0\<rparr>;
          (w, t) = TimingWheel_new t tickMs wheelSize startMs
      in t\<lparr>tm_timingWheel := w\<rparr>)"

definition timer_add :: "Timer \<Rightarrow> nat \<Rightarrow> timeval \<Rightarrow> Timer result" where
  "timer_add t timerTask expiration =
     bindE (TimerTaskEntry_new t (Some timerTask) expiration) (\<lambda>(x, t). addTimerTaskEntry t x)"

definition addByDelay :: "Timer \<Rightarrow> timeval \<Rightarrow> timeval \<Rightarrow> nat \<Rightarrow> Timer result" where
  "addByDelay t now delayTime func =
     (let a = tm_next t;
          t = t\<lparr>tm_tasks := (tm_tasks t)(a \<mapsto> \<lparr>tt_func = func, tt_timerTaskEntry = None\<rparr>), tm_next := Suc a\<rparr>
      in timer_add t a (tv_add now delayTime))"

end
