(* ===== verification/Timing_Wheel_Laws.thy ===== *)
theory Timing_Wheel_Laws
  imports Timing_Wheel
begin

section \<open>Laws of the timing wheel\<close>

text \<open>
  Where a wheel files an entry, and what the sharing of the root by the copies of a bucket leads to:
  with entries in two buckets of one wheel the timer thread never leaves \<open>flush\<close>.
\<close>

lemma LEVELS_Suc: "LEVELS = Suc 63"
  by (simp add: LEVELS_def)

lemmas wheel_add_levels = wheel_add.simps(2) [of 63, folded LEVELS_Suc]

lemmas wheel_advance_levels = wheel_advanceClock.simps(2) [of 63, folded LEVELS_Suc]

text \<open>What evaluates the timer on concrete states.\<close>

lemmas tv_eval = tv_of_def lsum_def tv_gt_def tv_lt_def tv_ge_def tv_ne_def tv_mod_def tv_mul_def tv_div_def tv_sub_def
  tv_add_def tv_default_def i64_def signed_divide_int_def signed_modulo_int_def

lemmas timer_eval = tv_eval Timer_new_def TimingWheel_new_def TimerTaskList_new_def TimerTaskList_copy_def Let_def
  upt_conv_Cons addByDelay_def timer_add_def TimerTaskEntry_new_def setTimerTaskEntry_def addTimerTaskEntry_def
  wheel_add_levels wheel_advance_levels cancelled_def tl_add_def te_remove_def tl_remove_def set_te_next_def
  set_te_prev_def setExpiration_def getExpiration_def dq_offer_def entry_gt_def dq_poll_def getDelay_def getE_def

subsection \<open>Filing an entry\<close>

text \<open>Appending an entry that is in no list.\<close>

lemma tl_add_ok:
  assumes e: "tm_entries t x = Some e" "te_list e = None" and l: "tm_lists t this = Some l"
    and r: "tm_entries t (tl_root l) = Some root" "te_prev root = Some q" "tm_entries t q = Some tail"
    and x: "tl_root l \<noteq> x" "q \<noteq> x"
  obtains t' where "tl_add t this x = Inr t'" "tm_lists t' = tm_lists t" "tm_wheels t' = tm_wheels t"
    "tm_tasks t' = tm_tasks t" "tm_delayQueue t' = tm_delayQueue t" "tm_pool t' = tm_pool t"
    "tm_timingWheel t' = tm_timingWheel t" "tm_next t' = tm_next t"
    "tm_entries t' x = Some (e\<lparr>te_next := Some (tl_root l), te_prev := Some q, te_list := Some this\<rparr>)"
    "\<exists>n. tm_entries t' (tl_root l) = Some n \<and> te_prev n = Some x"
    "\<exists>n. tm_entries t' q = Some n \<and> te_next n = Some x"
    "\<And>y. y \<noteq> x \<Longrightarrow> y \<noteq> q \<Longrightarrow> y \<noteq> tl_root l \<Longrightarrow> tm_entries t' y = tm_entries t y"
proof -
  let ?e = "e\<lparr>te_next := Some (tl_root l), te_prev := Some q, te_list := Some this\<rparr>"
  let ?t1 = "put_entry t x ?e"
  let ?t2 = "put_entry ?t1 q (tail\<lparr>te_next := Some x\<rparr>)"
  have rem: "te_remove t x = Inr t" using e by (simp add: te_remove_def)
  have nxt: "set_te_next ?t1 (Some q) (Some x) = Inr ?t2" using r(3) x(2) by (simp add: set_te_next_def)
  obtain root2 where root2: "tm_entries ?t2 (tl_root l) = Some root2"
    using r x by (cases "tl_root l = q") simp_all
  then have prev: "set_te_prev ?t2 (Some (tl_root l)) (Some x) = Inr (put_entry ?t2 (tl_root l) (root2\<lparr>te_prev := Some x\<rparr>))"
    by (simp add: set_te_prev_def)
  have "tl_add t this x = Inr (put_entry ?t2 (tl_root l) (root2\<lparr>te_prev := Some x\<rparr>))"
    using rem e l r(1,2) nxt prev by (simp add: tl_add_def)
  then show ?thesis using that x root2 by (cases "tl_root l = q") auto
qed

lemma wheel_add_due:
  assumes "tm_entries t x = Some e" "cancelled t x = Inr c" "tm_wheels t this = Some w"
    and "c \<or> tv_lt (te_expiration e) (tv_add (tw_currentTime w) (tw_tickMs w))"
  shows "wheel_add (Suc fuel) t this x = Inr (False, t)"
  using assms by (auto simp: Let_def)

text \<open>The numbers of a wheel: its tick is positive, a turn is all its ticks, each tick has a bucket.\<close>

definition wheel_ok :: "TimingWheel \<Rightarrow> bool" where
  "wheel_ok w \<longleftrightarrow> tv_ok (tw_tickMs w) \<and> 0 < lsum (tw_tickMs w) \<and> tv_ok (tw_currentTime w) \<and> tv_ok (tw_interval w) \<and>
     0 < tw_wheelSize w \<and> lsum (tw_interval w) = lsum (tw_tickMs w) * tw_wheelSize w \<and>
     lsum (tw_currentTime w) + lsum (tw_interval w) \<le> 2 ^ 60 \<and> int (length (tw_buckets w)) = tw_wheelSize w"

lemma wheel_okD:
  assumes "wheel_ok w"
  shows "tv_ok (tw_tickMs w)" "0 < lsum (tw_tickMs w)" "tv_ok (tw_currentTime w)" "tv_ok (tw_interval w)"
    "0 < tw_wheelSize w" "int (length (tw_buckets w)) = tw_wheelSize w"
    "lsum (tv_add (tw_currentTime w) (tw_tickMs w)) = lsum (tw_currentTime w) + lsum (tw_tickMs w)"
    "lsum (tv_add (tw_currentTime w) (tw_interval w)) = lsum (tw_currentTime w) + lsum (tw_interval w)"
proof -
  show w: "tv_ok (tw_tickMs w)" "0 < lsum (tw_tickMs w)" "tv_ok (tw_currentTime w)" "tv_ok (tw_interval w)"
    "0 < tw_wheelSize w" "int (length (tw_buckets w)) = tw_wheelSize w"
    using assms by (simp_all add: wheel_ok_def)
  have "lsum (tw_tickMs w) * 1 \<le> lsum (tw_tickMs w) * tw_wheelSize w" using w(2,5) by (intro mult_left_mono) simp_all
  moreover have "lsum (tw_interval w) = lsum (tw_tickMs w) * tw_wheelSize w"
    "lsum (tw_currentTime w) + lsum (tw_interval w) \<le> 2 ^ 60" using assms by (simp_all add: wheel_ok_def)
  ultimately have "lsum (tw_currentTime w) + lsum (tw_tickMs w) \<le> 2 ^ 60" by linarith
  then show "lsum (tv_add (tw_currentTime w) (tw_tickMs w)) = lsum (tw_currentTime w) + lsum (tw_tickMs w)"
    using tv_add_ok [OF w(3,1)] by simp
  show "lsum (tv_add (tw_currentTime w) (tw_interval w)) = lsum (tw_currentTime w) + lsum (tw_interval w)"
    using tv_add_ok [OF w(3,4)] assms by (simp add: wheel_ok_def)
qed

lemma bucket_of:
  assumes "wheel_ok w" "tv_ok expiration"
  shows "tv_div expiration (tw_tickMs w) = lsum expiration div lsum (tw_tickMs w)"
    "0 \<le> tv_div expiration (tw_tickMs w) smod tw_wheelSize w"
    "tv_div expiration (tw_tickMs w) smod tw_wheelSize w < int (length (tw_buckets w))"
    "tv_div expiration (tw_tickMs w) smod tw_wheelSize w = (lsum expiration div lsum (tw_tickMs w)) mod tw_wheelSize w"
    "lsum (tv_mul (tw_tickMs w) (tv_div expiration (tw_tickMs w))) =
       lsum (tw_tickMs w) * (lsum expiration div lsum (tw_tickMs w))"
proof -
  note W = wheel_okD [OF assms(1)] and E = lsum_ok [OF assms(2)]
  show d: "tv_div expiration (tw_tickMs w) = lsum expiration div lsum (tw_tickMs w)"
    by (rule tv_div_ok [OF assms(2) W(1,2)])
  have p: "0 \<le> lsum expiration div lsum (tw_tickMs w)" using E(2) W(2) by (simp add: pos_imp_zdiv_nonneg_iff)
  show m: "tv_div expiration (tw_tickMs w) smod tw_wheelSize w = (lsum expiration div lsum (tw_tickMs w)) mod tw_wheelSize w"
    unfolding d by (rule sdiv_nonneg [OF p W(5)])
  show "0 \<le> tv_div expiration (tw_tickMs w) smod tw_wheelSize w"
    "tv_div expiration (tw_tickMs w) smod tw_wheelSize w < int (length (tw_buckets w))"
    unfolding m W(6) using W(5) by simp_all
  have "lsum (tw_tickMs w) * (lsum expiration div lsum (tw_tickMs w)) \<le> 2 ^ 60"
    using div_window(1) [OF W(2), of "lsum expiration"] E(3) by (simp add: mult.commute)
  then show "lsum (tv_mul (tw_tickMs w) (tv_div expiration (tw_tickMs w))) =
       lsum (tw_tickMs w) * (lsum expiration div lsum (tw_tickMs w))"
    unfolding d using tv_mul_ok [OF W(1) p] by blast
qed


definition filing_timer :: Timer where
  "filing_timer = (put_entry (Timer_new (tv_of 200000) 4 (tv_of 10000000)) 20
     \<lparr>te_expiration = tv_of 10300000, te_timerTask = Some 21, te_list = None, te_prev = None, te_next = None\<rparr>)
     \<lparr>tm_tasks := [21 \<mapsto> \<lparr>tt_func = 1, tt_timerTaskEntry = Some 20\<rparr>]\<rparr>"


subsection \<open>A bucket whose entries are all due\<close>

text \<open>The entries of a ring in order: each points to the next and is pointed back to, the last to the root.\<close>

definition nextp :: "TimerTaskEntry store \<Rightarrow> nat \<Rightarrow> nat option" where
  "nextp E x = Option.bind (E x) te_next"

definition prevp :: "TimerTaskEntry store \<Rightarrow> nat \<Rightarrow> nat option" where
  "prevp E x = Option.bind (E x) te_prev"

primrec seg :: "TimerTaskEntry store \<Rightarrow> nat \<Rightarrow> nat list \<Rightarrow> bool" where
  "seg E p [] \<longleftrightarrow> True"
| "seg E p (y # ys) \<longleftrightarrow> nextp E p = Some y \<and> prevp E y = Some p \<and> seg E y ys"

definition ring :: "TimerTaskEntry store \<Rightarrow> nat \<Rightarrow> nat list \<Rightarrow> bool" where
  "ring E r xs \<longleftrightarrow> distinct (r # xs) \<and> seg E r (xs @ [r])"

lemma seg_cong:
  assumes "seg E p ys" "\<forall>z \<in> set (butlast (p # ys)). nextp E' z = nextp E z" "\<forall>z \<in> set ys. prevp E' z = prevp E z"
  shows "seg E' p ys"
  using assms by (induction ys arbitrary: p) (auto split: if_splits)

text \<open>An entry of bucket \<open>b\<close> with a live task that runs \<open>f\<close> and is due on the wheel \<open>w\<close>.\<close>

definition due_entry :: "Timer \<Rightarrow> TimingWheel \<Rightarrow> nat \<Rightarrow> nat \<Rightarrow> nat \<Rightarrow> bool" where
  "due_entry t w b x f \<longleftrightarrow> (\<exists>e k task. tm_entries t x = Some e \<and> te_list e = Some b \<and> te_timerTask e = Some k \<and>
     tm_tasks t k = Some task \<and> tt_timerTaskEntry task = Some x \<and> tt_func task = f \<and>
     tv_lt (te_expiration e) (tv_add (tw_currentTime w) (tw_tickMs w)))"

lemma addTimerTaskEntry_due:
  assumes "tm_entries t x = Some e" "te_timerTask e = Some k" "tm_tasks t k = Some task" "tt_timerTaskEntry task = Some x"
    and "tm_wheels t (tm_timingWheel t) = Some w" "tv_lt (te_expiration e) (tv_add (tw_currentTime w) (tw_tickMs w))"
  shows "addTimerTaskEntry t x = Inr (t\<lparr>tm_pool := tm_pool t @ [tt_func task], tm_entries := (tm_entries t)(x := None)\<rparr>)"
proof -
  have c: "cancelled t x = Inr False" using assms by (simp add: cancelled_def)
  show ?thesis
    unfolding addTimerTaskEntry_def LEVELS_Suc
    using wheel_add_due [OF assms(1) c assms(5), of 63] assms c by (simp del: wheel_add.simps)
qed

lemma flush_round_due:
  assumes l: "tm_lists t b = Some l" and r: "ring (tm_entries t) (tl_root l) (x # xs)"
    and d: "due_entry t w b x f" "\<forall>y \<in> set xs. \<exists>f. due_entry t w b y f" and w: "tm_wheels t (tm_timingWheel t) = Some w"
  obtains E where "flush_round t b = Inr (True, t\<lparr>tm_pool := tm_pool t @ [f], tm_entries := E\<rparr>)" "ring E (tl_root l) xs"
    "\<And>y g t'. y \<in> set xs \<Longrightarrow> due_entry t w b y g \<Longrightarrow> tm_entries t' = E \<Longrightarrow> tm_tasks t' = tm_tasks t \<Longrightarrow> due_entry t' w b y g"
proof -
  let ?r = "tl_root l" and ?E = "tm_entries t"
  obtain e k task where e: "?E x = Some e" "te_list e = Some b" "te_timerTask e = Some k" "tm_tasks t k = Some task"
    "tt_timerTaskEntry task = Some x" "tt_func task = f" "tv_lt (te_expiration e) (tv_add (tw_currentTime w) (tw_tickMs w))"
    using d(1) unfolding due_entry_def by blast
  obtain y ys where y: "xs @ [?r] = y # ys" by (cases "xs @ [?r]") simp_all
  have ne: "x \<noteq> ?r" "x \<notin> set xs" "?r \<notin> set xs" "distinct xs" using r by (auto simp: ring_def)
  have yx: "y \<noteq> x" using y ne by (cases xs) auto
  have s: "nextp ?E ?r = Some x" "prevp ?E x = Some ?r" "nextp ?E x = Some y" "prevp ?E y = Some x" "seg ?E y ys"
    using r y by (simp_all add: ring_def)
  obtain root where root: "?E ?r = Some root" "te_next root = Some x" using s(1) by (auto simp: nextp_def bind_eq_Some_conv)
  obtain ey where ey: "?E y = Some ey" using s(4) by (auto simp: prevp_def bind_eq_Some_conv)
  have ex: "te_prev e = Some ?r" "te_next e = Some y" using s(2,3) e(1) by (simp_all add: nextp_def prevp_def)
  let ?E1 = "?E(y \<mapsto> ey\<lparr>te_prev := Some ?r\<rparr>)"
  obtain r1 where r1: "?E1 ?r = Some r1" using root by (cases "y = ?r") simp_all
  let ?E2 = "?E1(?r \<mapsto> r1\<lparr>te_next := Some y\<rparr>)"
  let ?t = "put_entry (t\<lparr>tm_entries := ?E2\<rparr>) x (e\<lparr>te_next := None, te_prev := None, te_list := None\<rparr>)"
  let ?E3 = "?E2(x := None)"
  have "set_te_prev t (Some y) (Some ?r) = Inr (t\<lparr>tm_entries := ?E1\<rparr>)" using ey by (simp add: set_te_prev_def)
  moreover have "set_te_next (t\<lparr>tm_entries := ?E1\<rparr>) (Some ?r) (Some y) = Inr (t\<lparr>tm_entries := ?E2\<rparr>)"
    using r1 by (simp add: set_te_next_def)
  ultimately have rem: "tl_remove t b x = Inr ?t" using e(1,2) ex yx ne(1) by (simp add: tl_remove_def)
  have "addTimerTaskEntry ?t x = Inr (t\<lparr>tm_pool := tm_pool t @ [f], tm_entries := ?E3\<rparr>)"
    using addTimerTaskEntry_due [of ?t x _ k task w] e w by simp
  then have run: "flush_round t b = Inr (True, t\<lparr>tm_pool := tm_pool t @ [f], tm_entries := ?E3\<rparr>)"
    using l root rem ne(1) by (simp add: flush_round_def)
  have "?r \<notin> set (butlast (y # ys))" using y ne(3) by (metis butlast_snoc)
  moreover have "distinct (xs @ [?r])" "x \<notin> set (xs @ [?r])" using ne by auto
  then have "y \<notin> set ys" "x \<notin> set (y # ys)" unfolding y by simp_all
  ultimately have "seg ?E3 y ys"
    using s(5) r1 ey root by (intro seg_cong [OF s(5)] ballI) (auto simp: nextp_def prevp_def split: if_splits dest: in_set_butlastD)
  moreover have "nextp ?E3 ?r = Some y" "prevp ?E3 y = Some ?r" using ne(1) yx r1 ey by (auto simp: nextp_def prevp_def)
  ultimately have "ring ?E3 ?r xs" using ne y by (simp add: ring_def)
  then show ?thesis
  proof (rule that [OF run])
    fix z g and t' :: Timer assume z: "z \<in> set xs" "due_entry t w b z g" "tm_entries t' = ?E3" "tm_tasks t' = tm_tasks t"
    then have "z \<noteq> x" "z \<noteq> ?r" using ne by auto
    then show "due_entry t' w b z g" using z(2-4) ey unfolding due_entry_def by (cases "z = y") auto
  qed
qed

text \<open>
  C25: Flushing a bucket whose entries are all due and live returns: it hands the functions of all its
  tasks to the pool in the order they were added, once each, leaves the ring empty and the bucket
  without an expiration.
\<close>

theorem flush_runs_due:
  assumes "tm_lists t b = Some l" "ring (tm_entries t) (tl_root l) xs" "tm_wheels t (tm_timingWheel t) = Some w"
    and "list_all2 (due_entry t w b) xs fs" "length xs < fuel"
  shows "\<exists>E. flush fuel t b = Inr (t\<lparr>tm_pool := tm_pool t @ fs, tm_entries := E,
      tm_lists := (tm_lists t)(b \<mapsto> l\<lparr>tl_expiration := tv_of (- 1)\<rparr>)\<rparr>) \<and> ring E (tl_root l) []"
proof -
  have "\<exists>E. flush_loop fuel t b = Inr (t\<lparr>tm_pool := tm_pool t @ fs, tm_entries := E\<rparr>) \<and> ring E (tl_root l) []"
    using assms
  proof (induction xs arbitrary: t fs fuel)
    case Nil
    then obtain root where "tm_entries t (tl_root l) = Some root" "te_next root = Some (tl_root l)"
      by (auto simp: ring_def nextp_def bind_eq_Some_conv)
    then have "flush_round t b = Inr (False, t)" using Nil.prems(1) by (simp add: flush_round_def)
    then show ?case using Nil.prems by (cases fuel) (auto intro: exI [of _ "tm_entries t"])
  next
    case (Cons x xs)
    obtain f fs' where fs: "fs = f # fs'" "due_entry t w b x f" "list_all2 (due_entry t w b) xs fs'"
      using Cons.prems(4) by (auto simp: list_all2_Cons1)
    have "\<forall>y \<in> set xs. \<exists>f. due_entry t w b y f" using fs(3)
      by (metis in_set_conv_nth list_all2_conv_all_nth)
    then obtain E where E: "flush_round t b = Inr (True, t\<lparr>tm_pool := tm_pool t @ [f], tm_entries := E\<rparr>)" "ring E (tl_root l) xs"
      "\<And>y g t'. y \<in> set xs \<Longrightarrow> due_entry t w b y g \<Longrightarrow> tm_entries t' = E \<Longrightarrow> tm_tasks t' = tm_tasks t \<Longrightarrow> due_entry t' w b y g"
      using flush_round_due [OF Cons.prems(1,2) fs(2) _ Cons.prems(3)] by metis
    let ?t = "t\<lparr>tm_pool := tm_pool t @ [f], tm_entries := E\<rparr>"
    obtain n where n: "fuel = Suc n" "length xs < n" using Cons.prems(5) by (cases fuel) auto
    have "list_all2 (due_entry ?t w b) xs fs'"
      using fs(3) by (rule list.rel_mono_strong) (use E(3) in auto)
    then show ?case using Cons.IH [of ?t fs' n] Cons.prems(1,3) E(1,2) n fs(1) by simp
  qed
  then show ?thesis using assms(1) by (auto simp: flush_def)
qed

definition due_timer :: Timer where
  "due_timer = \<lparr>tm_tasks = [7 \<mapsto> \<lparr>tt_func = 1, tt_timerTaskEntry = Some 8\<rparr>, 9 \<mapsto> \<lparr>tt_func = 2, tt_timerTaskEntry = Some 10\<rparr>],
     tm_entries = [1 \<mapsto> \<lparr>te_expiration = tv_default, te_timerTask = None, te_list = None, te_prev = Some 10, te_next = Some 8\<rparr>,
       8 \<mapsto> \<lparr>te_expiration = tv_of 10300000, te_timerTask = Some 7, te_list = Some 5, te_prev = Some 1, te_next = Some 10\<rparr>,
       10 \<mapsto> \<lparr>te_expiration = tv_of 10350000, te_timerTask = Some 9, te_list = Some 5, te_prev = Some 8, te_next = Some 1\<rparr>],
     tm_lists = [5 \<mapsto> \<lparr>tl_root = 1, tl_expiration = tv_of 10200000\<rparr>],
     tm_wheels = [6 \<mapsto> \<lparr>tw_interval = tv_of 800000, tw_tickMs = tv_of 200000, tw_wheelSize = 4,
       tw_currentTime = tv_of 10200000, tw_buckets = [2, 3, 4, 5], tw_overflowWheel = None\<rparr>],
     tm_delayQueue = [], tm_pool = [], tm_next = 11, tm_timingWheel = 6\<rparr>"

text \<open>Witness for C25: two entries of one tick, due after 300 ms and 350 ms.\<close>

theorem flush_runs_due_witness:
  "\<exists>t. flush 3 due_timer 5 = Inr t \<and> tm_pool t = [1, 2] \<and> ring (tm_entries t) 1 []"
proof -
  let ?l = "\<lparr>tl_root = 1, tl_expiration = tv_of 10200000\<rparr>"
  let ?w = "\<lparr>tw_interval = tv_of 800000, tw_tickMs = tv_of 200000, tw_wheelSize = 4,
       tw_currentTime = tv_of 10200000, tw_buckets = [2, 3, 4, 5], tw_overflowWheel = None\<rparr>"
  have "tm_lists due_timer 5 = Some ?l" "tm_wheels due_timer (tm_timingWheel due_timer) = Some ?w"
    by (simp_all add: due_timer_def)
  moreover have "ring (tm_entries due_timer) (tl_root ?l) [8, 10]"
    by (simp add: due_timer_def ring_def nextp_def prevp_def)
  moreover have "list_all2 (due_entry due_timer ?w 5) [8, 10] [1, 2]"
    by (simp add: due_timer_def due_entry_def tv_eval)
  ultimately obtain E where "flush 3 due_timer 5 = Inr (due_timer\<lparr>tm_pool := tm_pool due_timer @ [1, 2], tm_entries := E,
      tm_lists := (tm_lists due_timer)(5 \<mapsto> ?l\<lparr>tl_expiration := tv_of (- 1)\<rparr>)\<rparr>) \<and> ring E (tl_root ?l) []"
    using flush_runs_due [of due_timer 5 ?l "[8, 10]" ?w "[1, 2]" 3] by auto
  then show ?thesis by (simp add: due_timer_def)
qed

subsection \<open>A foreign entry in the ring\<close>

text \<open>
  The ring of the flushed bucket holds one entry, filed in another bucket of the wheel and not due: a
  round takes it out and files it again where it was.
\<close>

lemma flush_round_foreign:
  assumes l: "tm_lists t b = Some l" "tm_lists t b' = Some l'" "tl_root l = r" "tl_root l' = r" "b' \<noteq> b" "x \<noteq> r"
    and r: "tm_entries t r = Some root" "te_prev root = Some x" "te_next root = Some x"
    and e: "tm_entries t x = Some e" "te_list e = Some b'" "te_prev e = Some r" "te_next e = Some r"
    and k: "te_timerTask e = Some a" "tm_tasks t a = Some task" "tt_timerTaskEntry task = Some x"
    and w: "tm_wheels t (tm_timingWheel t) = Some w"
      "\<not> tv_lt (te_expiration e) (tv_add (tw_currentTime w) (tw_tickMs w))"
      "tv_lt (te_expiration e) (tv_add (tw_currentTime w) (tw_interval w))"
      "getE (tw_buckets w) (tv_div (te_expiration e) (tw_tickMs w) smod tw_wheelSize w) = Inr b'"
      "tl_expiration l' = tv_mul (tw_tickMs w) (tv_div (te_expiration e) (tw_tickMs w))"
  shows "flush_round t b = Inr (True, t)"
proof -
  have rem: "tl_remove t b x = Inr t" using e(1,2) l(5) by (simp add: tl_remove_def)
  let ?root = "root\<lparr>te_prev := Some r, te_next := Some r\<rparr>"
  let ?e = "e\<lparr>te_next := None, te_prev := None, te_list := None\<rparr>"
  let ?t1 = "t\<lparr>tm_entries := (tm_entries t)(r \<mapsto> ?root, x \<mapsto> ?e)\<rparr>"
  have "te_remove t x = Inr ?t1"
    using e r l(6) by (simp add: te_remove_def tl_remove_def set_te_prev_def set_te_next_def fun_upd_twist)
  moreover have "root\<lparr>te_prev := Some x, te_next := Some x\<rparr> = root" "root\<lparr>te_next := Some x, te_prev := Some x\<rparr> = root"
    "e\<lparr>te_next := Some r, te_prev := Some r, te_list := Some b'\<rparr> = e" using r(2,3) e by simp_all
  moreover have "(tm_entries t)(r \<mapsto> root, x \<mapsto> e) = tm_entries t" "(tm_entries t)(x \<mapsto> e, r \<mapsto> root) = tm_entries t"
    using r(1) e(1) by (auto simp: fun_eq_iff)
  ultimately have add: "tl_add t b' x = Inr t"
    using l r(1) e(1) by (simp add: tl_add_def set_te_prev_def set_te_next_def fun_upd_twist)
  have "(tm_lists t)(b' \<mapsto> l') = tm_lists t" using l(2) by (auto simp: fun_eq_iff)
  then have "setExpiration t b' (tl_expiration l') = Inr (False, t)" using l(2) by (simp add: setExpiration_def tv_ne_def)
  then have "wheel_add (Suc n) t (tm_timingWheel t) x = Inr (True, t)" for n
    using e(1) k w add by (simp add: cancelled_def Let_def)
  then have "addTimerTaskEntry t x = Inr t" by (simp add: addTimerTaskEntry_def LEVELS_def eval_nat_numeral del: wheel_add.simps)
  then show ?thesis using rem l r by (simp add: flush_round_def)
qed

lemma flush_loop_stuck: "flush_round t b = Inr (True, t) \<Longrightarrow> flush_loop fuel t b = Inl Diverges"
  by (induction fuel) simp_all


end
