(* ===== verification/Timing_Wheel_Destroy.thy ===== *)
theory Timing_Wheel_Destroy
  imports Timing_Wheel
begin

section \<open>Destroying wheels and buckets\<close>

text \<open>
  The destructors of \<open>timer/TimerTaskList.h\<close> and \<open>timer/TimingWheel.cc\<close>: a bucket deletes the entries of its ring, a wheel its
  overflow wheel and its buckets. An access of a deleted entry is the null pointer of the store.
\<close>

subsection \<open>Operations\<close>

text \<open>The loop of \<open>~TimerTaskList\<close>; \<open>fuel\<close> bounds the entries of the ring.\<close>

primrec ring_delete :: "nat \<Rightarrow> Timer \<Rightarrow> nat \<Rightarrow> nat \<Rightarrow> Timer result" where
  "ring_delete 0 t root itd = Inl Diverges"
| "ring_delete (Suc fuel) t root itd =
     (if itd = root then Inr t
      else
        bindE (load (tm_entries t) itd) (\<lambda>e.
        bindE (deref (te_next e)) (\<lambda>itn.
          ring_delete fuel (t\<lparr>tm_entries := (tm_entries t)(itd := None)\<rparr>) root itn)))"

definition TimerTaskList_destroy :: "nat \<Rightarrow> Timer \<Rightarrow> nat \<Rightarrow> Timer result" where
  "TimerTaskList_destroy fuel t this =
     bindE (load (tm_lists t) this) (\<lambda>l.
     bindE (load (tm_entries t) (tl_root l)) (\<lambda>root.
     bindE (deref (te_next root)) (\<lambda>itd.
     bindE (ring_delete fuel t (tl_root l) itd) (\<lambda>t.
       Inr (t\<lparr>tm_lists := (tm_lists t)(this := None)\<rparr>)))))"

primrec buckets_destroy :: "nat \<Rightarrow> nat list \<Rightarrow> Timer \<Rightarrow> Timer result" where
  "buckets_destroy fuel [] t = Inr t"
| "buckets_destroy fuel (b # bs) t = bindE (TimerTaskList_destroy fuel t b) (\<lambda>t. buckets_destroy fuel bs t)"

text \<open>The body of the destructor, then the members; \<open>level\<close> bounds the wheels of the hierarchy.\<close>

primrec TimingWheel_destroy :: "nat \<Rightarrow> nat \<Rightarrow> Timer \<Rightarrow> nat \<Rightarrow> Timer result" where
  "TimingWheel_destroy 0 fuel t this = Inl Diverges"
| "TimingWheel_destroy (Suc level) fuel t this =
     bindE (load (tm_wheels t) this) (\<lambda>w.
     bindE (case tw_overflowWheel w of None \<Rightarrow> Inr t | Some o' \<Rightarrow> TimingWheel_destroy level fuel t o') (\<lambda>t.
     bindE (buckets_destroy fuel (tw_buckets w) t) (\<lambda>t.
       Inr (t\<lparr>tm_wheels := (tm_wheels t)(this := None)\<rparr>))))"

subsection \<open>Laws\<close>

lemma ring_delete_frame:
  assumes "ring_delete fuel t root x = Inr t'"
  shows "tm_lists t' = tm_lists t" "tm_wheels t' = tm_wheels t" "tm_entries t' root = tm_entries t root"
    "tm_entries t y = None \<Longrightarrow> tm_entries t' y = None" "x \<noteq> root \<Longrightarrow> tm_entries t' x = None"
proof -
  have "tm_lists t' = tm_lists t \<and> tm_wheels t' = tm_wheels t \<and> tm_entries t' root = tm_entries t root \<and>
      (\<forall>y. tm_entries t y = None \<longrightarrow> tm_entries t' y = None) \<and> (x \<noteq> root \<longrightarrow> tm_entries t' x = None)"
    using assms
  proof (induction fuel arbitrary: t x)
    case (Suc fuel)
    show ?case
    proof (cases "x = root")
      case False
      then obtain itn where "ring_delete fuel (t\<lparr>tm_entries := (tm_entries t)(x := None)\<rparr>) root itn = Inr t'"
        using Suc.prems by (auto simp: result_simps)
      from Suc.IH [OF this] False show ?thesis by auto
    qed (use Suc.prems in simp)
  qed simp
  then show "tm_lists t' = tm_lists t" "tm_wheels t' = tm_wheels t" "tm_entries t' root = tm_entries t root"
    "tm_entries t y = None \<Longrightarrow> tm_entries t' y = None" "x \<noteq> root \<Longrightarrow> tm_entries t' x = None" by blast+
qed

text \<open>An empty ring is left alone, so that a wheel without entries is destroyed whether its buckets share a root or not.\<close>

lemma empty_bucket_destroyed:
  assumes "tm_lists t b = Some l" "tm_entries t (tl_root l) = Some root" "te_next root = Some (tl_root l)"
  shows "TimerTaskList_destroy (Suc fuel) t b = Inr (t\<lparr>tm_lists := (tm_lists t)(b := None)\<rparr>)"
  using assms by (simp add: TimerTaskList_destroy_def)

text \<open>
  Two buckets with one root, which is what the constructor of a wheel makes of all its buckets: when an entry waits, the
  destructor of the second follows the pointer of the root to an entry that the first has deleted.
\<close>

theorem shared_bucket_use_after_free:
  assumes "tm_lists t b = Some l" "tm_lists t b' = Some l'" "b \<noteq> b'" "tl_root l' = tl_root l"
    and "tm_entries t (tl_root l) = Some root" "te_next root = Some x" "x \<noteq> tl_root l"
  shows "TimerTaskList_destroy fuel t b = Inr t2 \<Longrightarrow> TimerTaskList_destroy fuel t2 b' = Inl NullPointer"
    and "buckets_destroy fuel (b # b' # bs) t \<noteq> Inr t'"
proof -
  show second: "TimerTaskList_destroy fuel t2 b' = Inl NullPointer" if first: "TimerTaskList_destroy fuel t b = Inr t2" for t2
  proof -
    obtain t1 where d: "ring_delete fuel t (tl_root l) x = Inr t1" and t2: "t2 = t1\<lparr>tm_lists := (tm_lists t1)(b := None)\<rparr>"
      using first assms by (auto simp: TimerTaskList_destroy_def result_simps)
    have "tm_lists t2 b' = Some l'" "tm_entries t2 (tl_root l) = Some root" "tm_entries t2 x = None"
      using ring_delete_frame [OF d] assms t2 by auto
    moreover have "0 < fuel" using d by (cases fuel) simp_all
    then obtain f where "fuel = Suc f" by (cases fuel) simp_all
    ultimately show ?thesis using assms by (simp add: TimerTaskList_destroy_def load_def)
  qed
  show "buckets_destroy fuel (b # b' # bs) t \<noteq> Inr t'"
    using second by (cases "TimerTaskList_destroy fuel t b") simp_all
qed

end
