(* ===== verification/Thread_Pool.thy ===== *)
theory Thread_Pool
  imports Prelude "HOL-Library.Multiset"
begin

section \<open>The thread pool\<close>

text \<open>
  \<open>timer/thread_pool/ThreadPool.h\<close> and \<open>timer/thread_pool/ThreadPool.cc\<close> as a step relation: each worker has
  a program counter in \<open>threadLoop\<close> and \<open>take\<close>, the thread that calls \<open>stop\<close> has one, and \<open>addTask\<close> is one
  step because it holds the mutex from its first to its last line. A step is what happens between two
  points at which another thread can interfere. \<open>tp_added\<close>, \<open>tp_taken\<close> and \<open>tp_finished\<close> record
  the tasks that were accepted, taken out of the queue and run. A condition variable may wake a
  thread without a notification; the flag of the relation says whether it does.
\<close>

subsection \<open>State\<close>

datatype worker_pc =
  LoopStarted | LoopTasks | TakeLock | TakeCheck | TakeWait | Waiting | Relock | TakePop | RunTask "nat option" | Exited

datatype stop_pc = StopIdle | StopNotify | StopJoin | StopDone

record ThreadPool =
  tp_isStarted :: bool
  tp_tasks :: "nat list"
  tp_mutex :: "nat option"
  tp_threads :: "worker_pc list"
  tp_stop :: stop_pc
  tp_added :: "nat list"
  tp_taken :: "nat list"
  tp_finished :: "nat list"

definition ThreadPool_new :: "nat \<Rightarrow> ThreadPool" where
  "ThreadPool_new initSize =
     \<lparr>tp_isStarted = True, tp_tasks = [], tp_mutex = None, tp_threads = replicate initSize LoopStarted,
      tp_stop = StopIdle, tp_added = [], tp_taken = [], tp_finished = []\<rparr>"

definition goto :: "nat \<Rightarrow> worker_pc \<Rightarrow> ThreadPool \<Rightarrow> ThreadPool" where
  "goto i p s = s\<lparr>tp_threads := (tp_threads s)[i := p]\<rparr>"

definition worker_at :: "ThreadPool \<Rightarrow> nat \<Rightarrow> worker_pc \<Rightarrow> bool" where
  "worker_at s i p \<longleftrightarrow> i < length (tp_threads s) \<and> tp_threads s ! i = p"

subsection \<open>Operations\<close>

text \<open>
  \<open>threadLoop\<close> reads \<open>m_isStarted\<close> and \<open>m_tasks\<close> without the mutex, in two steps. The parts of \<open>take\<close>, with
  the mutex held from \<open>TakeCheck\<close> to \<open>TakePop\<close> but for the wait. A step of a blocked worker is \<open>None\<close>.
\<close>

definition take_lock :: "nat \<Rightarrow> ThreadPool \<Rightarrow> ThreadPool option" where
  "take_lock i s = (if tp_mutex s = None then Some (goto i TakeCheck (s\<lparr>tp_mutex := Some i\<rparr>)) else None)"

definition take_pop :: "nat \<Rightarrow> ThreadPool \<Rightarrow> ThreadPool" where
  "take_pop i s =
     (case tp_tasks s of
        [] \<Rightarrow> goto i (RunTask None) (s\<lparr>tp_mutex := None\<rparr>)
      | task # rest \<Rightarrow>
          goto i (RunTask (Some task)) (s\<lparr>tp_mutex := None, tp_tasks := rest, tp_taken := tp_taken s @ [task]\<rparr>))"

definition run_task :: "nat \<Rightarrow> nat option \<Rightarrow> ThreadPool \<Rightarrow> ThreadPool" where
  "run_task i task s =
     goto i LoopStarted (case task of None \<Rightarrow> s | Some x \<Rightarrow> s\<lparr>tp_finished := tp_finished s @ [x]\<rparr>)"

definition thread_step :: "nat \<Rightarrow> ThreadPool \<Rightarrow> ThreadPool option" where
  "thread_step i s =
     (if i < length (tp_threads s) then
        case tp_threads s ! i of
          LoopStarted \<Rightarrow> Some (goto i (if tp_isStarted s then TakeLock else LoopTasks) s)
        | LoopTasks \<Rightarrow> Some (goto i (if tp_tasks s \<noteq> [] then TakeLock else Exited) s)
        | TakeLock \<Rightarrow> take_lock i s
        | TakeCheck \<Rightarrow> Some (goto i (if tp_tasks s = [] \<and> tp_isStarted s then TakeWait else TakePop) s)
        | TakeWait \<Rightarrow> Some (goto i Waiting (s\<lparr>tp_mutex := None\<rparr>))
        | Waiting \<Rightarrow> None
        | Relock \<Rightarrow> take_lock i s
        | TakePop \<Rightarrow> Some (take_pop i s)
        | RunTask task \<Rightarrow> Some (run_task i task s)
        | Exited \<Rightarrow> None
      else None)"

text \<open>\<open>addTask\<close>: \<open>w\<close> is the waiting worker that \<open>notify_one\<close> wakes, if there is one.\<close>

definition addTask :: "nat \<Rightarrow> nat option \<Rightarrow> ThreadPool \<Rightarrow> ThreadPool option" where
  "addTask task w s =
     (if tp_mutex s \<noteq> None then None
      else if tp_isStarted s then
        let t = s\<lparr>tp_tasks := tp_tasks s @ [task], tp_added := tp_added s @ [task]\<rparr>
        in case w of
             None \<Rightarrow> if Waiting \<in> set (tp_threads s) then None else Some t
           | Some i \<Rightarrow> if worker_at s i Waiting then Some (goto i Relock t) else None
      else Some s)"

text \<open>\<open>stop\<close>: clear the flag, notify all, join every worker. It does not take the mutex.\<close>

definition stop_step :: "ThreadPool \<Rightarrow> ThreadPool option" where
  "stop_step s =
     (case tp_stop s of
        StopIdle \<Rightarrow> Some (s\<lparr>tp_isStarted := False, tp_stop := StopNotify\<rparr>)
      | StopNotify \<Rightarrow>
          Some (s\<lparr>tp_threads := map (\<lambda>p. if p = Waiting then Relock else p) (tp_threads s), tp_stop := StopJoin\<rparr>)
      | StopJoin \<Rightarrow> if set (tp_threads s) \<subseteq> {Exited} then Some (s\<lparr>tp_threads := [], tp_stop := StopDone\<rparr>) else None
      | StopDone \<Rightarrow> None)"

inductive pool_step :: "bool \<Rightarrow> ThreadPool \<Rightarrow> ThreadPool \<Rightarrow> bool" for spurious :: bool where
  worker: "thread_step i s = Some s' \<Longrightarrow> pool_step spurious s s'"
| add: "addTask task w s = Some s' \<Longrightarrow> pool_step spurious s s'"
| stop: "stop_step s = Some s' \<Longrightarrow> pool_step spurious s s'"
| wake: "spurious \<Longrightarrow> worker_at s i Waiting \<Longrightarrow> pool_step spurious s (goto i Relock s)"

inductive pool_reach :: "bool \<Rightarrow> nat \<Rightarrow> ThreadPool \<Rightarrow> bool" for spurious :: bool and n :: nat where
  init: "pool_reach spurious n (ThreadPool_new n)"
| step: "pool_reach spurious n s \<Longrightarrow> pool_step spurious s s' \<Longrightarrow> pool_reach spurious n s'"

text \<open>A schedule of steps, to run the pool on concrete inputs.\<close>

datatype action = Worker nat | Add nat "nat option" | Stop

primrec act :: "action \<Rightarrow> ThreadPool \<Rightarrow> ThreadPool option" where
  "act (Worker i) s = thread_step i s"
| "act (Add x w) s = addTask x w s"
| "act Stop s = stop_step s"

primrec schedule :: "action list \<Rightarrow> ThreadPool \<Rightarrow> ThreadPool option" where
  "schedule [] s = Some s"
| "schedule (a # as) s = Option.bind (act a s) (schedule as)"

lemma schedule_reach: "pool_reach spurious n s \<Longrightarrow> schedule as s = Some s' \<Longrightarrow> pool_reach spurious n s'"
proof (induction as arbitrary: s)
  case (Cons a as)
  then obtain t where t: "act a s = Some t" "schedule as t = Some s'" by (auto simp: bind_eq_Some_conv)
  then have "pool_step spurious s t" by (cases a) (auto intro: pool_step.intros)
  with Cons t show ?case by (blast intro: pool_reach.step)
qed simp

lemmas scheduled = schedule_reach [OF pool_reach.init]

subsection \<open>Invariant\<close>

text \<open>The task a worker has taken and not yet run.\<close>

fun running :: "worker_pc \<Rightarrow> nat multiset" where
  "running (RunTask (Some x)) = {#x#}"
| "running _ = {#}"

definition running_of :: "worker_pc list \<Rightarrow> nat multiset" where
  "running_of ps = sum_list (map running ps)"

lemma running_of_update:
  "i < length ps \<Longrightarrow> running_of (ps[i := p]) + running (ps ! i) = running_of ps + running p"
proof (induction ps arbitrary: i)
  case (Cons q ps)
  then show ?case by (cases i) (simp_all add: running_of_def ac_simps)
qed simp

lemma running_of_wake: "running_of (map (\<lambda>p. if p = Waiting then Relock else p) ps) = running_of ps"
  by (induction ps) (auto simp: running_of_def)

lemma running_of_init: "running_of (replicate n LoopStarted) = {#}"
  by (induction n) (simp_all add: running_of_def)

lemma running_of_Exited: "set ps \<subseteq> {Exited} \<Longrightarrow> running_of ps = {#}"
  by (induction ps) (auto simp: running_of_def)

definition holds_mutex :: "worker_pc \<Rightarrow> bool" where
  "holds_mutex p \<longleftrightarrow> p \<in> {TakeCheck, TakeWait, TakePop}"

definition awake :: "worker_pc \<Rightarrow> bool" where
  "awake p \<longleftrightarrow> p \<notin> {Waiting, Exited, TakeWait}"

definition inv_queue :: "ThreadPool \<Rightarrow> bool" where
  "inv_queue s \<longleftrightarrow> tp_added s = tp_taken s @ tp_tasks s \<and>
     mset (tp_taken s) = mset (tp_finished s) + running_of (tp_threads s)"

definition inv_mutex :: "ThreadPool \<Rightarrow> bool" where
  "inv_mutex s \<longleftrightarrow> (\<forall>i < length (tp_threads s). holds_mutex (tp_threads s ! i) \<longleftrightarrow> tp_mutex s = Some i) \<and>
     (\<forall>i. tp_mutex s = Some i \<longrightarrow> i < length (tp_threads s))"

definition inv_flags :: "ThreadPool \<Rightarrow> bool" where
  "inv_flags s \<longleftrightarrow> (tp_isStarted s \<longleftrightarrow> tp_stop s = StopIdle) \<and>
     (\<forall>i < length (tp_threads s). (tp_threads s ! i = TakeWait \<longrightarrow> tp_tasks s = []) \<and>
        (tp_threads s ! i = Exited \<longrightarrow> tp_tasks s = [] \<and> \<not> tp_isStarted s) \<and>
        (tp_threads s ! i = LoopTasks \<longrightarrow> \<not> tp_isStarted s))"

definition inv_awake :: "nat \<Rightarrow> ThreadPool \<Rightarrow> bool" where
  "inv_awake n s \<longleftrightarrow> (if tp_stop s = StopDone then tp_threads s = [] \<and> (0 < n \<longrightarrow> tp_tasks s = [])
     else length (tp_threads s) = n \<and>
       (0 < n \<longrightarrow> tp_tasks s \<noteq> [] \<longrightarrow> (\<exists>i < n. awake (tp_threads s ! i))))"

definition pool_inv :: "nat \<Rightarrow> ThreadPool \<Rightarrow> bool" where
  "pool_inv n s \<longleftrightarrow> inv_queue s \<and> inv_mutex s \<and> inv_flags s \<and> inv_awake n s"

lemma pool_inv_init: "pool_inv n (ThreadPool_new n)"
  by (auto simp: pool_inv_def inv_queue_def inv_mutex_def inv_flags_def inv_awake_def ThreadPool_new_def
      holds_mutex_def running_of_init)

text \<open>The step of a worker that changes its program counter and neither the queue nor the mutex.\<close>

lemma goto_inv:
  assumes inv: "pool_inv n s" and i: "i < length (tp_threads s)"
    and run: "running p = running (tp_threads s ! i)" and lock: "holds_mutex p \<longleftrightarrow> holds_mutex (tp_threads s ! i)"
    and flags: "p = TakeWait \<Longrightarrow> tp_tasks s = []" "p = Exited \<Longrightarrow> tp_tasks s = [] \<and> \<not> tp_isStarted s"
      "p = LoopTasks \<Longrightarrow> \<not> tp_isStarted s" and aw: "awake p \<or> tp_tasks s = []"
  shows "pool_inv n (goto i p s)"
proof -
  have "running_of ((tp_threads s)[i := p]) = running_of (tp_threads s)" using running_of_update [OF i, of p] run by simp
  then have "inv_queue (goto i p s)" using inv by (simp add: pool_inv_def inv_queue_def goto_def)
  moreover have "inv_mutex (goto i p s)" using inv lock i by (auto simp: pool_inv_def inv_mutex_def goto_def nth_list_update)
  moreover have "inv_flags (goto i p s)" using inv flags i by (auto simp: pool_inv_def inv_flags_def goto_def nth_list_update)
  moreover have "inv_awake n (goto i p s)" using inv aw i by (auto simp: pool_inv_def inv_awake_def goto_def)
  ultimately show ?thesis by (simp add: pool_inv_def)
qed

lemma take_lock_inv:
  assumes inv: "pool_inv n s" and i: "i < length (tp_threads s)" and p: "tp_threads s ! i \<in> {TakeLock, Relock}"
    and s': "take_lock i s = Some s'"
  shows "pool_inv n s'"
proof -
  have m: "tp_mutex s = None" and s': "s' = goto i TakeCheck (s\<lparr>tp_mutex := Some i\<rparr>)"
    using s' by (auto simp: take_lock_def split: if_splits)
  have "running_of ((tp_threads s)[i := TakeCheck]) = running_of (tp_threads s)"
    using running_of_update [OF i, of TakeCheck] p by auto
  then have "inv_queue s'" using inv by (simp add: pool_inv_def inv_queue_def goto_def s')
  moreover have "inv_mutex s'"
    using inv i m by (auto simp: pool_inv_def inv_mutex_def goto_def s' nth_list_update holds_mutex_def)
  moreover have "inv_flags s'" using inv i by (auto simp: pool_inv_def inv_flags_def goto_def s' nth_list_update)
  moreover have "inv_awake n s'" using inv i by (auto simp: pool_inv_def inv_awake_def goto_def s' awake_def)
  ultimately show ?thesis by (simp add: pool_inv_def)
qed

lemma take_wait_inv:
  assumes inv: "pool_inv n s" and i: "i < length (tp_threads s)" and p: "tp_threads s ! i = TakeWait"
  shows "pool_inv n (goto i Waiting (s\<lparr>tp_mutex := None\<rparr>))"
proof -
  let ?s = "goto i Waiting (s\<lparr>tp_mutex := None\<rparr>)"
  have t: "tp_tasks s = []" and m: "tp_mutex s = Some i"
    using inv i p by (auto simp: pool_inv_def inv_flags_def inv_mutex_def holds_mutex_def)
  have "running_of ((tp_threads s)[i := Waiting]) = running_of (tp_threads s)"
    using running_of_update [OF i, of Waiting] p by simp
  then have "inv_queue ?s" using inv by (simp add: pool_inv_def inv_queue_def goto_def)
  moreover have "inv_mutex ?s"
    using inv i m by (auto simp: pool_inv_def inv_mutex_def goto_def nth_list_update holds_mutex_def)
  moreover have "inv_flags ?s" using inv i by (auto simp: pool_inv_def inv_flags_def goto_def nth_list_update)
  moreover have "inv_awake n ?s" using inv i t by (auto simp: pool_inv_def inv_awake_def goto_def)
  ultimately show ?thesis by (simp add: pool_inv_def)
qed

lemma take_pop_inv:
  assumes inv: "pool_inv n s" and i: "i < length (tp_threads s)" and p: "tp_threads s ! i = TakePop"
  shows "pool_inv n (take_pop i s)"
proof -
  have m: "tp_mutex s = Some i" using inv i p by (auto simp: pool_inv_def inv_mutex_def holds_mutex_def)
  obtain q where s': "tp_threads (take_pop i s) = (tp_threads s)[i := RunTask q]" "tp_mutex (take_pop i s) = None"
    "tp_isStarted (take_pop i s) = tp_isStarted s" "tp_stop (take_pop i s) = tp_stop s"
    "tp_tasks s = [] \<Longrightarrow> tp_tasks (take_pop i s) = []"
    by (cases "tp_tasks s") (auto simp: take_pop_def goto_def)
  have "inv_queue (take_pop i s)"
    using inv p running_of_update [OF i, of "RunTask None"] running_of_update [OF i, of "RunTask (Some x)" for x]
    by (cases "tp_tasks s") (simp_all add: pool_inv_def inv_queue_def take_pop_def goto_def)
  moreover have "inv_mutex (take_pop i s)"
    using inv i m s' by (auto simp: pool_inv_def inv_mutex_def nth_list_update holds_mutex_def)
  moreover have "inv_flags (take_pop i s)" using inv i s' by (auto simp: pool_inv_def inv_flags_def nth_list_update)
  moreover have "inv_awake n (take_pop i s)" using inv i s' by (auto simp: pool_inv_def inv_awake_def awake_def)
  ultimately show ?thesis by (simp add: pool_inv_def)
qed

lemma run_task_inv:
  assumes inv: "pool_inv n s" and i: "i < length (tp_threads s)" and p: "tp_threads s ! i = RunTask q"
  shows "pool_inv n (run_task i q s)"
proof -
  have s': "tp_threads (run_task i q s) = (tp_threads s)[i := LoopStarted]" "tp_mutex (run_task i q s) = tp_mutex s"
    "tp_isStarted (run_task i q s) = tp_isStarted s" "tp_stop (run_task i q s) = tp_stop s"
    "tp_tasks (run_task i q s) = tp_tasks s"
    by (auto simp: run_task_def goto_def split: option.splits)
  have "inv_queue (run_task i q s)"
    using inv p running_of_update [OF i, of LoopStarted]
    by (cases q) (auto simp: pool_inv_def inv_queue_def run_task_def goto_def)
  moreover have "\<not> holds_mutex (RunTask q)" "\<not> holds_mutex LoopStarted" by (simp_all add: holds_mutex_def)
  then have "inv_mutex (run_task i q s)" using inv i p s' by (auto simp: pool_inv_def inv_mutex_def nth_list_update)
  moreover have "inv_flags (run_task i q s)" using inv i s' by (auto simp: pool_inv_def inv_flags_def nth_list_update)
  moreover have "inv_awake n (run_task i q s)" using inv i s' by (auto simp: pool_inv_def inv_awake_def awake_def)
  ultimately show ?thesis by (simp add: pool_inv_def)
qed

lemma thread_step_inv:
  assumes inv: "pool_inv n s" and s': "thread_step i s = Some s'"
  shows "pool_inv n s'"
proof -
  have i: "i < length (tp_threads s)" using s' by (auto simp: thread_step_def split: if_splits)
  have f: "tp_threads s ! i = LoopTasks \<Longrightarrow> \<not> tp_isStarted s" using inv i by (auto simp: pool_inv_def inv_flags_def)
  show ?thesis
  proof (cases "tp_threads s ! i")
    case LoopStarted
    then show ?thesis using s' i by (auto simp: thread_step_def holds_mutex_def awake_def intro!: goto_inv [OF inv i] split: if_splits)
  next
    case LoopTasks
    then show ?thesis using s' i f by (auto simp: thread_step_def holds_mutex_def awake_def intro!: goto_inv [OF inv i] split: if_splits)
  next
    case TakeLock
    then show ?thesis using s' i by (intro take_lock_inv [OF inv i _ , of s']) (simp_all add: thread_step_def)
  next
    case TakeCheck
    then show ?thesis using s' i by (auto simp: thread_step_def holds_mutex_def awake_def intro!: goto_inv [OF inv i] split: if_splits)
  next
    case TakeWait
    then show ?thesis using s' i take_wait_inv [OF inv i] by (simp add: thread_step_def)
  next
    case Waiting
    then show ?thesis using s' by (simp add: thread_step_def split: if_splits)
  next
    case Relock
    then show ?thesis using s' i by (intro take_lock_inv [OF inv i _ , of s']) (simp_all add: thread_step_def)
  next
    case TakePop
    then show ?thesis using s' i take_pop_inv [OF inv i] by (simp add: thread_step_def)
  next
    case (RunTask q)
    then show ?thesis using s' i run_task_inv [OF inv i] by (simp add: thread_step_def)
  next
    case Exited
    then show ?thesis using s' by (simp add: thread_step_def split: if_splits)
  qed
qed

lemma wake_inv:
  assumes "pool_inv n s" "worker_at s i Waiting"
  shows "pool_inv n (goto i Relock s)"
  using assms by (intro goto_inv) (simp_all add: worker_at_def holds_mutex_def awake_def)

lemma push_inv:
  assumes inv: "pool_inv n s" and m: "tp_mutex s = None" and st: "tp_isStarted s" and w: "0 < n \<longrightarrow> (\<exists>i < n. awake (tp_threads s ! i))"
  shows "pool_inv n (s\<lparr>tp_tasks := tp_tasks s @ [x], tp_added := tp_added s @ [x]\<rparr>)"
proof -
  let ?s = "s\<lparr>tp_tasks := tp_tasks s @ [x], tp_added := tp_added s @ [x]\<rparr>"
  have idle: "tp_stop s = StopIdle" using inv st by (simp add: pool_inv_def inv_flags_def)
  have nw: "tp_threads s ! i \<noteq> TakeWait" if "i < length (tp_threads s)" for i
    using inv m that by (auto simp: pool_inv_def inv_mutex_def holds_mutex_def)
  have "inv_queue ?s" "inv_mutex ?s" using inv by (simp_all add: pool_inv_def inv_queue_def inv_mutex_def)
  moreover have "inv_flags ?s" using inv st nw by (auto simp: pool_inv_def inv_flags_def)
  moreover have "inv_awake n ?s" using inv idle w by (auto simp: pool_inv_def inv_awake_def)
  ultimately show ?thesis by (simp add: pool_inv_def)
qed

lemma awake_worker:
  assumes inv: "pool_inv n s" and m: "tp_mutex s = None" and st: "tp_isStarted s"
    and i: "i < length (tp_threads s)" and p: "tp_threads s ! i \<noteq> Waiting"
  shows "awake (tp_threads s ! i)"
proof -
  have "tp_threads s ! i \<noteq> TakeWait" using inv m i by (auto simp: pool_inv_def inv_mutex_def holds_mutex_def)
  moreover have "tp_threads s ! i \<noteq> Exited" using inv st i by (auto simp: pool_inv_def inv_flags_def)
  ultimately show ?thesis using p by (simp add: awake_def)
qed

lemma addTask_inv:
  assumes inv: "pool_inv n s" and s': "addTask x w s = Some s'"
  shows "pool_inv n s'"
proof (cases "tp_isStarted s")
  case True
  have m: "tp_mutex s = None" using s' by (auto simp: addTask_def split: if_splits)
  have len: "length (tp_threads s) = n" using inv True by (auto simp: pool_inv_def inv_flags_def inv_awake_def)
  show ?thesis
  proof (cases w)
    case None
    then have nw: "Waiting \<notin> set (tp_threads s)"
      and s': "s' = s\<lparr>tp_tasks := tp_tasks s @ [x], tp_added := tp_added s @ [x]\<rparr>"
      using s' m True by (auto simp: addTask_def Let_def split: if_splits)
    have "0 < n \<longrightarrow> (\<exists>i < n. awake (tp_threads s ! i))"
      using awake_worker [OF inv m True, of 0] nw len by (metis nth_mem)
    then show ?thesis unfolding s' by (rule push_inv [OF inv m True])
  next
    case (Some i)
    let ?t = "goto i Relock s"
    have at: "worker_at s i Waiting"
      and s': "s' = ?t\<lparr>tp_tasks := tp_tasks ?t @ [x], tp_added := tp_added ?t @ [x]\<rparr>"
      using s' m True Some by (auto simp: addTask_def Let_def goto_def split: if_splits)
    have "i < n" "awake (tp_threads ?t ! i)" using at len by (simp_all add: worker_at_def goto_def awake_def)
    then show ?thesis unfolding s' using wake_inv [OF inv at] m True
      by (intro push_inv) (auto simp: goto_def)
  qed
next
  case False
  then show ?thesis using inv s' by (auto simp: addTask_def split: if_splits)
qed

lemma stop_step_inv:
  assumes inv: "pool_inv n s" and s': "stop_step s = Some s'"
  shows "pool_inv n s'"
proof (cases "tp_stop s")
  case StopIdle
  then have "s' = s\<lparr>tp_isStarted := False, tp_stop := StopNotify\<rparr>" using s' by (simp add: stop_step_def)
  then show ?thesis using inv StopIdle
    by (auto simp: pool_inv_def inv_queue_def inv_mutex_def inv_flags_def inv_awake_def)
next
  case StopNotify
  then have s': "s' = s\<lparr>tp_threads := map (\<lambda>p. if p = Waiting then Relock else p) (tp_threads s), tp_stop := StopJoin\<rparr>"
    using s' by (simp add: stop_step_def)
  have "inv_queue s'" using inv by (simp add: pool_inv_def inv_queue_def s' running_of_wake)
  moreover have "inv_mutex s'" using inv by (auto simp: pool_inv_def inv_mutex_def s' holds_mutex_def)
  moreover have "inv_flags s'" using inv StopNotify by (auto simp: pool_inv_def inv_flags_def s')
  moreover have "inv_awake n s'" using inv StopNotify by (auto simp: pool_inv_def inv_awake_def s' awake_def)
  ultimately show ?thesis by (simp add: pool_inv_def)
next
  case StopJoin
  then have all: "set (tp_threads s) \<subseteq> {Exited}" and s': "s' = s\<lparr>tp_threads := [], tp_stop := StopDone\<rparr>"
    using s' by (auto simp: stop_step_def split: if_splits)
  have ex: "tp_threads s ! i = Exited" if "i < length (tp_threads s)" for i using all nth_mem [OF that] by auto
  have "tp_mutex s = None" using inv ex by (cases "tp_mutex s") (auto simp: pool_inv_def inv_mutex_def holds_mutex_def)
  moreover have "0 < n \<longrightarrow> tp_tasks s = []" using inv ex StopJoin by (auto simp: pool_inv_def inv_awake_def awake_def)
  ultimately show ?thesis using inv StopJoin running_of_Exited [OF all] running_of_Exited [of "[]"]
    by (auto simp: pool_inv_def inv_queue_def inv_mutex_def inv_flags_def inv_awake_def s')
next
  case StopDone
  then show ?thesis using s' by (simp add: stop_step_def)
qed

lemma pool_reach_inv: "pool_reach spurious n s \<Longrightarrow> pool_inv n s"
proof (induction rule: pool_reach.induct)
  case init
  show ?case by (rule pool_inv_init)
next
  case (step s s')
  from step.hyps(2) step.IH show ?case
    by (cases rule: pool_step.cases) (auto intro: thread_step_inv addTask_inv stop_step_inv wake_inv)
qed

subsection \<open>Properties\<close>

text \<open>
  C28: In every state of the pool, with or without spurious wake-ups, the accepted tasks are the taken
  ones followed by the queued ones, and every taken task has been run or is being run by exactly one
  worker: no task is lost, none runs twice, and tasks are taken in the order they were added.
\<close>

theorem pool_keeps_tasks:
  assumes "pool_reach spurious n s"
  shows "tp_added s = tp_taken s @ tp_tasks s \<and>
    mset (tp_taken s) = mset (tp_finished s) + running_of (tp_threads s)"
  using pool_reach_inv [OF assms] by (simp_all add: pool_inv_def inv_queue_def)

text \<open>Witness for C28: a pool of two workers, one of which runs the first of two tasks.\<close>

theorem pool_keeps_tasks_witness:
  "\<exists>s. pool_reach True 2 s \<and> tp_taken s = [5] \<and> tp_tasks s = [6] \<and> running_of (tp_threads s) = {#5#}"
proof -
  let ?s = "\<lparr>tp_isStarted = True, tp_tasks = [6], tp_mutex = None, tp_threads = [RunTask (Some 5), TakeLock], tp_stop = StopIdle, tp_added = [5, 6],
    tp_taken = [5], tp_finished = []\<rparr>"
  have "schedule [Worker 0, Worker 1, Add 5 None, Worker 0, Worker 0, Worker 0, Add 6 None] (ThreadPool_new 2) = Some ?s"
    by code_simp
  from pool_keeps_tasks [OF scheduled [OF this]] scheduled [OF this] show ?thesis
    by (intro exI [of _ ?s]) simp
qed

text \<open>
  C29: When \<open>stop\<close> of a pool with workers has returned, every accepted task has been run.
\<close>

theorem stop_drains:
  assumes "pool_reach spurious n s" "0 < n" "tp_stop s = StopDone"
  shows "tp_tasks s = [] \<and> tp_threads s = [] \<and> mset (tp_finished s) = mset (tp_added s)"
  using pool_reach_inv [OF assms(1)] assms(2,3)
  by (auto simp: pool_inv_def inv_queue_def inv_awake_def running_of_def)

text \<open>Witness for C29: a worker runs a task that is queued when \<open>stop\<close> is called.\<close>

theorem stop_drains_witness:
  "\<exists>s. pool_reach False 1 s \<and> tp_stop s = StopDone \<and> mset (tp_finished s) = mset (tp_added s) \<and> tp_added s = [5]"
proof -
  let ?s = "\<lparr>tp_isStarted = False, tp_tasks = [], tp_mutex = None, tp_threads = [], tp_stop = StopDone, tp_added = [5],
    tp_taken = [5], tp_finished = [5]\<rparr>"
  have "schedule [Worker 0, Add 5 None, Stop, Stop, Worker 0, Worker 0, Worker 0, Worker 0, Worker 0, Worker 0, Stop]
    (ThreadPool_new 1) = Some ?s" by code_simp
  note r = scheduled [OF this]
  from stop_drains [OF r] r show ?thesis by (intro exI [of _ ?s]) simp
qed

text \<open>
  A queued task is never stranded: while the queue is not empty some worker can take a step, so no
  notification of \<open>addTask\<close> is lost.
\<close>

theorem queued_task_progress:
  assumes "pool_reach spurious n s" "0 < n" "tp_tasks s \<noteq> []"
  shows "\<exists>i < n. \<exists>s'. thread_step i s = Some s'"
proof -
  have inv: "inv_mutex s" "inv_awake n s" using pool_reach_inv [OF assms(1)] by (simp_all add: pool_inv_def)
  then obtain i where i: "length (tp_threads s) = n" "i < n" "awake (tp_threads s ! i)"
    using assms(2,3) by (auto simp: inv_awake_def split: if_splits)
  show ?thesis
  proof (cases "tp_mutex s")
    case None
    then show ?thesis using i
      by (intro exI [of _ i]) (cases "tp_threads s ! i"; simp add: thread_step_def take_lock_def awake_def)
  next
    case (Some j)
    then have "j < n" "holds_mutex (tp_threads s ! j)" using inv(1) i(1) by (auto simp: inv_mutex_def)
    then show ?thesis using i(1)
      by (intro exI [of _ j]) (cases "tp_threads s ! j"; simp add: thread_step_def holds_mutex_def)
  qed
qed

text \<open>
  C30: A call of \<open>stop\<close> may never return: it clears the flag and notifies without the mutex, between a
  worker's test of the flag and its wait. The worker then waits for ever, and when nothing wakes it
  spuriously no step leads out of this state.
\<close>

theorem stop_lost_wakeup:
  "\<exists>s. pool_reach False 1 s \<and> tp_stop s = StopJoin \<and> tp_threads s = [Waiting] \<and> {s'. (pool_step False)\<^sup>*\<^sup>* s s'} = {s}"
proof -
  let ?s = "\<lparr>tp_isStarted = False, tp_tasks = [], tp_mutex = None, tp_threads = [Waiting], tp_stop = StopJoin, tp_added = [],
    tp_taken = [], tp_finished = []\<rparr>"
  have "schedule [Worker 0, Worker 0, Worker 0, Stop, Stop, Worker 0] (ThreadPool_new 1) = Some ?s" by code_simp
  then have r: "pool_reach False 1 ?s" by (rule scheduled)
  have none: "thread_step i ?s = None" for i by (cases i) (simp_all add: thread_step_def)
  have stay: "s' = ?s" if "pool_step False ?s s'" for s'
    using that none by (cases rule: pool_step.cases) (simp_all add: addTask_def stop_step_def)
  have "s' = ?s" if "(pool_step False)\<^sup>*\<^sup>* ?s s'" for s'
    using that by (induction rule: rtranclp_induct) (auto dest: stay)
  then have "{s'. (pool_step False)\<^sup>*\<^sup>* ?s s'} = {?s}" by blast
  with r show ?thesis by (intro exI [of _ ?s]) simp
qed

end
