(* ===== verification/Timer_Service.thy ===== *)
theory Timer_Service
  imports Timing_Wheel Thread_Pool
begin

section \<open>The running timer\<close>

text \<open>
  \<open>start\<close>, \<open>startTick\<close> and \<open>shutdown\<close> of \<open>timer/Timer.cc\<close>: the timer runs its clock as a task of its own thread pool and hands due
  functions to the same pool. The system is a step relation over the wheels, the pool and the flag \<open>isRunning\<close>. Task \<open>TICK\<close> is
  the bound \<open>startTick\<close>, task \<open>Suc f\<close> the function \<open>f\<close> of the user. \<open>sv_pending\<close> are the functions whose call of \<open>addTask\<close> has not
  happened yet: the calls wait for the mutex of the pool, and those of different threads come in any order.
\<close>

subsection \<open>Operations\<close>

definition TICK :: nat where "TICK = 0"

record TimerService =
  sv_timer :: Timer
  sv_pool :: ThreadPool
  sv_isRunning :: bool
  sv_pending :: "nat list"

definition TimerService_new :: "timeval \<Rightarrow> int \<Rightarrow> timeval \<Rightarrow> nat \<Rightarrow> TimerService" where
  "TimerService_new tickMs wheelSize startMs threadNum =
     \<lparr>sv_timer = Timer_new tickMs wheelSize startMs, sv_pool = ThreadPool_new threadNum, sv_isRunning = False, sv_pending = []\<rparr>"

definition sv_start :: "nat option \<Rightarrow> TimerService \<Rightarrow> TimerService option" where
  "sv_start w s = map_option (\<lambda>p. s\<lparr>sv_isRunning := True, sv_pool := p\<rparr>) (addTask TICK w (sv_pool s))"

text \<open>\<open>newTimer\<close>: the one timer of the process, made and started by the first caller.\<close>

definition newTimer :: "TimerService option \<Rightarrow> timeval \<Rightarrow> int \<Rightarrow> timeval \<Rightarrow> nat \<Rightarrow> TimerService option" where
  "newTimer defaultTimer tickMs wheelSize startMs threadNum =
     (case defaultTimer of
        Some s \<Rightarrow> Some s
      | None \<Rightarrow> sv_start None (TimerService_new tickMs wheelSize startMs threadNum))"

text \<open>Functions that the wheels hand out are on their way to the pool.\<close>

definition hand_out :: "Timer \<Rightarrow> TimerService \<Rightarrow> TimerService" where
  "hand_out t s = s\<lparr>sv_timer := t\<lparr>tm_pool := []\<rparr>, sv_pending := sv_pending s @ map Suc (tm_pool t)\<rparr>"

text \<open>One round of \<open>startTick\<close> on the worker \<open>i\<close>: \<open>None\<close> while a call of \<open>addTask\<close> holds \<open>m_rwMutex\<close>.\<close>

definition startTick_round :: "nat \<Rightarrow> (nat \<Rightarrow> timeval) \<Rightarrow> nat \<Rightarrow> TimerService \<Rightarrow> TimerService result option" where
  "startTick_round fuel clock i s =
     (if sv_pending s \<noteq> [] then None
      else if sv_isRunning s then Some (bindE (advanceClock fuel clock (sv_timer s)) (\<lambda>t. Inr (hand_out t s)))
      else Some (Inr (s\<lparr>sv_pool := run_task i (Some TICK) (sv_pool s)\<rparr>)))"

definition sv_addByDelay :: "timeval \<Rightarrow> timeval \<Rightarrow> nat \<Rightarrow> TimerService \<Rightarrow> TimerService result" where
  "sv_addByDelay now delayTime func s =
     bindE (addByDelay (sv_timer s) now delayTime func) (\<lambda>t. Inr (hand_out t s))"

definition sv_submit :: "nat \<Rightarrow> nat option \<Rightarrow> TimerService \<Rightarrow> TimerService option" where
  "sv_submit x w s =
     (if x \<in> set (sv_pending s)
      then map_option (\<lambda>p. s\<lparr>sv_pool := p, sv_pending := remove1 x (sv_pending s)\<rparr>) (addTask x w (sv_pool s))
      else None)"

text \<open>\<open>shutdown\<close> clears the flag, then stops the pool step by step.\<close>

definition sv_shutdown :: "TimerService \<Rightarrow> TimerService option" where
  "sv_shutdown s =
     (if sv_isRunning s then Some (s\<lparr>sv_isRunning := False\<rparr>)
      else map_option (\<lambda>p. s\<lparr>sv_pool := p\<rparr>) (stop_step (sv_pool s)))"

inductive sv_step :: "bool \<Rightarrow> TimerService \<Rightarrow> TimerService \<Rightarrow> bool" for spurious :: bool where
  worker: "\<not> worker_at (sv_pool s) i (RunTask (Some TICK)) \<Longrightarrow> thread_step i (sv_pool s) = Some p \<Longrightarrow> sv_step spurious s (s\<lparr>sv_pool := p\<rparr>)"
| tick: "worker_at (sv_pool s) i (RunTask (Some TICK)) \<Longrightarrow> startTick_round fuel clock i s = Some (Inr s') \<Longrightarrow> sv_step spurious s s'"
| delay: "sv_addByDelay now delayTime func s = Inr s' \<Longrightarrow> sv_step spurious s s'"
| submit: "sv_submit x w s = Some s' \<Longrightarrow> sv_step spurious s s'"
| shutdown: "sv_shutdown s = Some s' \<Longrightarrow> sv_step spurious s s'"
| wake: "spurious \<Longrightarrow> worker_at (sv_pool s) i Waiting \<Longrightarrow> sv_step spurious s (s\<lparr>sv_pool := goto i Relock (sv_pool s)\<rparr>)"

inductive sv_reach :: "bool \<Rightarrow> nat \<Rightarrow> TimerService \<Rightarrow> bool" for spurious :: bool and n :: nat where
  init: "newTimer None tickMs wheelSize startMs n = Some s \<Longrightarrow> sv_reach spurious n s"
| step: "sv_reach spurious n s \<Longrightarrow> sv_step spurious s s' \<Longrightarrow> sv_reach spurious n s'"

subsection \<open>The pool of a running timer\<close>

text \<open>Every step of the timer is a step of its pool or leaves the pool alone, so what holds for the pool holds here.\<close>

lemma sv_step_pool:
  assumes "sv_step spurious s s'"
  shows "sv_pool s' = sv_pool s \<or> pool_step spurious (sv_pool s) (sv_pool s')"
  using assms
proof cases
  case (worker i p)
  then show ?thesis by (auto intro: pool_step.worker)
next
  case (tick i fuel clock)
  have "thread_step i (sv_pool s) = Some (run_task i (Some TICK) (sv_pool s))"
    using tick(1) by (simp add: worker_at_def thread_step_def)
  then show ?thesis using tick(2)
    by (auto simp: startTick_round_def hand_out_def result_simps split: if_splits intro: pool_step.worker)
next
  case (delay now delayTime func)
  then show ?thesis by (auto simp: sv_addByDelay_def hand_out_def result_simps)
next
  case (submit x w)
  then show ?thesis by (auto simp: sv_submit_def split: if_splits intro: pool_step.add)
next
  case shutdown
  then show ?thesis by (auto simp: sv_shutdown_def split: if_splits intro: pool_step.stop)
next
  case (wake i)
  then show ?thesis by (auto intro: pool_step.wake)
qed

lemma newTimer_pool:
  assumes "newTimer None tickMs wheelSize startMs n = Some s"
  shows "addTask TICK None (ThreadPool_new n) = Some (sv_pool s)" "sv_isRunning s" "sv_pending s = []"
    "sv_pool s = (ThreadPool_new n)\<lparr>tp_tasks := [TICK], tp_added := [TICK]\<rparr>"
  using assms by (auto simp: newTimer_def sv_start_def TimerService_new_def addTask_def ThreadPool_new_def Let_def split: if_splits)

lemma sv_reach_pool: "sv_reach spurious n s \<Longrightarrow> pool_reach spurious n (sv_pool s)"
proof (induction rule: sv_reach.induct)
  case (init tickMs wheelSize startMs s)
  then show ?case using newTimer_pool(1) by (blast intro: pool_reach.intros pool_step.add)
next
  case (step s s')
  then show ?case using sv_step_pool [OF step(2)] by (auto intro: pool_reach.step)
qed

subsection \<open>The clock keeps a worker\<close>

text \<open>
  While the timer runs, its clock is the first task of the pool: before it is taken no task is, and it is not finished;
  a pool of one worker then has nobody left for other tasks.
\<close>

definition clock_holds :: "ThreadPool \<Rightarrow> bool" where
  "clock_holds p \<longleftrightarrow> (tp_taken p = [] \<and> tp_finished p = [] \<and> (\<exists>xs. tp_tasks p = TICK # xs)) \<or>
     (\<exists>i. worker_at p i (RunTask (Some TICK)) \<and> (length (tp_threads p) = 1 \<longrightarrow> tp_finished p = []))"

lemma thread_step_other:
  assumes "thread_step j p = Some p'"
  shows "length (tp_threads p') = length (tp_threads p)" "i \<noteq> j \<Longrightarrow> tp_threads p' ! i = tp_threads p ! i" "j < length (tp_threads p)"
  using assms by (auto simp: thread_step_def take_lock_def take_pop_def run_task_def goto_def split: if_splits worker_pc.splits list.splits option.splits)

lemma clock_holds_worker:
  assumes h: "clock_holds p" and inv: "inv_queue p" and s: "thread_step j p = Some p'" and j: "\<not> worker_at p j (RunTask (Some TICK))"
  shows "clock_holds p'"
  using h unfolding clock_holds_def
proof (elim disjE exE conjE)
  fix xs assume f: "tp_taken p = []" "tp_finished p = []" "tp_tasks p = TICK # xs"
  then have r: "running_of (tp_threads p) = {#}" using inv by (simp add: inv_queue_def)
  have idle: "tp_threads p ! j \<noteq> RunTask (Some x)" for x
    using running_of_update [OF thread_step_other(3) [OF s], of Exited] r by (auto dest: sym)
  consider "tp_threads p ! j = TakePop" | "tp_taken p' = [] \<and> tp_finished p' = [] \<and> tp_tasks p' = TICK # xs"
    using s f idle thread_step_other(3) [OF s]
    by (auto simp: thread_step_def take_lock_def run_task_def goto_def split: worker_pc.splits option.splits if_splits)
  then show "(tp_taken p' = [] \<and> tp_finished p' = [] \<and> (\<exists>xs. tp_tasks p' = TICK # xs)) \<or>
     (\<exists>i. worker_at p' i (RunTask (Some TICK)) \<and> (length (tp_threads p') = 1 \<longrightarrow> tp_finished p' = []))"
  proof cases
    case 1
    then have "worker_at p' j (RunTask (Some TICK))" "tp_finished p' = []"
      using s f thread_step_other(3) [OF s] by (auto simp: thread_step_def take_pop_def goto_def worker_at_def)
    then show ?thesis by blast
  qed blast
next
  fix i assume i: "worker_at p i (RunTask (Some TICK))" "length (tp_threads p) = 1 \<longrightarrow> tp_finished p = []"
  then have "i \<noteq> j" using j by blast
  moreover have "i < length (tp_threads p)" using i(1) by (simp add: worker_at_def)
  ultimately have "length (tp_threads p) \<noteq> 1" using thread_step_other(3) [OF s] by simp
  then show "(tp_taken p' = [] \<and> tp_finished p' = [] \<and> (\<exists>xs. tp_tasks p' = TICK # xs)) \<or>
     (\<exists>i. worker_at p' i (RunTask (Some TICK)) \<and> (length (tp_threads p') = 1 \<longrightarrow> tp_finished p' = []))"
    using i(1) thread_step_other(1,2) [OF s] \<open>i \<noteq> j\<close> by (auto simp: worker_at_def)
qed

text \<open>Waking a worker and queueing a task leave the clock where it is.\<close>

lemma clock_holds_wake:
  assumes h: "clock_holds p" and w: "worker_at p i Waiting"
  shows "clock_holds (goto i Relock p)"
proof -
  have "worker_at (goto i Relock p) j (RunTask (Some TICK))" if "worker_at p j (RunTask (Some TICK))" for j
    using that w by (cases "i = j") (auto simp: worker_at_def goto_def)
  moreover have "tp_taken (goto i Relock p) = tp_taken p" "tp_finished (goto i Relock p) = tp_finished p"
    "tp_tasks (goto i Relock p) = tp_tasks p" "length (tp_threads (goto i Relock p)) = length (tp_threads p)"
    by (simp_all add: goto_def)
  ultimately show ?thesis using h unfolding clock_holds_def by metis
qed

lemma clock_holds_queue: "clock_holds p \<Longrightarrow> clock_holds (p\<lparr>tp_tasks := tp_tasks p @ xs, tp_added := ys\<rparr>)"
  by (auto simp: clock_holds_def worker_at_def)

lemma clock_holds_add:
  assumes h: "clock_holds p" and a: "addTask x w p = Some p'"
  shows "clock_holds p'"
proof -
  let ?q = "p\<lparr>tp_tasks := tp_tasks p @ [x], tp_added := tp_added p @ [x]\<rparr>"
  have q: "clock_holds ?q" by (rule clock_holds_queue [OF h])
  from a consider "p' = p" | "p' = ?q" | i where "p' = goto i Relock ?q" "worker_at p i Waiting"
    by (auto simp: addTask_def Let_def split: if_splits option.splits)
  then show ?thesis
  proof cases
    case (3 i)
    then show ?thesis using clock_holds_wake [OF q, of i] by (simp add: worker_at_def)
  qed (use h q in simp_all)
qed

lemma sv_reach_clock: "sv_reach spurious n s \<Longrightarrow> sv_isRunning s \<Longrightarrow> clock_holds (sv_pool s)"
proof (induction rule: sv_reach.induct)
  case (init tickMs wheelSize startMs s)
  then show ?case using newTimer_pool(4) [OF init(1)] by (simp add: clock_holds_def ThreadPool_new_def)
next
  case (step s s')
  have inv: "inv_queue (sv_pool s)" using pool_reach_inv [OF sv_reach_pool [OF step(1)]] by (simp add: pool_inv_def)
  from step(2) show ?case
  proof cases
    case (worker i p)
    then show ?thesis using clock_holds_worker [OF _ inv worker(3,2)] step by simp
  next
    case (tick i fuel clock)
    then show ?thesis using step by (auto simp: startTick_round_def hand_out_def result_simps split: if_splits)
  next
    case (delay now delayTime func)
    then show ?thesis using step by (auto simp: sv_addByDelay_def hand_out_def result_simps)
  next
    case (submit x w)
    then show ?thesis using step clock_holds_add by (auto simp: sv_submit_def split: if_splits)
  next
    case shutdown
    then show ?thesis using step by (auto simp: sv_shutdown_def split: if_splits)
  next
    case (wake i)
    then show ?thesis using step clock_holds_wake by simp
  qed
qed

text \<open>
  A timer with one thread never runs a task: while it is running, the only worker of its pool is the clock, and the due functions
  that the clock hands to the pool wait until \<open>shutdown\<close>.
\<close>

theorem single_thread_timer_starves:
  assumes "sv_reach spurious 1 s" "sv_isRunning s"
  shows "tp_finished (sv_pool s) = []"
proof -
  have "length (tp_threads (sv_pool s)) = 1 \<or> tp_threads (sv_pool s) = []"
    using pool_reach_inv [OF sv_reach_pool [OF assms(1)]] by (auto simp: pool_inv_def inv_awake_def split: if_splits)
  with sv_reach_clock [OF assms] show ?thesis by (auto simp: clock_holds_def worker_at_def)
qed

text \<open>
  With more threads one of them is the clock as soon as any task has been taken, so that a pool of \<open>n\<close> threads has \<open>n - 1\<close> for the
  functions of the user.
\<close>

theorem running_timer_has_clock:
  assumes "sv_reach spurious n s" "sv_isRunning s" "tp_taken (sv_pool s) \<noteq> []"
  shows "\<exists>i < n. tp_threads (sv_pool s) ! i = RunTask (Some TICK)"
proof -
  obtain i where i: "i < length (tp_threads (sv_pool s))" "tp_threads (sv_pool s) ! i = RunTask (Some TICK)"
    using sv_reach_clock [OF assms(1,2)] assms(3) by (auto simp: clock_holds_def worker_at_def)
  moreover have "length (tp_threads (sv_pool s)) \<le> n"
    using pool_reach_inv [OF sv_reach_pool [OF assms(1)]] by (auto simp: pool_inv_def inv_awake_def split: if_splits)
  ultimately show ?thesis by (meson less_le_trans)
qed

end
