(* ===== verification/Spin_Lock.thy ===== *)
theory Spin_Lock
  imports Prelude
begin

section \<open>The spin lock of the delay queue\<close>

text \<open>
  \<open>SpinLock\<close> of \<open>timer/delay_queue/DelayQueue.h\<close>, which makes \<open>offer\<close> and \<open>poll\<close> atomic: threads that compete for one flag, one
  step per access of the flag. Yielding and sleeping change nothing that another thread sees.
\<close>

subsection \<open>Operations\<close>

datatype spin_pc = Outside | Spinning | Inside

record SpinLock =
  sl_flag :: bool
  sl_pcs :: "spin_pc list"

definition SpinLock_new :: "nat \<Rightarrow> SpinLock" where
  "SpinLock_new n = \<lparr>sl_flag = False, sl_pcs = replicate n Outside\<rparr>"

definition spin_at :: "SpinLock \<Rightarrow> nat \<Rightarrow> spin_pc \<Rightarrow> bool" where
  "spin_at s i pc \<longleftrightarrow> i < length (sl_pcs s) \<and> sl_pcs s ! i = pc"

text \<open>\<open>compare_exchange_strong(exp, true)\<close> with \<open>exp = false\<close>: whether it succeeded, and the flag after it.\<close>

definition try_lock :: "bool \<Rightarrow> bool \<times> bool" where
  "try_lock flag = (if flag = False then (True, True) else (False, flag))"

text \<open>A call of \<open>lock\<close>, one round of its loop, and \<open>unlock\<close>.\<close>

definition spin_lock :: "nat \<Rightarrow> SpinLock \<Rightarrow> SpinLock" where
  "spin_lock i s =
     (let (ok, flag) = try_lock (sl_flag s)
      in s\<lparr>sl_flag := flag, sl_pcs := (sl_pcs s)[i := if ok then Inside else Spinning]\<rparr>)"

definition spin_unlock :: "nat \<Rightarrow> SpinLock \<Rightarrow> SpinLock" where
  "spin_unlock i s = s\<lparr>sl_flag := False, sl_pcs := (sl_pcs s)[i := Outside]\<rparr>"

inductive spin_step :: "SpinLock \<Rightarrow> SpinLock \<Rightarrow> bool" where
  call: "spin_at s i Outside \<Longrightarrow> spin_step s (spin_lock i s)"
| retry: "spin_at s i Spinning \<Longrightarrow> spin_step s (spin_lock i s)"
| leave: "spin_at s i Inside \<Longrightarrow> spin_step s (spin_unlock i s)"

inductive spin_reach :: "nat \<Rightarrow> SpinLock \<Rightarrow> bool" for n :: nat where
  init: "spin_reach n (SpinLock_new n)"
| step: "spin_reach n s \<Longrightarrow> spin_step s s' \<Longrightarrow> spin_reach n s'"

subsection \<open>Mutual exclusion and progress\<close>

definition spin_inv :: "SpinLock \<Rightarrow> bool" where
  "spin_inv s \<longleftrightarrow> (sl_flag s \<longleftrightarrow> (\<exists>i. spin_at s i Inside)) \<and> (\<forall>i j. spin_at s i Inside \<longrightarrow> spin_at s j Inside \<longrightarrow> i = j)"

lemma spin_at_update:
  assumes "i < length (sl_pcs s)"
  shows "spin_at (s\<lparr>sl_flag := b, sl_pcs := (sl_pcs s)[i := pc]\<rparr>) j q \<longleftrightarrow> (if j = i then pc = q else spin_at s j q)"
  using assms by (auto simp: spin_at_def)

lemma spin_lock_inv:
  assumes inv: "spin_inv s" and i: "spin_at s i pc" "pc \<noteq> Inside"
  shows "spin_inv (spin_lock i s)"
proof -
  have l: "i < length (sl_pcs s)" and n: "\<not> spin_at s i Inside" using i by (auto simp: spin_at_def)
  show ?thesis
    using inv n by (cases "sl_flag s") (auto simp: spin_inv_def spin_lock_def try_lock_def spin_at_update [OF l])
qed

lemma spin_unlock_inv:
  assumes inv: "spin_inv s" and i: "spin_at s i Inside"
  shows "spin_inv (spin_unlock i s)"
proof -
  have l: "i < length (sl_pcs s)" using i by (simp add: spin_at_def)
  show ?thesis using inv i by (auto simp: spin_inv_def spin_unlock_def spin_at_update [OF l])
qed

lemma spin_length [simp]: "length (sl_pcs (spin_lock i s)) = length (sl_pcs s)" "length (sl_pcs (spin_unlock i s)) = length (sl_pcs s)"
  by (simp_all add: spin_lock_def spin_unlock_def try_lock_def)

lemma spin_reach_inv: "spin_reach n s \<Longrightarrow> spin_inv s \<and> length (sl_pcs s) = n"
proof (induction rule: spin_reach.induct)
  case init
  then show ?case by (auto simp: spin_inv_def SpinLock_new_def spin_at_def)
next
  case (step s s')
  from step(2) show ?case
    by cases (use step(3) in \<open>auto intro: spin_lock_inv spin_unlock_inv\<close>)
qed

text \<open>At most one thread is between \<open>lock\<close> and \<open>unlock\<close>; while none is, every thread that asks gets the lock at its next try.\<close>

theorem spin_lock_correct:
  assumes "spin_reach n s"
  shows "spin_at s i Inside \<Longrightarrow> spin_at s j Inside \<Longrightarrow> i = j"
    and "\<forall>j. \<not> spin_at s j Inside \<Longrightarrow> i < n \<Longrightarrow> spin_at (spin_lock i s) i Inside"
    and "spin_at s j Inside \<Longrightarrow> spin_at s i Spinning \<Longrightarrow> spin_lock i s = s"
proof -
  note inv = spin_reach_inv [OF assms]
  show "spin_at s i Inside \<Longrightarrow> spin_at s j Inside \<Longrightarrow> i = j" using inv by (auto simp: spin_inv_def)
  show "\<forall>j. \<not> spin_at s j Inside \<Longrightarrow> i < n \<Longrightarrow> spin_at (spin_lock i s) i Inside"
    using inv by (auto simp: spin_inv_def spin_lock_def try_lock_def spin_at_def)
  show "spin_at s j Inside \<Longrightarrow> spin_at s i Spinning \<Longrightarrow> spin_lock i s = s"
    using inv by (auto simp: spin_inv_def spin_lock_def try_lock_def spin_at_def list_update_same_conv)
qed

end
