(* ===== verification/Connector.thy ===== *)
theory Connector
  imports Event_Loop
begin

section \<open>Connector\<close>

text \<open>
  \<open>Connector.h\<close> and \<open>Connector.cpp\<close>: a client that connects, waits until its socket is writable, hands the
  descriptor over or tries again after a growing delay. The descriptors that the kernel gives, the
  outcome of \<open>connect\<close> and the answers about the socket are arguments. \<open>cn_open\<close> are the descriptors the
  connector has opened and neither closed nor handed over, \<open>cn_handed\<close> those it handed to the callback,
  \<open>cn_timers\<close> the delays of the calls of \<open>runAfter\<close> in microseconds.
\<close>

subsection \<open>State and operations\<close>

datatype Status = SDisconnected | SConnecting | SConnected

datatype connect_errno =
  ESUCCESS | EINPROGRESS | EINTR | EISCONN | EAGAIN | EADDRINUSE | EADDRNOTAVAIL | ECONNREFUSED | ENETUNREACH
  | EACCES | EPERM | EAFNOSUPPORT | EALREADY | EBADF | EFAULT | ENOTSOCK | EOTHER

datatype cn_functor = StartInLoop | ResetChannel

definition kMaxRetryDelayMs :: int where "kMaxRetryDelayMs = 30 * 1000"
definition kInitRetryDelayMs :: int where "kInitRetryDelayMs = 500"

record 'k Connector =
  cn_connect :: bool
  cn_status :: Status
  cn_retryDelayMs :: int
  cn_channel :: "nat option"
  cn_channels :: "Channel store"
  cn_poller :: "'k EPollPoller"
  cn_next :: nat
  cn_functors :: "cn_functor list"
  cn_open :: "int set"
  cn_handed :: "int list"
  cn_timers :: "int list"

type_synonym 'k connector = "'k Connector"

definition Connector_new :: "Channel store \<Rightarrow> 'k EPollPoller \<Rightarrow> nat \<Rightarrow> 'k connector" where
  "Connector_new hp p a = \<lparr>cn_connect = False, cn_status = SDisconnected, cn_retryDelayMs = kInitRetryDelayMs, cn_channel = None,
     cn_channels = hp, cn_poller = p, cn_next = a, cn_functors = [], cn_open = {}, cn_handed = [], cn_timers = []\<rparr>"

definition cn_close :: "int \<Rightarrow> 'k connector \<Rightarrow> 'k connector" where
  "cn_close fd c = c\<lparr>cn_open := cn_open c - {fd}\<rparr>"

definition retry :: "int \<Rightarrow> 'k connector \<Rightarrow> 'k connector" where
  "retry sockfd c =
     (let c = (cn_close sockfd c)\<lparr>cn_status := SDisconnected\<rparr>
      in if cn_connect c
         then c\<lparr>cn_timers := cn_timers c @ [i32 (cn_retryDelayMs c * 1000)],
                cn_retryDelayMs := min (i32 (cn_retryDelayMs c * 2)) kMaxRetryDelayMs\<rparr>
         else c)"

definition connecting :: "'k epoll_ctl \<Rightarrow> int \<Rightarrow> 'k connector \<Rightarrow> 'k connector result" where
  "connecting ctl sockfd c =
     bindE (assertE (cn_channel c = None)) (\<lambda>_.
     let a = cn_next c;
         hp = (cn_channels c)(a \<mapsto> (Channel_new sockfd)\<lparr>ch_writeCallback := Some 0, ch_errorCallback := Some 1\<rparr>)
     in bindE (enableWriting ctl hp (cn_poller c) a) (\<lambda>(hp, p).
          Inr (c\<lparr>cn_status := SConnecting, cn_channel := Some a, cn_channels := hp, cn_poller := p, cn_next := Suc a\<rparr>)))"

text \<open>\<open>sockfd\<close> is the descriptor that \<open>createNonblockingOrDie\<close> returns, \<open>e\<close> the error number of the call of \<open>connect\<close>.\<close>

definition connect :: "'k epoll_ctl \<Rightarrow> int \<Rightarrow> connect_errno \<Rightarrow> 'k connector \<Rightarrow> 'k connector result" where
  "connect ctl sockfd e c =
     (let c = c\<lparr>cn_open := insert sockfd (cn_open c)\<rparr>
      in if e \<in> {ESUCCESS, EINPROGRESS, EINTR, EISCONN} then connecting ctl sockfd c
         else if e \<in> {EAGAIN, EADDRINUSE, EADDRNOTAVAIL, ECONNREFUSED, ENETUNREACH} then Inr (retry sockfd c)
         else Inr (cn_close sockfd c))"

definition startInLoop :: "'k epoll_ctl \<Rightarrow> bool \<Rightarrow> int \<Rightarrow> connect_errno \<Rightarrow> 'k connector \<Rightarrow> 'k connector result" where
  "startInLoop ctl inLoop sockfd e c =
     bindE (assertInLoopThread inLoop) (\<lambda>_.
     bindE (assertE (cn_status c = SDisconnected)) (\<lambda>_.
     if cn_connect c then connect ctl sockfd e c else Inr c))"

definition cn_start :: "'k epoll_ctl \<Rightarrow> bool \<Rightarrow> int \<Rightarrow> connect_errno \<Rightarrow> 'k connector \<Rightarrow> 'k connector result" where
  "cn_start ctl inLoop sockfd e c =
     (let c = c\<lparr>cn_connect := True\<rparr>
      in if inLoop then startInLoop ctl inLoop sockfd e c else Inr (c\<lparr>cn_functors := cn_functors c @ [StartInLoop]\<rparr>))"

definition removeAndResetChannel :: "'k epoll_ctl \<Rightarrow> 'k connector \<Rightarrow> (int \<times> 'k connector) result" where
  "removeAndResetChannel ctl c =
     bindE (deref (cn_channel c)) (\<lambda>a.
     bindE (disableAll ctl (cn_channels c) (cn_poller c) a) (\<lambda>(hp, p).
     bindE (channel_remove ctl hp p a) (\<lambda>(hp, p).
     bindE (load hp a) (\<lambda>ch.
       Inr (ch_fd ch, c\<lparr>cn_channels := hp, cn_poller := p, cn_functors := cn_functors c @ [ResetChannel]\<rparr>)))))"

definition resetChannel :: "'k connector \<Rightarrow> 'k connector" where
  "resetChannel c = c\<lparr>cn_channel := None, cn_channels := (case cn_channel c of None \<Rightarrow> cn_channels c | Some a \<Rightarrow> (cn_channels c)(a := None))\<rparr>"

text \<open>\<open>err\<close> is the pending error of the socket, \<open>self\<close> whether it is connected to itself.\<close>

definition cn_handleWrite :: "'k epoll_ctl \<Rightarrow> int \<Rightarrow> bool \<Rightarrow> 'k connector \<Rightarrow> 'k connector result" where
  "cn_handleWrite ctl err self c =
     (if cn_status c = SConnecting then
        bindE (removeAndResetChannel ctl c) (\<lambda>(sockfd, c).
        if err \<noteq> 0 then Inr (retry sockfd c)
        else if self then Inr (retry sockfd c)
        else
          let c = c\<lparr>cn_status := SConnected\<rparr>
          in if cn_connect c
             then Inr (c\<lparr>cn_open := cn_open c - {sockfd}, cn_handed := cn_handed c @ [sockfd]\<rparr>)
             else Inr (cn_close sockfd c))
      else bindE (assertE (cn_status c = SDisconnected)) (\<lambda>_. Inr c))"

definition cn_handleError :: "'k epoll_ctl \<Rightarrow> 'k connector \<Rightarrow> 'k connector result" where
  "cn_handleError ctl c =
     (if cn_status c = SConnecting
      then bindE (removeAndResetChannel ctl c) (\<lambda>(sockfd, c). Inr (retry sockfd c)) else Inr c)"

text \<open>
  What becomes of a scheduled retry: \<open>EventLoop::runAfter\<close> hands \<open>startInLoop\<close> to the timer, which runs it on a
  worker of its thread pool.
\<close>

definition retry_fires :: "'k epoll_ctl \<Rightarrow> int \<Rightarrow> connect_errno \<Rightarrow> 'k connector \<Rightarrow> 'k connector result" where
  "retry_fires ctl sockfd e c = startInLoop ctl False sockfd e c"

text \<open>The next functor of the loop's queue that belongs to the connector.\<close>

definition run_functor :: "'k epoll_ctl \<Rightarrow> int \<Rightarrow> connect_errno \<Rightarrow> 'k connector \<Rightarrow> 'k connector result" where
  "run_functor ctl sockfd e c =
     (case cn_functors c of
        [] \<Rightarrow> Inr c
      | StartInLoop # fs \<Rightarrow> startInLoop ctl True sockfd e (c\<lparr>cn_functors := fs\<rparr>)
      | ResetChannel # fs \<Rightarrow> Inr (resetChannel (c\<lparr>cn_functors := fs\<rparr>)))"

text \<open>
  The histories of a connector: \<open>start\<close> from any thread, the events of its channel and its functors in the
  thread of the loop. The kernel gives descriptors that no channel of the loop has.
\<close>

definition fresh_fd :: "int \<Rightarrow> 'k connector \<Rightarrow> bool" where
  "fresh_fd fd c \<longleftrightarrow> ep_channels (cn_poller c) fd = None"

inductive connector_reach :: "'k epoll_ctl \<Rightarrow> ('k \<Rightarrow> int \<rightharpoonup> int \<times> nat) \<Rightarrow> 'k connector \<Rightarrow> bool"
  for ctl :: "'k epoll_ctl" and interest :: "'k \<Rightarrow> int \<rightharpoonup> int \<times> nat" where
  new: "poller_inv interest hp p \<Longrightarrow> \<forall>b\<ge>a. hp b = None \<Longrightarrow> connector_reach ctl interest (Connector_new hp p a)"
| start: "connector_reach ctl interest c \<Longrightarrow> fresh_fd fd c \<Longrightarrow>
    cn_start ctl inLoop fd e c = Inr c' \<Longrightarrow> connector_reach ctl interest c'"
| pending: "connector_reach ctl interest c \<Longrightarrow> fresh_fd fd c \<Longrightarrow>
    run_functor ctl fd e c = Inr c' \<Longrightarrow> connector_reach ctl interest c'"
| writable: "connector_reach ctl interest c \<Longrightarrow> cn_handleWrite ctl err self c = Inr c' \<Longrightarrow> connector_reach ctl interest c'"
| failed: "connector_reach ctl interest c \<Longrightarrow> cn_handleError ctl c = Inr c' \<Longrightarrow> connector_reach ctl interest c'"

subsection \<open>The invariant\<close>

text \<open>
  While it connects, the connector owns the descriptor of its added channel; otherwise it owns none and its
  channel, if it still has one, is not registered and waits for the one reset that is queued.
\<close>

definition cn_core :: "('k \<Rightarrow> int \<rightharpoonup> int \<times> nat) \<Rightarrow> 'k connector \<Rightarrow> bool" where
  "cn_core interest c \<longleftrightarrow>
     poller_inv interest (cn_channels c) (cn_poller c) \<and> (\<forall>b\<ge>cn_next c. cn_channels c b = None) \<and>
     500 \<le> cn_retryDelayMs c \<and> cn_retryDelayMs c \<le> 30000"

definition cn_waiting :: "'k connector \<Rightarrow> bool" where
  "cn_waiting c \<longleftrightarrow> (\<exists>a ch. cn_channel c = Some a \<and> cn_channels c a = Some ch \<and> ch_index ch = kAdded \<and> cn_open c = {ch_fd ch}) \<and>
     ResetChannel \<notin> set (cn_functors c)"

definition cn_settled :: "'k connector \<Rightarrow> bool" where
  "cn_settled c \<longleftrightarrow>
     (case cn_channel c of
        None \<Rightarrow> count_list (cn_functors c) ResetChannel = 0
      | Some a \<Rightarrow> count_list (cn_functors c) ResetChannel = 1 \<and> (\<exists>ch. cn_channels c a = Some ch \<and> ch_index ch = kNew))"

definition cn_inv :: "('k \<Rightarrow> int \<rightharpoonup> int \<times> nat) \<Rightarrow> 'k connector \<Rightarrow> bool" where
  "cn_inv interest c \<longleftrightarrow> cn_core interest c \<and>
     (if cn_status c = SConnecting then cn_waiting c else cn_open c = {} \<and> cn_settled c)"

lemmas cn_defs = cn_core_def cn_settled_def cn_inv_def

lemma retry_inv:
  assumes "cn_core interest c" "cn_settled c" "cn_open c \<subseteq> {fd}"
  shows "cn_inv interest (retry fd c)" "cn_status (retry fd c) = SDisconnected" "cn_open (retry fd c) = {}"
proof -
  have "i32 (cn_retryDelayMs c * 2) = cn_retryDelayMs c * 2" using assms(1) by (intro i32_id) (auto simp: cn_defs)
  then show "cn_inv interest (retry fd c)" "cn_status (retry fd c) = SDisconnected" "cn_open (retry fd c) = {}"
    using assms by (auto simp: cn_defs retry_def Let_def cn_close_def kMaxRetryDelayMs_def min_def cong: option.case_cong)
qed

lemma connecting_inv:
  assumes k: "epoll_ok ctl interest" and c: "cn_core interest c" "cn_settled c" "cn_open c = {fd}" "cn_channel c = None"
    and fresh: "fresh_fd fd c"
  obtains c' where "connecting ctl fd c = Inr c'" "cn_inv interest c'" "cn_status c' = SConnecting"
proof -
  let ?a = "cn_next c" and ?ch = "(Channel_new fd)\<lparr>ch_writeCallback := Some 0, ch_errorCallback := Some 1\<rparr>"
  let ?hp = "(cn_channels c)(?a \<mapsto> ?ch)"
  have inv: "poller_inv interest ?hp (cn_poller c)"
    using c(1) unfolding cn_core_def by (intro poller_inv_new) (auto simp: Channel_new_def kNew_def)
  from set_events_ok [OF k inv, of ?a ?ch "\<lambda>e. e OR kWriteEvent"] fresh obtain p where
    p: "enableWriting ctl ?hp (cn_poller c) ?a = Inr (?hp(?a \<mapsto> ?ch\<lparr>ch_events := 4, ch_index := kAdded\<rparr>), p)"
      "poller_inv interest (?hp(?a \<mapsto> ?ch\<lparr>ch_events := 4, ch_index := kAdded\<rparr>)) p"
    by (auto simp: fresh_fd_def Channel_new_def enableWriting_def poll_bits index_defs)
  let ?c = "c\<lparr>cn_status := SConnecting, cn_channel := Some ?a, cn_channels := ?hp(?a \<mapsto> ?ch\<lparr>ch_events := 4, ch_index := kAdded\<rparr>),
    cn_poller := p, cn_next := Suc ?a\<rparr>"
  have "connecting ctl fd c = Inr ?c" using p(1) c(4) by (simp add: connecting_def Let_def)
  moreover have "cn_inv interest ?c" using c p(2)
    by (auto simp: cn_defs cn_waiting_def Channel_new_def count_list_0_iff)
  ultimately show ?thesis using that by simp
qed

lemma startInLoop_inv:
  assumes k: "epoll_ok ctl interest" and inv: "cn_inv interest c" and fresh: "fresh_fd fd c"
    and run: "startInLoop ctl inLoop fd e c = Inr c'"
  shows "cn_inv interest c'"
proof -
  let ?c = "c\<lparr>cn_open := insert fd (cn_open c)\<rparr>"
  have d: "cn_status c = SDisconnected" using run by (auto simp: startInLoop_def result_simps split: if_splits)
  then have c: "cn_core interest ?c" "cn_settled ?c" "cn_open ?c = {fd}" "cn_status ?c = SDisconnected" and fresh': "fresh_fd fd ?c"
    using inv fresh by (auto simp: cn_defs fresh_fd_def cong: option.case_cong)
  have conn: "cn_inv interest c'" if r: "connect ctl fd e c = Inr c'"
  proof -
    consider (go) "connecting ctl fd ?c = Inr c'" | (again) "c' = retry fd ?c" | (stop) "c' = cn_close fd ?c"
      using r unfolding connect_def Let_def by (metis sum.inject(2))
    then show ?thesis
    proof cases
      case go
      then have "cn_channel ?c = None" by (auto simp: connecting_def result_simps split: if_splits)
      from connecting_inv [OF k c(1-3) this fresh'] go show ?thesis by auto
    next
      case again
      then show ?thesis using retry_inv(1) [OF c(1,2)] c(3) by simp
    next
      case stop
      then show ?thesis using c d by (auto simp: cn_defs cn_close_def cong: option.case_cong)
    qed
  qed
  show ?thesis using run conn inv by (auto simp: startInLoop_def result_simps split: if_splits)
qed

lemma removeAndReset_ok:
  assumes k: "epoll_ok ctl interest" and inv: "cn_inv interest c" and st: "cn_status c = SConnecting"
  obtains fd c' where "removeAndResetChannel ctl c = Inr (fd, c')" "cn_core interest c'" "cn_settled c'" "cn_open c' = {fd}"
    "cn_connect c' = cn_connect c" "cn_handed c' = cn_handed c" "interest (ep_kernel (cn_poller c')) fd = None"
    "cn_open c = {fd}"
proof -
  obtain a ch where ch: "cn_channel c = Some a" "cn_channels c a = Some ch" "ch_index ch = kAdded" "cn_open c = {ch_fd ch}"
    and fs: "ResetChannel \<notin> set (cn_functors c)" and core: "cn_core interest c"
    using inv st by (auto simp: cn_inv_def cn_waiting_def)
  have "poller_inv interest (cn_channels c) (cn_poller c)" using core by (simp add: cn_core_def)
  from disable_then_remove [OF k this ch(2,3)] obtain p1 p2 where
    r: "disableAll ctl (cn_channels c) (cn_poller c) a = Inr ((cn_channels c)(a \<mapsto> ch\<lparr>ch_events := 0, ch_index := kDeleted\<rparr>), p1)"
    "channel_remove ctl ((cn_channels c)(a \<mapsto> ch\<lparr>ch_events := 0, ch_index := kDeleted\<rparr>)) p1 a =
      Inr ((cn_channels c)(a \<mapsto> ch\<lparr>ch_events := 0, ch_index := kNew\<rparr>), p2)"
    "poller_inv interest ((cn_channels c)(a \<mapsto> ch\<lparr>ch_events := 0, ch_index := kNew\<rparr>)) p2"
    "interest (ep_kernel p2) (ch_fd ch) = None" by metis
  let ?c = "c\<lparr>cn_channels := (cn_channels c)(a \<mapsto> ch\<lparr>ch_events := 0, ch_index := kNew\<rparr>), cn_poller := p2,
    cn_functors := cn_functors c @ [ResetChannel]\<rparr>"
  have "removeAndResetChannel ctl c = Inr (ch_fd ch, ?c)" using ch r(1,2) by (simp add: removeAndResetChannel_def)
  moreover have "cn_core interest ?c" using core r(3) ch(2) by (auto simp: cn_core_def)
  moreover have "cn_settled ?c" using ch(1) fs by (simp add: cn_settled_def count_list_0_iff)
  ultimately show ?thesis using that ch(4) r(4) by simp
qed

text \<open>What the two handlers do with the descriptor of a connector that waits.\<close>

definition handed_or_closed :: "('k \<Rightarrow> int \<rightharpoonup> int \<times> nat) \<Rightarrow> bool \<Rightarrow> int \<Rightarrow> 'k connector \<Rightarrow> 'k connector \<Rightarrow> bool" where
  "handed_or_closed interest good fd c c' \<longleftrightarrow>
     cn_open c' = {} \<and> interest (ep_kernel (cn_poller c')) fd = None \<and>
     (if good then cn_status c' = SConnected \<and> cn_handed c' = cn_handed c @ (if cn_connect c then [fd] else [])
      else cn_status c' = SDisconnected \<and> cn_handed c' = cn_handed c)"

lemma handlers_ok:
  assumes k: "epoll_ok ctl interest" and inv: "cn_inv interest c" and st: "cn_status c = SConnecting" and fd: "cn_open c = {fd}"
  shows "\<exists>c'. cn_handleWrite ctl err self c = Inr c' \<and> cn_inv interest c' \<and> handed_or_closed interest (err = 0 \<and> \<not> self) fd c c'"
    "\<exists>c'. cn_handleError ctl c = Inr c' \<and> cn_inv interest c' \<and> handed_or_closed interest False fd c c'"
proof -
  obtain fd' c1 where r': "removeAndResetChannel ctl c = Inr (fd', c1)" "cn_core interest c1" "cn_settled c1" "cn_open c1 = {fd'}"
    "cn_connect c1 = cn_connect c" "cn_handed c1 = cn_handed c" "interest (ep_kernel (cn_poller c1)) fd' = None" "cn_open c = {fd'}"
    by (rule removeAndReset_ok [OF k inv st])
  have "fd' = fd" using r'(8) fd by simp
  note r = r' [unfolded this]
  have re: "cn_inv interest (retry fd c1)" "cn_status (retry fd c1) = SDisconnected" "cn_open (retry fd c1) = {}"
    "cn_handed (retry fd c1) = cn_handed c" "interest (ep_kernel (cn_poller (retry fd c1))) fd = None"
    using retry_inv [OF r(2,3), of fd] r(4,6,7) by (simp_all add: retry_def Let_def cn_close_def)
  let ?c = "c1\<lparr>cn_status := SConnected\<rparr>"
  let ?d = "if cn_connect c then ?c\<lparr>cn_open := cn_open ?c - {fd}, cn_handed := cn_handed ?c @ [fd]\<rparr> else cn_close fd ?c"
  have ok: "cn_inv interest ?d" "cn_open ?d = {}"
    using r(2-4) by (simp_all add: cn_defs cn_close_def cong: option.case_cong)
  have "cn_handleWrite ctl err self c = Inr (if err = 0 \<and> \<not> self then ?d else retry fd c1)"
    using st r(1,5) by (simp add: cn_handleWrite_def Let_def)
  then show "\<exists>c'. cn_handleWrite ctl err self c = Inr c' \<and> cn_inv interest c' \<and> handed_or_closed interest (err = 0 \<and> \<not> self) fd c c'"
    using ok re r(6,7) by (auto simp: cn_close_def handed_or_closed_def)
  have "cn_handleError ctl c = Inr (retry fd c1)" using st r(1) by (simp add: cn_handleError_def)
  then show "\<exists>c'. cn_handleError ctl c = Inr c' \<and> cn_inv interest c' \<and> handed_or_closed interest False fd c c'"
    using re by (simp add: handed_or_closed_def)
qed

lemma connecting_open: "cn_inv interest c \<Longrightarrow> cn_status c = SConnecting \<Longrightarrow> \<exists>fd. cn_open c = {fd}"
  by (auto simp: cn_inv_def cn_waiting_def)

lemma reset_inv:
  assumes inv: "cn_inv interest c" and fs: "cn_functors c = ResetChannel # fs"
  shows "cn_inv interest (resetChannel (c\<lparr>cn_functors := fs\<rparr>))"
proof -
  have st: "cn_status c \<noteq> SConnecting" and c: "cn_core interest c" "cn_open c = {}" "cn_settled c"
    using inv fs by (auto simp: cn_inv_def cn_waiting_def split: if_splits)
  then obtain a ch where ch: "cn_channel c = Some a" "count_list fs ResetChannel = 0" "cn_channels c a = Some ch" "ch_index ch = kNew"
    using fs by (auto simp: cn_settled_def split: option.splits)
  then have "poller_inv interest ((cn_channels c)(a := None)) (cn_poller c)" using c(1) by (auto simp: cn_core_def intro: poller_inv_delete)
  then show ?thesis using st c ch by (simp add: cn_defs resetChannel_def)
qed

lemma start_queued_inv: "cn_inv interest c \<Longrightarrow> cn_inv interest (c\<lparr>cn_connect := True, cn_functors := cn_functors c @ [StartInLoop]\<rparr>)"
  by (auto simp: cn_defs cn_waiting_def split: option.splits)

lemma start_taken_inv: "cn_inv interest c \<Longrightarrow> cn_functors c = StartInLoop # fs \<Longrightarrow> cn_inv interest (c\<lparr>cn_functors := fs\<rparr>)"
  by (auto simp: cn_defs cn_waiting_def split: option.splits)

lemma reach_cn_inv:
  assumes k: "epoll_ok ctl interest"
  shows "connector_reach ctl interest c \<Longrightarrow> cn_inv interest c"
proof (induction rule: connector_reach.induct)
  case (new hp p a)
  then show ?case by (simp add: cn_defs Connector_new_def kInitRetryDelayMs_def)
next
  case (start c fd inLoop e c')
  have "cn_inv interest (c\<lparr>cn_connect := True\<rparr>)" "fresh_fd fd (c\<lparr>cn_connect := True\<rparr>)"
    using start by (auto simp: cn_defs cn_waiting_def fresh_fd_def split: option.splits)
  with start show ?case using startInLoop_inv [OF k] start_queued_inv by (auto simp: cn_start_def Let_def split: if_splits)
next
  case (pending c fd e c')
  have fresh: "fresh_fd fd (c\<lparr>cn_functors := fs\<rparr>)" for fs using pending.hyps(2) by (simp add: fresh_fd_def)
  show ?case
  proof (cases "cn_functors c")
    case Nil
    then show ?thesis using pending by (simp add: run_functor_def)
  next
    case (Cons f fs)
    then show ?thesis using pending.IH pending.hyps(3) startInLoop_inv [OF k start_taken_inv fresh] reset_inv [OF pending.IH]
      by (cases f) (simp_all add: run_functor_def)
  qed
next
  case (writable c err self c')
  then show ?case using handlers_ok(1) [OF k writable.IH, of _ err self] connecting_open [OF writable.IH]
    by (cases "cn_status c = SConnecting") (fastforce, simp add: cn_handleWrite_def result_simps)
next
  case (failed c c')
  then show ?case using handlers_ok(2) [OF k failed.IH] connecting_open [OF failed.IH]
    by (cases "cn_status c = SConnecting") (fastforce, simp add: cn_handleError_def)
qed

subsection \<open>Properties\<close>



text \<open>A scheduled retry does not reconnect: the timer runs it on another thread, and the loop ends the process.\<close>

lemma retry_exits: "retry_fires ctl fd e c = Inl ProcessExit"
  by (simp add: retry_fires_def startInLoop_def assertInLoopThread_def)

end
