(* ===== verification/Long_Adder.thy ===== *)
theory Long_Adder
  imports Prelude "HOL-Library.Word"
begin

section \<open>LongAdder\<close>

text \<open>
  \<open>buffer/LongAdder/LongAdder.h\<close> and \<open>buffer/LongAdder/Striped64.h\<close>: a counter that threads add to at its base or, once they have
  collided, at one of several cells. A thread is a program counter with its local variables, and a step of a thread is
  one access to what the threads share. The calls of \<open>compare_exchange_weak\<close> may fail without a reason, and \<open>localinit\<close> picks
  any number that is not zero: a step has these choices as its arguments. The arguments \<open>b + x\<close> and \<open>b = m_base.load()\<close> of a
  call are evaluated from the right, as GCC does; the standard leaves the order open. \<open>new Cell*[n]\<close> does not
  clear the array: \<open>z\<close> is what its slots hold. A thread that reads a slot it should not crashes. \<open>long\<close> has 64 bits.
\<close>

unbundle bit_operations_syntax

subsection \<open>State\<close>

datatype slot = NullSlot | CellAt nat | Junk

text \<open>The parameters and local variables of \<open>longAccumulate\<close> that outlive a round of its loop.\<close>

record accumulate =
  lo_x :: "64 word"
  lo_wasUncontended :: bool
  lo_index :: "32 word"
  lo_collide :: bool

datatype adder_pc =
    Idle
  | AddCells "64 word" | AddBase "64 word" | AddBaseCas "64 word" "64 word" | AddLength "64 word" "nat option" | AddSlot "64 word" nat
  | AddLoad "64 word" nat | AddCas "64 word" nat "64 word"
  | AccTop accumulate | AccLength accumulate nat | AccSlot accumulate nat nat
  | AttachLock accumulate | AttachStore accumulate | AttachUnlock accumulate bool
  | CellLoad accumulate nat nat nat | CellCas accumulate nat "64 word" nat nat | CellFull accumulate nat nat
  | GrowLock accumulate nat nat | GrowNew accumulate nat nat | GrowCopy accumulate nat nat nat | GrowLength accumulate nat | GrowUnlock accumulate
  | InitTest accumulate "nat option" | InitLock accumulate "nat option" | InitCheck accumulate "nat option"
  | InitLength accumulate | InitStore accumulate | InitUnlock accumulate bool
  | BaseLoad accumulate | BaseCas accumulate "64 word"
  | Crashed "64 word"

text \<open>Arrays and cells are named by their place in the lists of all arrays and cells; \<open>sa_started\<close> sums the arguments of all calls of \<open>add\<close>.\<close>

record Striped64 =
  st_base :: "64 word"
  st_cellsBusy :: bool
  st_cells :: "nat option"
  st_nCells :: nat
  st_arrays :: "slot list list"
  st_values :: "64 word list"
  st_probe :: "32 word list"
  st_threads :: "adder_pc list"
  st_started :: "64 word"

definition Striped64_new :: "nat \<Rightarrow> Striped64" where
  "Striped64_new threads = \<lparr>st_base = 0, st_cellsBusy = False, st_cells = None, st_nCells = 0, st_arrays = [], st_values = [],
     st_probe = replicate threads 0, st_threads = replicate threads Idle, st_started = 0\<rparr>"

definition advanceProbe :: "32 word \<Rightarrow> 32 word" where
  "advanceProbe probe =
     (let p = (probe XOR push_bit 13 probe);
          p = (p XOR signed_drop_bit 17 p)
      in (p XOR push_bit 5 p))"

definition slot_index :: "nat \<Rightarrow> 32 word \<Rightarrow> nat" where
  "slot_index n index = unat (of_nat (n - 1) AND index)"

text \<open>A slot of an array; out of its bounds and where nothing was stored there is no telling what is read.\<close>

definition read_slot :: "Striped64 \<Rightarrow> nat \<Rightarrow> nat \<Rightarrow> slot" where
  "read_slot s a j = (if a < length (st_arrays s) \<and> j < length (st_arrays s ! a) then st_arrays s ! a ! j else Junk)"

definition goto :: "nat \<Rightarrow> adder_pc \<Rightarrow> Striped64 \<Rightarrow> Striped64" where
  "goto t pc s = s\<lparr>st_threads := (st_threads s)[t := pc]\<rparr>"

text \<open>Entering \<open>longAccumulate\<close>: a thread whose probe is zero gets one.\<close>

definition accumulate_call :: "nat \<Rightarrow> 32 word \<Rightarrow> 64 word \<Rightarrow> bool \<Rightarrow> Striped64 \<Rightarrow> Striped64" where
  "accumulate_call t rnd x wasUncontended s =
     (let index = st_probe s ! t
      in if index = 0
         then goto t (AccTop \<lparr>lo_x = x, lo_wasUncontended = True, lo_index = rnd, lo_collide = False\<rparr>) (s\<lparr>st_probe := (st_probe s)[t := rnd]\<rparr>)
         else goto t (AccTop \<lparr>lo_x = x, lo_wasUncontended = wasUncontended, lo_index = index, lo_collide = False\<rparr>) s)"

text \<open>The end of a round that does not \<open>continue\<close>: the probe advances.\<close>

definition rehash :: "nat \<Rightarrow> accumulate \<Rightarrow> Striped64 \<Rightarrow> Striped64" where
  "rehash t l s = goto t (AccTop (l\<lparr>lo_index := advanceProbe (lo_index l)\<rparr>)) s"

subsection \<open>The steps of a thread\<close>

definition call_add :: "nat \<Rightarrow> 64 word \<Rightarrow> Striped64 \<Rightarrow> Striped64" where
  "call_add t x s = goto t (AddCells x) (s\<lparr>st_started := st_started s + x\<rparr>)"

text \<open>\<open>add\<close>.\<close>

definition add_step :: "bool \<Rightarrow> 32 word \<Rightarrow> nat \<Rightarrow> Striped64 \<Rightarrow> Striped64" where
  "add_step weak rnd t s =
     (case st_threads s ! t of
        AddCells x \<Rightarrow> goto t (case st_cells s of None \<Rightarrow> AddBase x | Some cs \<Rightarrow> AddLength x (Some cs)) s
      | AddBase x \<Rightarrow> goto t (AddBaseCas x (st_base s)) s
      | AddBaseCas x b \<Rightarrow>
          if st_base s = b \<and> \<not> weak then goto t Idle (s\<lparr>st_base := b + x\<rparr>) else goto t (AddLength x None) s
      | AddLength x cs \<Rightarrow>
          if cs = None \<or> st_nCells s = 0 then accumulate_call t rnd x True s else goto t (AddSlot x (st_nCells s)) s
      | AddSlot x n \<Rightarrow>
          (case st_cells s of
             None \<Rightarrow> goto t (Crashed x) s
           | Some a \<Rightarrow>
               (case read_slot s a (slot_index n (st_probe s ! t)) of
                  NullSlot \<Rightarrow> accumulate_call t rnd x True s
                | CellAt c \<Rightarrow> goto t (AddLoad x c) s
                | Junk \<Rightarrow> goto t (Crashed x) s))
      | AddLoad x c \<Rightarrow> goto t (AddCas x c (st_values s ! c)) s
      | AddCas x c v \<Rightarrow>
          if st_values s ! c = v \<and> \<not> weak then goto t Idle (s\<lparr>st_values := (st_values s)[c := v + x]\<rparr>)
          else accumulate_call t rnd x False s
      | _ \<Rightarrow> s)"

text \<open>
  The cells of \<open>longAccumulate\<close>: the branch of an initialised array. A failed test of \<open>m_cellsBusy\<close> and a failed
  \<open>casCellsBusy\<close> after it lead to the same place, so one step stands for both; the cell that is created ahead of the lock
  is the thread's own until it is stored, and is created here when it is stored.
\<close>

definition cells_step :: "slot \<Rightarrow> nat \<Rightarrow> bool \<Rightarrow> nat \<Rightarrow> Striped64 \<Rightarrow> Striped64" where
  "cells_step z NCPU weak t s =
     (case st_threads s ! t of
        AccTop l \<Rightarrow> goto t (case st_cells s of None \<Rightarrow> InitTest l None | Some cs \<Rightarrow> AccLength l cs) s
      | AccLength l cs \<Rightarrow> goto t (if st_nCells s > 0 then AccSlot l cs (st_nCells s) else InitTest l (Some cs)) s
      | AccSlot l cs n \<Rightarrow>
          (case read_slot s cs (slot_index n (lo_index l)) of
             NullSlot \<Rightarrow> goto t (AttachLock l) s
           | CellAt c \<Rightarrow>
               if \<not> lo_wasUncontended l then rehash t (l\<lparr>lo_wasUncontended := True\<rparr>) s else goto t (CellLoad l c cs n) s
           | Junk \<Rightarrow> goto t (Crashed (lo_x l)) s)
      | AttachLock l \<Rightarrow>
          if st_cellsBusy s then rehash t (l\<lparr>lo_collide := False\<rparr>) s else goto t (AttachStore l) (s\<lparr>st_cellsBusy := True\<rparr>)
      | AttachStore l \<Rightarrow>
          (case st_cells s of
             Some rs \<Rightarrow>
               let j = slot_index (st_nCells s) (lo_index l)
               in if st_nCells s > 0 \<and> read_slot s rs j = NullSlot
                  then goto t (AttachUnlock l True)
                         (s\<lparr>st_arrays := (st_arrays s)[rs := (st_arrays s ! rs)[j := CellAt (length (st_values s))]],
                            st_values := st_values s @ [lo_x l]\<rparr>)
                  else goto t (AttachUnlock l False) s
           | None \<Rightarrow> goto t (AttachUnlock l False) s)
      | AttachUnlock l created \<Rightarrow> goto t (if created then Idle else AccTop l) (s\<lparr>st_cellsBusy := False\<rparr>)
      | CellLoad l c cs n \<Rightarrow> goto t (CellCas l c (st_values s ! c) cs n) s
      | CellCas l c v cs n \<Rightarrow>
          if st_values s ! c = v \<and> \<not> weak then goto t Idle (s\<lparr>st_values := (st_values s)[c := v + lo_x l]\<rparr>)
          else goto t (CellFull l cs n) s
      | CellFull l cs n \<Rightarrow>
          if n \<ge> NCPU \<or> st_cells s \<noteq> Some cs then rehash t (l\<lparr>lo_collide := False\<rparr>) s
          else if \<not> lo_collide l then rehash t (l\<lparr>lo_collide := True\<rparr>) s
          else goto t (GrowLock l cs n) s
      | GrowLock l cs n \<Rightarrow> if st_cellsBusy s then rehash t l s else goto t (GrowNew l cs n) (s\<lparr>st_cellsBusy := True\<rparr>)
      | GrowNew l cs n \<Rightarrow>
          if st_cells s = Some cs
          then goto t (GrowCopy l cs n 0) (s\<lparr>st_cells := Some (length (st_arrays s)), st_arrays := st_arrays s @ [replicate (n * 2) z]\<rparr>)
          else goto t (GrowUnlock l) s
      | GrowCopy l cs n i \<Rightarrow>
          if i < n then
            (case st_cells s of
               Some a \<Rightarrow> goto t (GrowCopy l cs n (Suc i)) (s\<lparr>st_arrays := (st_arrays s)[a := (st_arrays s ! a)[i := read_slot s cs i]]\<rparr>)
             | None \<Rightarrow> goto t (Crashed (lo_x l)) s)
          else goto t (GrowLength l n) s
      | GrowLength l n \<Rightarrow> goto t (GrowUnlock l) (s\<lparr>st_nCells := n * 2\<rparr>)
      | GrowUnlock l \<Rightarrow> goto t (AccTop (l\<lparr>lo_collide := False\<rparr>)) (s\<lparr>st_cellsBusy := False\<rparr>)
      | _ \<Rightarrow> s)"

text \<open>The branches of \<open>longAccumulate\<close> that initialise the array and that fall back on the base.\<close>

definition init_step :: "slot \<Rightarrow> bool \<Rightarrow> nat \<Rightarrow> Striped64 \<Rightarrow> Striped64" where
  "init_step z weak t s =
     (case st_threads s ! t of
        InitTest l cs \<Rightarrow> goto t (if \<not> st_cellsBusy s \<and> st_cells s = cs then InitLock l cs else BaseLoad l) s
      | InitLock l cs \<Rightarrow> if st_cellsBusy s then goto t (BaseLoad l) s else goto t (InitCheck l cs) (s\<lparr>st_cellsBusy := True\<rparr>)
      | InitCheck l cs \<Rightarrow> goto t (if st_cells s = cs then InitLength l else InitUnlock l False) s
      | InitLength l \<Rightarrow> goto t (InitStore l) (s\<lparr>st_nCells := 2\<rparr>)
      | InitStore l \<Rightarrow>
          goto t (InitUnlock l True)
            (s\<lparr>st_cells := Some (length (st_arrays s)),
               st_arrays := st_arrays s @ [(replicate 2 z)[slot_index 2 (lo_index l) := CellAt (length (st_values s))]],
               st_values := st_values s @ [lo_x l]\<rparr>)
      | InitUnlock l init \<Rightarrow> goto t (if init then Idle else AccTop l) (s\<lparr>st_cellsBusy := False\<rparr>)
      | BaseLoad l \<Rightarrow> goto t (BaseCas l (st_base s)) s
      | BaseCas l v \<Rightarrow>
          if st_base s = v \<and> \<not> weak then goto t Idle (s\<lparr>st_base := v + lo_x l\<rparr>) else goto t (AccTop l) s
      | _ \<Rightarrow> s)"

definition adder_step :: "slot \<Rightarrow> nat \<Rightarrow> bool \<Rightarrow> 32 word \<Rightarrow> nat \<Rightarrow> Striped64 \<Rightarrow> Striped64" where
  "adder_step z NCPU weak rnd t s =
     (case st_threads s ! t of
        Idle \<Rightarrow> s
      | AddCells _ \<Rightarrow> add_step weak rnd t s | AddBase _ \<Rightarrow> add_step weak rnd t s | AddBaseCas _ _ \<Rightarrow> add_step weak rnd t s
      | AddLength _ _ \<Rightarrow> add_step weak rnd t s | AddSlot _ _ \<Rightarrow> add_step weak rnd t s
      | AddLoad _ _ \<Rightarrow> add_step weak rnd t s | AddCas _ _ _ \<Rightarrow> add_step weak rnd t s
      | InitTest _ _ \<Rightarrow> init_step z weak t s | InitLock _ _ \<Rightarrow> init_step z weak t s | InitCheck _ _ \<Rightarrow> init_step z weak t s
      | InitLength _ \<Rightarrow> init_step z weak t s | InitStore _ \<Rightarrow> init_step z weak t s | InitUnlock _ _ \<Rightarrow> init_step z weak t s
      | BaseLoad _ \<Rightarrow> init_step z weak t s | BaseCas _ _ \<Rightarrow> init_step z weak t s
      | Crashed _ \<Rightarrow> s
      | _ \<Rightarrow> cells_step z NCPU weak t s)"

text \<open>\<open>sum\<close>, while no other thread is adding.\<close>

primrec sum_slots :: "Striped64 \<Rightarrow> slot list \<Rightarrow> 64 word \<Rightarrow> 64 word result" where
  "sum_slots s [] acc = Inr acc"
| "sum_slots s (c # cs) acc =
     (case c of
        NullSlot \<Rightarrow> sum_slots s cs acc
      | CellAt a \<Rightarrow> bindE (getN (st_values s) a) (\<lambda>v. sum_slots s cs (acc + v))
      | Junk \<Rightarrow> Inl OutOfBounds)"

definition adder_sum :: "Striped64 \<Rightarrow> 64 word result" where
  "adder_sum s =
     (case st_cells s of
        None \<Rightarrow> Inr (st_base s)
      | Some a \<Rightarrow> sum_slots s (map (read_slot s a) [0..<st_nCells s]) (st_base s))"

inductive adder_reach :: "slot \<Rightarrow> nat \<Rightarrow> Striped64 \<Rightarrow> bool" for z :: slot and NCPU :: nat where
  new: "adder_reach z NCPU (Striped64_new threads)"
| call: "adder_reach z NCPU s \<Longrightarrow> t < length (st_threads s) \<Longrightarrow> st_threads s ! t = Idle \<Longrightarrow> adder_reach z NCPU (call_add t x s)"
| step: "adder_reach z NCPU s \<Longrightarrow> t < length (st_threads s) \<Longrightarrow> rnd \<noteq> 0 \<Longrightarrow> adder_reach z NCPU (adder_step z NCPU weak rnd t s)"

subsection \<open>No count is lost from memory\<close>

text \<open>What a thread has not yet added, and the cell it is about to change.\<close>

fun pending :: "adder_pc \<Rightarrow> 64 word" where
  "pending Idle = 0"
| "pending (AddCells x) = x" | "pending (AddBase x) = x" | "pending (AddBaseCas x _) = x" | "pending (AddLength x _) = x"
| "pending (AddSlot x _) = x" | "pending (AddLoad x _) = x" | "pending (AddCas x _ _) = x"
| "pending (AccTop l) = lo_x l" | "pending (AccLength l _) = lo_x l" | "pending (AccSlot l _ _) = lo_x l"
| "pending (AttachLock l) = lo_x l" | "pending (AttachStore l) = lo_x l" | "pending (AttachUnlock l b) = (if b then 0 else lo_x l)"
| "pending (CellLoad l _ _ _) = lo_x l" | "pending (CellCas l _ _ _ _) = lo_x l" | "pending (CellFull l _ _) = lo_x l"
| "pending (GrowLock l _ _) = lo_x l" | "pending (GrowNew l _ _) = lo_x l" | "pending (GrowCopy l _ _ _) = lo_x l"
| "pending (GrowLength l _) = lo_x l" | "pending (GrowUnlock l) = lo_x l"
| "pending (InitTest l _) = lo_x l" | "pending (InitLock l _) = lo_x l" | "pending (InitCheck l _) = lo_x l"
| "pending (InitLength l) = lo_x l" | "pending (InitStore l) = lo_x l" | "pending (InitUnlock l b) = (if b then 0 else lo_x l)"
| "pending (BaseLoad l) = lo_x l" | "pending (BaseCas l _) = lo_x l"
| "pending (Crashed x) = x"

fun cell_of :: "adder_pc \<Rightarrow> nat option" where
  "cell_of (AddLoad _ c) = Some c" | "cell_of (AddCas _ c _) = Some c"
| "cell_of (CellLoad _ c _ _) = Some c" | "cell_of (CellCas _ c _ _ _) = Some c"
| "cell_of _ = None"

definition slots_ok :: "nat \<Rightarrow> slot list list \<Rightarrow> bool" where
  "slots_ok n as \<longleftrightarrow> (\<forall>arr \<in> set as. \<forall>c. CellAt c \<in> set arr \<longrightarrow> c < n)"

definition stored :: "Striped64 \<Rightarrow> 64 word" where
  "stored s = st_base s + sum_list (st_values s)"

definition adder_inv :: "Striped64 \<Rightarrow> bool" where
  "adder_inv s \<longleftrightarrow>
     stored s + sum_list (map pending (st_threads s)) = st_started s \<and> slots_ok (length (st_values s)) (st_arrays s) \<and>
     (\<forall>pc \<in> set (st_threads s). \<forall>c. cell_of pc = Some c \<longrightarrow> c < length (st_values s))"

lemma sum_list_set: "k < length xs \<Longrightarrow> sum_list (xs[k := v]) = sum_list xs + v - xs ! k" for xs :: "'a :: ab_group_add list"
  by (induction xs arbitrary: k) (auto simp: algebra_simps split: nat.splits)

lemma slots_ok_mono: "slots_ok n as \<Longrightarrow> n \<le> m \<Longrightarrow> slots_ok m as"
  by (fastforce simp: slots_ok_def)

lemma slots_ok_set:
  assumes *: "slots_ok n as" "\<And>c. sl = CellAt c \<Longrightarrow> c < n"
  shows "slots_ok n (as[a := (as ! a)[j := sl]])"
proof (cases "a < length as")
  case True
  have "CellAt c \<in> set ((as ! a)[j := sl]) \<Longrightarrow> c < n" for c
    using * True set_update_subset_insert [of "as ! a" j sl] by (fastforce simp: slots_ok_def)
  then show ?thesis using *(1) set_update_subset_insert [of as a "(as ! a)[j := sl]"] by (fastforce simp: slots_ok_def)
qed (use *(1) in \<open>simp add: list_update_beyond not_less\<close>)

lemma read_slot_cell: "slots_ok (length (st_values s)) (st_arrays s) \<Longrightarrow> read_slot s a j = CellAt c \<Longrightarrow> c < length (st_values s)"
  by (auto simp: slots_ok_def read_slot_def split: if_splits) (metis nth_mem)

text \<open>A step of thread \<open>t\<close> keeps the invariant when what it adds to memory is what it no longer owes.\<close>

lemma adder_goto_inv:
  assumes inv: "adder_inv s" and t: "t < length (st_threads s)"
    and same: "st_threads s' = st_threads s" "st_started s' = st_started s"
    and grow: "length (st_values s) \<le> length (st_values s')" "slots_ok (length (st_values s')) (st_arrays s')"
    and pc: "\<And>c. cell_of pc = Some c \<Longrightarrow> c < length (st_values s')"
    and owe: "stored s' + pending pc = stored s + pending (st_threads s ! t)"
  shows "adder_inv (goto t pc s')"
proof -
  have "sum_list (map pending ((st_threads s)[t := pc])) = sum_list (map pending (st_threads s)) + pending pc - pending (st_threads s ! t)"
    using t by (simp add: map_update sum_list_set)
  then have "stored s' + sum_list (map pending ((st_threads s)[t := pc])) =
      (stored s' + pending pc) - pending (st_threads s ! t) + sum_list (map pending (st_threads s))" by simp
  then have "stored s' + sum_list (map pending ((st_threads s)[t := pc])) = st_started s"
    unfolding owe using inv by (simp add: adder_inv_def)
  moreover have "\<forall>p \<in> set ((st_threads s)[t := pc]). \<forall>c. cell_of p = Some c \<longrightarrow> c < length (st_values s')"
    using inv pc grow(1) set_update_subset_insert [of "st_threads s" t pc] by (fastforce simp: adder_inv_def)
  ultimately show ?thesis using same grow(2) by (simp add: adder_inv_def goto_def stored_def)
qed

lemma goto_same:
  assumes "adder_inv s" "t < length (st_threads s)" "\<And>c. cell_of pc = Some c \<Longrightarrow> c < length (st_values s)"
    "pending pc = pending (st_threads s ! t)"
  shows "adder_inv (goto t pc s)"
  using assms by (intro adder_goto_inv [OF assms(1,2)]) (auto simp: adder_inv_def)

lemma accumulate_call_inv:
  assumes "adder_inv s" "t < length (st_threads s)" "pending (st_threads s ! t) = x"
  shows "adder_inv (accumulate_call t rnd x b s)"
proof -
  have "adder_inv (s\<lparr>st_probe := ps\<rparr>)" for ps using assms(1) by (simp add: adder_inv_def stored_def)
  then show ?thesis using assms by (auto simp: accumulate_call_def Let_def intro!: goto_same)
qed

lemma rehash_inv:
  "adder_inv s \<Longrightarrow> t < length (st_threads s) \<Longrightarrow> pending (st_threads s ! t) = lo_x l \<Longrightarrow> adder_inv (rehash t l s)"
  by (auto simp: rehash_def intro!: goto_same)

text \<open>A successful exchange of a cell.\<close>

lemma cell_cas_inv:
  assumes inv: "adder_inv s" and t: "t < length (st_threads s)" "cell_of (st_threads s ! t) = Some c" "pending (st_threads s ! t) = x"
  shows "adder_inv (goto t Idle (s\<lparr>st_values := (st_values s)[c := st_values s ! c + x]\<rparr>))"
proof -
  have "c < length (st_values s)" using inv t(1,2) nth_mem by (fastforce simp: adder_inv_def)
  then have "stored (s\<lparr>st_values := (st_values s)[c := st_values s ! c + x]\<rparr>) = stored s + x" by (simp add: stored_def sum_list_set)
  then show ?thesis using inv t by (intro adder_goto_inv [OF inv t(1)]) (simp_all add: adder_inv_def)
qed

lemma base_cas_inv:
  assumes inv: "adder_inv s" and t: "t < length (st_threads s)" "pending (st_threads s ! t) = x"
  shows "adder_inv (goto t Idle (s\<lparr>st_base := st_base s + x\<rparr>))"
  using inv t(2) by (intro adder_goto_inv [OF inv t(1)]) (simp_all add: adder_inv_def stored_def algebra_simps)

text \<open>A new cell with the thread's count.\<close>

lemma new_cell_inv:
  assumes inv: "adder_inv s" and t: "t < length (st_threads s)" "pending (st_threads s ! t) = lo_x l" "pending pc = 0" "cell_of pc = None"
    and "slots_ok (Suc (length (st_values s))) as"
  shows "adder_inv (goto t pc (s\<lparr>st_cells := cs, st_arrays := as, st_values := st_values s @ [lo_x l]\<rparr>))"
    "adder_inv (goto t pc (s\<lparr>st_arrays := as, st_values := st_values s @ [lo_x l]\<rparr>))"
  using assms by (intro adder_goto_inv [OF inv t(1)]; simp add: adder_inv_def stored_def)+

lemma add_step_inv:
  assumes inv: "adder_inv s" and t: "t < length (st_threads s)"
  shows "adder_inv (add_step weak rnd t s)"
proof -
  have sl: "slots_ok (length (st_values s)) (st_arrays s)" using inv by (simp add: adder_inv_def)
  have cell: "c < length (st_values s)" if "cell_of (st_threads s ! t) = Some c" for c using inv t that nth_mem by (fastforce simp: adder_inv_def)
  note rules = inv goto_same [OF inv t] accumulate_call_inv [OF inv t] cell_cas_inv [OF inv t] base_cas_inv [OF inv t]
  show ?thesis by (cases "st_threads s ! t") (auto simp: add_step_def cell intro!: rules intro: read_slot_cell [OF sl] split: option.splits slot.splits)
qed

text \<open>A step that changes neither the base nor a value nor a slot.\<close>

lemma lock_inv:
  assumes "adder_inv s" "t < length (st_threads s)" "cell_of pc = None" "pending pc = pending (st_threads s ! t)"
  shows "adder_inv (goto t pc (s\<lparr>st_cellsBusy := b\<rparr>))" "adder_inv (goto t pc (s\<lparr>st_nCells := n\<rparr>))"
  using assms by (intro adder_goto_inv [OF assms(1,2)]; simp add: adder_inv_def stored_def)+

lemma arrays_inv:
  assumes "adder_inv s" "t < length (st_threads s)" "cell_of pc = None" "pending pc = pending (st_threads s ! t)" "slots_ok (length (st_values s)) as"
  shows "adder_inv (goto t pc (s\<lparr>st_arrays := as\<rparr>))" "adder_inv (goto t pc (s\<lparr>st_cells := cs, st_arrays := as\<rparr>))"
  using assms by (intro adder_goto_inv [OF assms(1,2)]; simp add: adder_inv_def stored_def)+

lemma new_cell_slots: "slots_ok n as \<Longrightarrow> slots_ok (Suc n) (as[a := (as ! a)[j := CellAt n]])"
  by (intro slots_ok_set) (auto intro: slots_ok_mono)

lemma new_array_slots:
  assumes "slots_ok n as" "\<And>c. z \<noteq> CellAt c"
  shows "slots_ok (Suc n) (as @ [(replicate 2 z)[j := CellAt n]])" "slots_ok n (as @ [replicate k z])"
proof -
  have "CellAt c \<in> set ((replicate 2 z)[j := CellAt n]) \<Longrightarrow> c = n" for c
    using set_update_subset_insert [of "replicate 2 z" j "CellAt n"] assms(2) by (force split: if_splits)
  then show "slots_ok (Suc n) (as @ [(replicate 2 z)[j := CellAt n]])"
    using slots_ok_mono [OF assms(1), of "Suc n"] by (fastforce simp: slots_ok_def)
  show "slots_ok n (as @ [replicate k z])" using assms by (auto simp: slots_ok_def)
qed

lemma init_step_inv:
  assumes inv: "adder_inv s" and t: "t < length (st_threads s)" and z: "\<And>c. z \<noteq> CellAt c"
  shows "adder_inv (init_step z weak t s)"
proof -
  have "slots_ok (length (st_values s)) (st_arrays s)" using inv by (simp add: adder_inv_def)
  note rules = inv goto_same [OF inv t] lock_inv [OF inv t] base_cas_inv [OF inv t] new_cell_inv [OF inv t] new_array_slots [OF this z]
  show ?thesis by (cases "st_threads s ! t") (auto simp: init_step_def intro!: rules)
qed

lemma cells_step_inv:
  assumes inv: "adder_inv s" and t: "t < length (st_threads s)" and z: "\<And>c. z \<noteq> CellAt c"
  shows "adder_inv (cells_step z NCPU weak t s)"
proof -
  have sl: "slots_ok (length (st_values s)) (st_arrays s)" using inv by (simp add: adder_inv_def)
  have cell: "c < length (st_values s)" if "cell_of (st_threads s ! t) = Some c" for c using inv t that nth_mem by (fastforce simp: adder_inv_def)
  have copy: "slots_ok (length (st_values s)) ((st_arrays s)[a := (st_arrays s ! a)[i := read_slot s b i]])" for a b i
    by (rule slots_ok_set [OF sl read_slot_cell [OF sl]])
  note rules = inv goto_same [OF inv t] lock_inv [OF inv t] cell_cas_inv [OF inv t] new_cell_inv [OF inv t] arrays_inv [OF inv t]
    rehash_inv [OF inv t] new_array_slots(2) [OF sl z] new_cell_slots [OF sl] copy
  show ?thesis
    by (cases "st_threads s ! t") (auto simp: cells_step_def Let_def cell intro!: rules intro: read_slot_cell [OF sl] split: option.splits slot.splits)
qed

lemma call_add_inv:
  assumes "adder_inv s" "t < length (st_threads s)" "st_threads s ! t = Idle"
  shows "adder_inv (call_add t x s)"
proof -
  have "sum_list (map pending ((st_threads s)[t := AddCells x])) = sum_list (map pending (st_threads s)) + x"
    using assms(2,3) by (simp add: map_update sum_list_set)
  moreover have "\<forall>p \<in> set ((st_threads s)[t := AddCells x]). \<forall>c. cell_of p = Some c \<longrightarrow> c < length (st_values s)"
    using assms(1) set_update_subset_insert [of "st_threads s" t "AddCells x"] by (fastforce simp: adder_inv_def)
  ultimately show ?thesis using assms(1) by (simp add: adder_inv_def call_add_def goto_def stored_def add.assoc)
qed

lemma adder_step_inv:
  assumes "adder_inv s" "t < length (st_threads s)" "\<And>c. z \<noteq> CellAt c"
  shows "adder_inv (adder_step z NCPU weak rnd t s)"
  using assms add_step_inv [OF assms(1,2)] init_step_inv [OF assms] cells_step_inv [OF assms]
  by (simp add: adder_step_def split: adder_pc.splits)

text \<open>
  Whatever the threads do, on any number of processors: the base, the cells and what the threads still owe make up what they were
  called with, modulo two to the 64.
\<close>

theorem adder_conserves:
  assumes "adder_reach z NCPU s" "z \<in> {NullSlot, Junk}"
  shows "st_base s + sum_list (st_values s) + sum_list (map pending (st_threads s)) = st_started s"
proof -
  have "adder_inv s" using assms
  proof (induction rule: adder_reach.induct)
    case (new threads)
    then show ?case by (auto simp: adder_inv_def stored_def slots_ok_def Striped64_new_def sum_list_replicate)
  qed (auto intro!: call_add_inv adder_step_inv)
  then show ?thesis by (simp add: adder_inv_def stored_def)
qed

subsection \<open>The sum on a machine with two processors\<close>

text \<open>
  With at most two processors the array never grows, and then its two slots have every cell. The lock is held by the threads in its
  critical sections, at most one.
\<close>

fun locked :: "adder_pc \<Rightarrow> bool" where
  "locked (AttachStore _) = True" | "locked (AttachUnlock _ _) = True" | "locked (InitCheck _ _) = True"
| "locked (InitLength _) = True" | "locked (InitStore _) = True" | "locked (InitUnlock _ _) = True" | "locked _ = False"

fun two_pc :: "nat option \<Rightarrow> nat \<Rightarrow> adder_pc \<Rightarrow> bool" where
  "two_pc st m (AddLength _ cs) = (cs \<noteq> None \<longrightarrow> st \<noteq> None)" | "two_pc st m (AddSlot _ n) = (st \<noteq> None \<and> n = 2)"
| "two_pc st m (AccLength _ cs) = (st = Some cs)" | "two_pc st m (AccSlot _ cs n) = (st = Some cs \<and> n = 2)"
| "two_pc st m (CellLoad _ _ _ n) = (n = 2)" | "two_pc st m (CellCas _ _ _ _ n) = (n = 2)" | "two_pc st m (CellFull _ _ n) = (n = 2)"
| "two_pc st m (GrowLock _ _ _) = False" | "two_pc st m (GrowNew _ _ _) = False" | "two_pc st m (GrowCopy _ _ _ _) = False"
| "two_pc st m (GrowLength _ _) = False" | "two_pc st m (GrowUnlock _) = False"
| "two_pc st m (InitTest _ cs) = (cs = None)" | "two_pc st m (InitLock _ cs) = (cs = None)" | "two_pc st m (InitCheck _ cs) = (cs = None)"
| "two_pc st m (InitLength _) = (st = None)" | "two_pc st m (InitStore _) = (st = None \<and> m = 2)" | "two_pc st m (Crashed _) = False"
| "two_pc st m _ = True"

definition two_slots :: "nat \<Rightarrow> slot list \<Rightarrow> bool" where
  "two_slots n arr \<longleftrightarrow> n = 1 \<and> arr \<in> {[CellAt 0, NullSlot], [NullSlot, CellAt 0]} \<or> n = 2 \<and> arr \<in> {[CellAt 0, CellAt 1], [CellAt 1, CellAt 0]}"

definition two_array :: "Striped64 \<Rightarrow> bool" where
  "two_array s \<longleftrightarrow>
     (case st_cells s of
        None \<Rightarrow> st_values s = []
      | Some a \<Rightarrow> st_nCells s = 2 \<and> a < length (st_arrays s) \<and> two_slots (length (st_values s)) (st_arrays s ! a))"

definition holders :: "adder_pc list \<Rightarrow> int" where
  "holders ts = sum_list (map (\<lambda>pc. of_bool (locked pc)) ts)"

definition two_inv :: "Striped64 \<Rightarrow> bool" where
  "two_inv s \<longleftrightarrow> (\<forall>i < length (st_threads s). two_pc (st_cells s) (st_nCells s) (st_threads s ! i)) \<and> holders (st_threads s) = of_bool (st_cellsBusy s) \<and> two_array s"

lemma holders_set: "t < length ts \<Longrightarrow> holders (ts[t := pc]) = holders ts + of_bool (locked pc) - of_bool (locked (ts ! t))"
  by (simp add: holders_def map_update sum_list_set)

lemma holders_nonneg: "0 \<le> holders ts"
  unfolding holders_def by (rule sum_list_nonneg) auto

lemma one_holder:
  assumes "holders ts \<le> 1" "i < length ts" "j < length ts" "locked (ts ! i)" "locked (ts ! j)"
  shows "i = j"
proof (rule ccontr)
  assume "i \<noteq> j"
  then have "holders (ts[i := Idle, j := Idle]) = holders ts - 2" using assms(2-5) by (simp add: holders_set)
  then show False using assms(1) holders_nonneg [of "ts[i := Idle, j := Idle]"] by simp
qed

lemma two_pc_2: "two_pc st m pc \<Longrightarrow> two_pc st 2 pc"
  by (cases pc) auto

lemma goto_two:
  assumes inv: "two_inv s" and t: "t < length (st_threads s)" and same: "st_threads s' = st_threads s" "st_cells s' = st_cells s"
    and n: "st_nCells s' = st_nCells s \<or> st_nCells s' = 2"
    and pc: "two_pc (st_cells s) (st_nCells s') pc" and arr: "two_array s'"
    and lock: "of_bool (st_cellsBusy s') + of_bool (locked (st_threads s ! t)) = (of_bool (st_cellsBusy s) + of_bool (locked pc) :: int)"
  shows "two_inv (goto t pc s')"
proof -
  have "holders ((st_threads s)[t := pc]) = of_bool (st_cellsBusy s')" using inv lock t by (simp add: two_inv_def holders_set)
  moreover have "two_array (goto t pc s')" using arr by (simp add: two_array_def goto_def cong: option.case_cong)
  moreover have "\<forall>i < length (st_threads s). two_pc (st_cells s) (st_nCells s') ((st_threads s)[t := pc] ! i)"
    using inv pc t n two_pc_2 by (auto simp: two_inv_def nth_list_update)
  ultimately show ?thesis using same by (simp add: two_inv_def goto_def)
qed

lemma goto_two_same:
  assumes inv: "two_inv s" and t: "t < length (st_threads s)" and "two_pc (st_cells s) (st_nCells s) pc" "locked pc = locked (st_threads s ! t)"
  shows "two_inv (goto t pc s)"
  using assms by (intro goto_two [OF inv t]) (auto simp: two_inv_def)

lemma slot_index_2: "slot_index 2 idx < 2"
proof -
  have "of_nat (2 - 1) AND idx = (1 :: 32 word) \<or> of_nat (2 - 1) AND idx = (0 :: 32 word)" by (simp add: one_and_eq mod_2_eq_odd)
  then show ?thesis by (auto simp: slot_index_def)
qed

lemma two_read:
  assumes "two_array s" "st_cells s = Some a"
  shows "read_slot s a (slot_index 2 idx) \<noteq> Junk" "read_slot s a (slot_index 2 idx) = NullSlot \<Longrightarrow>
    two_slots (Suc (length (st_values s))) ((st_arrays s ! a)[slot_index 2 idx := CellAt (length (st_values s))])"
proof -
  have "slot_index 2 idx = 0 \<or> slot_index 2 idx = 1" using slot_index_2 [of idx] by auto
  then show "read_slot s a (slot_index 2 idx) \<noteq> Junk" "read_slot s a (slot_index 2 idx) = NullSlot \<Longrightarrow>
    two_slots (Suc (length (st_values s))) ((st_arrays s ! a)[slot_index 2 idx := CellAt (length (st_values s))])"
    using assms by (auto simp: two_array_def two_slots_def read_slot_def)
qed

text \<open>What a step may do to the memory besides growing the array.\<close>

lemma two_array_updates [simp]:
  "two_array (s\<lparr>st_base := b\<rparr>) = two_array s" "two_array (s\<lparr>st_cellsBusy := f\<rparr>) = two_array s" "two_array (s\<lparr>st_probe := ps\<rparr>) = two_array s"
  "two_array (s\<lparr>st_values := (st_values s)[c := v]\<rparr>) = two_array s" "two_array (s\<lparr>st_started := x\<rparr>) = two_array s"
  "two_array (goto t pc s) = two_array s"
  by (simp_all add: two_array_def goto_def cong: option.case_cong)

lemma two_inv_parts:
  assumes "two_inv s" "t < length (st_threads s)"
  shows "two_array s" "two_pc (st_cells s) (st_nCells s) (st_threads s ! t)" "locked (st_threads s ! t) \<Longrightarrow> st_cellsBusy s"
proof -
  show "two_array s" "two_pc (st_cells s) (st_nCells s) (st_threads s ! t)" using assms by (simp_all add: two_inv_def)
  assume "locked (st_threads s ! t)"
  then have "holders ((st_threads s)[t := Idle]) = holders (st_threads s) - 1" using assms(2) by (simp add: holders_set)
  then show "st_cellsBusy s" using assms(1) holders_nonneg [of "(st_threads s)[t := Idle]"] by (auto simp: two_inv_def)
qed

lemma two_probe: "two_inv s \<Longrightarrow> two_inv (s\<lparr>st_probe := ps\<rparr>)"
  by (simp add: two_inv_def)

lemma two_accumulate:
  assumes "two_inv s" "t < length (st_threads s)" "\<not> locked (st_threads s ! t)"
  shows "two_inv (accumulate_call t rnd x b s)"
  using assms two_probe [OF assms(1)] by (auto simp: accumulate_call_def Let_def intro!: goto_two_same)

lemma two_add_step:
  assumes inv: "two_inv s" and t: "t < length (st_threads s)"
  shows "two_inv (add_step weak rnd t s)"
proof -
  note p = two_inv_parts [OF inv t] and r = two_read(1) [OF two_inv_parts(1) [OF inv t]]
  note rules = inv goto_two_same [OF inv t] goto_two [OF inv t] two_accumulate [OF inv t]
  have nc: "st_cells s \<noteq> None \<Longrightarrow> st_nCells s = 2" using p(1) by (auto simp: two_array_def)
  show ?thesis using p nc by (cases "st_threads s ! t") (auto simp: add_step_def r intro!: rules split: option.splits slot.splits)
qed

text \<open>The one step that publishes the array: no other thread holds the lock, and so none is about to publish another.\<close>

lemma two_publish:
  assumes inv: "two_inv s" and t: "t < length (st_threads s)" "st_threads s ! t = InitStore l"
  shows "two_inv (init_step NullSlot weak t s)"
proof -
  let ?n = "length (st_arrays s)" and ?arr = "(replicate 2 NullSlot)[slot_index 2 (lo_index l) := CellAt (length (st_values s))]"
  let ?s = "s\<lparr>st_cells := Some ?n, st_arrays := st_arrays s @ [?arr], st_values := st_values s @ [lo_x l]\<rparr>"
  have c: "st_cells s = None" "st_nCells s = 2" using two_inv_parts(2) [OF inv t(1)] t(2) by auto
  then have v: "st_values s = []" using two_inv_parts(1) [OF inv t(1)] by (simp add: two_array_def)
  have "slot_index 2 (lo_index l) = 0 \<or> slot_index 2 (lo_index l) = 1" using slot_index_2 [of "lo_index l"] by auto
  then have arr: "two_array ?s" using c(2) v by (auto simp: two_array_def two_slots_def eval_nat_numeral)
  have pcs: "two_pc (Some ?n) 2 (st_threads s ! i)" if i: "i < length (st_threads s)" "i \<noteq> t" for i
  proof -
    have "\<not> locked (st_threads s ! i)" using one_holder [of "st_threads s" i t] inv i t by (auto simp: two_inv_def)
    moreover have "two_pc None 2 (st_threads s ! i)" using two_inv_parts(2) [OF inv i(1)] c by simp
    ultimately show ?thesis by (cases "st_threads s ! i") auto
  qed
  have "holders ((st_threads s)[t := InitUnlock l True]) = of_bool (st_cellsBusy s)" using inv t by (simp add: two_inv_def holders_set)
  then have "two_inv (goto t (InitUnlock l True) ?s)" using arr pcs t(1) c(2)
    by (auto simp: two_inv_def goto_def nth_list_update two_array_def)
  then show ?thesis using t(2) by (simp add: init_step_def)
qed

lemma two_init_step:
  assumes inv: "two_inv s" and t: "t < length (st_threads s)"
  shows "two_inv (init_step NullSlot weak t s)"
proof -
  note p = two_inv_parts [OF inv t]
  note rules = inv goto_two_same [OF inv t] goto_two [OF inv t] two_publish [OF inv t]
  have nc: "st_cells s = None \<Longrightarrow> two_array (s\<lparr>st_nCells := n\<rparr>)" for n using p(1) by (simp add: two_array_def)
  show ?thesis
  proof (cases "\<exists>l. st_threads s ! t = InitStore l")
    case True
    then show ?thesis using two_publish [OF inv t] by blast
  next
    case False
    then show ?thesis using p nc by (cases "st_threads s ! t") (auto simp: init_step_def intro!: rules)
  qed
qed

lemma two_attach:
  assumes inv: "two_inv s" and t: "t < length (st_threads s)" "st_threads s ! t = AttachStore l"
  shows "two_inv (cells_step NullSlot NCPU weak t s)"
proof (cases "st_cells s")
  case None
  then show ?thesis using inv t by (auto simp: cells_step_def intro!: goto_two_same)
next
  case (Some a)
  note p = two_inv_parts [OF inv t(1)]
  let ?j = "slot_index 2 (lo_index l)"
  let ?s = "s\<lparr>st_arrays := (st_arrays s)[a := (st_arrays s ! a)[?j := CellAt (length (st_values s))]], st_values := st_values s @ [lo_x l]\<rparr>"
  have a: "st_nCells s = 2" "a < length (st_arrays s)" using p(1) Some by (auto simp: two_array_def)
  have "two_array ?s" if "read_slot s a ?j = NullSlot" using two_read(2) [OF p(1) Some that] a Some by (simp add: two_array_def)
  then have "two_inv (goto t (AttachUnlock l True) ?s)" if "read_slot s a ?j = NullSlot"
    using that t p(3) by (intro goto_two [OF inv t(1)]) auto
  moreover have "two_inv (goto t (AttachUnlock l False) s)" using inv t by (intro goto_two_same) auto
  ultimately show ?thesis using t(2) Some a(1) by (auto simp: cells_step_def Let_def)
qed

lemma two_cells_step:
  assumes inv: "two_inv s" and t: "t < length (st_threads s)" and "NCPU \<le> 2"
  shows "two_inv (cells_step NullSlot NCPU weak t s)"
proof (cases "\<exists>l. st_threads s ! t = AttachStore l")
  case True
  then show ?thesis using two_attach [OF inv t] by blast
next
  case False
  note p = two_inv_parts [OF inv t] and r = two_read(1) [OF two_inv_parts(1) [OF inv t]]
  note rules = inv goto_two_same [OF inv t] goto_two [OF inv t]
  have nc: "st_cells s \<noteq> None \<Longrightarrow> st_nCells s = 2" using p(1) by (auto simp: two_array_def)
  show ?thesis using False p nc assms(3)
    by (cases "st_threads s ! t") (auto simp: cells_step_def rehash_def r intro!: rules split: option.splits slot.splits)
qed

lemma two_call:
  assumes inv: "two_inv s" and t: "t < length (st_threads s)" "st_threads s ! t = Idle"
  shows "two_inv (call_add t x s)"
proof -
  have "two_inv (s\<lparr>st_started := st_started s + x\<rparr>)" using inv by (simp add: two_inv_def)
  then show ?thesis unfolding call_add_def by (rule goto_two_same) (use t in simp_all)
qed

lemma two_step:
  assumes "two_inv s" "t < length (st_threads s)" "NCPU \<le> 2"
  shows "two_inv (adder_step NullSlot NCPU weak rnd t s)"
  using assms two_add_step [OF assms(1,2)] two_init_step [OF assms(1,2)] two_cells_step [OF assms]
  by (simp add: adder_step_def split: adder_pc.splits)

lemma two_reach: "adder_reach NullSlot NCPU s \<Longrightarrow> NCPU \<le> 2 \<Longrightarrow> two_inv s"
proof (induction rule: adder_reach.induct)
  case (new threads)
  then show ?case by (auto simp: two_inv_def two_array_def holders_def Striped64_new_def sum_list_replicate)
qed (auto intro!: two_call two_step)

lemma sum_two:
  assumes "two_inv s"
  shows "adder_sum s = Inr (stored s)"
proof (cases "st_cells s")
  case None
  then show ?thesis using assms by (simp add: two_inv_def two_array_def adder_sum_def stored_def)
next
  case (Some a)
  then have a: "st_nCells s = 2" "a < length (st_arrays s)" "two_slots (length (st_values s)) (st_arrays s ! a)"
    using assms by (simp_all add: two_inv_def two_array_def)
  obtain v where "st_values s = [v] \<or> (\<exists>w. st_values s = [v, w])"
    using a(3) by (auto simp: two_slots_def length_Suc_conv eval_nat_numeral)
  then show ?thesis using a Some
    by (auto simp: adder_sum_def stored_def two_slots_def read_slot_def upt_rec add.commute add.left_commute)
qed

subsection \<open>Schedules\<close>

text \<open>Schedules: a call, or a step with its choices. What cannot happen is skipped, so every schedule ends in a reachable state.\<close>

datatype command = Call nat "64 word" | Step nat bool "32 word"

definition run_command :: "slot \<Rightarrow> nat \<Rightarrow> command \<Rightarrow> Striped64 \<Rightarrow> Striped64" where
  "run_command z NCPU cmd s =
     (case cmd of
        Call t x \<Rightarrow> if t < length (st_threads s) \<and> st_threads s ! t = Idle then call_add t x s else s
      | Step t weak rnd \<Rightarrow> if t < length (st_threads s) \<and> rnd \<noteq> 0 then adder_step z NCPU weak rnd t s else s)"

definition run_commands :: "slot \<Rightarrow> nat \<Rightarrow> nat \<Rightarrow> command list \<Rightarrow> Striped64" where
  "run_commands z NCPU threads cmds = fold (run_command z NCPU) cmds (Striped64_new threads)"

lemma run_commands_reach: "adder_reach z NCPU (run_commands z NCPU threads cmds)"
proof -
  have "adder_reach z NCPU s \<Longrightarrow> adder_reach z NCPU (fold (run_command z NCPU) cmds s)" for s
    by (induction cmds arbitrary: s) (auto simp: run_command_def intro: adder_reach.intros split: command.splits)
  then show ?thesis by (simp add: run_commands_def adder_reach.new)
qed

definition contended :: "nat \<Rightarrow> nat \<Rightarrow> command list" where
  "contended n t = replicate n (Step t True 1)"

definition quiet :: "nat \<Rightarrow> nat \<Rightarrow> command list" where
  "quiet n t = replicate n (Step t False 3)"



subsection \<open>More processors\<close>

text \<open>
  A thread that has read \<open>m_cells\<close> before the array grows and \<open>nCells\<close> after it reads outside the old array.
\<close>

definition stale_array :: "command list" where
  "stale_array = Call 1 5 # contended 11 1 @ Call 0 9 # quiet 4 0 @ Call 1 7 # contended 26 1 @ quiet 2 0"

lemma stale_array_crashes: "st_threads (run_commands NullSlot 4 2 stale_array) ! 0 = Crashed 9"
  by code_simp

text \<open>
  A thread that has read the new \<open>m_cells\<close> and the old \<open>nCells\<close> while another thread copies the array makes it grow again with the
  old length: half of the slots are not copied. All three calls return, and \<open>sum\<close> misses one of them.
\<close>

definition stale_length :: "command list" where
  "stale_length = Call 1 5 # contended 11 1 @ Call 2 1 # contended 9 2 @ Call 1 7 # contended 24 1 @ contended 6 2 @ contended 4 1 @
     Call 0 9 # quiet 10 0 @ contended 1 2 @ quiet 40 2 @ quiet 40 1"

lemma stale_length_loses_count:
  "adder_reach NullSlot 8 (run_commands NullSlot 8 3 stale_length)"
  "st_threads (run_commands NullSlot 8 3 stale_length) = [Idle, Idle, Idle]"
  "st_started (run_commands NullSlot 8 3 stale_length) = 22"
  "adder_sum (run_commands NullSlot 8 3 stale_length) = Inr 13"
  by (rule run_commands_reach) code_simp+

text \<open>And where \<open>new\<close> leaves anything in the array, \<open>sum\<close> follows it after the first collision.\<close>

lemma junk_slot_read: "adder_sum (run_commands Junk 2 1 (Call 0 5 # contended 11 0)) = Inl OutOfBounds"
  by code_simp

end
