(* ===== verification/Any_Value.thy ===== *)
theory Any_Value
  imports Prelude
begin

section \<open>any\<close>

text \<open>
  \<open>base/any.h\<close>, the context of a connection: a pointer to a holder on the heap, with the type of the value that it holds.
  A value of type \<open>any\<close> is the optional address of its holder; the store has the holders that were not deleted, and \<open>next\<close>
  is the address that the next \<open>new\<close> returns.
\<close>

record ('t, 'v) holder =
  ho_type :: 't
  ho_held :: 'v

record ('t, 'v) any_heap =
  ah_holders :: "('t, 'v) holder store"
  ah_next :: nat

type_synonym any = "nat option"

definition new_holder :: "('t, 'v) holder \<Rightarrow> ('t, 'v) any_heap \<Rightarrow> nat \<times> ('t, 'v) any_heap" where
  "new_holder x h = (ah_next h, h\<lparr>ah_holders := (ah_holders h)(ah_next h \<mapsto> x), ah_next := Suc (ah_next h)\<rparr>)"

definition clone :: "nat \<Rightarrow> ('t, 'v) any_heap \<Rightarrow> (nat \<times> ('t, 'v) any_heap) result" where
  "clone a h = bindE (load (ah_holders h) a) (\<lambda>x. Inr (new_holder x h))"

definition any_empty :: any where
  "any_empty = None"

definition any_of :: "'t \<Rightarrow> 'v \<Rightarrow> ('t, 'v) any_heap \<Rightarrow> any \<times> ('t, 'v) any_heap" where
  "any_of t v h = (let (a, h) = new_holder \<lparr>ho_type = t, ho_held = v\<rparr> h in (Some a, h))"

definition any_copy :: "any \<Rightarrow> ('t, 'v) any_heap \<Rightarrow> (any \<times> ('t, 'v) any_heap) result" where
  "any_copy other h = (case other of None \<Rightarrow> Inr (None, h) | Some a \<Rightarrow> bindE (clone a h) (\<lambda>(b, h). Inr (Some b, h)))"

text \<open>The assignment of a variable swaps the two, the assignment of a constant clones without a look at the old content.\<close>

definition any_assign_var :: "any \<Rightarrow> any \<Rightarrow> any \<times> any" where
  "any_assign_var this other = (other, this)"

definition any_assign :: "any \<Rightarrow> any \<Rightarrow> ('t, 'v) any_heap \<Rightarrow> (any \<times> ('t, 'v) any_heap) result" where
  "any_assign this other h = bindE (deref other) (\<lambda>a. bindE (clone a h) (\<lambda>(b, h). Inr (Some b, h)))"

text \<open>\<open>None\<close> is the type \<open>void\<close> of an empty one.\<close>

definition any_type :: "any \<Rightarrow> ('t, 'v) any_heap \<Rightarrow> 't option result" where
  "any_type x h = (case x of None \<Rightarrow> Inr None | Some a \<Rightarrow> bindE (load (ah_holders h) a) (\<lambda>y. Inr (Some (ho_type y))))"

definition any_destroy :: "any \<Rightarrow> ('t, 'v) any_heap \<Rightarrow> ('t, 'v) any_heap" where
  "any_destroy x h = (case x of None \<Rightarrow> h | Some a \<Rightarrow> h\<lparr>ah_holders := (ah_holders h)(a := None)\<rparr>)"

definition any_cast :: "'t \<Rightarrow> any \<Rightarrow> ('t, 'v) any_heap \<Rightarrow> 'v result" where
  "any_cast t x h =
     bindE (any_type x h) (\<lambda>u.
     bindE (assertE (u = Some t)) (\<lambda>_.
     bindE (deref x) (\<lambda>a. bindE (load (ah_holders h) a) (\<lambda>y. Inr (ho_held y)))))"

subsection \<open>Laws\<close>

definition any_ok :: "any \<Rightarrow> ('t, 'v) any_heap \<Rightarrow> bool" where
  "any_ok x h \<longleftrightarrow> (\<forall>a \<ge> ah_next h. ah_holders h a = None) \<and> (\<forall>a. x = Some a \<longrightarrow> ah_holders h a \<noteq> None)"

lemmas any_defs = any_of_def any_copy_def any_assign_def any_type_def any_cast_def new_holder_def clone_def any_ok_def Let_def

lemma any_cast_of: "any_of t v h = (x, h') \<Longrightarrow> any_cast u x h' = (if u = t then Inr v else Inl AssertionFailed)"
  by (auto simp: any_defs)

text \<open>A copy holds the same value at another address, and outlives the original.\<close>

lemma any_copy_independent:
  assumes ok: "any_ok x h" and run: "any_copy x h = Inr (y, h')"
  shows "any_cast t y h' = any_cast t x h" "any_cast t x h' = any_cast t x h" "x \<noteq> None \<Longrightarrow> y \<noteq> x"
    "any_cast t y (any_destroy x h') = any_cast t y h'"
proof -
  note * = ok [unfolded any_ok_def] run [unfolded any_copy_def]
  show "any_cast t y h' = any_cast t x h" using * by (auto simp: any_defs result_simps split: option.splits)
  have "x \<noteq> None \<Longrightarrow> x \<noteq> Some (ah_next h)" using *(1) by auto
  with * show "any_cast t x h' = any_cast t x h" "x \<noteq> None \<Longrightarrow> y \<noteq> x" "any_cast t y (any_destroy x h') = any_cast t y h'"
    by (auto simp: any_defs any_destroy_def result_simps split: option.splits)
qed

text \<open>Assigning an empty constant dereferences a null pointer; assigning to a full one leaks the holder it had.\<close>

lemma any_assign_empty: "any_assign this None h = Inl NullPointer"
  by (simp add: any_assign_def deref_def)

lemma any_assign_leaks:
  assumes "any_ok (Some a) h" "any_assign (Some a) other h = Inr (x, h')"
  shows "x \<noteq> Some a" "ah_holders (any_destroy x h') a \<noteq> None"
  using assms by (auto simp: any_defs any_destroy_def result_simps)

text \<open>After \<open>setContext\<close> on a connection without context the context has the type and the value that were set.\<close>

lemma context_set:
  assumes "any_of t v h = (x, h1)" "any_assign None x h1 = Inr (ctx, h2)" "ah_holders h (ah_next h) = None"
  shows "any_cast t ctx (any_destroy x h2) = Inr v"
  using assms by (auto simp: any_defs any_destroy_def result_simps)

end
