(* ===== verification/Recycler.thy ===== *)
theory Recycler
  imports Prelude
begin

section \<open>Recycler\<close>

text \<open>
  \<open>buffer/Recycler.h\<close>, the pool of objects that the buffers and the entries of the thread caches come from. Every thread has
  one stack per type of objects, and \<open>newObject\<close> gives an address that was never given before. The part of the file that
  ports Netty's queues between threads is a comment.
\<close>

record recycler =
  rc_stack :: "nat list"
  rc_fresh :: nat

definition recycler_get :: "recycler \<Rightarrow> nat \<times> recycler" where
  "recycler_get r =
     (case rc_stack r of
        [] \<Rightarrow> (rc_fresh r, r\<lparr>rc_fresh := Suc (rc_fresh r)\<rparr>)
      | x # xs \<Rightarrow> (x, r\<lparr>rc_stack := xs\<rparr>))"

definition recycle :: "nat option \<Rightarrow> recycler \<Rightarrow> (bool \<times> recycler) result" where
  "recycle object r =
     bindE (assertE (object \<noteq> None)) (\<lambda>_.
     bindE (deref object) (\<lambda>x. Inr (True, r\<lparr>rc_stack := x # rc_stack r\<rparr>)))"

text \<open>
  A thread that gives back only what it has: \<open>live\<close> are the objects it holds.
\<close>

inductive recycler_reach :: "recycler \<Rightarrow> nat list \<Rightarrow> bool" where
  new: "recycler_reach \<lparr>rc_stack = [], rc_fresh = 0\<rparr> []"
| get: "recycler_reach r live \<Longrightarrow> recycler_get r = (x, r') \<Longrightarrow> recycler_reach r' (x # live)"
| recycle: "recycler_reach r live \<Longrightarrow> x \<in> set live \<Longrightarrow> recycle (Some x) r = Inr (b, r') \<Longrightarrow> recycler_reach r' (remove1 x live)"

lemma recycler_inv: "recycler_reach r live \<Longrightarrow> distinct (live @ rc_stack r) \<and> (\<forall>x \<in> set (live @ rc_stack r). x < rc_fresh r)"
proof (induction rule: recycler_reach.induct)
  case (get r live x r')
  then show ?case by (cases "rc_stack r") (auto simp: recycler_get_def)
next
  case (recycle r live x b r')
  then show ?case by (auto simp: recycle_def notin_set_remove1)
qed simp

text \<open>No object is handed out twice; what was given back last is handed out next; and a double release breaks this.\<close>

lemma get_is_not_live: "recycler_reach r live \<Longrightarrow> recycler_get r = (x, r') \<Longrightarrow> x \<notin> set live"
  using recycler_inv [of r' "x # live"] recycler_reach.get by fastforce

lemma get_after_recycle: "recycle (Some x) r = Inr (b, r') \<Longrightarrow> recycler_get r' = (x, r)"
  by (auto simp: recycle_def recycler_get_def)

lemma double_recycle:
  assumes "recycle (Some x) r = Inr (b, r1)" "recycle (Some x) r1 = Inr (b', r2)"
  obtains r3 where "recycler_get r2 = (x, r3)" "recycler_get r3 = (x, r)"
  using assms get_after_recycle by blast

end
