(* ===== verification/Spec2Isabelle.thy ===== *)
theory Spec2Isabelle
  imports Size_Class_Laws Pool_Subpage_Laws Pool_Arena_Runs Http_Service Timing_Wheel_Laws Timing_Wheel_Destroy Timer_Service
    Spin_Lock Connector Long_Adder Any_Value Recycler
begin

text \<open>
  A verification library for mutty, a C++ network library: a reactor in the style of muduo, an HTTP server on top of it, a
  hierarchical timer and a buffer pool in the style of jemalloc and Netty. The definitions translate the sources under \<open>src/\<close>,
  the lemmas show what makes each part correct, and some show where the code fails.

  \<^bold>\<open>The program.\<close> A \<open>TcpServer\<close> accepts connections on an \<open>EventLoop\<close> and hands them to the loops of an \<open>EventLoopThreadPool\<close>.
  A loop waits in its \<open>EPollPoller\<close>, dispatches the reported events to \<open>Channel\<close>s and then runs the functors that other threads
  put into its \<open>MpscQueue\<close>. A \<open>TcpConnection\<close> reads into and writes from a \<open>Buffer\<close>, whose bytes are in a \<open>PooledByteBuf\<close>; the
  \<open>HttpServer\<close> parses the input buffer with an \<open>HttpContext\<close> and renders an \<open>HttpResponse\<close> into the output. The buffer pool
  finds memory by way of a \<open>PoolThreadCache\<close>, a \<open>PoolArena\<close>, its \<open>PoolChunkList\<close>s and \<open>PoolChunk\<close>s, which cut their pages into
  runs kept in \<open>LongPriorityQueue\<close>s and small elements kept in \<open>PoolSubpage\<close>s, by the tables of \<open>SizeClasses\<close>. The \<open>Timer\<close>
  files tasks in \<open>TimingWheel\<close>s, whose buckets wait in a \<open>DelayQueue\<close>, and runs them on a \<open>ThreadPool\<close>.

  \<^bold>\<open>How code becomes definitions.\<close> A class is a record, an enumeration a datatype, a method a function from the state to a result:
  \<open>Inl\<close> a failed assertion, an exception, an access out of bounds, a null pointer, a call of \<open>exit\<close> or a loop that does not end,
  \<open>Inr\<close> the value and the new state. Objects that others point to are in stores from addresses to records. \<open>int\<close> and \<open>long\<close>
  are integers with the reduction to 32 or 64 bits written out where a sum, product or shift can leave the width. Loops are
  structural recursions, or take fuel: \<open>collapsePast\<close> and \<open>collapseNext\<close> one round more than there are free runs, the parser one
  round more than there are bytes, both proved to be enough; the timer's loops and \<open>doPendingFunctors\<close> any number of rounds, with
  theorems that enough fuel gives the result, or that no fuel does. What several threads do is an inductive step relation.

  \<^bold>\<open>The theories.\<close>

  \<^item> \<open>Prelude\<close>: results, machine integers, stores, and the collections \<open>result_simps\<close> and \<open>machine_int\<close>.
  \<^item> \<open>MathUtil\<close> (\<open>buffer/MathUtil.h\<close>): leading zeros, logarithm, and that \<open>nextPowerofTwo\<close> rounds up to the least power of two.
  \<^item> \<open>Long_Priority_Queue\<close> (\<open>buffer/LongPriorityQueue.h\<close>): the heap of run handles; it sorts, also after a removal. The locale of
    a priority queue is interpreted on it.
  \<^item> \<open>Size_Classes\<close>, \<open>Size_Class_Laws\<close> (\<open>buffer/SizeClasses.*\<close>): the tables and queries; every request gets the least class that
    holds it, runs of pages get ceiling and floor classes, and the tables agree with the arithmetic definitions.
  \<^item> \<open>Pool_Handle\<close>, \<open>Pool_Subpage\<close>, \<open>Pool_Subpage_Laws\<close> (\<open>buffer/PoolChunk.h\<close>, \<open>buffer/PoolSubpage.*\<close>): packed handles; a subpage
    hands out each free element exactly once and takes it back.
  \<^item> \<open>Pool_Chunk\<close>, \<open>Pool_Chunk_Laws\<close>, \<open>Pool_Chunk_Runs\<close> (\<open>buffer/PoolChunk.*\<close>): runs of pages; in every history of allocations and
    releases live runs are disjoint and the free bytes exact, a release returns, and an allocation answers on every branch.
    The merging of a released run with the run behind it is broken, and a theorem shows the assertion that fails.
  \<^item> \<open>Pool_State\<close>, \<open>Pool_Chunk_List\<close>, \<open>Pool_Thread_Cache\<close>, \<open>Pool_Arena\<close>, \<open>Pool_Allocator\<close> (the files of these names under \<open>buffer/\<close>):
    the state of the whole pool and the operations from a request for a buffer down to a chunk and back.
  \<^item> \<open>Pool_Cache_Laws\<close>, \<open>Buffer_Reuse\<close>: a region that a thread frees is what its next request of the class gets, and a buffer of 16 KiB
    comes from the cache of the thread and goes back to it with nothing else changed. The destructor of a cached region deletes twice.
  \<^item> \<open>Pool_Chunk_List_Laws\<close>, \<open>Pool_Arena_Laws\<close>, \<open>Pool_Arena_Runs\<close>: the pointers of the chunk lists refine lists, and a chunk is always
    in the list whose window holds its free bytes; in every history of an arena the memory of live buffers is disjoint, a
    request of normal size is served, and a release refiles the chunk or destroys it.
  \<^item> \<open>Pooled_Byte_Buf\<close>, \<open>Byte_Buffer\<close> (\<open>buffer/PooledByteBuf.*\<close>, \<open>buffer/Buffer.*\<close>): windows of pooled memory; a buffer is a queue
    of bytes, and a write changes no other buffer; \<open>writes_in\<close> is the frame that clients use.
  \<^item> \<open>Http_Message\<close>, \<open>Http_Context\<close>, \<open>Http_Server\<close> (\<open>http/\<close>): requests, responses and the parser; it refines a parser on text,
    does not depend on how the text is cut, reads printed requests back, and returns exactly in the states that expect lines;
    a response is rendered in the documented order. A rejected request breaks the connection.
  \<^item> \<open>Http_Connection\<close>, \<open>Http_Receive\<close>, \<open>Http_Service\<close> (\<open>http/HttpServer.*\<close> with \<open>TcpConnection.*\<close>): the same callbacks on the connection
    itself, from the pieces that its socket delivers to the bytes on its wire: a request, however cut, is answered when its last
    piece arrives, with the response of the user's callback, and a bad one with the status 400. The invariant \<open>http_ok\<close> joins connection, poller, windows and cache; it lasts until the cache is
    trimmed, after \<open>DEFAULT_CACHE_TRIM_INTERVAL\<close> allocations. Construction and start of the server.
  \<^item> \<open>Time_Val\<close>, \<open>Timing_Wheel\<close>, \<open>Timing_Wheel_Laws\<close> (\<open>timer/\<close>): 64-bit times, the delay queue (a locale and its interpretation),
    the wheels; an entry is filed in the bucket of its tick, a bucket of due entries is run, and two tasks in different ticks
    hang the timer because all buckets share one ring.
  \<^item> \<open>Timing_Wheel_Destroy\<close>, \<open>Timer_Service\<close>, \<open>Spin_Lock\<close> (\<open>timer/\<close>): the destructors, which use deleted entries; the running timer,
    whose clock keeps a worker of its pool, so that one thread is not enough; mutual exclusion in the delay queue.
  \<^item> \<open>Thread_Pool\<close> (\<open>timer/thread_pool/\<close>): workers, \<open>addTask\<close> and \<open>stop\<close> in every interleaving; no task is lost, \<open>stop\<close> drains the
    queue, a queued task makes progress, and \<open>stop\<close> may wait for ever because it notifies without the mutex.
  \<^item> \<open>Mpsc_Queue\<close> (\<open>MpscQueue.h\<close>): the two atomic steps of producers against the consumer; no node is used after its deletion
    and items leave in the order of the exchanges. The locale \<open>fifo\<close> has the laws a client uses and is interpreted on the queue.
  \<^item> \<open>Poller\<close> (\<open>Channel.*\<close>, \<open>Poller.*\<close>, \<open>base/EPollPoller.*\<close>): registration of channels; the map of the poller and the interest list
    of the kernel stay in step with the channels. \<open>epoll_ctl\<close> is a parameter, and \<open>epoll_ok\<close> what its manual page promises.
  \<^item> \<open>Event_Loop\<close> (\<open>EventLoop.*\<close>): rounds of the loop; queued functors run in order, and none is forgotten.
  \<^item> \<open>Event_Loop_Thread\<close> (\<open>EventLoopThread.*\<close>, \<open>EventLoopThreadPool.*\<close>): the loops of a pool are handed out in turn; \<open>run\<close> returns with
    the loop running, the destructor then ends it, and hangs when \<open>run\<close> was never called.
  \<^item> \<open>Tcp_Connection\<close> (\<open>TcpConnection.*\<close>): the output stream keeps every byte in order, connections open and close without a
    failed assertion, except that destroying one that is shutting down fails one.
  \<^item> \<open>Inet_Address\<close> (\<open>InetAddress.*\<close>, \<open>Socket.*\<close>): the union of the address structures, byte order, texts; ports and addresses are
    read back, and the wrappers of the socket calls on the results of the calls.
  \<^item> \<open>Socket_Options\<close> (\<open>Socket.*\<close>): options, flags and statistics; \<open>setsockopt\<close> and \<open>fcntl\<close> are parameters, and the setters change
    their own options only.
  \<^item> \<open>Tcp_Server\<close> (\<open>Acceptor.*\<close>, \<open>TcpServer.*\<close>): the acceptor keeps its descriptors in order and gives them back; the server gives
    different names to its connections and finds each one it removes.
  \<^item> \<open>Connector\<close> (\<open>Connector.*\<close>): the connecting client on its channel and the queue of its loop; it owns a descriptor exactly while it
    connects. The retry that it schedules ends the process.
  \<^item> \<open>Long_Adder\<close> (\<open>buffer/LongAdder/LongAdder.h\<close>, \<open>Striped64.h\<close>): the striped counter, one step per shared access. Nothing that is added
    is lost from memory; on two processors \<open>sum\<close> is exact, and two schedules show a crash and a lost count on more.
  \<^item> \<open>Any_Value\<close> (\<open>base/any.h\<close>), \<open>Recycler\<close> (\<open>buffer/Recycler.h\<close>): the context of a connection; the pool of objects.
  \<^item> \<open>Decimal\<close>, \<open>Ordered_Map\<close>: the decimal conversion of \<open>snprintf\<close> and the sorted \<open>std::map\<close> that several components use.

  \<^bold>\<open>Not modelled.\<close> \<open>DoubleAdder\<close>, the text
  of \<open>LongAdder\<close> on floating-point numbers, whose sums depend on the order. \<open>noncopyable\<close> and the callback types have no behaviour of their
  own. Output to the console. The programs under the \<open>test\<close> directories.
\<close>

end
